(* ===== verification/Prelude.thy ===== *)
theory Prelude
  imports Main "HOL-Library.Word"
begin

text \<open>
  What every component of the xv6 development shares: the machine's integer types, the
  outcome type of a kernel function (it returns, it panics, or its thread goes to sleep),
  little-endian loads and stores on a byte memory, and the spin locks and sleep channels of
  the kernel by name, with the set of spin locks the running hart holds.
\<close>

unbundle bit_operations_syntax

named_theorems kernel_simps \<open>defining equations and execution rules of kernel operations\<close>
named_theorems page_arith \<open>facts on page rounding and alignment\<close>

type_synonym byte = "8 word"
type_synonym u16 = "16 word"
type_synonym u32 = "32 word"
type_synonym u64 = "64 word"
type_synonym memory = "u64 \<Rightarrow> byte"

section \<open>Outcomes of kernel functions\<close>

text \<open>
  \<open>Ok x\<close>: the function returns \<open>x\<close>. \<open>Panic msg\<close>: it calls \<^verbatim>\<open>panic(msg)\<close>, which never
  returns. \<open>Blocks c\<close>: its thread calls \<^verbatim>\<open>sleep(c, ..)\<close> and does not go on before another
  thread changes the state and wakes it up; \<open>Chan_none\<close> is the null channel of a thread that only
  gives up the processor. \<open>Unfinished\<close>: the bound the model puts on a loop or a recursion was used up.
\<close>

datatype sleeplock_id = SL_buf nat | SL_inode nat

datatype chan =
    Chan_none | Chan_sleeplock sleeplock_id | Chan_log | Chan_ticks
  | Chan_proc nat | Chan_pipe_nread u64 | Chan_pipe_nwrite u64 | Chan_cons_r
  | Chan_uart_tx_r | Chan_sock_rxq u64 | Chan_disk_free | Chan_buf nat

datatype 'a outcome = Ok 'a | Panic string | Blocks chan | Unfinished

fun rbind :: "'a outcome \<Rightarrow> ('a \<Rightarrow> 'b outcome) \<Rightarrow> 'b outcome" where
  "rbind (Ok x) f = f x"
| "rbind (Panic msg) f = Panic msg"
| "rbind (Blocks c) f = Blocks c"
| "rbind Unfinished f = Unfinished"

lemma rbind_Ok_iff: "rbind m f = Ok y \<longleftrightarrow> (\<exists>x. m = Ok x \<and> f x = Ok y)"
  by (cases m) auto

lemma rbind_OkE:
  assumes "rbind m f = Ok y"
  obtains x where "m = Ok x" "f x = Ok y"
  using assms by (cases m) auto

lemma rbind_assoc: "rbind (rbind m f) g = rbind m (\<lambda>x. rbind (f x) g)"
  by (cases m) auto

lemma rbind_cong [fundef_cong]:
  "\<lbrakk>m = m'; \<And>x. m' = Ok x \<Longrightarrow> f x = f' x\<rbrakk> \<Longrightarrow> rbind m f = rbind m' f'"
  by (cases m') auto

fun returns :: "'a outcome \<Rightarrow> bool" where
  "returns (Ok x) = True"
| "returns (Panic msg) = False"
| "returns (Blocks c) = False"
| "returns Unfinished = False"

lemma returns_iff: "returns m \<longleftrightarrow> (\<exists>x. m = Ok x)"
  by (cases m) auto

section \<open>Little-endian integers\<close>

fun le_join :: "byte list \<Rightarrow> 'a::len word" where
  "le_join [] = 0"
| "le_join (b # bs) = ucast b OR push_bit 8 (le_join bs)"

definition le_split :: "nat \<Rightarrow> 'a::len word \<Rightarrow> byte list" where
  "le_split n v = map (\<lambda>i. ucast (drop_bit (8 * i) v)) [0..<n]"

lemma length_le_split [simp]: "length (le_split n v) = n"
  by (simp add: le_split_def)

lemma bit_le_join:
  "bit (le_join bs :: 'a::len word) n \<longleftrightarrow>
     n < LENGTH('a) \<and> n div 8 < length bs \<and> bit (bs ! (n div 8)) (n mod 8)"
proof (induction bs arbitrary: n)
  case Nil
  then show ?case by simp
next
  case (Cons b bs)
  show ?case
  proof (cases "n < 8")
    case True
    then show ?thesis by (auto simp: bit_simps)
  next
    case False
    then have "n div 8 = Suc ((n - 8) div 8)" "(n - 8) mod 8 = n mod 8"
      by (auto simp: le_div_geq le_mod_geq)
    moreover have "\<not> bit b n" using False by (auto dest: bit_imp_le_length)
    ultimately show ?thesis
      using False Cons.IH [of "n - 8"] by (auto simp: bit_simps)
  qed
qed

lemma le_join_split:
  assumes "LENGTH('a::len) = 8 * n"
  shows "le_join (le_split n v) = (v :: 'a word)"
proof (rule bit_eqI)
  fix k
  assume "possible_bit TYPE('a word) k"
  then have k: "k < LENGTH('a)" by simp
  then have "k div 8 < n" using assms by simp
  then show "bit (le_join (le_split n v) :: 'a word) k = bit v k"
    using k by (simp add: bit_le_join le_split_def bit_simps)
qed

section \<open>Loads and stores\<close>

definition load64 :: "memory \<Rightarrow> u64 \<Rightarrow> u64" where
  "load64 m a = le_join (map (\<lambda>i. m (a + of_nat i)) [0..<8])"

definition store64 :: "memory \<Rightarrow> u64 \<Rightarrow> u64 \<Rightarrow> memory" where
  "store64 m a v = (\<lambda>b. if b - a < 8 then ucast (drop_bit (8 * unat (b - a)) v) else m b)"

lemma store64_at: "i < 8 \<Longrightarrow> store64 m a v (a + of_nat i) = ucast (drop_bit (8 * i) v)"
  by (simp add: store64_def unat_of_nat word_less_nat_alt)

lemma load64_store64_same [simp]: "load64 (store64 m a v) a = v"
proof -
  have "map (\<lambda>i. store64 m a v (a + of_nat i)) [0..<8] = le_split 8 v"
    by (simp add: le_split_def store64_at del: upt_Suc)
  then show ?thesis by (simp add: load64_def le_join_split del: upt_Suc)
qed

lemma load64_cong:
  "(\<And>i. i < 8 \<Longrightarrow> m (a + of_nat i) = m' (a + of_nat i)) \<Longrightarrow> load64 m a = load64 m' a"
  by (auto simp: load64_def simp del: upt_Suc intro!: arg_cong [where f = le_join])

section \<open>Integers in byte arrays\<close>

text \<open>A \<open>n\<close>-byte field of a structure that lies in an array of bytes, at offset \<open>off\<close>.\<close>

definition get_le :: "nat \<Rightarrow> (nat \<Rightarrow> byte) \<Rightarrow> nat \<Rightarrow> 'w::len word" where
  "get_le n d off = le_join (map (\<lambda>k. d (off + k)) [0..<n])"

definition put_le :: "nat \<Rightarrow> (nat \<Rightarrow> byte) \<Rightarrow> nat \<Rightarrow> 'w::len word \<Rightarrow> nat \<Rightarrow> byte" where
  "put_le n d off v = (\<lambda>i. if off \<le> i \<and> i < off + n then ucast (drop_bit (8 * (i - off)) v) else d i)"

lemma get_le_cong: "(\<And>k. k < n \<Longrightarrow> d (off + k) = d' (off + k)) \<Longrightarrow> get_le n d off = get_le n d' off"
  by (auto simp: get_le_def intro!: arg_cong [where f = le_join])

lemma get_le_put_le:
  "LENGTH('w::len) = 8 * n \<Longrightarrow> get_le n (put_le n d off (v :: 'w word)) off = v"
proof -
  assume n: "LENGTH('w) = 8 * n"
  have "map (\<lambda>k. put_le n d off v (off + k)) [0..<n] = le_split n v"
    by (auto simp: le_split_def put_le_def)
  then show ?thesis using le_join_split [OF n, of v] by (simp add: get_le_def)
qed

lemma get_le_put_le_other:
  "off' + n' \<le> off \<or> off + n \<le> off' \<Longrightarrow> get_le n' (put_le n d off v) off' = get_le n' d off'"
  by (rule get_le_cong) (auto simp: put_le_def)

lemma find_upt_step: "find P [i..<i + Suc k] = (if P i then Some i else find P [Suc i..<Suc i + k])"
  by (simp add: upt_conv_Cons del: upt_Suc)

end
