(* ===== verification/Spinlock.thy ===== *)
theory Spinlock
  imports Prelude
begin

text \<open>
  Spin locks: \<^verbatim>\<open>kernel/spinlock.c\<close>. The first part models the code as it runs on several harts:
  a lock word that \<^verbatim>\<open>amoswap\<close> sets, the owner field \<^verbatim>\<open>lk->cpu\<close>, the per-hart nesting counter of
  \<^verbatim>\<open>push_off()\<close>, and a step relation in which the harts interleave between the instructions
  that touch shared memory. Mutual exclusion and the masking of interrupts are invariants of it.
  The second part is the view one hart has of its own locks, the list of locks it holds, which
  the other components use; an interface locale ties the two together.
\<close>

section \<open>The kernel's spin locks\<close>

datatype lock =
    L_kmem | L_pid | L_proc nat | L_buf nat | L_inode nat | L_bcache | L_icache | L_log
  | L_ftable | L_pipe u64 | L_cons | L_uart_tx | L_sock u64 | L_socktbl | L_e1000 | L_vdisk
  | L_ticks | L_pr

section \<open>Locks on a multiprocessor\<close>

record spinlock =
  lk_locked :: u32
  lk_name :: string
  lk_cpu :: "nat option"

text \<open>
  \<^verbatim>\<open>noff\<close> is the number of nested \<^verbatim>\<open>push_off()\<close>. It counts the spin locks that a hart holds and the call in progress, so it
  stays far below the range of \<^verbatim>\<open>int\<close>.
\<close>

record cpu =
  noff :: int
  intena :: bool

record harts =
  locks :: "lock \<Rightarrow> spinlock"
  cpus :: "nat \<Rightarrow> cpu"
  sie :: "nat \<Rightarrow> bool"

definition upd_lock :: "lock \<Rightarrow> (spinlock \<Rightarrow> spinlock) \<Rightarrow> 'a harts_scheme \<Rightarrow> 'a harts_scheme" where
  "upd_lock l f s = s\<lparr>locks := (locks s)(l := f (locks s l))\<rparr>"

definition upd_cpu :: "nat \<Rightarrow> (cpu \<Rightarrow> cpu) \<Rightarrow> 'a harts_scheme \<Rightarrow> 'a harts_scheme" where
  "upd_cpu h f s = s\<lparr>cpus := (cpus s)(h := f (cpus s h))\<rparr>"

definition set_sie :: "nat \<Rightarrow> bool \<Rightarrow> 'a harts_scheme \<Rightarrow> 'a harts_scheme" where
  "set_sie h b s = s\<lparr>sie := (sie s)(h := b)\<rparr>"

lemmas harts_upd_defs = upd_lock_def upd_cpu_def set_sie_def

definition initlock :: "lock \<Rightarrow> string \<Rightarrow> 'a harts_scheme \<Rightarrow> 'a harts_scheme" where
  "initlock l nm = upd_lock l (\<lambda>k. k\<lparr>lk_name := nm, lk_locked := 0, lk_cpu := None\<rparr>)"

definition hart_holding :: "nat \<Rightarrow> lock \<Rightarrow> 'a harts_scheme \<Rightarrow> bool" where
  "hart_holding h l s \<longleftrightarrow> lk_locked (locks s l) \<noteq> 0 \<and> lk_cpu (locks s l) = Some h"

definition push_off :: "nat \<Rightarrow> 'a harts_scheme \<Rightarrow> 'a harts_scheme" where
  "push_off h s =
     (let old = sie s h;
          s = set_sie h False s;
          s = (if noff (cpus s h) = 0 then upd_cpu h (\<lambda>c. c\<lparr>intena := old\<rparr>) s else s)
      in upd_cpu h (\<lambda>c. c\<lparr>noff := noff c + 1\<rparr>) s)"

definition pop_off :: "nat \<Rightarrow> 'a harts_scheme \<Rightarrow> 'a harts_scheme outcome" where
  "pop_off h s =
     (if sie s h then Panic ''pop_off - interruptible''
      else if noff (cpus s h) < 1 then Panic ''pop_off''
      else
        (let s = upd_cpu h (\<lambda>c. c\<lparr>noff := noff c - 1\<rparr>) s
         in Ok (if noff (cpus s h) = 0 \<and> intena (cpus s h) then set_sie h True s else s)))"

text \<open>
  \<^verbatim>\<open>acquire()\<close> and \<^verbatim>\<open>release()\<close> cut at their accesses to shared memory. \<open>acquire_enter\<close> runs
  up to the loop, \<open>acquire_swap\<close> is one \<^verbatim>\<open>__sync_lock_test_and_set\<close> and says whether the loop
  goes on, \<open>acquire_record\<close> stores the owner. \<open>release_clear\<close> runs up to the fence and
  \<open>release_unlock\<close> is \<^verbatim>\<open>__sync_lock_release\<close>; \<open>pop_off\<close> follows.
\<close>

definition acquire_enter :: "nat \<Rightarrow> lock \<Rightarrow> 'a harts_scheme \<Rightarrow> 'a harts_scheme outcome" where
  "acquire_enter h l s =
     (let s = push_off h s in if hart_holding h l s then Panic ''acquire'' else Ok s)"

definition acquire_swap :: "lock \<Rightarrow> 'a harts_scheme \<Rightarrow> bool \<times> 'a harts_scheme" where
  "acquire_swap l s = (lk_locked (locks s l) \<noteq> 0, upd_lock l (\<lambda>k. k\<lparr>lk_locked := 1\<rparr>) s)"

definition acquire_record :: "nat \<Rightarrow> lock \<Rightarrow> 'a harts_scheme \<Rightarrow> 'a harts_scheme" where
  "acquire_record h l = upd_lock l (\<lambda>k. k\<lparr>lk_cpu := Some h\<rparr>)"

definition release_clear :: "nat \<Rightarrow> lock \<Rightarrow> 'a harts_scheme \<Rightarrow> 'a harts_scheme outcome" where
  "release_clear h l s =
     (if \<not> hart_holding h l s then Panic ''release''
      else Ok (upd_lock l (\<lambda>k. k\<lparr>lk_cpu := None\<rparr>) s))"

definition release_unlock :: "lock \<Rightarrow> 'a harts_scheme \<Rightarrow> 'a harts_scheme" where
  "release_unlock l = upd_lock l (\<lambda>k. k\<lparr>lk_locked := 0\<rparr>)"

text \<open>The whole of \<^verbatim>\<open>acquire()\<close> at a moment when the first swap finds the lock free, and of
  \<^verbatim>\<open>release()\<close>.\<close>

definition hart_acquire :: "nat \<Rightarrow> lock \<Rightarrow> 'a harts_scheme \<Rightarrow> 'a harts_scheme outcome" where
  "hart_acquire h l s =
     rbind (acquire_enter h l s) (\<lambda>s. Ok (acquire_record h l (snd (acquire_swap l s))))"

definition hart_release :: "nat \<Rightarrow> lock \<Rightarrow> 'a harts_scheme \<Rightarrow> 'a harts_scheme outcome" where
  "hart_release h l s =
     rbind (release_clear h l s) (\<lambda>s. pop_off h (release_unlock l s))"

lemmas spin_defs = hart_holding_def push_off_def pop_off_def acquire_enter_def acquire_swap_def
  acquire_record_def release_clear_def release_unlock_def hart_acquire_def hart_release_def
  harts_upd_defs Let_def

section \<open>Interleavings\<close>

text \<open>Where a hart stands: outside the lock code, in the spin loop of a lock, past a
  successful swap, past the clearing of the owner, past the unlocking, or stopped in panic.\<close>

datatype pc = Outside | Spinning lock | Swapped lock | Cleared lock | Popping | Panicked

record mp = harts +
  pc :: "nat \<Rightarrow> pc"

definition set_pc :: "nat \<Rightarrow> pc \<Rightarrow> mp \<Rightarrow> mp" where
  "set_pc h p s = s\<lparr>pc := (pc s)(h := p)\<rparr>"

fun continue_at :: "nat \<Rightarrow> pc \<Rightarrow> mp outcome \<Rightarrow> mp \<Rightarrow> mp" where
  "continue_at h p (Ok s') s = set_pc h p s'"
| "continue_at h p (Panic msg) s = set_pc h Panicked s"
| "continue_at h p (Blocks c) s = set_pc h Panicked s"
| "continue_at h p Unfinished s = set_pc h Panicked s"

inductive lock_step :: "mp \<Rightarrow> mp \<Rightarrow> bool" where
  call_acquire: "pc s h = Outside \<Longrightarrow>
     lock_step s (continue_at h (Spinning l) (acquire_enter h l s) s)"
| swap: "pc s h = Spinning l \<Longrightarrow>
     lock_step s (set_pc h (if fst (acquire_swap l s) then Spinning l else Swapped l)
                    (snd (acquire_swap l s)))"
| own: "pc s h = Swapped l \<Longrightarrow> lock_step s (set_pc h Outside (acquire_record h l s))"
| call_release: "pc s h = Outside \<Longrightarrow>
     lock_step s (continue_at h (Cleared l) (release_clear h l s) s)"
| unlock: "pc s h = Cleared l \<Longrightarrow> lock_step s (set_pc h Popping (release_unlock l s))"
| finish: "pc s h = Popping \<Longrightarrow> lock_step s (continue_at h Outside (pop_off h s) s)"

definition boot_mp :: mp where
  "boot_mp = \<lparr>locks = (\<lambda>_. \<lparr>lk_locked = 0, lk_name = [], lk_cpu = None\<rparr>),
              cpus = (\<lambda>_. \<lparr>noff = 0, intena = False\<rparr>), sie = (\<lambda>_. True), pc = (\<lambda>_. Outside)\<rparr>"

inductive lock_reachable :: "mp \<Rightarrow> bool" where
  boot: "lock_reachable boot_mp"
| step: "lock_reachable s \<Longrightarrow> lock_step s t \<Longrightarrow> lock_reachable t"

text \<open>Hart \<open>h\<close> owns \<open>l\<close> from its successful swap until it unlocks.\<close>

definition owns :: "mp \<Rightarrow> nat \<Rightarrow> lock \<Rightarrow> bool" where
  "owns s h l \<longleftrightarrow> lk_cpu (locks s l) = Some h \<or> pc s h = Swapped l \<or> pc s h = Cleared l"

definition owner_ok :: "(lock \<Rightarrow> bool) \<Rightarrow> (lock \<Rightarrow> nat option) \<Rightarrow> (nat \<Rightarrow> pc) \<Rightarrow> bool" where
  "owner_ok L C P \<longleftrightarrow>
     (\<forall>l h. C l = Some h \<longrightarrow> L l \<and> (\<forall>k. P k \<noteq> Swapped l \<and> P k \<noteq> Cleared l)) \<and>
     (\<forall>l h. P h = Swapped l \<or> P h = Cleared l \<longrightarrow> L l) \<and>
     (\<forall>l h k. (P h = Swapped l \<or> P h = Cleared l) \<longrightarrow> (P k = Swapped l \<or> P k = Cleared l) \<longrightarrow> h = k)"

definition owner_inv :: "mp \<Rightarrow> bool" where
  "owner_inv s \<longleftrightarrow> owner_ok (\<lambda>l. lk_locked (locks s l) \<noteq> 0) (\<lambda>l. lk_cpu (locks s l)) (pc s)"

definition locks_of :: "mp \<Rightarrow> nat \<Rightarrow> lock set" where
  "locks_of s h = {l. lk_cpu (locks s l) = Some h}"

fun in_lock_code :: "pc \<Rightarrow> nat" where
  "in_lock_code Outside = 0"
| "in_lock_code Panicked = 0"
| "in_lock_code _ = 1"

text \<open>The nesting counter counts the held locks and the call in progress; interrupts are off
  while it is positive.\<close>

definition nesting_inv :: "mp \<Rightarrow> bool" where
  "nesting_inv s \<longleftrightarrow> (\<forall>h. pc s h \<noteq> Panicked \<longrightarrow>
     finite (locks_of s h) \<and>
     noff (cpus s h) = int (card (locks_of s h) + in_lock_code (pc s h)) \<and>
     (noff (cpus s h) > 0 \<longrightarrow> \<not> sie s h))"


lemma continue_at_cases:
  "continue_at h p r s = (case r of Ok s' \<Rightarrow> set_pc h p s' | _ \<Rightarrow> set_pc h Panicked s)"
  by (cases r) auto

lemma owner_ok_outside:
  "owner_ok L C P \<Longrightarrow> (\<And>l. p \<noteq> Swapped l \<and> p \<noteq> Cleared l) \<Longrightarrow> owner_ok L C (P(h := p))"
  unfolding owner_ok_def by (intro conjI allI impI) (auto split: if_splits)

lemma owner_ok_swap_free:
  "owner_ok L C P \<Longrightarrow> \<not> L l \<Longrightarrow> owner_ok (L(l := True)) C (P(h := Swapped l))"
  unfolding owner_ok_def by (intro conjI allI impI) (auto split: if_splits)

lemma owner_ok_swap_busy:
  "owner_ok L C P \<Longrightarrow> L l \<Longrightarrow> owner_ok (L(l := True)) C P"
  by (simp add: fun_upd_idem)

lemma owner_ok_own:
  "owner_ok L C P \<Longrightarrow> P h = Swapped l \<Longrightarrow> owner_ok L (C(l := Some h)) (P(h := Outside))"
  unfolding owner_ok_def by (intro conjI allI impI) (auto split: if_splits)

lemma owner_ok_clear:
  "owner_ok L C P \<Longrightarrow> C l = Some h \<Longrightarrow> owner_ok L (C(l := None)) (P(h := Cleared l))"
  unfolding owner_ok_def by (intro conjI allI impI) (auto split: if_splits)

lemma owner_ok_unlock:
  "owner_ok L C P \<Longrightarrow> P h = Cleared l \<Longrightarrow> owner_ok (L(l := False)) C (P(h := Popping))"
  unfolding owner_ok_def by (intro conjI allI impI) (auto split: if_splits)

text \<open>What each piece of lock code changes of the locks and the program counters.\<close>

lemma push_off_frame [simp]: "locks (push_off h s) = locks s"
  by (simp add: push_off_def harts_upd_defs Let_def)

lemma push_off_pc [simp]: "pc (push_off h s) = pc s"
  by (simp add: push_off_def harts_upd_defs Let_def)

lemma pop_off_frame: "pop_off h s = Ok t \<Longrightarrow> locks t = locks s"
  by (auto simp: pop_off_def harts_upd_defs Let_def split: if_splits)

lemma pop_off_pc: "pop_off h s = Ok t \<Longrightarrow> pc t = pc s"
  by (auto simp: pop_off_def harts_upd_defs Let_def split: if_splits)

lemma lock_word_upd:
  "(\<lambda>k. lk_locked (locks (upd_lock l (lk_locked_update (\<lambda>_. v)) s) k) \<noteq> 0)
     = (\<lambda>k. lk_locked (locks s k) \<noteq> 0)(l := v \<noteq> 0)"
  "(\<lambda>k. lk_cpu (locks (upd_lock l (lk_locked_update (\<lambda>_. v)) s) k)) = (\<lambda>k. lk_cpu (locks s k))"
  "(\<lambda>k. lk_locked (locks (upd_lock l (lk_cpu_update (\<lambda>_. c)) s) k) \<noteq> 0)
     = (\<lambda>k. lk_locked (locks s k) \<noteq> 0)"
  "(\<lambda>k. lk_cpu (locks (upd_lock l (lk_cpu_update (\<lambda>_. c)) s) k))
     = (\<lambda>k. lk_cpu (locks s k))(l := c)"
  by (auto simp: upd_lock_def)

lemma pc_upd_lock [simp]: "pc (upd_lock l f s) = pc s"
  by (simp add: upd_lock_def)

lemma set_pc_simps [simp]:
  "pc (set_pc h p s) = (pc s)(h := p)" "locks (set_pc h p s) = locks s"
  "cpus (set_pc h p s) = cpus s" "sie (set_pc h p s) = sie s"
  by (simp_all add: set_pc_def)

lemma owner_inv_boot: "owner_inv boot_mp"
  by (simp add: owner_inv_def owner_ok_def boot_mp_def)

lemma lock_step_owner_inv: "lock_step s t \<Longrightarrow> owner_inv s \<Longrightarrow> owner_inv t"
proof (induction rule: lock_step.induct)
  case (call_acquire s h l)
  then show ?case
    by (simp add: owner_inv_def acquire_enter_def Let_def owner_ok_outside)
next
  case (swap s h l)
  then show ?case
    by (simp add: owner_inv_def acquire_swap_def lock_word_upd owner_ok_swap_busy
        owner_ok_swap_free owner_ok_outside)
next
  case (own s h l)
  then show ?case
    by (simp add: owner_inv_def acquire_record_def lock_word_upd owner_ok_own)
next
  case (call_release s h l)
  then show ?case
    by (simp add: owner_inv_def release_clear_def hart_holding_def lock_word_upd
        owner_ok_clear owner_ok_outside)
next
  case (unlock s h l)
  then show ?case
    by (simp add: owner_inv_def release_unlock_def lock_word_upd owner_ok_unlock)
next
  case (finish s h)
  then show ?case
    by (cases "pop_off h s")
       (simp_all add: owner_inv_def pop_off_frame pop_off_pc owner_ok_outside)
qed

lemma lock_reachable_owner_inv: "lock_reachable s \<Longrightarrow> owner_inv s"
  by (induction rule: lock_reachable.induct) (auto intro: owner_inv_boot lock_step_owner_inv)

lemma owner_inv_owns_unique: "owner_inv s \<Longrightarrow> owns s h l \<Longrightarrow> owns s k l \<Longrightarrow> h = k"
  by (auto simp: owner_inv_def owner_ok_def owns_def)

section \<open>The nesting counter\<close>

lemma locks_of_set_pc [simp]: "locks_of (set_pc h p s) k = locks_of s k"
  by (simp add: locks_of_def)

lemma locks_of_frame: "locks t = locks s \<Longrightarrow> locks_of t k = locks_of s k"
  by (simp add: locks_of_def)

lemma locks_of_own:
  "lk_cpu (locks s l) = None \<Longrightarrow>
   locks_of (acquire_record h l s) k = (if k = h then insert l (locks_of s h) else locks_of s k)"
  by (auto simp: locks_of_def acquire_record_def upd_lock_def)

lemma locks_of_clear:
  "lk_cpu (locks s l) = Some h \<Longrightarrow>
   locks_of (upd_lock l (lk_cpu_update (\<lambda>_. None)) s) k =
     (if k = h then locks_of s h - {l} else locks_of s k)"
  by (auto simp: locks_of_def upd_lock_def)

lemma locks_of_word:
  "locks_of (upd_lock l (lk_locked_update (\<lambda>_. v)) s) k = locks_of s k"
  by (auto simp: locks_of_def upd_lock_def)

lemma upd_lock_harts [simp]: "cpus (upd_lock l f s) = cpus s" "sie (upd_lock l f s) = sie s"
  by (simp_all add: upd_lock_def)

lemma nesting_inv_boot: "nesting_inv boot_mp"
  by (simp add: nesting_inv_def boot_mp_def locks_of_def)

lemma push_off_harts:
  "noff (cpus (push_off h s) k) = noff (cpus s k) + (if k = h then 1 else 0)"
  "sie (push_off h s) k = (k \<noteq> h \<and> sie s k)"
  by (simp_all add: push_off_def harts_upd_defs Let_def)

lemma pop_off_harts:
  assumes "pop_off h s = Ok t"
  shows "noff (cpus t k) = noff (cpus s k) - (if k = h then 1 else 0)"
    and "k \<noteq> h \<Longrightarrow> sie t k = sie s k"
    and "sie t h \<Longrightarrow> noff (cpus t h) = 0"
  using assms by (auto simp: pop_off_def harts_upd_defs Let_def split: if_splits)

lemma lock_step_nesting_inv:
  "lock_step s t \<Longrightarrow> owner_inv s \<Longrightarrow> nesting_inv s \<Longrightarrow> nesting_inv t"
proof (induction rule: lock_step.induct)
  case (call_acquire s h l)
  then show ?case
    by (auto simp: nesting_inv_def acquire_enter_def Let_def push_off_harts
        locks_of_frame [of "push_off h s" s])
next
  case (swap s h l)
  then show ?case
    by (auto simp: nesting_inv_def acquire_swap_def locks_of_word)
next
  case (own s h l)
  then have "lk_cpu (locks s l) = None"
    by (cases "lk_cpu (locks s l)") (auto simp: owner_inv_def owner_ok_def)
  moreover from this have "l \<notin> locks_of s h" by (simp add: locks_of_def)
  ultimately show ?case
    using own by (auto simp: nesting_inv_def locks_of_own [unfolded acquire_record_def] acquire_record_def)
next
  case (call_release s h l)
  show ?case
  proof (cases "hart_holding h l s")
    case True
    then have l: "lk_cpu (locks s l) = Some h" "l \<in> locks_of s h"
      by (simp_all add: hart_holding_def locks_of_def)
    have "nesting_inv s" by fact
    then have fin: "finite (locks_of s h)" using call_release.hyps by (simp add: nesting_inv_def)
    then have "card (locks_of s h) = Suc (card (locks_of s h - {l}))"
      using l(2) by (rule card.remove)
    then show ?thesis
      using call_release True l by (auto simp: nesting_inv_def release_clear_def locks_of_clear)
  next
    case False
    with call_release show ?thesis by (auto simp: nesting_inv_def release_clear_def)
  qed
next
  case (unlock s h l)
  then show ?case
    by (auto simp: nesting_inv_def release_unlock_def locks_of_word)
next
  case (finish s h)
  show ?case
  proof (cases "pop_off h s")
    case (Ok u)
    have "nesting_inv s" by fact
    with Ok finish.hyps show ?thesis
      using pop_off_harts [OF Ok] pop_off_frame [OF Ok]
      by (auto simp: nesting_inv_def locks_of_frame [of u s] pop_off_pc [OF Ok])
  qed (use finish in \<open>auto simp: nesting_inv_def\<close>)
qed

lemma lock_reachable_nesting_inv: "lock_reachable s \<Longrightarrow> nesting_inv s"
  by (induction rule: lock_reachable.induct)
     (auto intro: nesting_inv_boot lock_step_nesting_inv lock_reachable_owner_inv)

text \<open>\<open>n\<close> calls of \<^verbatim>\<open>push_off()\<close> undone by \<open>n\<close> calls of \<^verbatim>\<open>pop_off()\<close>.\<close>

fun push_offs :: "nat \<Rightarrow> nat \<Rightarrow> 'a harts_scheme \<Rightarrow> 'a harts_scheme" where
  "push_offs h 0 s = s"
| "push_offs h (Suc n) s = push_offs h n (push_off h s)"

fun pop_offs :: "nat \<Rightarrow> nat \<Rightarrow> 'a harts_scheme \<Rightarrow> 'a harts_scheme outcome" where
  "pop_offs h 0 s = Ok s"
| "pop_offs h (Suc n) s = rbind (pop_off h s) (pop_offs h n)"

definition masked_when_nested :: "nat \<Rightarrow> 'a harts_scheme \<Rightarrow> bool" where
  "masked_when_nested h s \<longleftrightarrow> 0 \<le> noff (cpus s h) \<and> (0 < noff (cpus s h) \<longrightarrow> \<not> sie s h)"

lemma push_offs_snoc: "push_offs h (Suc n) s = push_off h (push_offs h n s)"
  by (induction n arbitrary: s) simp_all

lemma pop_off_push_off:
  assumes "masked_when_nested h s"
  shows "\<exists>t. pop_off h (push_off h s) = Ok t \<and> sie t = sie s \<and> locks t = locks s \<and>
             noff (cpus t h) = noff (cpus s h) \<and> (0 < noff (cpus s h) \<longrightarrow> t = s)"
  using assms
  by (auto simp: masked_when_nested_def pop_off_def push_off_def harts_upd_defs Let_def
      fun_eq_iff)

lemma push_off_masked: "masked_when_nested h s \<Longrightarrow> masked_when_nested h (push_off h s)"
  by (simp add: masked_when_nested_def push_off_harts)

lemma pop_offs_snoc: "pop_offs h (Suc n) s = rbind (pop_offs h n s) (pop_off h)"
proof (induction n arbitrary: s)
  case 0
  then show ?case by (cases "pop_off h s") simp_all
next
  case (Suc n)
  then show ?case by (cases "pop_off h s") simp_all
qed

lemma pop_offs_push_offs:
  assumes "masked_when_nested h s"
  shows "\<exists>t. pop_offs h n (push_offs h n s) = Ok t \<and> sie t = sie s \<and> locks t = locks s \<and>
             noff (cpus t h) = noff (cpus s h) \<and> (0 < noff (cpus s h) \<longrightarrow> t = s)"
  using assms
proof (induction n arbitrary: s)
  case 0
  then show ?case by simp
next
  case (Suc n)
  let ?s = "push_off h s"
  have "0 < noff (cpus ?s h)"
    using Suc.prems by (simp add: push_off_harts masked_when_nested_def)
  then have "pop_offs h n (push_offs h n ?s) = Ok ?s"
    using Suc.IH [OF push_off_masked [OF Suc.prems]] by auto
  then have "pop_offs h (Suc n) (push_offs h (Suc n) s) = pop_off h ?s"
    unfolding pop_offs_snoc by simp
  then show ?case using pop_off_push_off [OF Suc.prems] by simp
qed

section \<open>The locks of the running hart\<close>

text \<open>
  The other components run on one hart at a time and see only which locks this hart holds: the
  list \<open>held\<close>, whose length is the hart's \<^verbatim>\<open>noff\<close>. A lock that another hart holds makes
  \<^verbatim>\<open>acquire()\<close> spin until it is free, so at the point where \<open>acquire\<close> returns no other hart
  holds it.
\<close>

record lockst =
  held :: "lock list"

definition holding :: "lock \<Rightarrow> 'a lockst_scheme \<Rightarrow> bool" where
  "holding l s \<longleftrightarrow> l \<in> set (held s)"

definition acquire :: "lock \<Rightarrow> 'a lockst_scheme \<Rightarrow> 'a lockst_scheme outcome" where
  "acquire l s = (if holding l s then Panic ''acquire'' else Ok (s\<lparr>held := l # held s\<rparr>))"

definition release :: "lock \<Rightarrow> 'a lockst_scheme \<Rightarrow> 'a lockst_scheme outcome" where
  "release l s =
     (if \<not> holding l s then Panic ''release'' else Ok (s\<lparr>held := remove1 l (held s)\<rparr>))"

lemma acquire_free [simp]: "l \<notin> set (held s) \<Longrightarrow> acquire l s = Ok (s\<lparr>held := l # held s\<rparr>)"
  by (simp add: acquire_def holding_def)

lemma release_held [simp]:
  "l \<in> set (held s) \<Longrightarrow> release l s = Ok (s\<lparr>held := remove1 l (held s)\<rparr>)"
  by (simp add: release_def holding_def)

text \<open>The contract of a spin lock towards the code that brackets its critical sections with it:
  what is held after each operation, and which misuse panics.\<close>

locale spin_contract =
  fixes acq rel :: "lock \<Rightarrow> 's \<Rightarrow> 's outcome"
    and hold free :: "lock \<Rightarrow> 's \<Rightarrow> bool"
    and ok :: "'s \<Rightarrow> bool"
  assumes acq_twice: "hold l s \<Longrightarrow> acq l s = Panic ''acquire''"
    and acq_free: "ok s \<Longrightarrow> \<not> hold l s \<Longrightarrow> free l s \<Longrightarrow>
      \<exists>t. acq l s = Ok t \<and> ok t \<and> (\<forall>k. hold k t \<longleftrightarrow> k = l \<or> hold k s)"
    and rel_not_held: "\<not> hold l s \<Longrightarrow> rel l s = Panic ''release''"
    and rel_held: "ok s \<Longrightarrow> hold l s \<Longrightarrow>
      \<exists>t. rel l s = Ok t \<and> ok t \<and> (\<forall>k. hold k t \<longleftrightarrow> k \<noteq> l \<and> hold k s)"
begin

lemma acq_ok_holds: "ok s \<Longrightarrow> free l s \<Longrightarrow> acq l s = Ok t \<Longrightarrow> hold l t"
  using acq_free [of s l] acq_twice [of l s] by (cases "hold l s") auto

lemma acq_again_panics:
  "ok s \<Longrightarrow> free l s \<Longrightarrow> acq l s = Ok t \<Longrightarrow> acq l t = Panic ''acquire''"
  by (rule acq_twice) (rule acq_ok_holds)

lemma critical_section:
  assumes "ok s" "free l s" "\<not> hold l s"
    and body: "\<And>t. ok t \<Longrightarrow> hold l t \<Longrightarrow> ok (body t) \<and> (\<forall>k. hold k (body t) \<longleftrightarrow> hold k t)"
  shows "\<exists>u. rbind (acq l s) (\<lambda>t. rel l (body t)) = Ok u \<and> ok u \<and> (\<forall>k. hold k u \<longleftrightarrow> hold k s)"
proof -
  obtain t where t: "acq l s = Ok t" "ok t" "\<forall>k. hold k t \<longleftrightarrow> k = l \<or> hold k s"
    using acq_free [OF assms(1,3,2)] by blast
  with body [of t] have b: "ok (body t)" "\<forall>k. hold k (body t) \<longleftrightarrow> hold k t" by auto
  with t obtain u where "rel l (body t) = Ok u" "ok u" "\<forall>k. hold k u \<longleftrightarrow> k \<noteq> l \<and> hold k (body t)"
    using rel_held [of "body t" l] by blast
  with t b assms(3) show ?thesis by auto
qed

end

interpretation own_hart: spin_contract acquire release
  "holding :: lock \<Rightarrow> 'a lockst_scheme \<Rightarrow> bool" "\<lambda>_ _. True" "\<lambda>s. distinct (held s)"
  by unfold_locales (auto simp: acquire_def release_def holding_def)

text \<open>For the code on several harts, \<open>nest_ok h\<close> is the part of the nesting invariant that
  speaks of hart \<open>h\<close>: it makes \<^verbatim>\<open>release()\<close> return.\<close>

definition nest_ok :: "nat \<Rightarrow> 'a harts_scheme \<Rightarrow> bool" where
  "nest_ok h s \<longleftrightarrow> finite {l. hart_holding h l s} \<and>
     int (card {l. hart_holding h l s}) \<le> noff (cpus s h) \<and> (0 < noff (cpus s h) \<longrightarrow> \<not> sie s h)"

lemma hart_holding_frame: "locks t = locks s \<Longrightarrow> hart_holding h k t = hart_holding h k s"
  by (simp add: hart_holding_def)

lemma hart_acquire_free:
  assumes "nest_ok h s" "\<not> hart_holding h l s" "lk_locked (locks s l) = 0"
  shows "\<exists>t. hart_acquire h l s = Ok t \<and> nest_ok h t \<and>
             (\<forall>k. hart_holding h k t \<longleftrightarrow> k = l \<or> hart_holding h k s)"
proof -
  let ?t = "acquire_record h l (snd (acquire_swap l (push_off h s)))"
  have run: "hart_acquire h l s = Ok ?t"
    using assms(2)
    by (simp add: hart_acquire_def acquire_enter_def Let_def hart_holding_frame [of "push_off h s" s])
  have holds: "\<forall>k. hart_holding h k ?t \<longleftrightarrow> k = l \<or> hart_holding h k s"
    by (auto simp: hart_holding_def acquire_record_def acquire_swap_def upd_lock_def)
  then have "{k. hart_holding h k ?t} = insert l {k. hart_holding h k s}" by auto
  moreover have "noff (cpus ?t h) = noff (cpus s h) + 1" "\<not> sie ?t h"
    by (simp_all add: acquire_record_def acquire_swap_def push_off_harts)
  ultimately have "nest_ok h ?t" using assms(1,2) by (simp add: nest_ok_def)
  with run holds show ?thesis by blast
qed

lemma hart_release_held:
  assumes "nest_ok h s" "hart_holding h l s"
  shows "\<exists>t. hart_release h l s = Ok t \<and> nest_ok h t \<and>
             (\<forall>k. hart_holding h k t \<longleftrightarrow> k \<noteq> l \<and> hart_holding h k s)"
proof -
  let ?H = "{k. hart_holding h k s}"
  let ?u = "release_unlock l (upd_lock l (lk_cpu_update (\<lambda>_. None)) s)"
  have card: "card ?H = Suc (card (?H - {l}))"
    using assms by (intro card.remove) (simp_all add: nest_ok_def)
  have "1 \<le> noff (cpus s h)" "\<not> sie s h" using assms(1) card by (auto simp: nest_ok_def)
  then obtain t where pop: "pop_off h ?u = Ok t"
    by (auto simp: pop_off_def release_unlock_def Let_def)
  have run: "hart_release h l s = Ok t"
    using assms(2) pop by (simp add: hart_release_def release_clear_def)
  have holds: "\<forall>k. hart_holding h k t \<longleftrightarrow> k \<noteq> l \<and> hart_holding h k s"
    by (auto simp: hart_holding_def pop_off_frame [OF pop] release_unlock_def upd_lock_def)
  then have "{k. hart_holding h k t} = ?H - {l}" by auto
  moreover have "noff (cpus t h) = noff (cpus s h) - 1"
    using pop_off_harts(1) [OF pop, of h] by (simp add: release_unlock_def)
  moreover have "int (card ?H) \<le> noff (cpus s h)" "finite ?H" using assms(1) by (simp_all add: nest_ok_def)
  then have "int (card (?H - {l})) \<le> noff (cpus s h) - 1" "finite (?H - {l})" using card by simp_all
  moreover have "0 < noff (cpus t h) \<longrightarrow> \<not> sie t h" using pop_off_harts(3) [OF pop] by auto
  ultimately have "nest_ok h t" by (simp add: nest_ok_def)
  with run holds show ?thesis by blast
qed

interpretation hart: spin_contract "hart_acquire h" "hart_release h"
  "hart_holding h :: lock \<Rightarrow> 'a harts_scheme \<Rightarrow> bool" "\<lambda>l s. lk_locked (locks s l) = 0" "nest_ok h"
  for h :: nat
proof unfold_locales
  fix l and s :: "'a harts_scheme"
  show "hart_holding h l s \<Longrightarrow> hart_acquire h l s = Panic ''acquire''"
    by (simp add: hart_acquire_def acquire_enter_def Let_def hart_holding_frame [of "push_off h s" s])
  show "\<not> hart_holding h l s \<Longrightarrow> hart_release h l s = Panic ''release''"
    by (simp add: hart_release_def release_clear_def)
qed (rule hart_acquire_free hart_release_held; assumption)+

text \<open>A hart that has taken \<open>L_kmem\<close>, reached from boot.\<close>

lemma holder_reachable:
  "\<exists>s. lock_reachable s \<and> hart_holding 2 L_kmem s \<and> pc s 2 = Outside"
proof -
  let ?s1 = "set_pc 2 (Spinning L_kmem) (push_off 2 boot_mp)"
  let ?s2 = "set_pc 2 (Swapped L_kmem) (snd (acquire_swap L_kmem ?s1))"
  let ?s3 = "set_pc 2 Outside (acquire_record 2 L_kmem ?s2)"
  have "acquire_enter 2 L_kmem boot_mp = Ok (push_off 2 boot_mp)"
    by (simp add: acquire_enter_def hart_holding_def boot_mp_def Let_def)
  then have "lock_step boot_mp ?s1"
    using lock_step.call_acquire [of boot_mp 2 L_kmem] by (simp add: boot_mp_def)
  moreover have "lock_step ?s1 ?s2"
    using lock_step.swap [of ?s1 2 L_kmem] by (simp add: acquire_swap_def boot_mp_def)
  moreover have "lock_step ?s2 ?s3"
    using lock_step.own [of ?s2 2 L_kmem] by simp
  ultimately have "lock_reachable ?s3" by (blast intro: lock_reachable.intros)
  moreover have "hart_holding 2 L_kmem ?s3"
    by (simp add: hart_holding_def acquire_record_def acquire_swap_def upd_lock_def)
  ultimately show ?thesis by (intro exI [of _ ?s3]) simp
qed

section \<open>Properties\<close>

text \<open>
  C14: mutual exclusion. In every state that the interleaved harts reach from boot, at most one
  hart is between a successful \<^verbatim>\<open>__sync_lock_test_and_set\<close> on a lock and the
  \<^verbatim>\<open>__sync_lock_release\<close> of that lock, whatever calls of \<^verbatim>\<open>acquire()\<close> and \<^verbatim>\<open>release()\<close> they make.
\<close>

theorem spinlock_mutual_exclusion:
  assumes "lock_reachable s" "owns s h l" "owns s k l"
  shows "h = k"
  using lock_reachable_owner_inv [OF assms(1)] assms(2,3) by (rule owner_inv_owns_unique)

theorem spinlock_mutual_exclusion_witness:
  "\<exists>s. lock_reachable s \<and> owns s 2 L_kmem \<and> (\<forall>k. owns s k L_kmem \<longrightarrow> (2::nat) = k)"
proof -
  obtain s where s: "lock_reachable s" "hart_holding 2 L_kmem s" using holder_reachable by blast
  then have o: "owns s 2 L_kmem" by (simp add: owns_def hart_holding_def)
  show ?thesis using s(1) o spinlock_mutual_exclusion [OF s(1) o] by blast
qed

text \<open>
  C15: a hart that holds a spin lock runs with interrupts masked. In every reachable state of the
  interleaved harts, if \<^verbatim>\<open>holding(lk)\<close> is true on a hart that has not panicked, then its
  \<^verbatim>\<open>noff\<close> is at least 1 and its interrupts are off, so no interrupt handler can ask for a lock
  its own hart already holds.
\<close>

theorem spinlock_holder_masks_interrupts:
  assumes "lock_reachable s" "hart_holding h l s" "pc s h \<noteq> Panicked"
  shows "1 \<le> noff (cpus s h) \<and> \<not> sie s h"
proof -
  have "finite (locks_of s h)" "l \<in> locks_of s h"
    using lock_reachable_nesting_inv [OF assms(1)] assms(2,3)
    by (auto simp: nesting_inv_def locks_of_def hart_holding_def)
  then have "card (locks_of s h) > 0" by (auto simp: card_gt_0_iff)
  with lock_reachable_nesting_inv [OF assms(1)] assms(3) show ?thesis
    by (auto simp: nesting_inv_def)
qed

theorem spinlock_holder_masks_interrupts_witness:
  "\<exists>s. lock_reachable s \<and> hart_holding 2 L_kmem s \<and> 1 \<le> noff (cpus s 2) \<and> \<not> sie s 2"
proof -
  obtain s where s: "lock_reachable s" "hart_holding 2 L_kmem s" "pc s 2 = Outside"
    using holder_reachable by blast
  have "pc s 2 \<noteq> Panicked" using s(3) by simp
  from s(1,2) spinlock_holder_masks_interrupts [OF s(1,2) this] show ?thesis by blast
qed

text \<open>
  C0: \<^verbatim>\<open>push_off()\<close> and \<^verbatim>\<open>pop_off()\<close> are matched: after \<open>n\<close> calls of the first, \<open>n\<close> calls of the
  second return without panic and leave the interrupt state, the nesting depth and every lock
  as they were, whether interrupts were on or off at the start.
\<close>

theorem push_off_pop_off_matched:
  assumes "masked_when_nested h s"
  shows "\<exists>t. pop_offs h n (push_offs h n s) = Ok t \<and> sie t = sie s \<and> locks t = locks s \<and>
             noff (cpus t h) = noff (cpus s h)"
  using pop_offs_push_offs [OF assms] by blast

theorem push_off_pop_off_matched_witness:
  "\<exists>t. pop_offs 0 3 (push_offs 0 3 boot_mp) = Ok t \<and> sie t = sie boot_mp \<and>
       locks t = locks boot_mp \<and> noff (cpus t 0) = noff (cpus boot_mp 0)"
proof -
  have "masked_when_nested 0 boot_mp" by (simp add: masked_when_nested_def boot_mp_def)
  then show ?thesis by (rule push_off_pop_off_matched)
qed

text \<open>
  A hart that takes a free lock and runs a critical section that leaves the locks alone comes
  out of \<^verbatim>\<open>release()\<close> without panic, holding exactly the locks it held before.
\<close>

theorem spinlock_critical_section_balanced:
  fixes body :: "'a harts_scheme \<Rightarrow> 'a harts_scheme"
  assumes "nest_ok h s" "lk_locked (locks s l) = 0" "\<not> hart_holding h l s"
    and "\<And>t. nest_ok h t \<Longrightarrow> hart_holding h l t \<Longrightarrow>
           nest_ok h (body t) \<and> (\<forall>k. hart_holding h k (body t) \<longleftrightarrow> hart_holding h k t)"
  shows "\<exists>u. rbind (hart_acquire h l s) (\<lambda>t. hart_release h l (body t)) = Ok u \<and> nest_ok h u \<and>
             (\<forall>k. hart_holding h k u \<longleftrightarrow> hart_holding h k s)"
  using assms by (rule hart.critical_section)

theorem spinlock_critical_section_balanced_witness:
  "\<exists>u. rbind (hart_acquire 1 L_kmem boot_mp) (\<lambda>t. hart_release 1 L_kmem (id t)) = Ok u \<and>
       nest_ok 1 u \<and> (\<forall>k. hart_holding 1 k u \<longleftrightarrow> hart_holding 1 k boot_mp)"
  by (rule spinlock_critical_section_balanced)
     (auto simp: nest_ok_def boot_mp_def hart_holding_def)

end
