(* ===== verification/CString.thy ===== *)
theory CString
  imports Prelude
begin

text \<open>
  Byte and string routines: \<^verbatim>\<open>kernel/string.c\<close> and their user-space versions in
  \<^verbatim>\<open>user/ulib.c\<close>. Routines that move memory work on the byte memory and 64-bit pointers;
  routines that read or write one string see it as the array of bytes at its pointer,
  index 0 first. A \<^verbatim>\<open>char\<close> is unsigned, as on RISC-V.
\<close>

type_synonym cstr = "nat \<Rightarrow> byte"

section \<open>kernel/string.c\<close>

text \<open>\<^verbatim>\<open>for(i = 0; i < n; i++) cdst[i] = c;\<close> with \<open>k\<close> iterations left.\<close>

fun memset_loop :: "memory \<Rightarrow> u64 \<Rightarrow> byte \<Rightarrow> nat \<Rightarrow> nat \<Rightarrow> memory" where
  "memset_loop m dst c i 0 = m"
| "memset_loop m dst c i (Suc k) = memset_loop (m(dst + of_nat i := c)) dst c (Suc i) k"

definition memset :: "memory \<Rightarrow> u64 \<Rightarrow> byte \<Rightarrow> nat \<Rightarrow> memory" where
  "memset m dst c n = memset_loop m dst c 0 n"

fun memcmp_loop :: "cstr \<Rightarrow> cstr \<Rightarrow> nat \<Rightarrow> nat \<Rightarrow> int" where
  "memcmp_loop s1 s2 i 0 = 0"
| "memcmp_loop s1 s2 i (Suc k) =
     (if s1 i \<noteq> s2 i then uint (s1 i) - uint (s2 i) else memcmp_loop s1 s2 (Suc i) k)"

definition memcmp :: "cstr \<Rightarrow> cstr \<Rightarrow> nat \<Rightarrow> int" where
  "memcmp s1 s2 n = memcmp_loop s1 s2 0 n"

text \<open>\<^verbatim>\<open>while(n-- > 0) *--d = *--s;\<close> and \<^verbatim>\<open>while(n-- > 0) *d++ = *s++;\<close>\<close>

fun move_down :: "memory \<Rightarrow> u64 \<Rightarrow> u64 \<Rightarrow> nat \<Rightarrow> memory" where
  "move_down m d s 0 = m"
| "move_down m d s (Suc n) = move_down (m(d - 1 := m (s - 1))) (d - 1) (s - 1) n"

fun move_up :: "memory \<Rightarrow> u64 \<Rightarrow> u64 \<Rightarrow> nat \<Rightarrow> memory" where
  "move_up m d s 0 = m"
| "move_up m d s (Suc n) = move_up (m(d := m s)) (d + 1) (s + 1) n"

definition memmove :: "memory \<Rightarrow> u64 \<Rightarrow> u64 \<Rightarrow> nat \<Rightarrow> memory" where
  "memmove m d s n =
     (if s < d \<and> s + of_nat n > d then move_down m (d + of_nat n) (s + of_nat n) n
      else move_up m d s n)"

definition memcpy :: "memory \<Rightarrow> u64 \<Rightarrow> u64 \<Rightarrow> nat \<Rightarrow> memory" where
  "memcpy m d s n = memmove m d s n"

fun strncmp_loop :: "cstr \<Rightarrow> cstr \<Rightarrow> nat \<Rightarrow> nat \<Rightarrow> int" where
  "strncmp_loop p q i 0 = 0"
| "strncmp_loop p q i (Suc n) =
     (if p i \<noteq> 0 \<and> p i = q i then strncmp_loop p q (Suc i) n else uint (p i) - uint (q i))"

definition strncmp :: "cstr \<Rightarrow> cstr \<Rightarrow> nat \<Rightarrow> int" where
  "strncmp p q n = strncmp_loop p q 0 n"

fun strncpy_pad :: "cstr \<Rightarrow> nat \<Rightarrow> nat \<Rightarrow> cstr" where
  "strncpy_pad s i 0 = s"
| "strncpy_pad s i (Suc n) = strncpy_pad (s(i := 0)) (Suc i) n"

fun strncpy_copy :: "cstr \<Rightarrow> cstr \<Rightarrow> nat \<Rightarrow> nat \<Rightarrow> cstr" where
  "strncpy_copy s t i 0 = s"
| "strncpy_copy s t i (Suc n) =
     (let s = s(i := t i) in
      if t i \<noteq> 0 then strncpy_copy s t (Suc i) n else strncpy_pad s (Suc i) n)"

definition strncpy :: "cstr \<Rightarrow> cstr \<Rightarrow> int \<Rightarrow> cstr" where
  "strncpy s t n = strncpy_copy s t 0 (nat n)"

text \<open>The loop of \<^verbatim>\<open>safestrcpy\<close> after \<^verbatim>\<open>--n\<close>: on a NUL the pointer has already moved past it when
  the final \<^verbatim>\<open>*s = 0\<close> is executed.\<close>

fun safestrcpy_loop :: "cstr \<Rightarrow> cstr \<Rightarrow> nat \<Rightarrow> nat \<Rightarrow> cstr" where
  "safestrcpy_loop s t i 0 = s(i := 0)"
| "safestrcpy_loop s t i (Suc n) =
     (let s = s(i := t i) in
      if t i \<noteq> 0 then safestrcpy_loop s t (Suc i) n else s(Suc i := 0))"

definition safestrcpy :: "cstr \<Rightarrow> cstr \<Rightarrow> int \<Rightarrow> cstr" where
  "safestrcpy s t n = (if n \<le> 0 then s else safestrcpy_loop s t 0 (nat (n - 1)))"

partial_function (option) strlen_from :: "cstr \<Rightarrow> nat \<Rightarrow> nat option" where
  "strlen_from s n = (if s n \<noteq> 0 then strlen_from s (Suc n) else Some n)"

definition strlen :: "cstr \<Rightarrow> nat option" where
  "strlen s = strlen_from s 0"

section \<open>user/ulib.c\<close>

text \<open>\<^verbatim>\<open>while((*s++ = *t++) != 0);\<close> which does not return when \<^verbatim>\<open>t\<close> has no NUL.\<close>

partial_function (option) strcpy_from :: "cstr \<Rightarrow> cstr \<Rightarrow> nat \<Rightarrow> cstr option" where
  "strcpy_from s t i =
     (if t i \<noteq> 0 then strcpy_from (s(i := t i)) t (Suc i) else Some (s(i := t i)))"

definition strcpy :: "cstr \<Rightarrow> cstr \<Rightarrow> cstr option" where
  "strcpy s t = strcpy_from s t 0"

partial_function (option) strcmp_from :: "cstr \<Rightarrow> cstr \<Rightarrow> nat \<Rightarrow> int option" where
  "strcmp_from p q i =
     (if p i \<noteq> 0 \<and> p i = q i then strcmp_from p q (Suc i)
      else Some (uint (p i) - uint (q i)))"

definition strcmp :: "cstr \<Rightarrow> cstr \<Rightarrow> int option" where
  "strcmp p q = strcmp_from p q 0"

text \<open>The index of the first \<open>c\<close>, \<open>Some None\<close> for a null pointer; \<open>None\<close> when the search never
  meets a NUL.\<close>

partial_function (option) strchr_from :: "cstr \<Rightarrow> byte \<Rightarrow> nat \<Rightarrow> nat option option" where
  "strchr_from s c i =
     (if s i = 0 then Some None else if s i = c then Some (Some i) else strchr_from s c (Suc i))"

definition strchr :: "cstr \<Rightarrow> byte \<Rightarrow> nat option option" where
  "strchr s c = strchr_from s c 0"

text \<open>
  \<^verbatim>\<open>n = n*10 + *s++ - '0'\<close> on a 32-bit \<^verbatim>\<open>int\<close>. The sum is above the range of \<^verbatim>\<open>int\<close> for numbers from 2147483600 on; the machine's
  arithmetic wraps around, and so does the model.
\<close>

partial_function (option) atoi_from :: "cstr \<Rightarrow> nat \<Rightarrow> u32 \<Rightarrow> u32 option" where
  "atoi_from s i n =
     (if 48 \<le> s i \<and> s i \<le> 57 then atoi_from s (Suc i) (n * 10 + ucast (s i) - 48) else Some n)"

definition atoi :: "cstr \<Rightarrow> u32 option" where
  "atoi s = atoi_from s 0 0"

definition ulib_memmove :: "memory \<Rightarrow> u64 \<Rightarrow> u64 \<Rightarrow> int \<Rightarrow> memory" where
  "ulib_memmove m dst src n =
     (if src > dst then move_up m dst src (nat n)
      else move_down m (dst + of_int n) (src + of_int n) (nat n))"

fun ulib_memcmp_loop :: "cstr \<Rightarrow> cstr \<Rightarrow> nat \<Rightarrow> nat \<Rightarrow> int" where
  "ulib_memcmp_loop p1 p2 i 0 = 0"
| "ulib_memcmp_loop p1 p2 i (Suc k) =
     (if p1 i \<noteq> p2 i then uint (p1 i) - uint (p2 i) else ulib_memcmp_loop p1 p2 (Suc i) k)"

section \<open>Filling and moving memory\<close>

lemma memset_loop_apply:
  "i + k \<le> 2 ^ 64 \<Longrightarrow>
   memset_loop m dst c i k a = (if i \<le> unat (a - dst) \<and> unat (a - dst) < i + k then c else m a)"
proof (induction k arbitrary: m i)
  case 0
  then show ?case by auto
next
  case (Suc k)
  have "unat (of_nat i :: u64) = i" using Suc.prems by (simp add: unat_of_nat)
  then have "unat (a - dst) = i \<longleftrightarrow> a - dst = of_nat i" by (simp add: word_unat_eq_iff)
  also have "\<dots> \<longleftrightarrow> a = dst + of_nat i" by (auto simp: algebra_simps)
  finally have "a = dst + of_nat i \<longleftrightarrow> unat (a - dst) = i" by simp
  then show ?case using Suc by auto
qed

lemma memset_apply:
  "n \<le> 2 ^ 64 \<Longrightarrow> memset m dst c n a = (if unat (a - dst) < n then c else m a)"
  by (simp add: memset_def memset_loop_apply)

lemma unat_minus_succ:
  fixes a d :: u64
  assumes "a \<noteq> d"
  shows "unat (a - d) = Suc (unat (a - (d + 1)))"
proof -
  have "a - d \<noteq> 0" using assms by simp
  then have "unat (a - d - 1) = unat (a - d) - 1" by (rule unat_minus_one)
  moreover have "unat (a - d) \<noteq> 0" using \<open>a - d \<noteq> 0\<close> by (simp add: unat_eq_0)
  ultimately show ?thesis by (simp add: diff_diff_eq)
qed

lemma move_up_apply:
  assumes "n \<le> 2 ^ 64" "d = s \<or> n \<le> unat (d - s)"
  shows "move_up m d s n a = (if unat (a - d) < n then m (s + (a - d)) else m a)"
  using assms
proof (induction n arbitrary: m d s)
  case 0
  then show ?case by simp
next
  case (Suc n)
  have step: "move_up m d s (Suc n) a =
      (if unat (a - (d + 1)) < n then (m(d := m s)) (s + 1 + (a - (d + 1))) else (m(d := m s)) a)"
  proof -
    have "n \<le> 2 ^ 64" "d + 1 = s + 1 \<or> n \<le> unat (d + 1 - (s + 1))" using Suc.prems by auto
    from Suc.IH [OF this] show ?thesis by (simp only: move_up.simps)
  qed
  have shift: "s + 1 + (a - (d + 1)) = s + (a - d)" by simp
  show ?case
  proof (cases "a = d")
    case True
    have "unat (- 1 :: u64) \<ge> n" using Suc.prems(1) by (simp add: unsigned_minus_1_eq_mask mask_eq_exp_minus_1)
    then show ?thesis using True step by simp
  next
    case False
    have "s + (a - d) = d \<Longrightarrow> a - d = d - s" by (metis add_diff_cancel_left')
    then have "unat (a - d) < Suc n \<Longrightarrow> s + (a - d) \<noteq> d"
      using Suc.prems(2) False by auto
    then show ?thesis
      using step unat_minus_succ [OF False] False unfolding shift by auto
  qed
qed

lemma unat_minus_pred:
  fixes a d :: u64
  assumes "a \<noteq> d - 1"
  shows "unat (d - a) = Suc (unat (d - 1 - a)) \<or> d = a"
proof (cases "d = a")
  case False
  then have "d - a \<noteq> 0" by simp
  then have "unat (d - a - 1) = unat (d - a) - 1" "unat (d - a) \<noteq> 0"
    by (rule unat_minus_one, simp add: unat_eq_0)
  then show ?thesis by (simp add: diff_right_commute)
qed simp

text \<open>Downwards, \<open>d\<close> and \<open>s\<close> point past the ends of the two blocks.\<close>

lemma move_down_apply:
  assumes "n \<le> 2 ^ 64" "d = s \<or> n \<le> unat (s - d)"
  shows "move_down m d s n a =
    (if unat (a - (d - of_nat n)) < n then m (s - of_nat n + (a - (d - of_nat n))) else m a)"
  using assms
proof (induction n arbitrary: m d s)
  case 0
  then show ?case by simp
next
  case (Suc n)
  let ?m = "m(d - 1 := m (s - 1))"
  have step: "move_down m d s (Suc n) a =
      (if unat (a - (d - 1 - of_nat n)) < n then ?m (s - 1 - of_nat n + (a - (d - 1 - of_nat n))) else ?m a)"
  proof -
    have "n \<le> 2 ^ 64" "d - 1 = s - 1 \<or> n \<le> unat (s - 1 - (d - 1))" using Suc.prems by auto
    from Suc.IH [OF this] show ?thesis by (simp only: move_down.simps)
  qed
  have base: "d - 1 - of_nat n = d - of_nat (Suc n)" "s - 1 - of_nat n = s - of_nat (Suc n)"
    by (simp_all add: algebra_simps)
  let ?b = "d - of_nat (Suc n)"
  have n: "unat (of_nat n :: u64) = n" using Suc.prems(1) by (simp add: unat_of_nat)
  show ?case
  proof (cases "a = d - 1")
    case True
    then have e: "a - ?b = of_nat n" by (simp add: algebra_simps)
    have "move_down m d s (Suc n) a = m (s - 1)"
      using step n True unfolding base e by simp
    moreover have "s - of_nat (Suc n) + of_nat n = s - 1" by simp
    ultimately show ?thesis unfolding e using n by simp
  next
    case False
    have lt: "unat (a - ?b) < Suc n \<longleftrightarrow> unat (a - ?b) < n"
    proof -
      have "a - ?b \<noteq> of_nat n" using False by (simp add: algebra_simps)
      then have "unat (a - ?b) \<noteq> n" using n by (simp add: word_unat_eq_iff)
      then show ?thesis by auto
    qed
    have "s - of_nat (Suc n) + (a - ?b) \<noteq> d - 1" if "unat (a - ?b) < n"
    proof
      assume "s - of_nat (Suc n) + (a - ?b) = d - 1"
      then have e: "s - d = of_nat n - (a - ?b)" by (simp add: algebra_simps)
      have "a - ?b \<le> of_nat n" using that n by (simp add: word_le_nat_alt)
      then have "unat (s - d) = n - unat (a - ?b)" unfolding e using n by (subst unat_sub) simp_all
      then have "s = d \<or> unat (s - d) < Suc n" by auto
      with Suc.prems(2) have "s = d" by auto
      with e have "0 = of_nat n - (a - ?b)" by (simp only: diff_self)
      then have "a - ?b = of_nat n" by (metis right_minus_eq)
      with that n show False by (simp only: less_irrefl)
    qed
    then show ?thesis using step lt False unfolding base by auto
  qed
qed

lemma move_apart_down:
  fixes s d :: u64
  assumes "s < d" "unat d + n \<le> 2 ^ 64"
  shows "n \<le> unat (s - d)"
proof -
  have "unat s < unat d" using assms(1) by (simp add: word_less_nat_alt)
  then have "unat (s - d) = unat s + 2 ^ 64 - unat d" by (simp add: unat_sub_if')
  then show ?thesis using assms(2) \<open>unat s < unat d\<close> by linarith
qed

lemma move_apart_up:
  fixes s d :: u64
  assumes "unat s + n < 2 ^ 64" "\<not> (s < d \<and> d < s + of_nat n)"
  shows "d = s \<or> n \<le> unat (d - s)"
proof (cases "d \<le> s")
  case True
  then show ?thesis
  proof (cases "d = s")
    case False
    with True have "d < s" by simp
    then show ?thesis using move_apart_down [of d s n] assms(1) by simp
  qed simp
next
  case False
  then have "s + of_nat n \<le> d" using assms(2) by (simp add: not_less)
  moreover have "unat (s + of_nat n) = unat s + n"
    using assms(1) by (simp add: unat_plus_if' unat_of_nat)
  ultimately have "unat s + n \<le> unat d" by (simp add: word_le_nat_alt)
  moreover have "unat (d - s) = unat d - unat s" using False by (simp add: unat_sub)
  ultimately show ?thesis by arith
qed

lemma memmove_apply:
  assumes "unat s + n < 2 ^ 64" "unat d + n < 2 ^ 64"
  shows "memmove m d s n a = (if unat (a - d) < n then m (s + (a - d)) else m a)"
proof (cases "s < d \<and> d < s + of_nat n")
  case True
  then have "n \<le> unat (s - d)" using assms(2) by (intro move_apart_down) simp_all
  then show ?thesis
    using True assms(1) move_down_apply [of n "d + of_nat n" "s + of_nat n" m a]
    by (simp add: memmove_def)
next
  case False
  then have "memmove m d s n = move_up m d s n" by (auto simp: memmove_def)
  then show ?thesis
    using assms(1) move_up_apply [OF _ move_apart_up [OF assms(1) False], of m a] by simp
qed

section \<open>Names and strings\<close>

text \<open>Two names of at most \<open>n\<close> bytes are equal: they agree up to the first NUL or the bound.\<close>

definition name_eq :: "cstr \<Rightarrow> cstr \<Rightarrow> nat \<Rightarrow> bool" where
  "name_eq p q n \<longleftrightarrow> (\<forall>j<n. (\<forall>k<j. p k \<noteq> 0) \<longrightarrow> p j = q j)"

lemma all_less_Suc_shift: "(\<forall>j<Suc n. P j) \<longleftrightarrow> P 0 \<and> (\<forall>j<n. P (Suc j))"
  by (auto simp: less_Suc_eq_0_disj)

lemma strncmp_loop_zero:
  "strncmp_loop p q i n = 0 \<longleftrightarrow> (\<forall>j<n. (\<forall>k<j. p (i + k) \<noteq> 0) \<longrightarrow> p (i + j) = q (i + j))"
proof (induction n arbitrary: i)
  case 0
  then show ?case by simp
next
  case (Suc n)
  have "uint (p i) - uint (q i) = 0 \<longleftrightarrow> p i = q i" by (simp add: word_uint_eq_iff)
  then show ?case
    using Suc.IH [of "Suc i"] by (cases "p i = q i") (simp_all add: all_less_Suc_shift)
qed

lemma strncmp_zero: "strncmp p q n = 0 \<longleftrightarrow> name_eq p q n"
  by (simp add: strncmp_def strncmp_loop_zero name_eq_def)

lemma strncpy_pad_apply:
  "strncpy_pad s i n j = (if i \<le> j \<and> j < i + n then 0 else s j)"
  by (induction n arbitrary: s i) (auto simp: less_Suc_eq_le)

lemma strncpy_copy_apply:
  "strncpy_copy s t i n j =
     (if i \<le> j \<and> j < i + n then (if \<exists>k. i \<le> k \<and> k < j \<and> t k = 0 then 0 else t j) else s j)"
proof (induction n arbitrary: s i)
  case 0
  then show ?case by auto
next
  case (Suc n)
  have "{i..<j} = (if i < j then insert i {Suc i..<j} else {})"
    by (simp add: atLeastLessThan_eq_iff) auto
  then have split: "(\<exists>k. i \<le> k \<and> k < j \<and> t k = 0) \<longleftrightarrow>
      i < j \<and> (t i = 0 \<or> (\<exists>k. Suc i \<le> k \<and> k < j \<and> t k = 0))"
    by (metis (no_types, lifting) atLeastLessThan_iff empty_iff insert_iff)
  consider "j < i" | "i = j" | "Suc i \<le> j" by linarith
  then show ?case
    unfolding split by cases (simp_all add: Suc.IH strncpy_pad_apply Let_def)
qed

lemma strncpy_apply:
  "strncpy s t n j = (if j < nat n then (if \<exists>k<j. t k = 0 then 0 else t j) else s j)"
  by (simp add: strncpy_def strncpy_copy_apply)

lemma safestrcpy_loop_spec:
  "\<exists>l \<le> n. (\<forall>k<l. safestrcpy_loop s t i n (i + k) = t (i + k) \<and> t (i + k) \<noteq> 0) \<and>
      safestrcpy_loop s t i n (i + l) = 0 \<and> (l < n \<longrightarrow> t (i + l) = 0) \<and>
      (\<forall>j. j < i \<or> i + n < j \<longrightarrow> safestrcpy_loop s t i n j = s j)"
proof (induction n arbitrary: s i)
  case 0
  then show ?case by simp
next
  case (Suc n)
  show ?case
  proof (cases "t i = 0")
    case True
    then show ?thesis by (intro exI [of _ 0]) (auto simp: Let_def)
  next
    case False
    let ?r = "safestrcpy_loop (s(i := t i)) t (Suc i) n"
    obtain l where l: "l \<le> n" "\<forall>k<l. ?r (Suc i + k) = t (Suc i + k) \<and> t (Suc i + k) \<noteq> 0"
      "?r (Suc i + l) = 0" "l < n \<longrightarrow> t (Suc i + l) = 0"
      "\<forall>j. j < Suc i \<or> Suc i + n < j \<longrightarrow> ?r j = (s(i := t i)) j"
      using Suc.IH [of "s(i := t i)" "Suc i"] by blast
    have r: "safestrcpy_loop s t i (Suc n) = ?r" using False by (simp add: Let_def)
    have "?r i = t i" using l(5) by simp
    then have "\<forall>k<Suc l. ?r (i + k) = t (i + k) \<and> t (i + k) \<noteq> 0"
      using l(2) False by (simp add: all_less_Suc_shift)
    moreover have "?r (i + Suc l) = 0" "Suc l < Suc n \<longrightarrow> t (i + Suc l) = 0" using l(3,4) by simp_all
    moreover have "\<forall>j. j < i \<or> i + Suc n < j \<longrightarrow> ?r j = s j" using l(5) by auto
    ultimately show ?thesis unfolding r using l(1) by (intro exI [of _ "Suc l"]) simp
  qed
qed

lemma strlen_from_Some:
  "(\<forall>j<k. s (n + j) \<noteq> 0) \<Longrightarrow> s (n + k) = 0 \<Longrightarrow> strlen_from s n = Some (n + k)"
proof (induction k arbitrary: n)
  case 0
  then show ?case by (subst strlen_from.simps) simp
next
  case (Suc k)
  then have "s n \<noteq> 0" "strlen_from s (Suc n) = Some (Suc n + k)"
    by (auto simp: all_less_Suc_shift)
  then show ?case by (subst strlen_from.simps) simp
qed

lemma strlen_Some: "(\<forall>j<k. s j \<noteq> 0) \<Longrightarrow> s k = 0 \<Longrightarrow> strlen s = Some k"
  using strlen_from_Some [of k s 0] by (simp add: strlen_def)

section \<open>Properties\<close>

text \<open>
  C38: \<^verbatim>\<open>memmove\<close> copies correctly when source and destination overlap: whatever the two pointers
  (as long as neither block runs past the end of the address space), afterwards the destination
  holds the bytes the source held before the call, and no other byte has changed.
\<close>

theorem memmove_overlap_safe:
  assumes "unat src + n < 2 ^ 64" "unat dst + n < 2 ^ 64"
  shows "(\<forall>i<n. memmove m dst src n (dst + of_nat i) = m (src + of_nat i)) \<and>
         (\<forall>a. n \<le> unat (a - dst) \<longrightarrow> memmove m dst src n a = m a)"
proof (intro conjI allI impI)
  fix i
  assume "i < n"
  then have "unat (of_nat i :: u64) = i" using assms(1) by (simp add: unat_of_nat)
  then show "memmove m dst src n (dst + of_nat i) = m (src + of_nat i)"
    using \<open>i < n\<close> assms by (simp add: memmove_apply)
qed (use assms in \<open>simp add: memmove_apply\<close>)

theorem memmove_overlap_safe_witness:
  "memmove (\<lambda>a. ucast a) 0x1002 0x1000 4 0x1003 = ucast (0x1001 :: u64) \<and>
   memmove (\<lambda>a. ucast a) 0x1002 0x1000 4 0x1005 = ucast (0x1003 :: u64) \<and>
   memmove (\<lambda>a. ucast a) 0x1002 0x1000 4 0x1006 = ucast (0x1006 :: u64)"
proof -
  have small: "unat (0x1000 :: u64) + 4 < 2 ^ 64" "unat (0x1002 :: u64) + 4 < 2 ^ 64" by simp_all
  let ?m = "memmove (\<lambda>a. ucast a) 0x1002 0x1000 4 :: memory"
  have copied: "\<forall>i<4. ?m (0x1002 + of_nat i) = ucast (0x1000 + of_nat i :: u64)"
    and frame: "\<forall>a. 4 \<le> unat (a - 0x1002) \<longrightarrow> ?m a = ucast a"
    using memmove_overlap_safe [where m = "\<lambda>a. ucast a", OF small] by blast+
  show ?thesis
    using copied [rule_format, where i = 1] copied [rule_format, where i = 3]
      frame [rule_format, where a = "0x1006"] by simp
qed

text \<open>
  The user library's \<^verbatim>\<open>memmove\<close>, which picks the direction by comparing the pointers only, has
  the same effect as the kernel's.
\<close>

theorem ulib_memmove_agrees:
  assumes "0 \<le> n" "unat src + nat n < 2 ^ 64" "unat dst + nat n < 2 ^ 64"
  shows "ulib_memmove m dst src n = memmove m dst src (nat n)"
proof
  fix a
  obtain k where k: "n = int k" using assms(1) nonneg_int_cases by blast
  show "ulib_memmove m dst src n a = memmove m dst src (nat n) a"
  proof (cases "dst < src")
    case True
    then have "dst = src \<or> k \<le> unat (dst - src)"
      using move_apart_down [of dst src k] assms(2) by (simp add: k)
    then show ?thesis
      using True assms move_up_apply [of k dst src m a] by (simp add: ulib_memmove_def memmove_apply k)
  next
    case False
    then have "dst = src \<or> k \<le> unat (src - dst)"
      using move_apart_down [of src dst k] assms(3) by (cases "src = dst") (auto simp: k)
    then show ?thesis
      using False assms move_down_apply [of k "dst + of_nat k" "src + of_nat k" m a]
      by (simp add: ulib_memmove_def memmove_apply k)
  qed
qed

theorem ulib_memmove_agrees_witness:
  "ulib_memmove (\<lambda>a. ucast a) 0x1002 0x1000 4 = memmove (\<lambda>a. ucast a) 0x1002 0x1000 (nat 4)"
  by (rule ulib_memmove_agrees) simp_all

text \<open>
  C39: a name stored with \<^verbatim>\<open>strncpy\<close> into a field of \<open>n\<close> bytes is found again by \<^verbatim>\<open>strncmp\<close>: comparing
  any name \<open>u\<close> with the stored field gives 0 exactly when \<open>u\<close> and the name that was stored agree
  up to their first NUL or the bound, whatever the field held before.
\<close>

theorem strncpy_strncmp_roundtrip:
  "strncmp u (strncpy s t (int n)) n = 0 \<longleftrightarrow> name_eq u t n"
proof -
  let ?q = "strncpy s t (int n)"
  have q: "?q j = (if \<exists>k<j. t k = 0 then 0 else t j)" if "j < n" for j
    using that by (simp add: strncpy_apply)
  have "u j = t j" if eq: "name_eq u ?q n" and j: "j < n" "\<forall>k<j. u k \<noteq> 0" for j
  proof -
    have uq: "u k = ?q k" if "k \<le> j" for k using eq j that by (simp add: name_eq_def)
    have "t k \<noteq> 0" if "k < j" for k
      using uq [of k] q [of k] j that by (auto split: if_splits)
    then show ?thesis using uq [of j] q [of j] j(1) by auto
  qed
  moreover have "u j = ?q j" if eq: "name_eq u t n" and j: "j < n" "\<forall>k<j. u k \<noteq> 0" for j
  proof -
    have ut: "u k = t k" if "k \<le> j" for k using eq j that by (simp add: name_eq_def)
    then have "(\<exists>k<j. t k = 0) = False" using j(2) by (metis less_imp_le)
    then show ?thesis using q [OF j(1)] ut [of j] by (simp only: if_False le_refl)
  qed
  ultimately have "name_eq u ?q n \<longleftrightarrow> name_eq u t n" unfolding name_eq_def by blast
  then show ?thesis by (simp only: strncmp_zero)
qed

text \<open>
  C40: \<^verbatim>\<open>safestrcpy\<close> with a positive size always NUL-terminates within the first \<open>n\<close> bytes, stores the
  longest prefix of the source that fits, and writes nothing beyond the \<open>n\<close> bytes.
\<close>

theorem safestrcpy_terminates_string:
  assumes "0 < n"
  shows "\<exists>l < nat n. (\<forall>k<l. safestrcpy s t n k = t k \<and> t k \<noteq> 0) \<and> safestrcpy s t n l = 0 \<and>
           strlen (safestrcpy s t n) = Some l \<and> (l < nat n - 1 \<longrightarrow> t l = 0) \<and>
           (\<forall>j. nat n \<le> j \<longrightarrow> safestrcpy s t n j = s j)"
proof -
  have r: "safestrcpy s t n = safestrcpy_loop s t 0 (nat n - 1)"
    using assms by (simp add: safestrcpy_def nat_diff_distrib)
  obtain l where l: "l \<le> nat n - 1" "\<forall>k<l. safestrcpy s t n k = t k \<and> t k \<noteq> 0"
    "safestrcpy s t n l = 0" "l < nat n - 1 \<longrightarrow> t l = 0"
    "\<forall>j. nat n - 1 < j \<longrightarrow> safestrcpy s t n j = s j"
    using safestrcpy_loop_spec [of "nat n - 1" s t 0] unfolding r by auto
  have "strlen (safestrcpy s t n) = Some l" using l(2,3) by (intro strlen_Some) auto
  with l assms show ?thesis by (intro exI [of _ l]) auto
qed

theorem safestrcpy_terminates_string_witness:
  "\<exists>l < nat 3. (\<forall>k<l. safestrcpy (\<lambda>_. 7) (\<lambda>_. 65) 3 k = 65 \<and> (65 :: byte) \<noteq> 0) \<and>
     safestrcpy (\<lambda>_. 7) (\<lambda>_. 65) 3 l = 0 \<and> strlen (safestrcpy (\<lambda>_. 7) (\<lambda>_. 65) 3) = Some l \<and>
     (l < nat 3 - 1 \<longrightarrow> (65 :: byte) = 0) \<and> (\<forall>j. nat 3 \<le> j \<longrightarrow> safestrcpy (\<lambda>_. 7) (\<lambda>_. 65) 3 j = 7)"
  by (rule safestrcpy_terminates_string) simp

end
