(* ===== verification/Riscv.thy ===== *)
theory Riscv
  imports CString
begin

text \<open>
  The macros of \<^verbatim>\<open>kernel/riscv.h\<close> and \<^verbatim>\<open>kernel/memlayout.h\<close> that the memory code computes with:
  page rounding, the fields of an Sv39 virtual address and of a page-table entry, and the
  physical and virtual memory layout. The lemmas give their arithmetic meaning and what an
  aligned 64-bit load sees of a store in the same or in another page.
\<close>

section \<open>Pages\<close>

definition PGSIZE :: nat where "PGSIZE = 4096"

definition PGROUNDUP :: "u64 \<Rightarrow> u64" where
  "PGROUNDUP sz = (sz + 4096 - 1) AND NOT (4096 - 1)"

definition PGROUNDDOWN :: "u64 \<Rightarrow> u64" where
  "PGROUNDDOWN a = a AND NOT (4096 - 1)"

definition aligned :: "u64 \<Rightarrow> bool" where
  "aligned a \<longleftrightarrow> a mod 4096 = 0"

section \<open>Page-table entries\<close>

definition PTE_V :: u64 where "PTE_V = push_bit 0 1"
definition PTE_R :: u64 where "PTE_R = push_bit 1 1"
definition PTE_W :: u64 where "PTE_W = push_bit 2 1"
definition PTE_X :: u64 where "PTE_X = push_bit 3 1"
definition PTE_U :: u64 where "PTE_U = push_bit 4 1"

definition PA2PTE :: "u64 \<Rightarrow> u64" where
  "PA2PTE pa = push_bit 10 (drop_bit 12 pa)"

definition PTE2PA :: "u64 \<Rightarrow> u64" where
  "PTE2PA pte = push_bit 12 (drop_bit 10 pte)"

definition PTE_FLAGS :: "u64 \<Rightarrow> u64" where
  "PTE_FLAGS pte = pte AND 0x3FF"

definition PXSHIFT :: "nat \<Rightarrow> nat" where
  "PXSHIFT level = 12 + 9 * level"

definition PX :: "nat \<Rightarrow> u64 \<Rightarrow> u64" where
  "PX level va = drop_bit (PXSHIFT level) va AND 0x1FF"

definition MAXVA :: u64 where "MAXVA = push_bit (9 + 9 + 9 + 12 - 1) 1"

definition MAKE_SATP :: "u64 \<Rightarrow> u64" where
  "MAKE_SATP pagetable = push_bit 60 8 OR drop_bit 12 pagetable"

section \<open>Memory layout\<close>

definition UART0 :: u64 where "UART0 = 0x10000000"
definition VIRTIO0 :: u64 where "VIRTIO0 = 0x10001000"
definition PLIC :: u64 where "PLIC = 0x0c000000"
definition KERNBASE :: u64 where "KERNBASE = 0x80000000"
definition PHYSTOP :: u64 where "PHYSTOP = KERNBASE + 128*1024*1024"
definition TRAMPOLINE :: u64 where "TRAMPOLINE = MAXVA - 4096"
definition KSTACK :: "u64 \<Rightarrow> u64" where "KSTACK p = TRAMPOLINE - (p + 1) * 2 * 4096"
definition TRAPFRAME :: u64 where "TRAPFRAME = TRAMPOLINE - 4096"

lemma PHYSTOP_value: "PHYSTOP = 0x88000000" by (simp add: PHYSTOP_def KERNBASE_def)
lemma MAXVA_value: "MAXVA = 0x4000000000" by (simp add: MAXVA_def push_bit_eq_mult)

section \<open>Arithmetic of the macros\<close>

lemma u64_bound: "unat (a :: u64) < 2 ^ 64"
  by (rule order_less_le_trans [OF unsigned_less]) simp

lemma take_bit_12: "take_bit 12 a = a mod (4096 :: u64)"
  by (simp add: take_bit_eq_mod)

lemma mask_12: "(4095 :: u64) = mask 12"
  by (simp add: mask_eq_exp_minus_1)

lemma PGROUNDDOWN_minus [page_arith]: "PGROUNDDOWN a = a - a mod 4096"
proof -
  have "a = (a AND NOT (mask 12)) + (a AND mask 12)"
    by (subst disjunctive_add) (auto intro!: bit_eqI simp: bit_simps)
  then have "a AND NOT (mask 12) = a - take_bit 12 a" by (simp add: take_bit_eq_mask algebra_simps)
  then show ?thesis by (simp add: PGROUNDDOWN_def take_bit_12 mask_12 [symmetric])
qed

lemma unat_mod_4096: "unat (a mod 4096 :: u64) = unat a mod 4096"
  by (simp add: unat_mod)

lemma unat_PGROUNDDOWN: "unat (PGROUNDDOWN a) = unat a - unat a mod 4096"
  unfolding PGROUNDDOWN_minus
  by (subst unat_sub) (simp_all add: word_le_nat_alt unat_mod_4096)

lemma aligned_iff_unat: "aligned a \<longleftrightarrow> unat a mod 4096 = 0"
  by (simp add: aligned_def word_unat_eq_iff unat_mod_4096)

lemma aligned_PGROUNDDOWN [simp, page_arith]: "aligned (PGROUNDDOWN a)"
  by (simp add: aligned_iff_unat unat_PGROUNDDOWN minus_mod_eq_mult_div)

lemma PGROUNDDOWN_aligned [simp, page_arith]: "aligned a \<Longrightarrow> PGROUNDDOWN a = a"
  by (simp add: aligned_def PGROUNDDOWN_minus)

lemma PGROUNDDOWN_le: "PGROUNDDOWN a \<le> a"
  by (simp add: word_le_nat_alt unat_PGROUNDDOWN)

lemma PGROUNDDOWN_offset: "unat (a - PGROUNDDOWN a) = unat a mod 4096"
  by (simp add: PGROUNDDOWN_minus unat_mod_4096)

text \<open>A byte is in the page that starts at \<open>p\<close> when rounding its address down gives \<open>p\<close>.\<close>

lemma PGROUNDDOWN_eq_iff:
  assumes "aligned p"
  shows "PGROUNDDOWN a = p \<longleftrightarrow> unat (a - p) < 4096"
proof
  assume "PGROUNDDOWN a = p"
  then have "unat (a - p) = unat a mod 4096" using PGROUNDDOWN_offset [of a] by simp
  then show "unat (a - p) < 4096" by simp
next
  assume lt: "unat (a - p) < 4096"
  have p: "unat p mod 4096 = 0" using assms by (simp add: aligned_iff_unat)
  have a: "a = p + (a - p)" by simp
  have "unat p < 2 ^ 64" by (rule u64_bound)
  then have "unat p div 4096 < 2 ^ 52" by (simp add: less_mult_imp_div_less)
  then have "unat p \<le> (2 ^ 52 - 1) * 4096" using p by (simp add: mod_eq_0_iff_dvd) (auto elim!: dvdE)
  then have "unat a = unat p + unat (a - p)" using lt by (subst a, subst unat_plus_if') simp
  then obtain d where d: "unat a = unat p + d" "d < 4096" using lt by blast
  then have "unat a mod 4096 = d" using p by (simp add: mod_add_left_eq [symmetric])
  then have "unat (PGROUNDDOWN a) = unat p" by (simp add: unat_PGROUNDDOWN d(1))
  then show "PGROUNDDOWN a = p" by (simp add: word_unat_eq_iff)
qed

lemma PGROUNDUP_as_down: "PGROUNDUP a = PGROUNDDOWN (a + 4095)"
  by (simp add: PGROUNDUP_def PGROUNDDOWN_def add.commute)

lemma aligned_PGROUNDUP [simp, page_arith]: "aligned (PGROUNDUP a)"
  by (simp add: PGROUNDUP_as_down)

lemma unat_PGROUNDUP:
  assumes "unat a + 4095 < 2 ^ 64"
  shows "unat (PGROUNDUP a) = (unat a + 4095) div 4096 * 4096"
proof -
  have "unat (a + 4095) = unat a + 4095" using assms by (simp add: unat_plus_if')
  then show ?thesis by (simp add: PGROUNDUP_as_down unat_PGROUNDDOWN minus_mod_eq_div_mult)
qed

lemma PGROUNDUP_aligned:
  assumes "aligned a"
  shows "PGROUNDUP a = a"
proof -
  have "PGROUNDDOWN (a + 4095) = a" by (simp add: PGROUNDDOWN_eq_iff assms)
  then show ?thesis by (simp add: PGROUNDUP_as_down)
qed

lemma aligned_add_page: "aligned a \<Longrightarrow> aligned (a + 4096)"
proof -
  assume "aligned a"
  then have "unat (a + 4096) mod 4096 = 0"
    by (simp add: aligned_iff_unat unat_word_ariths mod_mod_cancel)
  then show ?thesis by (simp add: aligned_iff_unat)
qed

section \<open>Aligned 64-bit accesses and pages\<close>

lemma aligned8_unat:
  assumes "(a :: u64) mod 8 = 0"
  obtains k where "unat a = 8 * k" "k < 2 ^ 61"
proof -
  have "unat a mod 8 = 0" using assms by (simp add: word_unat_eq_iff unat_mod)
  then obtain k where "unat a = 8 * k" by (auto elim!: dvdE simp: mod_eq_0_iff_dvd)
  moreover have "unat a < 2 ^ 64" by (rule u64_bound)
  ultimately show thesis using that by simp
qed

lemma unat_aligned8_add:
  assumes "(a :: u64) mod 8 = 0" "i < 8"
  shows "unat (a + of_nat i) = unat a + i"
proof -
  obtain k where "unat a = 8 * k" "k < 2 ^ 61" using aligned8_unat [OF assms(1)] .
  then have "unat a + i < 2 ^ 64" using assms(2) by simp
  then show ?thesis by (simp add: unat_plus_if' unat_of_nat)
qed

lemma aligned8_div:
  assumes "(a :: u64) mod 8 = 0" "i < 8"
  shows "unat (a + of_nat i) div 8 = unat a div 8"
proof -
  obtain k where "unat a = 8 * k" using aligned8_unat [OF assms(1)] by blast
  then have "(unat a + i) div 8 = unat a div 8" using assms(2) by simp
  then show ?thesis by (simp only: unat_aligned8_add [OF assms])
qed

lemma PGROUNDDOWN_div: "PGROUNDDOWN a = PGROUNDDOWN b \<longleftrightarrow> unat a div 4096 = unat b div 4096"
  by (simp add: word_unat_eq_iff unat_PGROUNDDOWN minus_mod_eq_div_mult)

lemma PGROUNDDOWN_aligned8_add:
  assumes "a mod 8 = 0" "i < 8"
  shows "PGROUNDDOWN (a + of_nat i) = PGROUNDDOWN a"
proof -
  have "x div 4096 = x div 8 div 512" for x :: nat by (simp flip: div_mult2_eq)
  then show ?thesis by (simp add: PGROUNDDOWN_div aligned8_div [OF assms])
qed

lemma load64_other_page:
  assumes "a mod 8 = 0" "\<And>b. PGROUNDDOWN b = PGROUNDDOWN a \<Longrightarrow> m' b = m b"
  shows "load64 m' a = load64 m a"
  by (rule load64_cong) (simp add: assms PGROUNDDOWN_aligned8_add)

lemma store64_outside:
  assumes "a mod 8 = 0" "unat b div 8 \<noteq> unat a div 8"
  shows "store64 m a v b = m b"
proof -
  have "\<not> b - a < 8"
  proof
    assume "b - a < 8"
    then have "unat (b - a) < 8" by (simp add: word_less_nat_alt)
    then have "unat (a + of_nat (unat (b - a))) div 8 = unat a div 8" by (rule aligned8_div [OF assms(1)])
    with assms(2) show False by simp
  qed
  then show ?thesis by (simp add: store64_def)
qed

lemma aligned8_eq_iff:
  assumes "(a :: u64) mod 8 = 0" "(b :: u64) mod 8 = 0"
  shows "unat a div 8 = unat b div 8 \<longleftrightarrow> a = b"
proof -
  have "unat a mod 8 = 0" "unat b mod 8 = 0" using assms by (simp_all add: word_unat_eq_iff unat_mod)
  then show ?thesis by (simp add: word_unat_eq_iff) (metis div_mult_mod_eq)
qed

lemma load64_store64_other:
  assumes "a mod 8 = 0" "b mod 8 = 0" "a \<noteq> b"
  shows "load64 (store64 m b v) a = load64 m a"
proof (rule load64_cong)
  fix i :: nat
  assume "i < 8"
  then have "unat (a + of_nat i) div 8 \<noteq> unat b div 8"
    using aligned8_div [OF assms(1)] aligned8_eq_iff [OF assms(1,2)] assms(3) by simp
  then show "store64 m b v (a + of_nat i) = m (a + of_nat i)"
    by (rule store64_outside [OF assms(2)])
qed

lemma store64_other_page:
  assumes "a mod 8 = 0" "PGROUNDDOWN b \<noteq> PGROUNDDOWN a"
  shows "store64 m a v b = m b"
proof (rule store64_outside [OF assms(1)])
  have "x div 4096 = x div 8 div 512" for x :: nat by (simp flip: div_mult2_eq)
  then show "unat b div 8 \<noteq> unat a div 8" using assms(2) by (auto simp: PGROUNDDOWN_div)
qed

lemma memset_page:
  "aligned p \<Longrightarrow> memset m p c PGSIZE a = (if PGROUNDDOWN a = p then c else m a)"
  by (simp add: memset_apply PGROUNDDOWN_eq_iff PGSIZE_def)

lemma aligned_mod8: "aligned a \<Longrightarrow> a mod 8 = 0"
proof -
  assume "aligned a"
  then have "unat a mod 8 = 0"
    using dvd_trans [of 8 4096 "unat a"] by (simp add: aligned_iff_unat mod_eq_0_iff_dvd)
  then show ?thesis by (simp add: word_unat_eq_iff unat_mod)
qed

end
