(* ===== verification/Kalloc.thy ===== *)
theory Kalloc
  imports Spinlock Riscv
begin

text \<open>
  The physical page allocator, \<^verbatim>\<open>kernel/kalloc.c\<close>: a list of free pages threaded through the first
  eight bytes of each page. The state is the byte memory and \<^verbatim>\<open>kmem.freelist\<close>; the linker symbol
  \<^verbatim>\<open>end\<close> is the field \<open>kend\<close>. The free list is abstracted to the list of its pages, and the
  operations refine push and pop on that list (locale \<open>page_allocator\<close>).
\<close>

section \<open>State and operations\<close>

record kmem = lockst +
  mem :: memory
  freelist :: u64
  kend :: u64

definition kfree :: "u64 \<Rightarrow> 'a kmem_scheme \<Rightarrow> 'a kmem_scheme outcome" where
  "kfree pa s =
     (if pa mod 4096 \<noteq> 0 \<or> pa < kend s \<or> pa \<ge> PHYSTOP then Panic ''kfree''
      else
        (let s = s\<lparr>mem := memset (mem s) pa 1 PGSIZE\<rparr> in
         rbind (acquire L_kmem s) (\<lambda>s.
         let s = s\<lparr>mem := store64 (mem s) pa (freelist s)\<rparr>;
             s = s\<lparr>freelist := pa\<rparr> in
         release L_kmem s)))"

definition kalloc :: "'a kmem_scheme \<Rightarrow> (u64 \<times> 'a kmem_scheme) outcome" where
  "kalloc s =
     rbind (acquire L_kmem s) (\<lambda>s.
     let r = freelist s;
         s = (if r \<noteq> 0 then s\<lparr>freelist := load64 (mem s) r\<rparr> else s) in
     rbind (release L_kmem s) (\<lambda>s.
     let s = (if r \<noteq> 0 then s\<lparr>mem := memset (mem s) r 5 PGSIZE\<rparr> else s) in
     Ok (r, s)))"

lemma kfree_bounds: "kfree pa s = Ok t \<Longrightarrow> aligned pa \<and> kend s \<le> pa \<and> pa < PHYSTOP"
  by (auto simp: kfree_def aligned_def split: if_splits)

text \<open>\<^verbatim>\<open>for(; p + PGSIZE <= (char*\<close>\<open>)\<close>\<^verbatim>\<open>pa_end; p += PGSIZE) kfree(p);\<close> it ends because \<^verbatim>\<open>kfree\<close> panics
  from \<^verbatim>\<open>PHYSTOP\<close> on.\<close>

function freerange_loop :: "u64 \<Rightarrow> u64 \<Rightarrow> 'a kmem_scheme \<Rightarrow> 'a kmem_scheme outcome" where
  "freerange_loop p pa_end s =
     (if p + 4096 \<le> pa_end then rbind (kfree p s) (\<lambda>s. freerange_loop (p + 4096) pa_end s)
      else Ok s)"
  by pat_completeness auto
termination
proof (relation "measure (\<lambda>(p, pa_end, s). 2 ^ 64 - unat p)", goal_cases)
  case (2 p pa_end s t)
  then have "p < 0x88000000" using kfree_bounds [of p s t] by (simp add: PHYSTOP_value)
  then have "unat p < 0x88000000" by (simp add: word_less_nat_alt)
  then have "unat (p + 4096) = unat p + 4096" by (simp add: unat_plus_if')
  then show ?case using \<open>unat p < 0x88000000\<close> by simp
qed simp

declare freerange_loop.simps [simp del]

definition freerange :: "u64 \<Rightarrow> u64 \<Rightarrow> 'a kmem_scheme \<Rightarrow> 'a kmem_scheme outcome" where
  "freerange pa_start pa_end s = freerange_loop (PGROUNDUP pa_start) pa_end s"

text \<open>\<^verbatim>\<open>initlock\<close> makes the lock free; here a lock is free as long as it is not in \<open>held\<close>.\<close>

definition kinit :: "'a kmem_scheme \<Rightarrow> 'a kmem_scheme outcome" where
  "kinit s = freerange (kend s) PHYSTOP s"

section \<open>The list of free pages\<close>

text \<open>A page the allocator may manage.\<close>

definition page_ok :: "u64 \<Rightarrow> u64 \<Rightarrow> bool" where
  "page_ok e p \<longleftrightarrow> aligned p \<and> e \<le> p \<and> p < PHYSTOP \<and> p \<noteq> 0"

fun chain :: "memory \<Rightarrow> u64 \<Rightarrow> u64 list \<Rightarrow> bool" where
  "chain m r [] \<longleftrightarrow> r = 0"
| "chain m r (p # ps) \<longleftrightarrow> r = p \<and> r \<noteq> 0 \<and> chain m (load64 m r) ps"

definition free_pages :: "'a kmem_scheme \<Rightarrow> u64 list \<Rightarrow> bool" where
  "free_pages s ps \<longleftrightarrow>
     chain (mem s) (freelist s) ps \<and> distinct ps \<and> (\<forall>p \<in> set ps. page_ok (kend s) p)"

lemma chain_frame:
  assumes "chain m r ps" "\<forall>p \<in> set ps. aligned p"
    and "\<And>a. PGROUNDDOWN a \<in> set ps \<Longrightarrow> m' a = m a"
  shows "chain m' r ps"
  using assms
proof (induction ps arbitrary: r)
  case (Cons p ps)
  then have "load64 m' p = load64 m p"
    by (intro load64_other_page) (simp_all add: aligned_mod8)
  with Cons show ?case by auto
qed simp

text \<open>The free list survives every change of memory outside the free pages.\<close>

lemma free_pages_frame:
  assumes "free_pages s ps" "freelist t = freelist s" "kend t = kend s"
    and "\<And>a. PGROUNDDOWN a \<in> set ps \<Longrightarrow> mem t a = mem s a"
  shows "free_pages t ps"
  using assms chain_frame [of "mem s" "freelist s" ps "mem t"]
  by (auto simp: free_pages_def page_ok_def)

definition pushed :: "u64 \<Rightarrow> 'a kmem_scheme \<Rightarrow> 'a kmem_scheme" where
  "pushed pa s = s\<lparr>mem := store64 (memset (mem s) pa 1 PGSIZE) pa (freelist s), freelist := pa\<rparr>"

lemma kfree_Ok:
  assumes "page_ok (kend s) pa" "L_kmem \<notin> set (held s)"
  shows "kfree pa s = Ok (pushed pa s)"
  using assms by (simp add: kfree_def page_ok_def aligned_def pushed_def Let_def not_less not_le)

lemma kfree_Panic_iff:
  "L_kmem \<notin> set (held s) \<Longrightarrow>
   kfree pa s = Panic ''kfree'' \<longleftrightarrow> \<not> (aligned pa \<and> kend s \<le> pa \<and> pa < PHYSTOP)"
  by (auto simp: kfree_def aligned_def Let_def not_less not_le)

lemma pushed_mem:
  assumes "aligned pa" "PGROUNDDOWN a \<noteq> pa"
  shows "mem (pushed pa s) a = mem s a"
  using assms by (simp add: pushed_def store64_other_page aligned_mod8 memset_page)

lemma pushed_free_pages:
  assumes "free_pages s ps" "page_ok (kend s) pa" "pa \<notin> set ps"
  shows "free_pages (pushed pa s) (pa # ps)"
proof -
  have pa: "aligned pa" "pa \<noteq> 0" using assms(2) by (simp_all add: page_ok_def)
  have ps: "chain (mem s) (freelist s) ps" "\<forall>p \<in> set ps. aligned p"
    using assms(1) by (simp_all add: free_pages_def page_ok_def)
  have "chain (mem (pushed pa s)) (freelist s) ps"
    by (rule chain_frame [OF ps], rule pushed_mem) (use assms(3) pa in auto)
  then show ?thesis
    using assms pa by (simp add: free_pages_def pushed_def)
qed

definition popped :: "u64 \<Rightarrow> 'a kmem_scheme \<Rightarrow> 'a kmem_scheme" where
  "popped p s = s\<lparr>freelist := load64 (mem s) p, mem := memset (mem s) p 5 PGSIZE\<rparr>"

lemma kalloc_Nil:
  assumes "free_pages s []" "L_kmem \<notin> set (held s)"
  shows "kalloc s = Ok (0, s)"
  using assms by (simp add: kalloc_def free_pages_def Let_def)

lemma kalloc_Cons:
  assumes "free_pages s (p # ps)" "L_kmem \<notin> set (held s)"
  shows "kalloc s = Ok (p, popped p s)"
  using assms by (auto simp: kalloc_def free_pages_def Let_def popped_def)

lemma popped_mem:
  "aligned p \<Longrightarrow> mem (popped p s) a = (if PGROUNDDOWN a = p then 5 else mem s a)"
  by (simp add: popped_def memset_page)

lemma popped_free_pages:
  assumes "free_pages s (p # ps)"
  shows "free_pages (popped p s) ps"
proof -
  have p: "aligned p" "p \<notin> set ps" using assms by (simp_all add: free_pages_def page_ok_def)
  have ps: "chain (mem s) (load64 (mem s) p) ps" "\<forall>p \<in> set ps. aligned p"
    using assms by (auto simp: free_pages_def page_ok_def)
  have "chain (mem (popped p s)) (load64 (mem s) p) ps"
    by (rule chain_frame [OF ps]) (use p in \<open>auto simp: popped_mem\<close>)
  then show ?thesis using assms by (simp add: free_pages_def popped_def)
qed

lemma pushed_fields [simp]:
  "held (pushed p s) = held s" "kend (pushed p s) = kend s" "freelist (pushed p s) = p"
  "kmem.more (pushed p s) = kmem.more s"
  by (simp_all add: pushed_def)

lemma popped_fields [simp]:
  "held (popped p s) = held s" "kend (popped p s) = kend s" "kmem.more (popped p s) = kmem.more s"
  by (simp_all add: popped_def)

section \<open>The contract of the allocator\<close>

text \<open>
  What the rest of the kernel relies on: the pages the allocator has, as a list, and that an
  allocation and a release move one page out of and into it. \<open>ready\<close> is the calling context
  in which the operations may be called, \<open>good\<close> the addresses that may be released.
\<close>

locale page_allocator =
  fixes alloc :: "'s \<Rightarrow> (u64 \<times> 's) outcome"
    and free :: "u64 \<Rightarrow> 's \<Rightarrow> 's outcome"
    and pages :: "'s \<Rightarrow> u64 list \<Rightarrow> bool"
    and good :: "'s \<Rightarrow> u64 \<Rightarrow> bool"
    and ready :: "'s \<Rightarrow> bool"
  assumes pages_good: "pages s ps \<Longrightarrow> p \<in> set ps \<Longrightarrow> good s p \<and> p \<noteq> 0"
    and pages_distinct: "pages s ps \<Longrightarrow> distinct ps"
    and alloc_empty: "pages s [] \<Longrightarrow> ready s \<Longrightarrow> alloc s = Ok (0, s)"
    and alloc_page: "pages s (p # ps) \<Longrightarrow> ready s \<Longrightarrow>
      \<exists>t. alloc s = Ok (p, t) \<and> pages t ps \<and> ready t \<and> good t = good s"
    and free_page: "pages s ps \<Longrightarrow> ready s \<Longrightarrow> good s p \<Longrightarrow> p \<noteq> 0 \<Longrightarrow> p \<notin> set ps \<Longrightarrow>
      \<exists>t. free p s = Ok t \<and> pages t (p # ps) \<and> ready t \<and> good t = good s"
begin

lemma alloc_returns:
  assumes "pages s ps" "ready s"
  shows "\<exists>r t. alloc s = Ok (r, t) \<and> ready t \<and> good t = good s \<and>
    (if ps = [] then r = 0 \<and> t = s else r = hd ps \<and> pages t (tl ps) \<and> r \<noteq> 0)"
  using assms alloc_empty [of s] alloc_page [of s "hd ps" "tl ps"] pages_good [of s ps "hd ps"]
  by (cases ps) auto

lemma alloc_then_free:
  assumes "pages s (p # ps)" "ready s"
  shows "\<exists>t. rbind (alloc s) (\<lambda>(r, s). free r s) = Ok t \<and> pages t (p # ps) \<and> ready t"
proof -
  obtain t where t: "alloc s = Ok (p, t)" "pages t ps" "ready t" "good t = good s"
    using alloc_page [OF assms] by blast
  have "p \<notin> set ps" "good t p" "p \<noteq> 0"
    using pages_distinct [OF assms(1)] pages_good [OF assms(1), of p] t(4) by auto
  with free_page [OF t(2,3)] t(1) show ?thesis by auto
qed

text \<open>\<open>n\<close> allocations in a row, collecting the pages.\<close>

lemma allocs_distinct:
  assumes "pages s ps" "ready s" "n \<le> length ps"
  shows "\<exists>t. (((\<lambda>x. rbind x (\<lambda>(rs, s). rbind (alloc s) (\<lambda>(r, s). Ok (rs @ [r], s)))) ^^ n) (Ok ([], s)))
             = Ok (take n ps, t) \<and> pages t (drop n ps) \<and> ready t"
  using assms(3)
proof (induction n)
  case 0
  then show ?case using assms by simp
next
  case (Suc n)
  then obtain t where t: "((\<lambda>x. rbind x (\<lambda>(rs, s). rbind (alloc s) (\<lambda>(r, s). Ok (rs @ [r], s)))) ^^ n) (Ok ([], s))
      = Ok (take n ps, t)" "pages t (drop n ps)" "ready t" by auto
  have "drop n ps = ps ! n # drop (Suc n) ps" using Suc.prems by (simp add: Cons_nth_drop_Suc)
  with t alloc_page [of t "ps ! n" "drop (Suc n) ps"] obtain u where
    "alloc t = Ok (ps ! n, u)" "pages u (drop (Suc n) ps)" "ready u" by auto
  with t(1) Suc.prems show ?case by (simp add: take_Suc_conv_app_nth)
qed

end

definition kmem_ready :: "'a kmem_scheme \<Rightarrow> bool" where
  "kmem_ready s \<longleftrightarrow> L_kmem \<notin> set (held s)"

interpretation km: page_allocator
  "kalloc :: 'a kmem_scheme \<Rightarrow> _" kfree free_pages "\<lambda>s. page_ok (kend s)" kmem_ready
proof unfold_locales
  fix s :: "'a kmem_scheme" and ps p
  show "free_pages s ps \<Longrightarrow> p \<in> set ps \<Longrightarrow> page_ok (kend s) p \<and> p \<noteq> 0"
    by (auto simp: free_pages_def page_ok_def)
  show "free_pages s ps \<Longrightarrow> distinct ps" by (simp add: free_pages_def)
  show "free_pages s [] \<Longrightarrow> kmem_ready s \<Longrightarrow> kalloc s = Ok (0, s)"
    by (simp add: kalloc_Nil kmem_ready_def)
  show "\<exists>t. kalloc s = Ok (p, t) \<and> free_pages t ps \<and> kmem_ready t \<and> page_ok (kend t) = page_ok (kend s)"
    if "free_pages s (p # ps)" "kmem_ready s"
    using that kalloc_Cons popped_free_pages by (fastforce simp: kmem_ready_def)
  show "\<exists>t. kfree p s = Ok t \<and> free_pages t (p # ps) \<and> kmem_ready t \<and> page_ok (kend t) = page_ok (kend s)"
    if "free_pages s ps" "kmem_ready s" "page_ok (kend s) p" "p \<noteq> 0" "p \<notin> set ps"
    using that kfree_Ok pushed_free_pages by (fastforce simp: kmem_ready_def)
qed

section \<open>Initialisation\<close>

lemma aligned_less_add_page:
  assumes "aligned p" "aligned q" "unat p + 4096 < 2 ^ 64"
  shows "q < p + 4096 \<longleftrightarrow> q < p \<or> q = p"
proof -
  obtain i j where ij: "unat p = 4096 * i" "unat q = 4096 * j"
    using assms(1,2) by (auto simp: aligned_iff_unat mod_eq_0_iff_dvd elim!: dvdE)
  have "unat (p + 4096) = unat p + 4096" using assms(3) by (simp add: unat_plus_if')
  then show ?thesis unfolding word_less_nat_alt word_unat_eq_iff using ij by auto
qed

lemma freerange_loop_frees:
  assumes "free_pages s ps" "kmem_ready s" "aligned p" "kend s \<le> p" "p \<noteq> 0" "p \<le> PHYSTOP"
    and "set ps = {q. page_ok (kend s) q \<and> q < p}"
  shows "\<exists>t qs. freerange_loop p PHYSTOP s = Ok t \<and> free_pages t qs \<and>
           set qs = {q. page_ok (kend s) q} \<and> kend t = kend s \<and> held t = held s"
  using assms
proof (induction p PHYSTOP s arbitrary: ps rule: freerange_loop.induct)
  case (1 p s)
  have p: "unat p \<le> 0x88000000" using \<open>p \<le> PHYSTOP\<close> by (simp add: PHYSTOP_value word_le_nat_alt)
  have split: "q < p + 4096 \<longleftrightarrow> q < p \<or> q = p" if "aligned q" for q
    using aligned_less_add_page [OF \<open>aligned p\<close> that] p by simp
  show ?case
  proof (cases "p + 4096 \<le> PHYSTOP")
    case True
    have "p < p + 4096" using split [OF \<open>aligned p\<close>] by simp
    then have p_ok: "page_ok (kend s) p" using 1 True by (simp add: page_ok_def)
    have k: "kfree p s = Ok (pushed p s)" using kfree_Ok [OF p_ok] 1 by (simp add: kmem_ready_def)
    have "free_pages (pushed p s) (p # ps)" using 1 p_ok by (intro pushed_free_pages) auto
    moreover have "set (p # ps) = {q. page_ok (kend (pushed p s)) q \<and> q < p + 4096}"
      using 1 p_ok split by (auto simp: page_ok_def)
    moreover have "aligned (p + 4096)" "kend (pushed p s) \<le> p + 4096" "p + 4096 \<noteq> 0"
      using 1 \<open>p < p + 4096\<close> by (auto simp: aligned_add_page)
    ultimately show ?thesis
      using 1(1) [OF True k, of "p # ps"] 1(3) True k
      by (subst freerange_loop.simps) (simp add: kmem_ready_def)
  next
    case False
    have "aligned PHYSTOP" by (simp add: PHYSTOP_value aligned_def)
    then have "p = PHYSTOP" using split [of PHYSTOP] False \<open>p \<le> PHYSTOP\<close> by auto
    then have "set ps = {q. page_ok (kend s) q}" using 1 by (auto simp: page_ok_def)
    then show ?thesis using False 1 by (subst freerange_loop.simps) auto
  qed
qed

section \<open>Properties\<close>

text \<open>
  C25: \<^verbatim>\<open>kinit\<close> hands every whole page between \<^verbatim>\<open>end\<close> and \<^verbatim>\<open>PHYSTOP\<close> to the allocator, each one once:
  it returns without panic and the free list then runs, without repetition, through exactly the
  page-aligned addresses of that range.
\<close>

theorem kinit_frees_all_memory:
  assumes "freelist s = 0" "kmem_ready s" "0 < kend s" "kend s \<le> PHYSTOP"
  shows "\<exists>t ps. kinit s = Ok t \<and> free_pages t ps \<and> distinct ps \<and>
           set ps = {p. aligned p \<and> kend s \<le> p \<and> p < PHYSTOP} \<and> held t = held s"
proof -
  have e: "unat (kend s) \<le> 0x88000000" "0 < unat (kend s)"
    using assms(3,4) by (simp_all add: PHYSTOP_value word_le_nat_alt word_less_nat_alt)
  have up: "unat (PGROUNDUP (kend s)) = (unat (kend s) + 4095) div 4096 * 4096"
    using e by (intro unat_PGROUNDUP) simp
  have ge: "kend s \<le> PGROUNDUP (kend s)"
    unfolding word_le_nat_alt up by linarith
  have "(unat (kend s) + 4095) div 4096 \<le> 0x88000" using e(1) by linarith
  then have le: "PGROUNDUP (kend s) \<le> PHYSTOP"
    unfolding word_le_nat_alt up PHYSTOP_value by simp
  have none: "\<not> q < PGROUNDUP (kend s)" if q: "aligned q" "kend s \<le> q" for q
  proof -
    obtain j where j: "unat q = 4096 * j"
      using q(1) by (auto simp: aligned_iff_unat mod_eq_0_iff_dvd elim!: dvdE)
    have "unat (kend s) \<le> 4096 * j" using q(2) j by (simp add: word_le_nat_alt)
    then have "(unat (kend s) + 4095) div 4096 \<le> j" by linarith
    then show ?thesis unfolding word_less_nat_alt up j by simp
  qed
  have "free_pages s []" using assms(1) by (simp add: free_pages_def)
  moreover have "set [] = {q. page_ok (kend s) q \<and> q < PGROUNDUP (kend s)}"
    using none by (auto simp: page_ok_def)
  moreover have "PGROUNDUP (kend s) \<noteq> 0" using ge assms(3) by auto
  ultimately obtain t qs where "freerange_loop (PGROUNDUP (kend s)) PHYSTOP s = Ok t"
    "free_pages t qs" "set qs = {q. page_ok (kend s) q}" "held t = held s"
    using freerange_loop_frees [of s "[]" "PGROUNDUP (kend s)"] assms(2) ge le by auto
  moreover have "page_ok (kend s) q \<longleftrightarrow> aligned q \<and> kend s \<le> q \<and> q < PHYSTOP" for q
    using assms(3) by (auto simp: page_ok_def)
  ultimately show ?thesis by (auto simp: kinit_def freerange_def free_pages_def)
qed

theorem kinit_frees_all_memory_witness:
  fixes s :: kmem
  defines "s \<equiv> \<lparr>held = [], mem = (\<lambda>_. 0), freelist = 0, kend = 0x80026018\<rparr>"
  shows "\<exists>t ps. kinit s = Ok t \<and> free_pages t ps \<and> distinct ps \<and>
           set ps = {p. aligned p \<and> 0x80026018 \<le> p \<and> p < PHYSTOP} \<and> held t = []"
  using kinit_frees_all_memory [of s] by (simp add: s_def kmem_ready_def PHYSTOP_value)

text \<open>
  C26: \<^verbatim>\<open>kalloc\<close> never gives out the same page twice: \<open>n\<close> calls in a row, none of the pages being freed
  in between, return \<open>n\<close> different non-null pages of the managed range as long as the free list has
  that many, all of them gone from the free list afterwards.
\<close>

theorem kallocs_give_distinct_pages:
  assumes "free_pages s ps" "kmem_ready s" "n \<le> length ps"
  shows "\<exists>t rs. (((\<lambda>x. rbind x (\<lambda>(rs, s). rbind (kalloc s) (\<lambda>(r, s). Ok (rs @ [r], s)))) ^^ n)
                  (Ok ([], s))) = Ok (rs, t) \<and>
           length rs = n \<and> distinct rs \<and> (\<forall>r \<in> set rs. page_ok (kend s) r) \<and>
           free_pages t (drop n ps) \<and> set rs \<inter> set (drop n ps) = {}"
proof -
  have "distinct ps" "\<forall>r \<in> set (take n ps). page_ok (kend s) r"
    using assms(1) by (auto simp: free_pages_def dest: in_set_takeD)
  then show ?thesis
    using km.allocs_distinct [OF assms] assms(3) set_take_disj_set_drop_if_distinct [of ps n n]
    by (auto simp: min_def)
qed

theorem kallocs_give_distinct_pages_witness:
  "\<exists>(s :: kmem) t rs. free_pages s [0x80030000, 0x80031000] \<and>
     (((\<lambda>x. rbind x (\<lambda>(rs, s). rbind (kalloc s) (\<lambda>(r, s). Ok (rs @ [r], s)))) ^^ 2) (Ok ([], s))) = Ok (rs, t)
     \<and> length rs = 2 \<and> distinct rs \<and> (\<forall>r \<in> set rs. page_ok (kend s) r) \<and>
     free_pages t [] \<and> set rs \<inter> {} = {}"
proof -
  define s0 :: kmem where "s0 = \<lparr>held = [], mem = (\<lambda>_. 0), freelist = 0, kend = 0x80026018\<rparr>"
  let ?s = "pushed 0x80030000 (pushed 0x80031000 s0)"
  have "free_pages s0 []" "kend s0 = 0x80026018" "held s0 = []"
    by (simp_all add: s0_def free_pages_def)
  moreover have "page_ok 0x80026018 0x80030000" "page_ok 0x80026018 0x80031000"
    by (simp_all add: page_ok_def aligned_def PHYSTOP_value)
  ultimately have "free_pages ?s [0x80030000, 0x80031000]"
    by (simp add: pushed_free_pages)
  moreover have "kmem_ready ?s" by (simp add: kmem_ready_def s0_def)
  ultimately show ?thesis
    using kallocs_give_distinct_pages [of ?s "[0x80030000, 0x80031000]" 2] by fastforce
qed

end
