(* ===== verification/Vm.thy ===== *)
theory Vm
  imports Kalloc
begin

text \<open>
  Page tables and user memory, \<^verbatim>\<open>kernel/vm.c\<close>. Page tables live in the byte memory, as three levels
  of pages of 512 entries; every function of the file reads and writes them there and takes pages
  from the allocator. A kernel buffer that \<^verbatim>\<open>copyin\<close>, \<^verbatim>\<open>copyout\<close> or \<^verbatim>\<open>copyinstr\<close> copies from or to is
  the array of its bytes. The theory ends with the definitions; their properties are in the
  theories \<open>Page_Table\<close> and \<open>User_Memory\<close>.
\<close>

type_synonym pagetable_t = u64

section \<open>Walking a page table\<close>

text \<open>\<^verbatim>\<open>&pagetable[i]\<close>\<close>

definition slot :: "pagetable_t \<Rightarrow> u64 \<Rightarrow> u64" where
  "slot pagetable i = pagetable + 8 * i"

fun walk_levels :: "nat \<Rightarrow> pagetable_t \<Rightarrow> u64 \<Rightarrow> bool \<Rightarrow> 'a kmem_scheme \<Rightarrow> (u64 \<times> 'a kmem_scheme) outcome" where
  "walk_levels 0 pagetable va alloc s = Ok (slot pagetable (PX 0 va), s)"
| "walk_levels (Suc l) pagetable va alloc s =
     (let pte = slot pagetable (PX (Suc l) va);
          v = load64 (mem s) pte in
      if v AND PTE_V \<noteq> 0 then walk_levels l (PTE2PA v) va alloc s
      else if \<not> alloc then Ok (0, s)
      else
        rbind (kalloc s) (\<lambda>(pagetable, s).
        if pagetable = 0 then Ok (0, s)
        else
          (let s = s\<lparr>mem := memset (mem s) pagetable 0 PGSIZE\<rparr>;
               s = s\<lparr>mem := store64 (mem s) pte (PA2PTE pagetable OR PTE_V)\<rparr> in
           walk_levels l pagetable va alloc s)))"

definition walk :: "pagetable_t \<Rightarrow> u64 \<Rightarrow> bool \<Rightarrow> 'a kmem_scheme \<Rightarrow> (u64 \<times> 'a kmem_scheme) outcome" where
  "walk pagetable va alloc s =
     (if va \<ge> MAXVA then Panic ''walk'' else walk_levels 2 pagetable va alloc s)"

definition walkaddr :: "pagetable_t \<Rightarrow> u64 \<Rightarrow> 'a kmem_scheme \<Rightarrow> u64 outcome" where
  "walkaddr pagetable va s =
     (if va \<ge> MAXVA then Ok 0
      else
        rbind (walk pagetable va False s) (\<lambda>(pte, s).
        if pte = 0 then Ok 0
        else if load64 (mem s) pte AND PTE_V = 0 then Ok 0
        else if load64 (mem s) pte AND PTE_U = 0 then Ok 0
        else Ok (PTE2PA (load64 (mem s) pte))))"

lemma walk_below_MAXVA: "walk pagetable va alloc s = Ok r \<Longrightarrow> unat va < 0x4000000000"
  by (auto simp: walk_def MAXVA_value not_le word_less_nat_alt split: if_splits)

lemma next_page_measure:
  "unat a < 0x4000001000 \<Longrightarrow>
   18446744073709551616 - unat (a + 4096 :: u64) < (18446744073709551616 - unat a :: nat)"
  by (simp add: unat_plus_if')

section \<open>Adding and removing mappings\<close>

function mappages_loop ::
  "pagetable_t \<Rightarrow> u64 \<Rightarrow> u64 \<Rightarrow> u64 \<Rightarrow> u64 \<Rightarrow> 'a kmem_scheme \<Rightarrow> (int \<times> 'a kmem_scheme) outcome" where
  "mappages_loop pagetable a lastpg pa perm s =
     rbind (walk pagetable a True s) (\<lambda>(pte, s).
     if pte = 0 then Ok (-1, s)
     else if load64 (mem s) pte AND PTE_V \<noteq> 0 then Panic ''remap''
     else
       (let s = s\<lparr>mem := store64 (mem s) pte (PA2PTE pa OR perm OR PTE_V)\<rparr> in
        if a = lastpg then Ok (0, s)
        else mappages_loop pagetable (a + 4096) lastpg (pa + 4096) perm s))"
  by pat_completeness auto
termination
  by (relation "measure (\<lambda>(pagetable, a, lastpg, pa, perm, s). 2 ^ 64 - unat a)")
     (auto dest!: walk_below_MAXVA simp: next_page_measure)

declare mappages_loop.simps [simp del]

definition mappages ::
  "pagetable_t \<Rightarrow> u64 \<Rightarrow> u64 \<Rightarrow> u64 \<Rightarrow> u64 \<Rightarrow> 'a kmem_scheme \<Rightarrow> (int \<times> 'a kmem_scheme) outcome" where
  "mappages pagetable va sz pa perm s =
     mappages_loop pagetable (PGROUNDDOWN va) (PGROUNDDOWN (va + sz - 1)) pa perm s"

definition kvmmap ::
  "pagetable_t \<Rightarrow> u64 \<Rightarrow> u64 \<Rightarrow> u64 \<Rightarrow> u64 \<Rightarrow> 'a kmem_scheme \<Rightarrow> 'a kmem_scheme outcome" where
  "kvmmap kpgtbl va pa sz perm s =
     rbind (mappages kpgtbl va sz pa perm s) (\<lambda>(r, s).
     if r \<noteq> 0 then Panic ''kvmmap'' else Ok s)"

text \<open>\<^verbatim>\<open>proc_mapstacks\<close> with \<open>k\<close> processes left, the next one having index \<open>i\<close>.\<close>

fun proc_mapstacks :: "pagetable_t \<Rightarrow> nat \<Rightarrow> nat \<Rightarrow> 'a kmem_scheme \<Rightarrow> 'a kmem_scheme outcome" where
  "proc_mapstacks kpgtbl i 0 s = Ok s"
| "proc_mapstacks kpgtbl i (Suc k) s =
     rbind (kalloc s) (\<lambda>(pa, s).
     if pa = 0 then Panic ''kalloc''
     else
       rbind (kvmmap kpgtbl (KSTACK (of_nat i)) pa 4096 (PTE_R OR PTE_W) s) (\<lambda>s.
       proc_mapstacks kpgtbl (Suc i) k s))"

text \<open>The symbols \<^verbatim>\<open>etext\<close> and \<^verbatim>\<open>trampoline\<close> of the linker script are arguments.\<close>

definition kvmmake :: "u64 \<Rightarrow> u64 \<Rightarrow> 'a kmem_scheme \<Rightarrow> (pagetable_t \<times> 'a kmem_scheme) outcome" where
  "kvmmake etext trampoline s =
     rbind (kalloc s) (\<lambda>(kpgtbl, s).
     let s = s\<lparr>mem := memset (mem s) kpgtbl 0 PGSIZE\<rparr> in
     rbind (kvmmap kpgtbl UART0 UART0 4096 (PTE_R OR PTE_W) s) (\<lambda>s.
     rbind (kvmmap kpgtbl VIRTIO0 VIRTIO0 4096 (PTE_R OR PTE_W) s) (\<lambda>s.
     rbind (kvmmap kpgtbl 0x30000000 0x30000000 0x10000000 (PTE_R OR PTE_W) s) (\<lambda>s.
     rbind (kvmmap kpgtbl 0x40000000 0x40000000 0x20000 (PTE_R OR PTE_W) s) (\<lambda>s.
     rbind (kvmmap kpgtbl PLIC PLIC 0x400000 (PTE_R OR PTE_W) s) (\<lambda>s.
     rbind (kvmmap kpgtbl KERNBASE KERNBASE (etext - KERNBASE) (PTE_R OR PTE_X) s) (\<lambda>s.
     rbind (kvmmap kpgtbl etext etext (PHYSTOP - etext) (PTE_R OR PTE_W) s) (\<lambda>s.
     rbind (kvmmap kpgtbl TRAMPOLINE trampoline 4096 (PTE_R OR PTE_X) s) (\<lambda>s.
     rbind (proc_mapstacks kpgtbl 0 64 s) (\<lambda>s.
     Ok (kpgtbl, s)))))))))))"

function uvmunmap_loop ::
  "pagetable_t \<Rightarrow> u64 \<Rightarrow> u64 \<Rightarrow> bool \<Rightarrow> 'a kmem_scheme \<Rightarrow> 'a kmem_scheme outcome" where
  "uvmunmap_loop pagetable a fin do_free s =
     (if a < fin then
        rbind (walk pagetable a False s) (\<lambda>(pte, s).
        if pte = 0 then Panic ''uvmunmap: walk''
        else if load64 (mem s) pte AND PTE_V = 0 then Panic ''uvmunmap: not mapped''
        else if PTE_FLAGS (load64 (mem s) pte) = PTE_V then Panic ''uvmunmap: not a leaf''
        else
          rbind (if do_free then kfree (PTE2PA (load64 (mem s) pte)) s else Ok s) (\<lambda>s.
          let s = s\<lparr>mem := store64 (mem s) pte 0\<rparr> in
          uvmunmap_loop pagetable (a + 4096) fin do_free s))
      else Ok s)"
  by pat_completeness auto
termination
  by (relation "measure (\<lambda>(pagetable, a, fin, do_free, s). 2 ^ 64 - unat a)")
     (auto dest!: walk_below_MAXVA simp: next_page_measure)

declare uvmunmap_loop.simps [simp del]

definition uvmunmap ::
  "pagetable_t \<Rightarrow> u64 \<Rightarrow> u64 \<Rightarrow> bool \<Rightarrow> 'a kmem_scheme \<Rightarrow> 'a kmem_scheme outcome" where
  "uvmunmap pagetable va npages do_free s =
     (if va mod 4096 \<noteq> 0 then Panic ''uvmunmap: not aligned''
      else uvmunmap_loop pagetable va (va + npages * 4096) do_free s)"

section \<open>User address spaces\<close>

definition uvmcreate :: "'a kmem_scheme \<Rightarrow> (pagetable_t \<times> 'a kmem_scheme) outcome" where
  "uvmcreate s =
     rbind (kalloc s) (\<lambda>(pagetable, s).
     if pagetable = 0 then Ok (0, s)
     else Ok (pagetable, s\<lparr>mem := memset (mem s) pagetable 0 PGSIZE\<rparr>))"

text \<open>Copying between a kernel buffer, an array of bytes of its own, and physical memory.\<close>

definition put_bytes :: "memory \<Rightarrow> u64 \<Rightarrow> cstr \<Rightarrow> nat \<Rightarrow> nat \<Rightarrow> memory" where
  "put_bytes m dst src i n = (\<lambda>a. if unat (a - dst) < n then src (i + unat (a - dst)) else m a)"

definition get_bytes :: "memory \<Rightarrow> u64 \<Rightarrow> cstr \<Rightarrow> nat \<Rightarrow> nat \<Rightarrow> cstr" where
  "get_bytes m src dst i n = (\<lambda>j. if i \<le> j \<and> j < i + n then m (src + of_nat (j - i)) else dst j)"

definition uvminit :: "pagetable_t \<Rightarrow> cstr \<Rightarrow> u32 \<Rightarrow> 'a kmem_scheme \<Rightarrow> 'a kmem_scheme outcome" where
  "uvminit pagetable src sz s =
     (if sz \<ge> 4096 then Panic ''inituvm: more than a page''
      else
        rbind (kalloc s) (\<lambda>(p, s).
        let s = s\<lparr>mem := memset (mem s) p 0 PGSIZE\<rparr> in
        rbind (mappages pagetable 0 4096 p (PTE_W OR PTE_R OR PTE_X OR PTE_U) s) (\<lambda>(r, s).
        Ok (s\<lparr>mem := put_bytes (mem s) p src 0 (unat sz)\<rparr>))))"

definition uvmdealloc ::
  "pagetable_t \<Rightarrow> u64 \<Rightarrow> u64 \<Rightarrow> 'a kmem_scheme \<Rightarrow> (u64 \<times> 'a kmem_scheme) outcome" where
  "uvmdealloc pagetable oldsz newsz s =
     (if newsz \<ge> oldsz then Ok (oldsz, s)
      else if PGROUNDUP newsz < PGROUNDUP oldsz then
        (let npages = scast (ucast ((PGROUNDUP oldsz - PGROUNDUP newsz) div 4096) :: u32) in
         rbind (uvmunmap pagetable (PGROUNDUP newsz) npages True s) (\<lambda>s. Ok (newsz, s)))
      else Ok (newsz, s))"

lemma mappages_below_MAXVA:
  "mappages pagetable a sz pa perm s = Ok r \<Longrightarrow> unat a < 0x4000001000"
proof -
  assume "mappages pagetable a sz pa perm s = Ok r"
  then obtain x where "walk pagetable (PGROUNDDOWN a) True s = Ok x"
    by (auto simp: mappages_def mappages_loop.simps [of pagetable "PGROUNDDOWN a"] elim!: rbind_OkE)
  then have "unat (PGROUNDDOWN a) < 0x4000000000" by (rule walk_below_MAXVA)
  moreover have "unat a mod 4096 < 4096" by simp
  ultimately show ?thesis unfolding unat_PGROUNDDOWN by linarith
qed

text \<open>The body of \<^verbatim>\<open>for(a = oldsz; a < newsz; a += PGSIZE)\<close>; \<open>start\<close> is the rounded \<^verbatim>\<open>oldsz\<close>.\<close>

function uvmalloc_loop ::
  "pagetable_t \<Rightarrow> u64 \<Rightarrow> u64 \<Rightarrow> u64 \<Rightarrow> 'a kmem_scheme \<Rightarrow> (u64 \<times> 'a kmem_scheme) outcome" where
  "uvmalloc_loop pagetable a start newsz s =
     (if a < newsz then
        rbind (kalloc s) (\<lambda>(p, s).
        if p = 0 then rbind (uvmdealloc pagetable a start s) (\<lambda>(_, s). Ok (0, s))
        else
          (let s = s\<lparr>mem := memset (mem s) p 0 PGSIZE\<rparr> in
           rbind (mappages pagetable a 4096 p (PTE_W OR PTE_X OR PTE_R OR PTE_U) s) (\<lambda>(r, s).
           if r \<noteq> 0 then
             rbind (kfree p s) (\<lambda>s. rbind (uvmdealloc pagetable a start s) (\<lambda>(_, s). Ok (0, s)))
           else uvmalloc_loop pagetable (a + 4096) start newsz s)))
      else Ok (newsz, s))"
  by pat_completeness auto
termination
  by (relation "measure (\<lambda>(pagetable, a, start, newsz, s). 2 ^ 64 - unat a)")
     (auto dest!: mappages_below_MAXVA simp: next_page_measure)

declare uvmalloc_loop.simps [simp del]

definition uvmalloc ::
  "pagetable_t \<Rightarrow> u64 \<Rightarrow> u64 \<Rightarrow> 'a kmem_scheme \<Rightarrow> (u64 \<times> 'a kmem_scheme) outcome" where
  "uvmalloc pagetable oldsz newsz s =
     (if newsz < oldsz then Ok (oldsz, s)
      else uvmalloc_loop pagetable (PGROUNDUP oldsz) (PGROUNDUP oldsz) newsz s)"

text \<open>
  The recursion of \<^verbatim>\<open>freewalk\<close> follows the page table, which nothing but its shape keeps from being
  cyclic: \<open>depth\<close> bounds the recursion and \<open>None\<close> stands for running out of it. A table of three
  levels needs \<open>depth = 3\<close>. \<open>freewalk_loop\<close> has \<open>k\<close> entries left.
\<close>

definition obind :: "'a outcome option \<Rightarrow> ('a \<Rightarrow> 'b outcome option) \<Rightarrow> 'b outcome option" where
  "obind x f = (case x of None \<Rightarrow> None | Some (Ok y) \<Rightarrow> f y | Some (Panic msg) \<Rightarrow> Some (Panic msg)
     | Some (Blocks c) \<Rightarrow> Some (Blocks c) | Some Unfinished \<Rightarrow> Some Unfinished)"

fun freewalk_loop :: "(pagetable_t \<Rightarrow> 'a kmem_scheme \<Rightarrow> 'a kmem_scheme outcome option) \<Rightarrow>
    pagetable_t \<Rightarrow> u64 \<Rightarrow> nat \<Rightarrow> 'a kmem_scheme \<Rightarrow> 'a kmem_scheme outcome option" where
  "freewalk_loop rec pagetable i 0 s = Some (Ok s)"
| "freewalk_loop rec pagetable i (Suc k) s =
     (let pte = load64 (mem s) (slot pagetable i) in
      if pte AND PTE_V \<noteq> 0 \<and> pte AND (PTE_R OR PTE_W OR PTE_X) = 0 then
        obind (rec (PTE2PA pte) s) (\<lambda>s.
        let s = s\<lparr>mem := store64 (mem s) (slot pagetable i) 0\<rparr> in
        freewalk_loop rec pagetable (i + 1) k s)
      else if pte AND PTE_V \<noteq> 0 then Some (Panic ''freewalk: leaf'')
      else freewalk_loop rec pagetable (i + 1) k s)"

fun freewalk :: "nat \<Rightarrow> pagetable_t \<Rightarrow> 'a kmem_scheme \<Rightarrow> 'a kmem_scheme outcome option" where
  "freewalk 0 pagetable s = None"
| "freewalk (Suc depth) pagetable s =
     obind (freewalk_loop (freewalk depth) pagetable 0 512 s) (\<lambda>s. Some (kfree pagetable s))"

definition uvmfree :: "nat \<Rightarrow> pagetable_t \<Rightarrow> u64 \<Rightarrow> 'a kmem_scheme \<Rightarrow> 'a kmem_scheme outcome option" where
  "uvmfree depth pagetable sz s =
     obind (Some (if sz > 0 then uvmunmap pagetable 0 (PGROUNDUP sz div 4096) True s else Ok s))
       (\<lambda>s. freewalk depth pagetable s)"

function uvmcopy_loop ::
  "pagetable_t \<Rightarrow> pagetable_t \<Rightarrow> u64 \<Rightarrow> u64 \<Rightarrow> 'a kmem_scheme \<Rightarrow> (int \<times> 'a kmem_scheme) outcome" where
  "uvmcopy_loop old new i sz s =
     (if i < sz then
        rbind (walk old i False s) (\<lambda>(pte, s).
        if pte = 0 then Panic ''uvmcopy: pte should exist''
        else if load64 (mem s) pte AND PTE_V = 0 then Panic ''uvmcopy: page not present''
        else
          (let pa = PTE2PA (load64 (mem s) pte);
               flags = PTE_FLAGS (load64 (mem s) pte) in
           rbind (kalloc s) (\<lambda>(p, s).
           if p = 0 then rbind (uvmunmap new 0 (i div 4096) True s) (\<lambda>s. Ok (-1, s))
           else
             (let s = s\<lparr>mem := memmove (mem s) p pa PGSIZE\<rparr> in
              rbind (mappages new i 4096 p flags s) (\<lambda>(r, s).
              if r \<noteq> 0 then
                rbind (kfree p s) (\<lambda>s.
                rbind (uvmunmap new 0 (i div 4096) True s) (\<lambda>s. Ok (-1, s)))
              else uvmcopy_loop old new (i + 4096) sz s)))))
      else Ok (0, s))"
  by pat_completeness auto
termination
  by (relation "measure (\<lambda>(old, new, i, sz, s). 2 ^ 64 - unat i)")
     (auto dest!: walk_below_MAXVA simp: next_page_measure)

declare uvmcopy_loop.simps [simp del]

definition uvmcopy ::
  "pagetable_t \<Rightarrow> pagetable_t \<Rightarrow> u64 \<Rightarrow> 'a kmem_scheme \<Rightarrow> (int \<times> 'a kmem_scheme) outcome" where
  "uvmcopy old new sz s = uvmcopy_loop old new 0 sz s"

definition uvmclear :: "pagetable_t \<Rightarrow> u64 \<Rightarrow> 'a kmem_scheme \<Rightarrow> 'a kmem_scheme outcome" where
  "uvmclear pagetable va s =
     rbind (walk pagetable va False s) (\<lambda>(pte, s).
     if pte = 0 then Panic ''uvmclear''
     else Ok (s\<lparr>mem := store64 (mem s) pte (load64 (mem s) pte AND NOT PTE_U)\<rparr>))"

section \<open>Copying to and from user space\<close>

lemma chunk_positive:
  fixes len va :: u64
  assumes "len \<noteq> 0"
  defines "n \<equiv> min (4096 - (va - PGROUNDDOWN va)) len"
  shows "unat (len - n) < unat len" "0 < unat n" "unat n \<le> unat len" "unat n \<le> 4096 - unat va mod 4096"
proof -
  have off: "unat (va - PGROUNDDOWN va) = unat va mod 4096" by (rule PGROUNDDOWN_offset)
  have lt: "unat va mod 4096 < 4096" by simp
  then have "va - PGROUNDDOWN va \<le> 4096" using off by (simp add: word_le_nat_alt)
  then have room: "unat (4096 - (va - PGROUNDDOWN va)) = 4096 - unat va mod 4096"
    using off by (simp add: unat_sub)
  have n: "unat n = min (4096 - unat va mod 4096) (unat len)"
    unfolding n_def using room by (auto simp: min_def word_le_nat_alt)
  have len: "0 < unat len" using assms(1) by (simp add: unat_gt_0)
  show "0 < unat n" "unat n \<le> unat len" "unat n \<le> 4096 - unat va mod 4096"
    using n len lt by auto
  then show "unat (len - n) < unat len" by (subst unat_sub) (auto simp: word_le_nat_alt)
qed

text \<open>\<open>i\<close> is how far \<^verbatim>\<open>src\<close> or \<^verbatim>\<open>dst\<close> has advanced in the kernel buffer.\<close>

function copyout_loop ::
  "pagetable_t \<Rightarrow> u64 \<Rightarrow> cstr \<Rightarrow> nat \<Rightarrow> u64 \<Rightarrow> 'a kmem_scheme \<Rightarrow> (int \<times> 'a kmem_scheme) outcome" where
  "copyout_loop pagetable dstva src i len s =
     (if len \<noteq> 0 then
        (let va0 = PGROUNDDOWN dstva in
         rbind (walkaddr pagetable va0 s) (\<lambda>pa0.
         if pa0 = 0 then Ok (-1, s)
         else
           (let n = min (4096 - (dstva - va0)) len;
                s = s\<lparr>mem := put_bytes (mem s) (pa0 + (dstva - va0)) src i (unat n)\<rparr> in
            copyout_loop pagetable (va0 + 4096) src (i + unat n) (len - n) s)))
      else Ok (0, s))"
  by pat_completeness auto
termination
  by (relation "measure (\<lambda>(pagetable, dstva, src, i, len, s). unat len)") (auto simp: chunk_positive)

declare copyout_loop.simps [simp del]

definition copyout ::
  "pagetable_t \<Rightarrow> u64 \<Rightarrow> cstr \<Rightarrow> u64 \<Rightarrow> 'a kmem_scheme \<Rightarrow> (int \<times> 'a kmem_scheme) outcome" where
  "copyout pagetable dstva src len s = copyout_loop pagetable dstva src 0 len s"

function copyin_loop ::
  "pagetable_t \<Rightarrow> cstr \<Rightarrow> nat \<Rightarrow> u64 \<Rightarrow> u64 \<Rightarrow> 'a kmem_scheme \<Rightarrow> (int \<times> cstr) outcome" where
  "copyin_loop pagetable dst i srcva len s =
     (if len \<noteq> 0 then
        (let va0 = PGROUNDDOWN srcva in
         rbind (walkaddr pagetable va0 s) (\<lambda>pa0.
         if pa0 = 0 then Ok (-1, dst)
         else
           (let n = min (4096 - (srcva - va0)) len;
                dst = get_bytes (mem s) (pa0 + (srcva - va0)) dst i (unat n) in
            copyin_loop pagetable dst (i + unat n) (va0 + 4096) (len - n) s)))
      else Ok (0, dst))"
  by pat_completeness auto
termination
  by (relation "measure (\<lambda>(pagetable, dst, i, srcva, len, s). unat len)") (auto simp: chunk_positive)

declare copyin_loop.simps [simp del]

definition copyin ::
  "pagetable_t \<Rightarrow> cstr \<Rightarrow> u64 \<Rightarrow> u64 \<Rightarrow> 'a kmem_scheme \<Rightarrow> (int \<times> cstr) outcome" where
  "copyin pagetable dst srcva len s = copyin_loop pagetable dst 0 srcva len s"

text \<open>The inner loop of \<^verbatim>\<open>copyinstr\<close>: whether it met a NUL, and the buffer.\<close>

fun copyinstr_chunk :: "memory \<Rightarrow> u64 \<Rightarrow> cstr \<Rightarrow> nat \<Rightarrow> nat \<Rightarrow> bool \<times> cstr" where
  "copyinstr_chunk m p dst i 0 = (False, dst)"
| "copyinstr_chunk m p dst i (Suc n) =
     (if m p = 0 then (True, dst(i := 0))
      else copyinstr_chunk m (p + 1) (dst(i := m p)) (Suc i) n)"

function copyinstr_loop ::
  "pagetable_t \<Rightarrow> cstr \<Rightarrow> nat \<Rightarrow> u64 \<Rightarrow> u64 \<Rightarrow> 'a kmem_scheme \<Rightarrow> (int \<times> cstr) outcome" where
  "copyinstr_loop pagetable dst i srcva maxn s =
     (if maxn \<noteq> 0 then
        (let va0 = PGROUNDDOWN srcva in
         rbind (walkaddr pagetable va0 s) (\<lambda>pa0.
         if pa0 = 0 then Ok (-1, dst)
         else
           (let n = min (4096 - (srcva - va0)) maxn;
                (got_null, dst) = copyinstr_chunk (mem s) (pa0 + (srcva - va0)) dst i (unat n) in
            if got_null then Ok (0, dst)
            else copyinstr_loop pagetable dst (i + unat n) (va0 + 4096) (maxn - n) s)))
      else Ok (-1, dst))"
  by pat_completeness auto
termination
  by (relation "measure (\<lambda>(pagetable, dst, i, srcva, maxn, s). unat maxn)") (auto simp: chunk_positive)

declare copyinstr_loop.simps [simp del]

definition copyinstr ::
  "pagetable_t \<Rightarrow> cstr \<Rightarrow> u64 \<Rightarrow> u64 \<Rightarrow> 'a kmem_scheme \<Rightarrow> (int \<times> cstr) outcome" where
  "copyinstr pagetable dst srcva maxn s = copyinstr_loop pagetable dst 0 srcva maxn s"

end
