(* ===== verification/Proc.thy ===== *)
theory Proc
  imports Vm
begin

text \<open>
  Processes, \<^verbatim>\<open>kernel/proc.c\<close> and \<^verbatim>\<open>kernel/proc.h\<close>: the process table, its allocation and release,
  sleeping and waking, the scheduler and \<^verbatim>\<open>wait()\<close>. A pointer into the table is an index; the
  trapframe of a process stays in the byte memory at its page, field by field. \<^verbatim>\<open>fork()\<close> and
  \<^verbatim>\<open>exit()\<close> need the file system and are in the theory \<open>Fork_Exit\<close>.
\<close>

section \<open>State\<close>

record kcontext =
  ctx_ra :: u64
  ctx_sp :: u64
  ctx_s :: "nat \<Rightarrow> u64"

datatype procstate = UNUSED | SLEEPING | RUNNABLE | RUNNING | ZOMBIE

datatype tfreg =
    TF_kernel_satp | TF_kernel_sp | TF_kernel_trap | TF_epc | TF_kernel_hartid
  | TF_ra | TF_sp | TF_gp | TF_tp | TF_t0 | TF_t1 | TF_t2 | TF_s0 | TF_s1
  | TF_a0 | TF_a1 | TF_a2 | TF_a3 | TF_a4 | TF_a5 | TF_a6 | TF_a7
  | TF_s2 | TF_s3 | TF_s4 | TF_s5 | TF_s6 | TF_s7 | TF_s8 | TF_s9 | TF_s10 | TF_s11
  | TF_t3 | TF_t4 | TF_t5 | TF_t6

fun tf_offset :: "tfreg \<Rightarrow> u64" where
  "tf_offset TF_kernel_satp = 0" | "tf_offset TF_kernel_sp = 8" | "tf_offset TF_kernel_trap = 16"
| "tf_offset TF_epc = 24" | "tf_offset TF_kernel_hartid = 32" | "tf_offset TF_ra = 40"
| "tf_offset TF_sp = 48" | "tf_offset TF_gp = 56" | "tf_offset TF_tp = 64" | "tf_offset TF_t0 = 72"
| "tf_offset TF_t1 = 80" | "tf_offset TF_t2 = 88" | "tf_offset TF_s0 = 96" | "tf_offset TF_s1 = 104"
| "tf_offset TF_a0 = 112" | "tf_offset TF_a1 = 120" | "tf_offset TF_a2 = 128" | "tf_offset TF_a3 = 136"
| "tf_offset TF_a4 = 144" | "tf_offset TF_a5 = 152" | "tf_offset TF_a6 = 160" | "tf_offset TF_a7 = 168"
| "tf_offset TF_s2 = 176" | "tf_offset TF_s3 = 184" | "tf_offset TF_s4 = 192" | "tf_offset TF_s5 = 200"
| "tf_offset TF_s6 = 208" | "tf_offset TF_s7 = 216" | "tf_offset TF_s8 = 224" | "tf_offset TF_s9 = 232"
| "tf_offset TF_s10 = 240" | "tf_offset TF_s11 = 248" | "tf_offset TF_t3 = 256" | "tf_offset TF_t4 = 264"
| "tf_offset TF_t5 = 272" | "tf_offset TF_t6 = 280"

record proc =
  p_state :: procstate
  p_parent :: "nat option"
  p_chan :: chan
  p_killed :: int
  p_xstate :: u32
  p_pid :: int
  p_kstack :: u64
  p_sz :: u64
  p_pagetable :: pagetable_t
  p_trapframe :: u64
  p_context :: kcontext
  p_ofile :: "nat \<Rightarrow> nat option"
  p_cwd :: "nat option"
  p_name :: cstr

text \<open>
  \<open>curproc\<close> is \<^verbatim>\<open>mycpu()->proc\<close> of the running hart, \<open>forkret_addr\<close> and \<open>trampoline_addr\<close> are the
  addresses of \<^verbatim>\<open>forkret\<close> and \<^verbatim>\<open>trampoline\<close>, and \<open>klocal\<close> holds the bytes of the local variable whose
  address the caller passes to a function that copies to or from kernel memory.
\<close>

record procs = kmem +
  proc :: "nat \<Rightarrow> proc"
  curproc :: "nat option"
  initproc :: "nat option"
  nextpid :: int
  forkret_addr :: u64
  trampoline_addr :: u64
  klocal :: cstr

definition NPROC :: nat where "NPROC = 64"
definition NOFILE :: nat where "NOFILE = 16"

definition upd_proc :: "nat \<Rightarrow> (proc \<Rightarrow> proc) \<Rightarrow> 'a procs_scheme \<Rightarrow> 'a procs_scheme" where
  "upd_proc i f s = s\<lparr>proc := (proc s)(i := f (proc s i))\<rparr>"

definition myproc :: "'a procs_scheme \<Rightarrow> nat option" where
  "myproc s = curproc s"

definition this_proc :: "'a procs_scheme \<Rightarrow> nat" where
  "this_proc s = the (myproc s)"

definition get_tf :: "nat \<Rightarrow> tfreg \<Rightarrow> 'a procs_scheme \<Rightarrow> u64" where
  "get_tf i r s = load64 (mem s) (p_trapframe (proc s i) + tf_offset r)"

definition set_tf :: "nat \<Rightarrow> tfreg \<Rightarrow> u64 \<Rightarrow> 'a procs_scheme \<Rightarrow> 'a procs_scheme" where
  "set_tf i r v s = s\<lparr>mem := store64 (mem s) (p_trapframe (proc s i) + tf_offset r) v\<rparr>"

text \<open>The bytes of an integer variable.\<close>

definition word_bytes :: "'w::len word \<Rightarrow> cstr" where
  "word_bytes v = (\<lambda>i. ucast (drop_bit (8 * i) v))"

section \<open>Table entries\<close>

fun procinit :: "nat \<Rightarrow> nat \<Rightarrow> 'a procs_scheme \<Rightarrow> 'a procs_scheme" where
  "procinit i 0 s = s"
| "procinit i (Suc k) s = procinit (Suc i) k (upd_proc i (\<lambda>p. p\<lparr>p_kstack := KSTACK (of_nat i)\<rparr>) s)"

definition allocpid :: "'a procs_scheme \<Rightarrow> (int \<times> 'a procs_scheme) outcome" where
  "allocpid s =
     rbind (acquire L_pid s) (\<lambda>s.
     let pid = nextpid s;
         s = s\<lparr>nextpid := nextpid s + 1\<rparr> in
     rbind (release L_pid s) (\<lambda>s. Ok (pid, s)))"

definition bounded :: "'a outcome option \<Rightarrow> 'a outcome" where
  "bounded r = (case r of None \<Rightarrow> Unfinished | Some x \<Rightarrow> x)"

definition proc_freepagetable :: "pagetable_t \<Rightarrow> u64 \<Rightarrow> 'a procs_scheme \<Rightarrow> 'a procs_scheme outcome" where
  "proc_freepagetable pagetable sz s =
     rbind (uvmunmap pagetable TRAMPOLINE 1 False s) (\<lambda>s.
     rbind (uvmunmap pagetable TRAPFRAME 1 False s) (\<lambda>s.
     bounded (uvmfree 3 pagetable sz s)))"

definition proc_pagetable :: "nat \<Rightarrow> 'a procs_scheme \<Rightarrow> (pagetable_t \<times> 'a procs_scheme) outcome" where
  "proc_pagetable i s =
     rbind (uvmcreate s) (\<lambda>(pagetable, s).
     if pagetable = 0 then Ok (0, s)
     else
       rbind (mappages pagetable TRAMPOLINE 4096 (trampoline_addr s) (PTE_R OR PTE_X) s) (\<lambda>(r, s).
       if r < 0 then rbind (bounded (uvmfree 3 pagetable 0 s)) (\<lambda>s. Ok (0, s))
       else
         rbind (mappages pagetable TRAPFRAME 4096 (p_trapframe (proc s i)) (PTE_R OR PTE_W) s) (\<lambda>(r, s).
         if r < 0 then
           rbind (uvmunmap pagetable TRAMPOLINE 1 False s) (\<lambda>s.
           rbind (bounded (uvmfree 3 pagetable 0 s)) (\<lambda>s. Ok (0, s)))
         else Ok (pagetable, s))))"

definition freeproc :: "nat \<Rightarrow> 'a procs_scheme \<Rightarrow> 'a procs_scheme outcome" where
  "freeproc i s =
     rbind (if p_trapframe (proc s i) \<noteq> 0 then kfree (p_trapframe (proc s i)) s else Ok s) (\<lambda>s.
     let s = upd_proc i (\<lambda>p. p\<lparr>p_trapframe := 0\<rparr>) s in
     rbind (if p_pagetable (proc s i) \<noteq> 0
            then proc_freepagetable (p_pagetable (proc s i)) (p_sz (proc s i)) s else Ok s) (\<lambda>s.
     Ok (upd_proc i (\<lambda>p. p\<lparr>p_pagetable := 0, p_sz := 0, p_pid := 0, p_parent := None,
           p_name := (p_name p)(0 := 0), p_chan := Chan_none, p_killed := 0, p_xstate := 0,
           p_state := UNUSED\<rparr>) s)))"

text \<open>The search of \<^verbatim>\<open>allocproc\<close> for an unused entry, with \<open>k\<close> entries left from \<open>i\<close> on.\<close>

fun find_unused :: "nat \<Rightarrow> nat \<Rightarrow> 'a procs_scheme \<Rightarrow> (nat option \<times> 'a procs_scheme) outcome" where
  "find_unused i 0 s = Ok (None, s)"
| "find_unused i (Suc k) s =
     rbind (acquire (L_proc i) s) (\<lambda>s.
     if p_state (proc s i) = UNUSED then Ok (Some i, s)
     else rbind (release (L_proc i) s) (\<lambda>s. find_unused (Suc i) k s))"

definition allocproc :: "'a procs_scheme \<Rightarrow> (nat option \<times> 'a procs_scheme) outcome" where
  "allocproc s =
     rbind (find_unused 0 NPROC s) (\<lambda>(found, s).
     case found of
       None \<Rightarrow> Ok (None, s)
     | Some i \<Rightarrow>
         rbind (allocpid s) (\<lambda>(pid, s).
         let s = upd_proc i (\<lambda>p. p\<lparr>p_pid := pid\<rparr>) s in
         rbind (kalloc s) (\<lambda>(tf, s).
         let s = upd_proc i (\<lambda>p. p\<lparr>p_trapframe := tf\<rparr>) s in
         if tf = 0 then rbind (release (L_proc i) s) (\<lambda>s. Ok (None, s))
         else
           rbind (proc_pagetable i s) (\<lambda>(pagetable, s).
           let s = upd_proc i (\<lambda>p. p\<lparr>p_pagetable := pagetable\<rparr>) s in
           if pagetable = 0 then
             rbind (freeproc i s) (\<lambda>s. rbind (release (L_proc i) s) (\<lambda>s. Ok (None, s)))
           else
             Ok (Some i, upd_proc i (\<lambda>p. p\<lparr>p_context :=
               \<lparr>ctx_ra = forkret_addr s, ctx_sp = p_kstack p + 4096, ctx_s = (\<lambda>_. 0)\<rparr>\<rparr>) s)))))"

text \<open>\<^verbatim>\<open>growproc\<close> keeps the size in a 32-bit variable.\<close>

definition growproc :: "u32 \<Rightarrow> 'a procs_scheme \<Rightarrow> (int \<times> 'a procs_scheme) outcome" where
  "growproc n s =
     (let i = this_proc s; p = proc s i; sz = ucast (p_sz p) :: u32 in
      if sint n > 0 then
        rbind (uvmalloc (p_pagetable p) (ucast sz) (ucast (sz + n)) s) (\<lambda>(r, s).
        let sz = ucast r :: u32 in
        if sz = 0 then Ok (-1, s) else Ok (0, upd_proc i (\<lambda>p. p\<lparr>p_sz := ucast sz\<rparr>) s))
      else if sint n < 0 then
        rbind (uvmdealloc (p_pagetable p) (ucast sz) (ucast (sz + n)) s) (\<lambda>(r, s).
        let sz = ucast r :: u32 in
        Ok (0, upd_proc i (\<lambda>p. p\<lparr>p_sz := ucast sz\<rparr>) s))
      else Ok (0, upd_proc i (\<lambda>p. p\<lparr>p_sz := ucast sz\<rparr>) s))"

section \<open>Giving up the processor\<close>

text \<open>
  \<^verbatim>\<open>swtch\<close> leaves the thread until the scheduler picks it again: \<open>Some f\<close> says what the rest of the
  machine made of the state in the meantime, \<open>None\<close> that it is never picked again. A hart that
  holds a lock has interrupts off (theory \<open>Spinlock\<close>) and its nesting depth is the number of its
  locks, which is what the third and fourth test of \<^verbatim>\<open>sched\<close> ask for.
\<close>

definition sched :: "('a procs_scheme \<Rightarrow> 'a procs_scheme) option \<Rightarrow> 'a procs_scheme \<Rightarrow> 'a procs_scheme outcome" where
  "sched wake s =
     (let p = this_proc s in
      if \<not> holding (L_proc p) s then Panic ''sched p->lock''
      else if length (held s) \<noteq> 1 then Panic ''sched locks''
      else if p_state (proc s p) = RUNNING then Panic ''sched running''
      else if held s = [] then Panic ''sched interruptible''
      else case wake of None \<Rightarrow> Blocks (p_chan (proc s p)) | Some f \<Rightarrow> Ok (f s))"

definition yield :: "('a procs_scheme \<Rightarrow> 'a procs_scheme) option \<Rightarrow> 'a procs_scheme \<Rightarrow> 'a procs_scheme outcome" where
  "yield wake s =
     (let p = this_proc s in
      rbind (acquire (L_proc p) s) (\<lambda>s.
      let s = upd_proc p (\<lambda>q. q\<lparr>p_state := RUNNABLE\<rparr>) s in
      rbind (sched wake s) (\<lambda>s. release (L_proc p) s)))"

definition sleep ::
  "chan \<Rightarrow> lock \<Rightarrow> ('a procs_scheme \<Rightarrow> 'a procs_scheme) option \<Rightarrow> 'a procs_scheme \<Rightarrow> 'a procs_scheme outcome" where
  "sleep chan lk wake s =
     (let p = this_proc s in
      rbind (if lk \<noteq> L_proc p then rbind (acquire (L_proc p) s) (\<lambda>s. release lk s) else Ok s) (\<lambda>s.
      let s = upd_proc p (\<lambda>q. q\<lparr>p_chan := chan, p_state := SLEEPING\<rparr>) s in
      rbind (sched wake s) (\<lambda>s.
      let s = upd_proc p (\<lambda>q. q\<lparr>p_chan := Chan_none\<rparr>) s in
      if lk \<noteq> L_proc p then rbind (release (L_proc p) s) (\<lambda>s. acquire lk s) else Ok s)))"

text \<open>
  \<^verbatim>\<open>for(;;){ body; sleep(chan, lk); }\<close>, which \<open>body\<close> leaves by giving a result. The list says what
  the machine does during each sleep; when it is used up the thread sleeps for good.
\<close>

fun sleep_loop :: "('a procs_scheme \<Rightarrow> ('r option \<times> 'a procs_scheme) outcome) \<Rightarrow> chan \<Rightarrow> lock \<Rightarrow>
    ('a procs_scheme \<Rightarrow> 'a procs_scheme) list \<Rightarrow> 'a procs_scheme \<Rightarrow>
    ('r \<times> ('a procs_scheme \<Rightarrow> 'a procs_scheme) list \<times> 'a procs_scheme) outcome" where
  "sleep_loop body chan lk [] s =
     rbind (body s) (\<lambda>(r, s).
     case r of Some v \<Rightarrow> Ok (v, [], s)
     | None \<Rightarrow> rbind (sleep chan lk None s) (\<lambda>s. Unfinished))"
| "sleep_loop body chan lk (w # env) s =
     rbind (body s) (\<lambda>(r, s).
     case r of Some v \<Rightarrow> Ok (v, w # env, s)
     | None \<Rightarrow> rbind (sleep chan lk (Some w) s) (\<lambda>s. sleep_loop body chan lk env s))"

fun wakeup_loop :: "chan \<Rightarrow> nat \<Rightarrow> nat \<Rightarrow> 'a procs_scheme \<Rightarrow> 'a procs_scheme outcome" where
  "wakeup_loop chan i 0 s = Ok s"
| "wakeup_loop chan i (Suc k) s =
     rbind (acquire (L_proc i) s) (\<lambda>s.
     let s = (if p_state (proc s i) = SLEEPING \<and> p_chan (proc s i) = chan
              then upd_proc i (\<lambda>p. p\<lparr>p_state := RUNNABLE\<rparr>) s else s) in
     rbind (release (L_proc i) s) (\<lambda>s. wakeup_loop chan (Suc i) k s))"

definition wakeup :: "chan \<Rightarrow> 'a procs_scheme \<Rightarrow> 'a procs_scheme outcome" where
  "wakeup chan s = wakeup_loop chan 0 NPROC s"

definition wakeup1 :: "nat \<Rightarrow> 'a procs_scheme \<Rightarrow> 'a procs_scheme outcome" where
  "wakeup1 p s =
     (if \<not> holding (L_proc p) s then Panic ''wakeup1''
      else if p_chan (proc s p) = Chan_proc p \<and> p_state (proc s p) = SLEEPING
      then Ok (upd_proc p (\<lambda>q. q\<lparr>p_state := RUNNABLE\<rparr>) s)
      else Ok s)"

fun kill_loop :: "int \<Rightarrow> nat \<Rightarrow> nat \<Rightarrow> 'a procs_scheme \<Rightarrow> (int \<times> 'a procs_scheme) outcome" where
  "kill_loop pid i 0 s = Ok (-1, s)"
| "kill_loop pid i (Suc k) s =
     rbind (acquire (L_proc i) s) (\<lambda>s.
     if p_pid (proc s i) = pid then
       (let s = upd_proc i (\<lambda>p. p\<lparr>p_killed := 1\<rparr>) s;
            s = (if p_state (proc s i) = SLEEPING then upd_proc i (\<lambda>p. p\<lparr>p_state := RUNNABLE\<rparr>) s else s) in
        rbind (release (L_proc i) s) (\<lambda>s. Ok (0, s)))
     else rbind (release (L_proc i) s) (\<lambda>s. kill_loop pid (Suc i) k s))"

definition kill :: "int \<Rightarrow> 'a procs_scheme \<Rightarrow> (int \<times> 'a procs_scheme) outcome" where
  "kill pid s = kill_loop pid 0 NPROC s"

section \<open>The scheduler\<close>

text \<open>
  One pass of \<^verbatim>\<open>scheduler()\<close> over the table, from entry \<open>i\<close> with \<open>k\<close> left. \<open>run p\<close> is what happens
  between \<^verbatim>\<open>swtch(&c->context, &p->context)\<close> and the process switching back. The pass also counts
  the entries in use; with at most two it ends in \<^verbatim>\<open>wfi\<close>.
\<close>

fun scheduler_pass :: "(nat \<Rightarrow> 'a procs_scheme \<Rightarrow> 'a procs_scheme) \<Rightarrow> nat \<Rightarrow> nat \<Rightarrow> nat \<Rightarrow>
    'a procs_scheme \<Rightarrow> (nat \<times> 'a procs_scheme) outcome" where
  "scheduler_pass run i 0 nproc s = Ok (nproc, s)"
| "scheduler_pass run i (Suc k) nproc s =
     rbind (acquire (L_proc i) s) (\<lambda>s.
     let nproc = (if p_state (proc s i) \<noteq> UNUSED then Suc nproc else nproc);
         s = (if p_state (proc s i) = RUNNABLE then
                (let s = upd_proc i (\<lambda>p. p\<lparr>p_state := RUNNING\<rparr>) s;
                     s = s\<lparr>curproc := Some i\<rparr>;
                     s = run i s in
                 s\<lparr>curproc := None\<rparr>)
              else s) in
     rbind (release (L_proc i) s) (\<lambda>s. scheduler_pass run (Suc i) k nproc s))"

text \<open>\<open>n\<close> turns of the scheduler's endless loop.\<close>

fun scheduler_turns :: "(nat \<Rightarrow> 'a procs_scheme \<Rightarrow> 'a procs_scheme) \<Rightarrow> nat \<Rightarrow> 'a procs_scheme \<Rightarrow> 'a procs_scheme outcome" where
  "scheduler_turns run 0 s = Ok s"
| "scheduler_turns run (Suc n) s =
     rbind (scheduler_pass run 0 NPROC 0 s) (\<lambda>(nproc, s). scheduler_turns run n s)"

definition scheduler :: "(nat \<Rightarrow> 'a procs_scheme \<Rightarrow> 'a procs_scheme) \<Rightarrow> nat \<Rightarrow> 'a procs_scheme \<Rightarrow> 'a procs_scheme outcome" where
  "scheduler run n s = scheduler_turns run n (s\<lparr>curproc := None\<rparr>)"

section \<open>Waiting for a child\<close>

fun reparent_loop :: "nat \<Rightarrow> nat \<Rightarrow> nat \<Rightarrow> 'a procs_scheme \<Rightarrow> 'a procs_scheme outcome" where
  "reparent_loop p i 0 s = Ok s"
| "reparent_loop p i (Suc k) s =
     (if p_parent (proc s i) = Some p then
        rbind (acquire (L_proc i) s) (\<lambda>s.
        let s = upd_proc i (\<lambda>q. q\<lparr>p_parent := initproc s\<rparr>) s in
        rbind (release (L_proc i) s) (\<lambda>s. reparent_loop p (Suc i) k s))
      else reparent_loop p (Suc i) k s)"

definition reparent :: "nat \<Rightarrow> 'a procs_scheme \<Rightarrow> 'a procs_scheme outcome" where
  "reparent p s = reparent_loop p 0 NPROC s"

text \<open>One scan of the table in \<^verbatim>\<open>wait()\<close>: a result with which it returns, and \<^verbatim>\<open>havekids\<close>.\<close>

fun wait_scan :: "nat \<Rightarrow> u64 \<Rightarrow> nat \<Rightarrow> nat \<Rightarrow> bool \<Rightarrow> 'a procs_scheme \<Rightarrow>
    (int option \<times> bool \<times> 'a procs_scheme) outcome" where
  "wait_scan p addr i 0 havekids s = Ok (None, havekids, s)"
| "wait_scan p addr i (Suc k) havekids s =
     (if p_parent (proc s i) = Some p then
        rbind (acquire (L_proc i) s) (\<lambda>s.
        if p_state (proc s i) = ZOMBIE then
          (let pid = p_pid (proc s i) in
           rbind (if addr \<noteq> 0 then copyout (p_pagetable (proc s p)) addr (word_bytes (p_xstate (proc s i))) 4 s
                  else Ok (0, s)) (\<lambda>(r, s).
           if r < 0 then
             rbind (release (L_proc i) s) (\<lambda>s.
             rbind (release (L_proc p) s) (\<lambda>s. Ok (Some (-1), True, s)))
           else
             rbind (freeproc i s) (\<lambda>s.
             rbind (release (L_proc i) s) (\<lambda>s.
             rbind (release (L_proc p) s) (\<lambda>s. Ok (Some pid, True, s))))))
        else rbind (release (L_proc i) s) (\<lambda>s. wait_scan p addr (Suc i) k True s))
      else wait_scan p addr (Suc i) k havekids s)"

definition wait_body :: "nat \<Rightarrow> u64 \<Rightarrow> 'a procs_scheme \<Rightarrow> (int option \<times> 'a procs_scheme) outcome" where
  "wait_body p addr s =
     rbind (wait_scan p addr 0 NPROC False s) (\<lambda>(r, havekids, s).
     case r of Some v \<Rightarrow> Ok (Some v, s)
     | None \<Rightarrow>
         if \<not> havekids \<or> p_killed (proc s p) \<noteq> 0 then rbind (release (L_proc p) s) (\<lambda>s. Ok (Some (-1), s))
         else Ok (None, s))"

definition wait ::
  "u64 \<Rightarrow> ('a procs_scheme \<Rightarrow> 'a procs_scheme) list \<Rightarrow> 'a procs_scheme \<Rightarrow> (int \<times> 'a procs_scheme) outcome" where
  "wait addr env s =
     (let p = this_proc s in
      rbind (acquire (L_proc p) s) (\<lambda>s.
      rbind (sleep_loop (wait_body p addr) (Chan_proc p) (L_proc p) env s) (\<lambda>(r, env, s). Ok (r, s))))"

section \<open>Copying to and from a place given by the caller\<close>

text \<open>
  The pair of a flag \<^verbatim>\<open>user_dst\<close> and an address: a user address, a kernel address, or the caller's
  local variable from some byte on.
\<close>

datatype kptr = User u64 | Kern u64 | Local nat

fun kptr_add :: "kptr \<Rightarrow> nat \<Rightarrow> kptr" where
  "kptr_add (User a) n = User (a + of_nat n)"
| "kptr_add (Kern a) n = Kern (a + of_nat n)"
| "kptr_add (Local k) n = Local (k + n)"

text \<open>The other side is a kernel array, from byte \<open>i\<close> on.\<close>

fun either_copyout :: "kptr \<Rightarrow> cstr \<Rightarrow> nat \<Rightarrow> nat \<Rightarrow> 'a procs_scheme \<Rightarrow> (int \<times> 'a procs_scheme) outcome" where
  "either_copyout (User dst) src i len s =
     copyout_loop (p_pagetable (proc s (this_proc s))) dst src i (of_nat len) s"
| "either_copyout (Kern dst) src i len s = Ok (0, s\<lparr>mem := put_bytes (mem s) dst src i len\<rparr>)"
| "either_copyout (Local k) src i len s =
     Ok (0, s\<lparr>klocal := (\<lambda>j. if k \<le> j \<and> j < k + len then src (i + (j - k)) else klocal s j)\<rparr>)"

fun either_copyin :: "cstr \<Rightarrow> nat \<Rightarrow> kptr \<Rightarrow> nat \<Rightarrow> 'a procs_scheme \<Rightarrow> (int \<times> cstr) outcome" where
  "either_copyin dst i (User src) len s =
     copyin_loop (p_pagetable (proc s (this_proc s))) dst i src (of_nat len) s"
| "either_copyin dst i (Kern src) len s = Ok (0, get_bytes (mem s) src dst i len)"
| "either_copyin dst i (Local k) len s =
     Ok (0, (\<lambda>j. if i \<le> j \<and> j < i + len then klocal s (k + (j - i)) else dst j))"

section \<open>Waking up\<close>

text \<open>What \<^verbatim>\<open>wakeup(chan)\<close> makes of one entry, and of the table.\<close>

definition wake_proc :: "chan \<Rightarrow> proc \<Rightarrow> proc" where
  "wake_proc c p = (if p_state p = SLEEPING \<and> p_chan p = c then p\<lparr>p_state := RUNNABLE\<rparr> else p)"

definition wake_procs :: "chan \<Rightarrow> (nat \<Rightarrow> proc) \<Rightarrow> nat \<Rightarrow> proc" where
  "wake_procs c ps = (\<lambda>i. if i < NPROC then wake_proc c (ps i) else ps i)"

definition woken :: "chan \<Rightarrow> 'a procs_scheme \<Rightarrow> 'a procs_scheme" where
  "woken c s = s\<lparr>proc := wake_procs c (proc s)\<rparr>"

definition no_proc_lock :: "'a lockst_scheme \<Rightarrow> bool" where
  "no_proc_lock s \<longleftrightarrow> (\<forall>i. L_proc i \<notin> set (held s))"

lemma wake_proc_fields [simp]:
  "p_pid (wake_proc c p) = p_pid p" "p_parent (wake_proc c p) = p_parent p"
  "p_killed (wake_proc c p) = p_killed p" "p_pagetable (wake_proc c p) = p_pagetable p"
  "p_sz (wake_proc c p) = p_sz p" "p_trapframe (wake_proc c p) = p_trapframe p"
  "p_cwd (wake_proc c p) = p_cwd p" "p_ofile (wake_proc c p) = p_ofile p"
  "p_chan (wake_proc c p) = p_chan p" "p_xstate (wake_proc c p) = p_xstate p"
  by (simp_all add: wake_proc_def)

lemma proc_woken: "proc (woken c s) i = (if i < NPROC then wake_proc c (proc s i) else proc s i)"
  by (simp add: woken_def wake_procs_def)

lemma woken_fields [simp]:
  "held (woken c s) = held s" "mem (woken c s) = mem s" "curproc (woken c s) = curproc s"
  "freelist (woken c s) = freelist s" "kend (woken c s) = kend s" "initproc (woken c s) = initproc s"
  "nextpid (woken c s) = nextpid s" "klocal (woken c s) = klocal s"
  "procs.more (woken c s) = procs.more s"
  by (simp_all add: woken_def)

lemma woken_pid [simp]: "p_pid (proc (woken c s) i) = p_pid (proc s i)"
  by (simp add: proc_woken)

lemma this_proc_woken [simp]: "this_proc (woken c s) = this_proc s"
  by (simp add: this_proc_def myproc_def)

lemma wakeup_loop_Ok:
  "no_proc_lock s \<Longrightarrow>
   wakeup_loop c i k s = Ok (s\<lparr>proc := (\<lambda>j. if i \<le> j \<and> j < i + k then wake_proc c (proc s j) else proc s j)\<rparr>)"
proof (induction k arbitrary: i s)
  case 0
  have "(\<lambda>j. if i \<le> j \<and> j < i then wake_proc c (proc s j) else proc s j) = proc s" by (rule ext) auto
  then show ?case by simp
next
  case (Suc k)
  have free: "L_proc i \<notin> set (held s)" using Suc.prems by (simp add: no_proc_lock_def)
  have "wakeup_loop c i (Suc k) s =
      wakeup_loop c (Suc i) k (s\<lparr>proc := (proc s)(i := wake_proc c (proc s i))\<rparr>)"
    using free by (auto simp: wake_proc_def upd_proc_def)
  also have "\<dots> = Ok (s\<lparr>proc := (\<lambda>j. if Suc i \<le> j \<and> j < Suc i + k then wake_proc c (((proc s)(i := wake_proc c (proc s i))) j)
      else ((proc s)(i := wake_proc c (proc s i))) j)\<rparr>)"
    using Suc.prems by (subst Suc.IH) (simp_all add: no_proc_lock_def cong: if_cong)
  also have "(\<lambda>j. if Suc i \<le> j \<and> j < Suc i + k then wake_proc c (((proc s)(i := wake_proc c (proc s i))) j)
      else ((proc s)(i := wake_proc c (proc s i))) j) =
      (\<lambda>j. if i \<le> j \<and> j < i + Suc k then wake_proc c (proc s j) else proc s j)"
    by (rule ext) auto
  finally show ?case .
qed

lemma wakeup_Ok: "no_proc_lock s \<Longrightarrow> wakeup c s = Ok (woken c s)"
  by (simp add: wakeup_def wakeup_loop_Ok woken_def wake_procs_def)

end
