(* ===== verification/Sleeplock.thy ===== *)
theory Sleeplock
  imports Proc
begin

text \<open>
  Sleep locks, \<^verbatim>\<open>kernel/sleeplock.c\<close>: the locks of buffers and inodes. A thread that finds one taken
  sleeps on it; the list argument of \<open>acquiresleep\<close> says what the machine does during each of
  these sleeps.
\<close>

record sleeplock =
  sl_locked :: u32
  sl_name :: string
  sl_pid :: int

record sleepst = procs +
  slocks :: "sleeplock_id \<Rightarrow> sleeplock"

text \<open>\<^verbatim>\<open>&lk->lk\<close>\<close>

fun inner :: "sleeplock_id \<Rightarrow> lock" where
  "inner (SL_buf i) = L_buf i"
| "inner (SL_inode i) = L_inode i"

definition upd_slock :: "sleeplock_id \<Rightarrow> (sleeplock \<Rightarrow> sleeplock) \<Rightarrow> 'a sleepst_scheme \<Rightarrow> 'a sleepst_scheme" where
  "upd_slock lk f s = s\<lparr>slocks := (slocks s)(lk := f (slocks s lk))\<rparr>"

definition initsleeplock :: "sleeplock_id \<Rightarrow> string \<Rightarrow> 'a sleepst_scheme \<Rightarrow> 'a sleepst_scheme" where
  "initsleeplock lk nm = upd_slock lk (\<lambda>l. l\<lparr>sl_name := nm, sl_locked := 0, sl_pid := 0\<rparr>)"

definition acquiresleep :: "sleeplock_id \<Rightarrow> ('a sleepst_scheme \<Rightarrow> 'a sleepst_scheme) list \<Rightarrow>
    'a sleepst_scheme \<Rightarrow> 'a sleepst_scheme outcome" where
  "acquiresleep lk env s =
     rbind (acquire (inner lk) s) (\<lambda>s.
     rbind (sleep_loop (\<lambda>s. Ok (if sl_locked (slocks s lk) \<noteq> 0 then None else Some (), s))
              (Chan_sleeplock lk) (inner lk) env s) (\<lambda>(_, env, s).
     let s = upd_slock lk (\<lambda>l. l\<lparr>sl_locked := 1\<rparr>) s;
         s = upd_slock lk (\<lambda>l. l\<lparr>sl_pid := p_pid (proc s (this_proc s))\<rparr>) s in
     release (inner lk) s))"

definition releasesleep :: "sleeplock_id \<Rightarrow> 'a sleepst_scheme \<Rightarrow> 'a sleepst_scheme outcome" where
  "releasesleep lk s =
     rbind (acquire (inner lk) s) (\<lambda>s.
     let s = upd_slock lk (\<lambda>l. l\<lparr>sl_locked := 0\<rparr>) s;
         s = upd_slock lk (\<lambda>l. l\<lparr>sl_pid := 0\<rparr>) s in
     rbind (wakeup (Chan_sleeplock lk) s) (\<lambda>s.
     release (inner lk) s))"

definition holdingsleep :: "sleeplock_id \<Rightarrow> 'a sleepst_scheme \<Rightarrow> (bool \<times> 'a sleepst_scheme) outcome" where
  "holdingsleep lk s =
     rbind (acquire (inner lk) s) (\<lambda>s.
     let r = (sl_locked (slocks s lk) \<noteq> 0 \<and> sl_pid (slocks s lk) = p_pid (proc s (this_proc s))) in
     rbind (release (inner lk) s) (\<lambda>s. Ok (r, s)))"

section \<open>Effect when no one waits\<close>

lemma inner_not_proc [simp]: "inner lk \<noteq> L_proc i" "L_proc i \<noteq> inner lk"
  by (cases lk; simp)+

lemma acquiresleep_free:
  assumes "inner lk \<notin> set (held s)" "sl_locked (slocks s lk) = 0"
  shows "acquiresleep lk env s =
    Ok (upd_slock lk (\<lambda>l. l\<lparr>sl_locked := 1, sl_pid := p_pid (proc s (this_proc s))\<rparr>) s)"
  using assms by (cases env) (simp_all add: acquiresleep_def upd_slock_def this_proc_def myproc_def)

lemma acquiresleep_taken:
  assumes "held s = []" "sl_locked (slocks s lk) \<noteq> 0"
  shows "acquiresleep lk [] s = Blocks (Chan_sleeplock lk)"
  using assms by (simp add: acquiresleep_def sleep_def sched_def holding_def upd_proc_def
      this_proc_def myproc_def)

lemma releasesleep_Ok:
  assumes "inner lk \<notin> set (held s)" "no_proc_lock s"
  shows "releasesleep lk s =
    Ok (woken (Chan_sleeplock lk) (upd_slock lk (\<lambda>l. l\<lparr>sl_locked := 0, sl_pid := 0\<rparr>) s))"
proof -
  let ?t = "upd_slock lk (\<lambda>l. l\<lparr>sl_locked := 0, sl_pid := 0\<rparr>) (s\<lparr>held := inner lk # held s\<rparr>)"
  have "no_proc_lock ?t" using assms(2) by (auto simp: no_proc_lock_def upd_slock_def)
  then have "wakeup (Chan_sleeplock lk) ?t = Ok (woken (Chan_sleeplock lk) ?t)" by (rule wakeup_Ok)
  then show ?thesis using assms(1) by (simp add: releasesleep_def upd_slock_def woken_def)
qed

lemma holdingsleep_Ok:
  assumes "inner lk \<notin> set (held s)"
  shows "holdingsleep lk s =
    Ok (sl_locked (slocks s lk) \<noteq> 0 \<and> sl_pid (slocks s lk) = p_pid (proc s (this_proc s)), s)"
  using assms by (simp add: holdingsleep_def this_proc_def myproc_def)

end
