(* ===== verification/Bio.thy ===== *)
theory Bio
  imports Sleeplock
begin

text \<open>
  The buffer cache, \<^verbatim>\<open>kernel/bio.c\<close>: \<^verbatim>\<open>NBUF\<close> buffers, linked through \<^verbatim>\<open>prev\<close> and \<^verbatim>\<open>next\<close> into a
  ring with the list head, most recently used first. Buffer \<open>i\<close> is the index of \<^verbatim>\<open>bcache.buf[i]\<close> and
  \<open>NBUF\<close> that of \<^verbatim>\<open>bcache.head\<close>. The disk is an array of blocks; \<open>dwrites\<close> remembers every block
  written to it, in order, so that the disk at an earlier moment can be spoken of.
\<close>

section \<open>State and operations\<close>

definition NBUF :: nat where "NBUF = 30"
definition BSIZE :: nat where "BSIZE = 1024"

record buf =
  b_valid :: bool
  b_disk :: bool
  b_dev :: u32
  b_blockno :: u32
  b_refcnt :: u32
  b_prev :: nat
  b_next :: nat
  b_data :: cstr

record bcache = sleepst +
  bufs :: "nat \<Rightarrow> buf"
  disk :: "u32 \<Rightarrow> cstr"
  dwrites :: "(u32 \<times> cstr) list"

definition upd_buf :: "nat \<Rightarrow> (buf \<Rightarrow> buf) \<Rightarrow> 'a bcache_scheme \<Rightarrow> 'a bcache_scheme" where
  "upd_buf b f s = s\<lparr>bufs := (bufs s)(b := f (bufs s b))\<rparr>"

text \<open>What \<^verbatim>\<open>virtio_disk_rw\<close> has done when it returns.\<close>

definition disk_rw :: "nat \<Rightarrow> bool \<Rightarrow> 'a bcache_scheme \<Rightarrow> 'a bcache_scheme" where
  "disk_rw b write s =
     (let n = b_blockno (bufs s b) in
      if write then s\<lparr>disk := (disk s)(n := b_data (bufs s b)), dwrites := dwrites s @ [(n, b_data (bufs s b))]\<rparr>
      else upd_buf b (\<lambda>x. x\<lparr>b_data := disk s n\<rparr>) s)"

fun binit_loop :: "nat \<Rightarrow> nat \<Rightarrow> 'a bcache_scheme \<Rightarrow> 'a bcache_scheme" where
  "binit_loop b 0 s = s"
| "binit_loop b (Suc k) s =
     (let s = upd_buf b (\<lambda>x. x\<lparr>b_next := b_next (bufs s NBUF)\<rparr>) s;
          s = upd_buf b (\<lambda>x. x\<lparr>b_prev := NBUF\<rparr>) s;
          s = initsleeplock (SL_buf b) ''buffer'' s;
          s = upd_buf (b_next (bufs s NBUF)) (\<lambda>x. x\<lparr>b_prev := b\<rparr>) s;
          s = upd_buf NBUF (\<lambda>x. x\<lparr>b_next := b\<rparr>) s in
      binit_loop (Suc b) k s)"

definition binit :: "'a bcache_scheme \<Rightarrow> 'a bcache_scheme" where
  "binit s =
     (let s = upd_buf NBUF (\<lambda>x. x\<lparr>b_prev := NBUF\<rparr>) s;
          s = upd_buf NBUF (\<lambda>x. x\<lparr>b_next := NBUF\<rparr>) s in
      binit_loop 0 NBUF s)"

text \<open>
  The two searches of \<^verbatim>\<open>bget\<close>, forwards for the block and backwards for a buffer no one refers to.
  Nothing but the shape of the ring makes them end, so the first argument bounds them.
\<close>

fun find_cached :: "nat \<Rightarrow> u32 \<Rightarrow> u32 \<Rightarrow> nat \<Rightarrow> (nat \<Rightarrow> buf) \<Rightarrow> nat option outcome" where
  "find_cached 0 dev blockno b bs = (if b = NBUF then Ok None else Unfinished)"
| "find_cached (Suc n) dev blockno b bs =
     (if b = NBUF then Ok None
      else if b_dev (bs b) = dev \<and> b_blockno (bs b) = blockno then Ok (Some b)
      else find_cached n dev blockno (b_next (bs b)) bs)"

fun find_free :: "nat \<Rightarrow> nat \<Rightarrow> (nat \<Rightarrow> buf) \<Rightarrow> nat option outcome" where
  "find_free 0 b bs = (if b = NBUF then Ok None else Unfinished)"
| "find_free (Suc n) b bs =
     (if b = NBUF then Ok None
      else if b_refcnt (bs b) = 0 then Ok (Some b)
      else find_free n (b_prev (bs b)) bs)"

definition bget :: "u32 \<Rightarrow> u32 \<Rightarrow> 'a bcache_scheme \<Rightarrow> (nat \<times> 'a bcache_scheme) outcome" where
  "bget dev blockno s =
     rbind (acquire L_bcache s) (\<lambda>s.
     rbind (find_cached NBUF dev blockno (b_next (bufs s NBUF)) (bufs s)) (\<lambda>r.
     case r of
       Some b \<Rightarrow>
         (let s = upd_buf b (\<lambda>x. x\<lparr>b_refcnt := b_refcnt x + 1\<rparr>) s in
          rbind (release L_bcache s) (\<lambda>s.
          rbind (acquiresleep (SL_buf b) [] s) (\<lambda>s. Ok (b, s))))
     | None \<Rightarrow>
         rbind (find_free NBUF (b_prev (bufs s NBUF)) (bufs s)) (\<lambda>r.
         case r of
           Some b \<Rightarrow>
             (let s = upd_buf b (\<lambda>x. x\<lparr>b_dev := dev, b_blockno := blockno, b_valid := False, b_refcnt := 1\<rparr>) s in
              rbind (release L_bcache s) (\<lambda>s.
              rbind (acquiresleep (SL_buf b) [] s) (\<lambda>s. Ok (b, s))))
         | None \<Rightarrow> Panic ''bget: no buffers'')))"

definition bread :: "u32 \<Rightarrow> u32 \<Rightarrow> 'a bcache_scheme \<Rightarrow> (nat \<times> 'a bcache_scheme) outcome" where
  "bread dev blockno s =
     rbind (bget dev blockno s) (\<lambda>(b, s).
     if \<not> b_valid (bufs s b) then
       (let s = disk_rw b False s in Ok (b, upd_buf b (\<lambda>x. x\<lparr>b_valid := True\<rparr>) s))
     else Ok (b, s))"

definition bwrite :: "nat \<Rightarrow> 'a bcache_scheme \<Rightarrow> 'a bcache_scheme outcome" where
  "bwrite b s =
     rbind (holdingsleep (SL_buf b) s) (\<lambda>(r, s).
     if \<not> r then Panic ''bwrite'' else Ok (disk_rw b True s))"

definition move_front :: "nat \<Rightarrow> 'a bcache_scheme \<Rightarrow> 'a bcache_scheme" where
  "move_front b s =
     (let s = upd_buf (b_next (bufs s b)) (\<lambda>x. x\<lparr>b_prev := b_prev (bufs s b)\<rparr>) s;
          s = upd_buf (b_prev (bufs s b)) (\<lambda>x. x\<lparr>b_next := b_next (bufs s b)\<rparr>) s;
          s = upd_buf b (\<lambda>x. x\<lparr>b_next := b_next (bufs s NBUF)\<rparr>) s;
          s = upd_buf b (\<lambda>x. x\<lparr>b_prev := NBUF\<rparr>) s;
          s = upd_buf (b_next (bufs s NBUF)) (\<lambda>x. x\<lparr>b_prev := b\<rparr>) s in
      upd_buf NBUF (\<lambda>x. x\<lparr>b_next := b\<rparr>) s)"

definition brelse :: "nat \<Rightarrow> 'a bcache_scheme \<Rightarrow> 'a bcache_scheme outcome" where
  "brelse b s =
     rbind (holdingsleep (SL_buf b) s) (\<lambda>(r, s).
     if \<not> r then Panic ''brelse''
     else
       rbind (releasesleep (SL_buf b) s) (\<lambda>s.
       rbind (acquire L_bcache s) (\<lambda>s.
       let s = upd_buf b (\<lambda>x. x\<lparr>b_refcnt := b_refcnt x - 1\<rparr>) s;
           s = (if b_refcnt (bufs s b) = 0 then move_front b s else s) in
       release L_bcache s)))"

definition bpin :: "nat \<Rightarrow> 'a bcache_scheme \<Rightarrow> 'a bcache_scheme outcome" where
  "bpin b s =
     rbind (acquire L_bcache s) (\<lambda>s.
     release L_bcache (upd_buf b (\<lambda>x. x\<lparr>b_refcnt := b_refcnt x + 1\<rparr>) s))"

definition bunpin :: "nat \<Rightarrow> 'a bcache_scheme \<Rightarrow> 'a bcache_scheme outcome" where
  "bunpin b s =
     rbind (acquire L_bcache s) (\<lambda>s.
     release L_bcache (upd_buf b (\<lambda>x. x\<lparr>b_refcnt := b_refcnt x - 1\<rparr>) s))"

end
