(* ===== verification/Bio_Cache.thy ===== *)
theory Bio_Cache
  imports Bio
begin

text \<open>
  What the buffer cache promises. The ring of buffers is abstracted to the list of its members, the
  cache and the disk together to the contents \<open>bview\<close> of every block. The operations keep the
  invariant \<open>inuse\<close>, which says which buffers the running thread has locked and how often each is
  pinned; the locale \<open>buffer_cache\<close> is this contract, for the log and the file system.
\<close>

section \<open>The ring\<close>

fun npath :: "(nat \<Rightarrow> nat) \<Rightarrow> nat \<Rightarrow> nat list \<Rightarrow> nat \<Rightarrow> bool" where
  "npath f x [] e \<longleftrightarrow> f x = e"
| "npath f x (y # ys) e \<longleftrightarrow> f x = y \<and> npath f y ys e"

lemma npath_append: "npath f x (ys @ z # zs) e \<longleftrightarrow> npath f x ys z \<and> npath f z zs e"
  by (induction ys arbitrary: x) auto

lemma npath_cong: "f x = g x \<Longrightarrow> (\<And>y. y \<in> set ys \<Longrightarrow> f y = g y) \<Longrightarrow> npath f x ys e \<longleftrightarrow> npath g x ys e"
  by (induction ys arbitrary: x) auto

text \<open>A path ends with the successor of its last member.\<close>

lemma npath_end: "npath f x ys e \<Longrightarrow> f (last (x # ys)) = e"
  by (induction ys arbitrary: x) auto

lemma npath_redirect:
  assumes "npath f x ys e" "distinct (x # ys)"
  shows "npath (f(last (x # ys) := e')) x ys e'"
  using assms
proof (induction ys arbitrary: x)
  case (Cons y ys)
  then have "last (y # ys) \<noteq> x" by (metis distinct.simps(2) last_in_set list.distinct(1))
  then show ?case using Cons by auto
qed simp

definition lru :: "(nat \<Rightarrow> buf) \<Rightarrow> nat list \<Rightarrow> bool" where
  "lru bs ord \<longleftrightarrow> distinct ord \<and> set ord = {..<NBUF} \<and>
     npath (\<lambda>b. b_next (bs b)) NBUF ord NBUF \<and> npath (\<lambda>b. b_prev (bs b)) NBUF (rev ord) NBUF"

lemma lru_length: "lru bs ord \<Longrightarrow> length ord = NBUF"
  unfolding lru_def by (metis card_lessThan distinct_card)

lemma find_cached_path:
  assumes "npath (\<lambda>b. b_next (bs b)) x ys NBUF" "NBUF \<notin> set ys" "length ys \<le> n"
  shows "find_cached n dev blockno (b_next (bs x)) bs =
    Ok (find (\<lambda>b. b_dev (bs b) = dev \<and> b_blockno (bs b) = blockno) ys)"
  using assms
proof (induction ys arbitrary: x n)
  case Nil
  then show ?case by (cases n) auto
next
  case (Cons y ys)
  then obtain m where "n = Suc m" by (cases n) auto
  then show ?case using Cons by auto
qed

lemma find_free_path:
  assumes "npath (\<lambda>b. b_prev (bs b)) x ys NBUF" "NBUF \<notin> set ys" "length ys \<le> n"
  shows "find_free n (b_prev (bs x)) bs = Ok (find (\<lambda>b. b_refcnt (bs b) = 0) ys)"
  using assms
proof (induction ys arbitrary: x n)
  case Nil
  then show ?case by (cases n) auto
next
  case (Cons y ys)
  then obtain m where "n = Suc m" by (cases n) auto
  then show ?case using Cons by auto
qed

text \<open>\<^verbatim>\<open>brelse\<close> puts a buffer no one refers to in front; the pointer surgery on its own.\<close>

definition relink :: "nat \<Rightarrow> (nat \<Rightarrow> nat) \<times> (nat \<Rightarrow> nat) \<Rightarrow> (nat \<Rightarrow> nat) \<times> (nat \<Rightarrow> nat)" where
  "relink b = (\<lambda>(nx, pv).
     (let pv = pv(nx b := pv b);
          nx = nx(pv b := nx b);
          nx = nx(b := nx NBUF);
          pv = pv(b := NBUF);
          pv = pv(nx NBUF := b) in
      (nx(NBUF := b), pv)))"

definition links :: "(nat \<Rightarrow> buf) \<Rightarrow> (nat \<Rightarrow> nat) \<times> (nat \<Rightarrow> nat)" where
  "links bs = (\<lambda>b. b_next (bs b), \<lambda>b. b_prev (bs b))"

definition set_links :: "(nat \<Rightarrow> nat) \<times> (nat \<Rightarrow> nat) \<Rightarrow> (nat \<Rightarrow> buf) \<Rightarrow> nat \<Rightarrow> buf" where
  "set_links l bs = (\<lambda>b. (bs b)\<lparr>b_next := fst l b, b_prev := snd l b\<rparr>)"

lemma read_links [simp]:
  "b_next (set_links (nx, pv) bs b) = nx b" "b_prev (set_links (nx, pv) bs b) = pv b"
  by (simp_all add: set_links_def)

lemma write_links:
  "upd_buf b (\<lambda>x. x\<lparr>b_next := v\<rparr>) (s\<lparr>bufs := set_links (nx, pv) bs\<rparr>) = s\<lparr>bufs := set_links (nx(b := v), pv) bs\<rparr>"
  "upd_buf b (\<lambda>x. x\<lparr>b_prev := v\<rparr>) (s\<lparr>bufs := set_links (nx, pv) bs\<rparr>) = s\<lparr>bufs := set_links (nx, pv(b := v)) bs\<rparr>"
  unfolding upd_buf_def set_links_def
  by (auto intro!: arg_cong [where f = "\<lambda>x. s\<lparr>bufs := x\<rparr>"] ext buf.equality split: if_splits)

lemma set_links_self: "set_links (links bs) bs = bs"
  by (simp add: set_links_def links_def)

lemma bufs_upd: "bufs (s\<lparr>bufs := bs\<rparr>) = bs" by simp

lemma move_front_set_links:
  "move_front b (s\<lparr>bufs := set_links (nx, pv) bs\<rparr>) = s\<lparr>bufs := set_links (relink b (nx, pv)) bs\<rparr>"
  unfolding move_front_def relink_def prod.case
  by (simp only: Let_def write_links bufs_upd read_links)

lemma move_front_links: "move_front b s = s\<lparr>bufs := set_links (relink b (links (bufs s))) (bufs s)\<rparr>"
proof -
  have "s = s\<lparr>bufs := set_links (links (bufs s)) (bufs s)\<rparr>" by (simp add: set_links_self)
  then have "move_front b s = move_front b (s\<lparr>bufs := set_links (links (bufs s)) (bufs s)\<rparr>)" by simp
  then show ?thesis by (simp only: links_def move_front_set_links)
qed

lemma npath_start:
  "npath f x zs e \<Longrightarrow> g y = f x \<Longrightarrow> (\<And>z. z \<in> set zs \<Longrightarrow> g z = f z) \<Longrightarrow> npath g y zs e"
  by (induction zs arbitrary: x y) auto

lemma npath_first: "npath f x ys e \<Longrightarrow> f x = hd (ys @ [e])"
  by (cases ys) auto

lemma npath_join: "npath f x ys (hd (zs @ [e])) \<Longrightarrow> npath f z zs e \<Longrightarrow> npath f x (ys @ zs) e"
  by (cases zs) (auto simp: npath_append)

text \<open>Taking a member out of a ring.\<close>

lemma npath_unlink:
  assumes "npath f x (xs @ b # ys) e" "distinct (x # xs @ b # ys)"
  shows "npath (f(last (x # xs) := f b)) x (xs @ ys) e"
proof -
  let ?f = "f(last (x # xs) := f b)"
  have "npath f x xs b" "npath f b ys e" using assms(1) by (simp_all add: npath_append)
  moreover have "distinct (x # xs)" using assms(2) by auto
  ultimately have "npath ?f x xs (hd (ys @ [e]))"
    using npath_redirect [of f x xs b "f b"] npath_first [of f b ys e] by simp
  moreover have "last (x # xs) \<in> insert x (set xs)" by (metis last_in_set list.distinct(1) list.simps(15))
  then have "last (x # xs) \<noteq> b" "\<And>y. y \<in> set ys \<Longrightarrow> y \<noteq> last (x # xs)" using assms(2) by auto
  then have "npath ?f b ys e" using \<open>npath f b ys e\<close> npath_start [of f b ys e ?f b] by simp
  ultimately show ?thesis by (rule npath_join)
qed

definition ring :: "(nat \<Rightarrow> nat) \<Rightarrow> (nat \<Rightarrow> nat) \<Rightarrow> nat list \<Rightarrow> bool" where
  "ring nx pv ord \<longleftrightarrow> npath nx NBUF ord NBUF \<and> npath pv NBUF (rev ord) NBUF \<and> distinct (NBUF # ord)"

lemma ring_insert:
  assumes "ring nx pv zs" "b \<notin> set zs" "b \<noteq> NBUF"
  shows "ring ((nx(b := nx NBUF))(NBUF := b)) ((pv(b := NBUF))(nx NBUF := b)) (b # zs)"
proof -
  let ?nx = "(nx(b := nx NBUF))(NBUF := b)" and ?pv = "(pv(b := NBUF))(nx NBUF := b)"
  have r: "npath nx NBUF zs NBUF" "npath pv NBUF (rev zs) NBUF" "NBUF \<notin> set zs" "distinct (NBUF # rev zs)"
    using assms(1) by (auto simp: ring_def)
  have h: "nx NBUF = last (NBUF # rev zs)"
    using npath_first [OF r(1)] by (cases zs) (auto simp: last_rev)
  moreover have "last (NBUF # rev zs) \<in> set (NBUF # rev zs)" by (rule last_in_set) simp
  ultimately have hb: "nx NBUF \<noteq> b" using assms(2,3) by auto
  have "npath ?nx b zs NBUF" by (rule npath_start [OF r(1)]) (use assms(2,3) r(3) in auto)
  moreover have "npath (pv(nx NBUF := b)) NBUF (rev zs) b" using npath_redirect [OF r(2,4), of b] by (simp add: h)
  then have "npath ?pv NBUF (rev zs) b" by (rule npath_start) (use assms(2,3) hb in auto)
  ultimately show ?thesis using r assms hb by (auto simp: ring_def npath_append)
qed

lemma relink_ring:
  assumes "ring nx pv ord" "b \<in> set ord" "relink b (nx, pv) = (nx', pv')"
  shows "ring nx' pv' (b # remove1 b ord)"
proof -
  obtain xs ys where ord: "ord = xs @ b # ys" using assms(2) by (meson split_list)
  have d: "distinct (NBUF # xs @ b # ys)" "distinct (NBUF # rev ys @ b # rev xs)"
    using assms(1) by (auto simp: ord ring_def)
  then have rm: "remove1 b ord = xs @ ys" by (simp add: ord remove1_append)
  have n1: "npath nx NBUF (xs @ b # ys) NBUF" and p1: "npath pv NBUF (rev ys @ b # rev xs) NBUF"
    using assms(1) by (simp_all add: ord ring_def)
  have nb: "nx b = last (NBUF # rev ys)" and pb: "pv b = last (NBUF # xs)"
    using npath_first [of nx b ys NBUF] npath_first [of pv b "rev xs" NBUF] n1 p1
    by (cases ys; cases xs rule: rev_cases; simp add: npath_append)+
  define nx2 where "nx2 = nx(pv b := nx b)"
  define pv1 where "pv1 = pv(nx b := pv b)"
  have "npath nx2 NBUF (xs @ ys) NBUF" using npath_unlink [OF n1 d(1)] by (simp add: nx2_def pb)
  moreover have "npath pv1 NBUF (rev (xs @ ys)) NBUF" using npath_unlink [OF p1 d(2)] by (simp add: pv1_def nb)
  ultimately have r: "ring nx2 pv1 (xs @ ys)" using d by (auto simp: ring_def)
  have bn: "b \<noteq> NBUF" "b \<noteq> nx b" "b \<notin> set (xs @ ys)" using d nb
    by (auto simp: last_rev dest: hd_in_set split: if_splits)
  have out: "nx' = (nx2(b := nx2 NBUF))(NBUF := b)" "pv' = (pv1(b := NBUF))(nx2 NBUF := b)"
    using assms(3) bn by (auto simp: relink_def Let_def nx2_def pv1_def)
  show ?thesis unfolding rm out using ring_insert [OF r bn(3,1)] .
qed

lemma lru_ring: "lru bs ord \<longleftrightarrow> ring (\<lambda>b. b_next (bs b)) (\<lambda>b. b_prev (bs b)) ord \<and> set ord = {..<NBUF}"
  by (auto simp: lru_def ring_def)

lemma lru_move_front:
  assumes "lru bs ord" "b < NBUF"
  shows "lru (set_links (relink b (links bs)) bs) (b # remove1 b ord)"
proof -
  obtain nx pv where r: "relink b (links bs) = (nx, pv)" by fastforce
  have "ring (\<lambda>b. b_next (bs b)) (\<lambda>b. b_prev (bs b)) ord" "b \<in> set ord" "set ord = {..<NBUF}"
    using assms by (auto simp: lru_ring)
  with relink_ring [OF this(1,2) r [unfolded links_def]] show ?thesis
    unfolding r lru_ring by (auto simp: ring_def set_links_def)
qed

lemma initsleeplock_bufs: "initsleeplock lk nm (s\<lparr>bufs := bs\<rparr>) = (initsleeplock lk nm s)\<lparr>bufs := bs\<rparr>"
  by (simp add: initsleeplock_def upd_slock_def)

lemma binit_step:
  assumes "b \<noteq> NBUF"
  shows "binit_loop b (Suc k) (s\<lparr>bufs := set_links (nx, pv) bs\<rparr>) =
    binit_loop (Suc b) k ((initsleeplock (SL_buf b) ''buffer'' s)
      \<lparr>bufs := set_links ((nx(b := nx NBUF))(NBUF := b), (pv(b := NBUF))(nx NBUF := b)) bs\<rparr>)"
proof -
  have n: "(nx(b := v)) NBUF = nx NBUF" for v using assms by simp
  show ?thesis
    by (subst binit_loop.simps) (simp only: Let_def write_links bufs_upd read_links initsleeplock_bufs n)
qed

lemma binit_loop_ring:
  assumes "ring nx pv (rev [0..<b])" "b + k \<le> NBUF"
  shows "\<exists>nx' pv' sl. binit_loop b k (s\<lparr>bufs := set_links (nx, pv) bs\<rparr>) = s\<lparr>bufs := set_links (nx', pv') bs, slocks := sl\<rparr> \<and>
    ring nx' pv' (rev [0..<b + k]) \<and>
    (\<forall>j. sl_locked (sl (SL_buf j)) = (if b \<le> j \<and> j < b + k then 0 else sl_locked (slocks s (SL_buf j)))) \<and>
    (\<forall>j. sl (SL_inode j) = slocks s (SL_inode j))"
  using assms
proof (induction k arbitrary: b nx pv s)
  case 0
  show ?case by (rule exI [of _ nx], rule exI [of _ pv], rule exI [of _ "slocks s"]) (use 0 in auto)
next
  case (Suc k)
  define t where "t = initsleeplock (SL_buf b) ''buffer'' s"
  define nx' where "nx' = (nx(b := nx NBUF))(NBUF := b)"
  define pv' where "pv' = (pv(b := NBUF))(nx NBUF := b)"
  have b: "b \<noteq> NBUF" using Suc.prems(2) by linarith
  have step: "binit_loop b (Suc k) (s\<lparr>bufs := set_links (nx, pv) bs\<rparr>) =
      binit_loop (Suc b) k (t\<lparr>bufs := set_links (nx', pv') bs\<rparr>)"
    unfolding t_def nx'_def pv'_def by (rule binit_step [OF b])
  have "ring nx' pv' (rev [0..<Suc b])"
    using ring_insert [OF Suc.prems(1) _ b] by (simp add: nx'_def pv'_def)
  from Suc.IH [OF this, of t] obtain nx2 pv2 sl where o:
    "binit_loop (Suc b) k (t\<lparr>bufs := set_links (nx', pv') bs\<rparr>) = t\<lparr>bufs := set_links (nx2, pv2) bs, slocks := sl\<rparr>"
    "ring nx2 pv2 (rev [0..<Suc b + k])" "\<forall>j. sl (SL_inode j) = slocks t (SL_inode j)"
    "\<forall>j. sl_locked (sl (SL_buf j)) = (if Suc b \<le> j \<and> j < Suc b + k then 0 else sl_locked (slocks t (SL_buf j)))"
    using Suc.prems(2) by auto
  have "sl_locked (slocks t (SL_buf j)) = (if j = b then 0 else sl_locked (slocks s (SL_buf j)))"
    "slocks t (SL_inode j) = slocks s (SL_inode j)" for j
    by (simp_all add: t_def initsleeplock_def upd_slock_def)
  then show ?case unfolding step o(1) using o(2-4)
    by - (rule exI [of _ nx2], rule exI [of _ pv2], rule exI [of _ sl], auto simp: t_def initsleeplock_def upd_slock_def)
qed

lemma binit_ring:
  "\<exists>nx pv sl. binit s = s\<lparr>bufs := set_links (nx, pv) (bufs s), slocks := sl\<rparr> \<and>
     lru (set_links (nx, pv) (bufs s)) (rev [0..<NBUF]) \<and> (\<forall>j<NBUF. sl_locked (sl (SL_buf j)) = 0) \<and>
     (\<forall>j. sl (SL_inode j) = slocks s (SL_inode j))"
proof -
  define nx where "nx = (\<lambda>b. b_next (bufs s b))(NBUF := NBUF)"
  define pv where "pv = (\<lambda>b. b_prev (bufs s b))(NBUF := NBUF)"
  have self: "s = s\<lparr>bufs := set_links (links (bufs s)) (bufs s)\<rparr>" by (simp add: set_links_self)
  have "binit s = binit (s\<lparr>bufs := set_links (links (bufs s)) (bufs s)\<rparr>)" using self by simp
  also have "\<dots> = binit_loop 0 NBUF (s\<lparr>bufs := set_links (nx, pv) (bufs s)\<rparr>)"
    unfolding binit_def links_def by (simp only: Let_def write_links) (simp add: nx_def pv_def)
  finally have start: "binit s = \<dots>" .
  have "ring nx pv (rev [0..<0])" by (simp add: ring_def nx_def pv_def)
  from binit_loop_ring [OF this, where k = NBUF and s = s and bs = "bufs s"] obtain nx' pv' sl where
    "binit_loop 0 NBUF (s\<lparr>bufs := set_links (nx, pv) (bufs s)\<rparr>) = s\<lparr>bufs := set_links (nx', pv') (bufs s), slocks := sl\<rparr>"
    "ring nx' pv' (rev [0..<NBUF])" "\<forall>j. sl_locked (sl (SL_buf j)) = (if j < NBUF then 0 else sl_locked (slocks s (SL_buf j)))"
    "\<forall>j. sl (SL_inode j) = slocks s (SL_inode j)" by auto
  then show ?thesis unfolding start
    by - (rule exI [of _ nx'], rule exI [of _ pv'], rule exI [of _ sl], auto simp: lru_ring atLeast0LessThan)
qed

section \<open>The cache invariant\<close>

definition caches :: "(nat \<Rightarrow> buf) \<Rightarrow> u32 \<Rightarrow> u32 \<Rightarrow> nat \<Rightarrow> bool" where
  "caches bs dev n i \<longleftrightarrow> i < NBUF \<and> b_dev (bs i) = dev \<and> b_blockno (bs i) = n"

definition bview :: "u32 \<Rightarrow> 'a bcache_scheme \<Rightarrow> u32 \<Rightarrow> cstr" where
  "bview dev s n =
     (case find (\<lambda>i. caches (bufs s) dev n i \<and> b_valid (bufs s i)) [0..<NBUF] of
        Some i \<Rightarrow> b_data (bufs s i) | None \<Rightarrow> disk s n)"

definition mypid :: "'a procs_scheme \<Rightarrow> int" where
  "mypid s = p_pid (proc s (this_proc s))"

text \<open>
  \<open>H\<close> are the buffers the running thread has locked, \<open>rc\<close> counts the other references to each
  buffer. A buffer without references holds what the disk holds, so it can be recycled.
\<close>

definition uniq :: "u32 \<Rightarrow> (nat \<Rightarrow> buf) \<Rightarrow> bool" where
  "uniq dev bs \<longleftrightarrow> (\<forall>i j n. caches bs dev n i \<longrightarrow> caches bs dev n j \<longrightarrow> i = j) \<and>
     (\<forall>i<NBUF. b_valid (bs i) \<longrightarrow> b_dev (bs i) = dev)"

definition locked_ok :: "int \<Rightarrow> (nat \<Rightarrow> u32) \<Rightarrow> sleeplock \<Rightarrow> buf \<Rightarrow> nat \<Rightarrow> bool" where
  "locked_ok me rc l b i \<longleftrightarrow> sl_locked l \<noteq> 0 \<and> sl_pid l = me \<and> b_valid b \<and> b_refcnt b = rc i + 1"

definition free_ok :: "(nat \<Rightarrow> u32) \<Rightarrow> sleeplock \<Rightarrow> buf \<Rightarrow> (u32 \<Rightarrow> cstr) \<Rightarrow> nat \<Rightarrow> bool" where
  "free_ok rc l b dk i \<longleftrightarrow> sl_locked l = 0 \<and> b_refcnt b = rc i \<and>
     (rc i = 0 \<longrightarrow> b_valid b \<longrightarrow> b_data b = dk (b_blockno b))"

definition inuse :: "u32 \<Rightarrow> (nat \<Rightarrow> u32) \<Rightarrow> nat set \<Rightarrow> 'a bcache_scheme \<Rightarrow> bool" where
  "inuse dev rc H s \<longleftrightarrow> held s = [] \<and> (\<exists>ord. lru (bufs s) ord) \<and> uniq dev (bufs s) \<and>
     H \<subseteq> {..<NBUF} \<and> (\<forall>i<NBUF. rc i + 1 \<noteq> 0) \<and>
     (\<forall>i<NBUF. if i \<in> H then locked_ok (mypid s) rc (slocks s (SL_buf i)) (bufs s i) i
       else free_ok rc (slocks s (SL_buf i)) (bufs s i) (disk s) i)"

text \<open>What the operations of the cache leave alone.\<close>

definition bframe :: "'a bcache_scheme \<Rightarrow> 'a bcache_scheme \<Rightarrow> bool" where
  "bframe s t \<longleftrightarrow>
     t = s\<lparr>proc := proc t, slocks := slocks t, bufs := bufs t, disk := disk t, dwrites := dwrites t\<rparr> \<and>
     (\<forall>i. proc t i = (proc s i)\<lparr>p_state := p_state (proc t i)\<rparr>) \<and>
     (\<forall>i. slocks t (SL_inode i) = slocks s (SL_inode i))"

lemma find_upt_iff:
  "find P [0..<n] = None \<longleftrightarrow> (\<forall>i<n. \<not> P i)"
  "find P [0..<n] = Some i \<Longrightarrow> i < n \<and> P i"
  by (auto simp: find_None_iff find_Some_iff)

lemma bview_cached:
  assumes "uniq dev (bufs s)" "caches (bufs s) dev n i" "b_valid (bufs s i)"
  shows "bview dev s n = b_data (bufs s i)"
proof -
  let ?P = "\<lambda>i. caches (bufs s) dev n i \<and> b_valid (bufs s i)"
  have "i < NBUF" using assms(2) by (simp add: caches_def)
  then obtain j where j: "find ?P [0..<NBUF] = Some j" using find_upt_iff(1) [of ?P] assms by (metis not_None_eq)
  then have "j = i" using find_upt_iff(2) [OF j] assms by (auto simp: uniq_def)
  then show ?thesis using j by (simp add: bview_def)
qed

lemma bview_uncached:
  assumes "\<And>i. caches (bufs s) dev n i \<Longrightarrow> \<not> b_valid (bufs s i)"
  shows "bview dev s n = disk s n"
proof -
  have "find (\<lambda>i. caches (bufs s) dev n i \<and> b_valid (bufs s i)) [0..<NBUF] = None"
    unfolding find_upt_iff using assms by auto
  then show ?thesis by (simp add: bview_def)
qed

text \<open>The contents only depend on these four fields of each buffer, and on the disk where no
  buffer holds the block.\<close>

definition same_content :: "(nat \<Rightarrow> buf) \<Rightarrow> (nat \<Rightarrow> buf) \<Rightarrow> bool" where
  "same_content bs bs' \<longleftrightarrow> (\<forall>i. b_dev (bs' i) = b_dev (bs i) \<and> b_blockno (bs' i) = b_blockno (bs i) \<and>
     b_valid (bs' i) = b_valid (bs i) \<and> b_data (bs' i) = b_data (bs i))"

lemma bview_same:
  "same_content (bufs s) (bufs t) \<Longrightarrow> disk t = disk s \<Longrightarrow> bview dev t = bview dev s"
  by (rule ext) (simp add: bview_def same_content_def caches_def split: option.split)

lemma uniq_same: "same_content bs bs' \<Longrightarrow> uniq dev bs' = uniq dev bs"
  by (simp add: uniq_def same_content_def caches_def)

lemma lru_same:
  "(\<And>i. b_next (bs' i) = b_next (bs i) \<and> b_prev (bs' i) = b_prev (bs i)) \<Longrightarrow> lru bs' ord = lru bs ord"
  by (simp add: lru_def)

section \<open>The operations\<close>

text \<open>\<^verbatim>\<open>bread\<close> returns buffer \<open>i\<close> holding the block.\<close>

definition loaded :: "nat \<Rightarrow> u32 \<Rightarrow> u32 \<Rightarrow> 'a bcache_scheme \<Rightarrow> 'a bcache_scheme" where
  "loaded i dev n s =
     upd_slock (SL_buf i) (\<lambda>l. l\<lparr>sl_locked := 1, sl_pid := mypid s\<rparr>)
       (upd_buf i (\<lambda>x. x\<lparr>b_dev := dev, b_blockno := n, b_valid := True, b_refcnt := b_refcnt x + 1,
          b_data := bview dev s n\<rparr>) s)"

lemma upd_buf_slock:
  "upd_buf i f (upd_slock l g s) = upd_slock l g (upd_buf i f s)"
  "upd_buf i f (upd_buf i h s) = upd_buf i (\<lambda>x. f (h x)) s"
  "bufs (upd_slock l g s) = bufs s" "disk (upd_slock l g s) = disk s" "disk (upd_buf i f s) = disk s"
  "bufs (upd_buf i f s) = (bufs s)(i := f (bufs s i))"
  by (simp_all add: upd_buf_def upd_slock_def)

lemma upd_buf_cong: "f (bufs s i) = g (bufs s i) \<Longrightarrow> upd_buf i f s = upd_buf i g s"
  by (simp add: upd_buf_def)

lemma bget_hit:
  assumes "find_cached NBUF dev n (b_next (bufs s NBUF)) (bufs s) = Ok (Some i)"
    and "L_bcache \<notin> set (held s)" "L_buf i \<notin> set (held s)" "sl_locked (slocks s (SL_buf i)) = 0"
  shows "bget dev n s = Ok (i, upd_slock (SL_buf i) (\<lambda>l. l\<lparr>sl_locked := 1, sl_pid := mypid s\<rparr>)
    (upd_buf i (\<lambda>x. x\<lparr>b_refcnt := b_refcnt x + 1\<rparr>) s))"
  using assms by (simp add: bget_def acquiresleep_free upd_buf_def mypid_def this_proc_def myproc_def)

lemma bget_miss:
  assumes "find_cached NBUF dev n (b_next (bufs s NBUF)) (bufs s) = Ok None"
    and "find_free NBUF (b_prev (bufs s NBUF)) (bufs s) = Ok (Some i)"
    and "L_bcache \<notin> set (held s)" "L_buf i \<notin> set (held s)" "sl_locked (slocks s (SL_buf i)) = 0"
  shows "bget dev n s = Ok (i, upd_slock (SL_buf i) (\<lambda>l. l\<lparr>sl_locked := 1, sl_pid := mypid s\<rparr>)
    (upd_buf i (\<lambda>x. x\<lparr>b_dev := dev, b_blockno := n, b_valid := False, b_refcnt := 1\<rparr>) s))"
  using assms by (simp add: bget_def acquiresleep_free upd_buf_def mypid_def this_proc_def myproc_def)

lemma bread_hit:
  assumes "lru (bufs s) ord" "uniq dev (bufs s)" "caches (bufs s) dev n i"
    and "held s = []" "sl_locked (slocks s (SL_buf i)) = 0"
  shows "bread dev n s = Ok (i, loaded i dev n s)"
proof -
  let ?P = "\<lambda>b. b_dev (bufs s b) = dev \<and> b_blockno (bufs s b) = n"
  have ord: "NBUF \<notin> set ord" "i \<in> set ord" using assms(1,3) by (auto simp: lru_def caches_def)
  then obtain j where j: "find ?P ord = Some j" using assms(3) by (cases "find ?P ord") (auto simp: find_None_iff caches_def)
  then have "?P j" "j \<in> set ord" by (auto simp: find_Some_iff)
  then have "j = i" using assms(1-3) by (auto simp: uniq_def caches_def lru_def)
  then have "find_cached NBUF dev n (b_next (bufs s NBUF)) (bufs s) = Ok (Some i)"
    using find_cached_path [of "bufs s" NBUF ord NBUF dev n] lru_length [OF assms(1)] assms(1) ord j
    by (simp add: lru_def)
  then have g: "bget dev n s = Ok (i, upd_slock (SL_buf i) (\<lambda>l. l\<lparr>sl_locked := 1, sl_pid := mypid s\<rparr>)
    (upd_buf i (\<lambda>x. x\<lparr>b_refcnt := b_refcnt x + 1\<rparr>) s))" using assms(4,5) by (intro bget_hit) simp_all
  have "bview dev s n = (if b_valid (bufs s i) then b_data (bufs s i) else disk s n)"
    using bview_cached [OF assms(2,3)] bview_uncached [of s dev n] assms(2,3) by (auto simp: uniq_def)
  then show ?thesis using assms(3)
    by (auto simp: bread_def g disk_rw_def loaded_def upd_buf_slock caches_def Let_def
        intro!: arg_cong [where f = "upd_slock (SL_buf i) (\<lambda>l. l\<lparr>sl_locked := 1, sl_pid := mypid s\<rparr>)"]
          upd_buf_cong buf.equality)
qed

lemma bread_miss:
  assumes "lru (bufs s) ord" "\<And>i. \<not> caches (bufs s) dev n i" "j < NBUF" "b_refcnt (bufs s j) = 0"
    and "held s = []" "\<And>i. i < NBUF \<Longrightarrow> b_refcnt (bufs s i) = 0 \<Longrightarrow> sl_locked (slocks s (SL_buf i)) = 0"
  shows "\<exists>i<NBUF. b_refcnt (bufs s i) = 0 \<and> bread dev n s = Ok (i, loaded i dev n s)"
proof -
  let ?P = "\<lambda>b. b_refcnt (bufs s b) = 0"
  have ord: "NBUF \<notin> set ord" "j \<in> set ord" "length ord = NBUF" using assms(1,3) lru_length by (auto simp: lru_def)
  have "find (\<lambda>b. b_dev (bufs s b) = dev \<and> b_blockno (bufs s b) = n) ord = None"
    using assms(1,2) by (auto simp: find_None_iff lru_def caches_def)
  then have c: "find_cached NBUF dev n (b_next (bufs s NBUF)) (bufs s) = Ok None"
    using find_cached_path [of "bufs s" NBUF ord NBUF dev n] ord assms(1) by (simp add: lru_def)
  obtain i where i: "find ?P (rev ord) = Some i"
    using assms(4) ord by (cases "find ?P (rev ord)") (auto simp: find_None_iff)
  then have "?P i" "i \<in> set (rev ord)" unfolding find_Some_iff by (blast, metis nth_mem)
  then have fr: "?P i" "i < NBUF" using assms(1) by (auto simp: lru_def)
  have "find_free NBUF (b_prev (bufs s NBUF)) (bufs s) = Ok (Some i)"
    using find_free_path [of "bufs s" NBUF "rev ord" NBUF] ord assms(1) i by (simp add: lru_def)
  with c have g: "bget dev n s = Ok (i, upd_slock (SL_buf i) (\<lambda>l. l\<lparr>sl_locked := 1, sl_pid := mypid s\<rparr>)
    (upd_buf i (\<lambda>x. x\<lparr>b_dev := dev, b_blockno := n, b_valid := False, b_refcnt := 1\<rparr>) s))"
    using assms(5,6) fr by (intro bget_miss) simp_all
  have "bview dev s n = disk s n" using assms(2) by (intro bview_uncached) simp
  then have "bread dev n s = Ok (i, loaded i dev n s)" using fr
    by (auto simp: bread_def g disk_rw_def loaded_def upd_buf_slock caches_def Let_def
        intro!: arg_cong [where f = "upd_slock (SL_buf i) (\<lambda>l. l\<lparr>sl_locked := 1, sl_pid := mypid s\<rparr>)"]
          upd_buf_cong buf.equality)
  then show ?thesis using fr by blast
qed

lemma bviewI:
  assumes "\<And>i. caches (bufs s) dev n i \<Longrightarrow> b_valid (bufs s i) \<Longrightarrow> b_data (bufs s i) = d"
    and "(\<And>i. caches (bufs s) dev n i \<Longrightarrow> \<not> b_valid (bufs s i)) \<Longrightarrow> disk s n = d"
  shows "bview dev s n = d"
proof (cases "find (\<lambda>i. caches (bufs s) dev n i \<and> b_valid (bufs s i)) [0..<NBUF]")
  case None
  then have "\<And>i. caches (bufs s) dev n i \<Longrightarrow> \<not> b_valid (bufs s i)"
    unfolding find_upt_iff by (auto simp: caches_def)
  with assms(2) None show ?thesis by (simp add: bview_def)
next
  case (Some i)
  then show ?thesis using find_upt_iff(2) [OF Some] assms(1) by (simp add: bview_def)
qed

lemma bview_disk:
  "bview dev s n = d \<Longrightarrow> (\<And>i. caches (bufs s) dev n i \<Longrightarrow> \<not> b_valid (bufs s i)) \<Longrightarrow> disk s n = d"
  using bview_uncached by metis

lemma mypid_simps [simp]:
  "mypid (upd_slock l g s) = mypid s" "mypid (upd_buf i f s) = mypid s" "mypid (woken c s) = mypid s"
  by (simp_all add: mypid_def this_proc_def myproc_def upd_slock_def upd_buf_def proc_woken)

lemma loaded_fields:
  "held (loaded i dev n s) = held s" "mypid (loaded i dev n s) = mypid s" "disk (loaded i dev n s) = disk s"
  "dwrites (loaded i dev n s) = dwrites s"
  "bufs (loaded i dev n s) = (bufs s)(i := (bufs s i)\<lparr>b_dev := dev, b_blockno := n, b_valid := True,
     b_refcnt := b_refcnt (bufs s i) + 1, b_data := bview dev s n\<rparr>)"
  "slocks (loaded i dev n s) = (slocks s)(SL_buf i := (slocks s (SL_buf i))\<lparr>sl_locked := 1, sl_pid := mypid s\<rparr>)"
  by (simp_all add: loaded_def mypid_def this_proc_def myproc_def) (simp_all add: upd_slock_def upd_buf_def)

lemma bframe_refl: "bframe s s"
  by (simp add: bframe_def)

lemma bframe_trans:
  assumes "bframe s t" "bframe t u" shows "bframe s u"
proof -
  let ?set = "\<lambda>x. x\<lparr>proc := proc u, slocks := slocks u, bufs := bufs u, disk := disk u, dwrites := dwrites u\<rparr>"
  have "u = ?set t" using assms(2) by (simp add: bframe_def)
  also have "t = s\<lparr>proc := proc t, slocks := slocks t, bufs := bufs t, disk := disk t, dwrites := dwrites t\<rparr>"
    using assms(1) by (simp only: bframe_def)
  also have "?set (s\<lparr>proc := proc t, slocks := slocks t, bufs := bufs t, disk := disk t, dwrites := dwrites t\<rparr>) = ?set s"
    by simp
  finally have "u = ?set s" .
  moreover have "proc u i = (proc s i)\<lparr>p_state := p_state (proc u i)\<rparr>" for i
  proof -
    have "proc u i = (proc t i)\<lparr>p_state := p_state (proc u i)\<rparr>" using assms(2) unfolding bframe_def by blast
    also have "proc t i = (proc s i)\<lparr>p_state := p_state (proc t i)\<rparr>" using assms(1) unfolding bframe_def by blast
    finally show ?thesis by simp
  qed
  moreover have "\<forall>i. slocks u (SL_inode i) = slocks s (SL_inode i)" using assms by (simp add: bframe_def)
  ultimately show ?thesis unfolding bframe_def by blast
qed

lemma bframe_intros:
  "bframe s (upd_buf i f s)" "bframe s (upd_slock (SL_buf i) g s)" "bframe s (woken c s)" "bframe s (disk_rw i wr s)"
  by (simp_all add: bframe_def upd_buf_def upd_slock_def woken_def wake_procs_def wake_proc_def disk_rw_def Let_def)

lemma inuse_at:
  assumes "inuse dev rc H s" "i < NBUF"
  shows "i \<in> H \<Longrightarrow> locked_ok (mypid s) rc (slocks s (SL_buf i)) (bufs s i) i"
    "i \<notin> H \<Longrightarrow> free_ok rc (slocks s (SL_buf i)) (bufs s i) (disk s) i" "rc i + 1 \<noteq> 0"
  using assms by (auto simp: inuse_def)

lemma inuseD:
  assumes "inuse dev rc H s"
  shows "held s = []" "uniq dev (bufs s)" "no_proc_lock s"
  using assms by (auto simp: inuse_def no_proc_lock_def)

lemma inuse_locked:
  assumes "inuse dev rc H s" "i \<in> H"
  shows "i < NBUF" "b_valid (bufs s i)" "sl_locked (slocks s (SL_buf i)) \<noteq> 0"
    "sl_pid (slocks s (SL_buf i)) = mypid s" "b_refcnt (bufs s i) = rc i + 1" "rc i + 1 \<noteq> 0"
    "b_dev (bufs s i) = dev" "caches (bufs s) dev (b_blockno (bufs s i)) i"
proof -
  show i: "i < NBUF" using assms by (auto simp: inuse_def)
  note l = inuse_at [OF assms(1) i]
  show "b_valid (bufs s i)" "sl_locked (slocks s (SL_buf i)) \<noteq> 0" "sl_pid (slocks s (SL_buf i)) = mypid s"
    "b_refcnt (bufs s i) = rc i + 1" "rc i + 1 \<noteq> 0" using l(1) assms(2) l(3) by (simp_all add: locked_ok_def)
  then show "b_dev (bufs s i) = dev" "caches (bufs s) dev (b_blockno (bufs s i)) i"
    using inuseD(2) [OF assms(1)] i by (simp_all add: uniq_def caches_def)
qed

lemma inuseI:
  assumes "held s = []" "lru (bufs s) ord" "uniq dev (bufs s)" "H \<subseteq> {..<NBUF}" "\<forall>i<NBUF. rc i + 1 \<noteq> 0"
    and "\<And>i. i < NBUF \<Longrightarrow> i \<in> H \<Longrightarrow> locked_ok (mypid s) rc (slocks s (SL_buf i)) (bufs s i) i"
    and "\<And>i. i < NBUF \<Longrightarrow> i \<notin> H \<Longrightarrow> free_ok rc (slocks s (SL_buf i)) (bufs s i) (disk s) i"
  shows "inuse dev rc H s"
  using assms by (auto simp: inuse_def)

lemma inuse_base:
  assumes "inuse dev rc H s"
  shows "H \<subseteq> {..<NBUF}" "\<forall>i<NBUF. rc i + 1 \<noteq> 0" "\<exists>ord. lru (bufs s) ord"
  using assms by (auto simp: inuse_def)

lemma loaded_view:
  assumes "uniq dev (bufs s)" "i < NBUF"
    and "caches (bufs s) dev n i \<or> (\<forall>j. \<not> caches (bufs s) dev n j)"
    and "\<not> caches (bufs s) dev n i \<Longrightarrow> b_valid (bufs s i) \<Longrightarrow> b_data (bufs s i) = disk s (b_blockno (bufs s i))"
  shows "uniq dev (bufs (loaded i dev n s))" "bview dev (loaded i dev n s) = bview dev s"
proof -
  let ?t = "loaded i dev n s"
  have other: "caches (bufs ?t) dev m j \<longleftrightarrow> (if j = i then m = n else caches (bufs s) dev m j)" for m j
    using assms(2) by (auto simp: caches_def loaded_fields)
  have alone: "caches (bufs s) dev n j \<Longrightarrow> j = i" for j using assms(1,3) unfolding uniq_def by blast
  show u: "uniq dev (bufs ?t)" unfolding uniq_def other using assms(1) alone
    by (auto simp: uniq_def loaded_fields)
  show "bview dev ?t = bview dev s"
  proof
    fix m
    show "bview dev ?t m = bview dev s m"
    proof (cases "m = n")
      case True
      have "caches (bufs ?t) dev n i" by (simp add: other)
      from bview_cached [OF u this] True show ?thesis by (simp add: loaded_fields)
    next
      case False
      show ?thesis
      proof (rule bviewI)
        fix j assume j: "caches (bufs ?t) dev m j" "b_valid (bufs ?t j)"
        then have "j \<noteq> i \<and> caches (bufs s) dev m j" using False unfolding other by (simp split: if_splits)
        then show "b_data (bufs ?t j) = bview dev s m"
          using j(2) bview_cached [OF assms(1), of m j] by (simp add: loaded_fields)
      next
        assume none: "\<And>j. caches (bufs ?t) dev m j \<Longrightarrow> \<not> b_valid (bufs ?t j)"
        show "disk ?t m = bview dev s m"
        proof (cases "caches (bufs s) dev m i \<and> b_valid (bufs s i)")
          case True
          then show ?thesis using assms(4) False bview_cached [OF assms(1), of m i] by (auto simp: caches_def loaded_fields)
        next
          case False
          then have "caches (bufs s) dev m j \<Longrightarrow> \<not> b_valid (bufs s j)" for j
            using none [of j] unfolding other by (cases "j = i") (auto simp: loaded_fields)
          then show ?thesis by (simp add: bview_uncached loaded_fields)
        qed
      qed
    qed
  qed
qed

lemma lru_upd_buf:
  "(\<And>x. b_next (f x) = b_next x \<and> b_prev (f x) = b_prev x) \<Longrightarrow> lru (bs(i := f (bs i))) ord = lru bs ord"
  by (rule lru_same) simp

lemma inuse_loaded:
  assumes "inuse dev rc H s" "i < NBUF" "i \<notin> H"
    and "caches (bufs s) dev n i \<or> (\<forall>j. \<not> caches (bufs s) dev n j) \<and> rc i = 0"
  shows "inuse dev rc (insert i H) (loaded i dev n s)" "bview dev (loaded i dev n s) = bview dev s"
    "bframe s (loaded i dev n s)"
proof -
  have f: "free_ok rc (slocks s (SL_buf i)) (bufs s i) (disk s) i" using inuse_at [OF assms(1,2)] assms(3) by simp
  have v: "uniq dev (bufs (loaded i dev n s))" "bview dev (loaded i dev n s) = bview dev s"
    using loaded_view [of dev s i n] inuseD(2) [OF assms(1)] assms(2,4) f by (auto simp: free_ok_def)
  show "bview dev (loaded i dev n s) = bview dev s" by (rule v(2))
  obtain ord where "lru (bufs s) ord" using assms(1) by (auto simp: inuse_def)
  then have "lru (bufs (loaded i dev n s)) ord" unfolding loaded_fields by (subst lru_same [of _ "bufs s"]) auto
  then show "inuse dev rc (insert i H) (loaded i dev n s)"
    using assms(1-3) v(1) f by (auto simp: inuse_def loaded_fields locked_ok_def free_ok_def)
  show "bframe s (loaded i dev n s)" unfolding loaded_def using bframe_trans bframe_intros(1,2) by blast
qed

text \<open>Whether \<^verbatim>\<open>bread\<close> finds a buffer for block \<open>n\<close> without waiting.\<close>

definition room :: "u32 \<Rightarrow> (nat \<Rightarrow> u32) \<Rightarrow> nat set \<Rightarrow> u32 \<Rightarrow> 'a bcache_scheme \<Rightarrow> bool" where
  "room dev rc H n s \<longleftrightarrow> (\<forall>i\<in>H. b_blockno (bufs s i) \<noteq> n) \<and>
     ((\<exists>i. caches (bufs s) dev n i) \<or> (\<exists>i<NBUF. i \<notin> H \<and> rc i = 0))"

lemma bread_law:
  assumes "inuse dev rc H s" "room dev rc H n s"
  shows "\<exists>i t. bread dev n s = Ok (i, t) \<and> i \<notin> H \<and> i < NBUF \<and> inuse dev rc (insert i H) t \<and>
    b_blockno (bufs t i) = n \<and> b_data (bufs t i) = bview dev s n \<and> bview dev t = bview dev s \<and>
    disk t = disk s \<and> dwrites t = dwrites s \<and> bframe s t \<and>
    (\<forall>j. j \<noteq> i \<or> rc j \<noteq> 0 \<longrightarrow> b_dev (bufs t j) = b_dev (bufs s j) \<and> b_blockno (bufs t j) = b_blockno (bufs s j)) \<and>
    (\<forall>j. j \<noteq> i \<longrightarrow> bufs t j = bufs s j)"
proof -
  obtain ord where ord: "lru (bufs s) ord" using assms(1) by (auto simp: inuse_def)
  have "\<exists>i<NBUF. i \<notin> H \<and> (caches (bufs s) dev n i \<or> (\<forall>j. \<not> caches (bufs s) dev n j) \<and> rc i = 0) \<and>
      bread dev n s = Ok (i, loaded i dev n s)"
  proof (cases "\<exists>i. caches (bufs s) dev n i")
    case True
    then obtain i where i: "caches (bufs s) dev n i" by blast
    then have "i < NBUF" "i \<notin> H" using assms(2) by (auto simp: caches_def room_def)
    moreover have "sl_locked (slocks s (SL_buf i)) = 0" using inuse_at(2) [OF assms(1)] calculation by (simp add: free_ok_def)
    ultimately show ?thesis using bread_hit [OF ord inuseD(2) [OF assms(1)] i inuseD(1) [OF assms(1)]] i by blast
  next
    case False
    then obtain j where j: "j < NBUF" "j \<notin> H" "rc j = 0" using assms(2) by (auto simp: room_def)
    have z: "i < NBUF \<Longrightarrow> b_refcnt (bufs s i) = 0 \<Longrightarrow> i \<notin> H \<and> rc i = 0 \<and> sl_locked (slocks s (SL_buf i)) = 0" for i
      using inuse_at [OF assms(1), of i] by (cases "i \<in> H") (auto simp: locked_ok_def free_ok_def)
    have "b_refcnt (bufs s j) = 0" using inuse_at(2) [OF assms(1) j(1,2)] j(3) by (simp add: free_ok_def)
    then obtain i where "i < NBUF" "b_refcnt (bufs s i) = 0" "bread dev n s = Ok (i, loaded i dev n s)"
      using bread_miss [OF ord _ j(1) _ inuseD(1) [OF assms(1)], of dev n] False z by blast
    then show ?thesis using z False by blast
  qed
  then obtain i where i: "i < NBUF" "i \<notin> H" "bread dev n s = Ok (i, loaded i dev n s)"
    "caches (bufs s) dev n i \<or> (\<forall>j. \<not> caches (bufs s) dev n j) \<and> rc i = 0" by blast
  show ?thesis
    using i(1,2,4) inuse_loaded [OF assms(1) i(1,2,4)]
    by (intro exI [of _ i] exI [of _ "loaded i dev n s"]) (auto simp: i(3) loaded_fields caches_def)
qed

definition set_data :: "nat \<Rightarrow> cstr \<Rightarrow> 'a bcache_scheme \<Rightarrow> 'a bcache_scheme" where
  "set_data i d = upd_buf i (\<lambda>x. x\<lparr>b_data := d\<rparr>)"

lemma set_data_fields [simp]:
  "held (set_data i d s) = held s" "mypid (set_data i d s) = mypid s" "slocks (set_data i d s) = slocks s"
  "disk (set_data i d s) = disk s" "dwrites (set_data i d s) = dwrites s"
  "bufs (set_data i d s) = (bufs s)(i := (bufs s i)\<lparr>b_data := d\<rparr>)"
  unfolding set_data_def by (simp_all add: upd_buf_slock) (simp_all add: upd_buf_def)

lemma set_data_law:
  assumes "inuse dev rc H s" "i \<in> H"
  shows "inuse dev rc H (set_data i d s)" "bview dev (set_data i d s) = (bview dev s)(b_blockno (bufs s i) := d)"
    "bframe s (set_data i d s)"
proof -
  let ?t = "set_data i d s"
  note i = inuse_locked [OF assms]
  have c: "caches (bufs ?t) dev m j = caches (bufs s) dev m j" for m j by (simp add: caches_def)
  have v: "b_valid (bufs ?t j) = b_valid (bufs s j)" for j by simp
  have u: "uniq dev (bufs ?t)" using inuseD(2) [OF assms(1)] unfolding uniq_def c v by simp
  obtain ord where "lru (bufs s) ord" using assms(1) by (auto simp: inuse_def)
  then have "lru (bufs ?t) ord" by (subst lru_same [of _ "bufs s"]) auto
  then show "inuse dev rc H ?t" using assms u by (auto simp: inuse_def locked_ok_def free_ok_def)
  show "bframe s ?t" unfolding set_data_def by (rule bframe_intros)
  show "bview dev ?t = (bview dev s)(b_blockno (bufs s i) := d)"
  proof
    fix m
    show "bview dev ?t m = ((bview dev s)(b_blockno (bufs s i) := d)) m"
    proof (rule bviewI; unfold c v)
      fix j assume j: "caches (bufs s) dev m j" "b_valid (bufs s j)"
      show "b_data (bufs ?t j) = ((bview dev s)(b_blockno (bufs s i) := d)) m"
        using j i bview_cached [OF inuseD(2) [OF assms(1)] j] inuseD(2) [OF assms(1)]
        by (cases "j = i") (auto simp: caches_def uniq_def)
    next
      assume none: "\<And>j. caches (bufs s) dev m j \<Longrightarrow> \<not> b_valid (bufs s j)"
      then have "m \<noteq> b_blockno (bufs s i)" using i by blast
      then show "disk ?t m = ((bview dev s)(b_blockno (bufs s i) := d)) m" using bview_uncached [OF none] by simp
    qed
  qed
qed

lemma bwrite_law:
  assumes "inuse dev rc H s" "i \<in> H"
  shows "\<exists>t. bwrite i s = Ok t \<and> inuse dev rc H t \<and> bview dev t = bview dev s \<and> bufs t = bufs s \<and>
    disk t = (disk s)(b_blockno (bufs s i) := b_data (bufs s i)) \<and>
    dwrites t = dwrites s @ [(b_blockno (bufs s i), b_data (bufs s i))] \<and> bframe s t"
proof -
  let ?t = "disk_rw i True s"
  note i = inuse_locked [OF assms]
  have f: "held ?t = held s" "bufs ?t = bufs s" "slocks ?t = slocks s" "mypid ?t = mypid s"
    "disk ?t = (disk s)(b_blockno (bufs s i) := b_data (bufs s i))"
    "dwrites ?t = dwrites s @ [(b_blockno (bufs s i), b_data (bufs s i))]"
    by (simp_all add: disk_rw_def Let_def mypid_def this_proc_def myproc_def)
  have "bwrite i s = Ok ?t"
    using inuseD(1) [OF assms(1)] i by (simp add: bwrite_def holdingsleep_Ok mypid_def)
  moreover have "free_ok rc (slocks s (SL_buf j)) (bufs s j) (disk ?t) j"
    if j: "j < NBUF" "j \<notin> H" for j
  proof -
    have "j \<noteq> i" using j(2) assms(2) by auto
    then have "b_valid (bufs s j) \<Longrightarrow> b_blockno (bufs s j) \<noteq> b_blockno (bufs s i)"
      using inuseD(2) [OF assms(1)] i j(1) unfolding uniq_def caches_def by metis
    then show ?thesis using inuse_at(2) [OF assms(1) j] by (auto simp: free_ok_def f)
  qed
  then have "inuse dev rc H ?t" using assms(1) unfolding inuse_def f by auto
  moreover have "bview dev ?t = bview dev s"
  proof
    fix m
    show "bview dev ?t m = bview dev s m"
    proof (rule bviewI; unfold f)
      fix j assume "caches (bufs s) dev m j" "b_valid (bufs s j)"
      from bview_cached [OF inuseD(2) [OF assms(1)] this] show "b_data (bufs s j) = bview dev s m" by simp
    next
      assume none: "\<And>j. caches (bufs s) dev m j \<Longrightarrow> \<not> b_valid (bufs s j)"
      then have "m \<noteq> b_blockno (bufs s i)" using i by blast
      then show "((disk s)(b_blockno (bufs s i) := b_data (bufs s i))) m = bview dev s m"
        using bview_uncached [OF none] by simp
    qed
  qed
  ultimately show ?thesis using f bframe_intros(4) by blast
qed

definition put_back :: "nat \<Rightarrow> (nat \<Rightarrow> buf) \<Rightarrow> nat \<Rightarrow> buf" where
  "put_back i bs =
     (let bs = bs(i := (bs i)\<lparr>b_refcnt := b_refcnt (bs i) - 1\<rparr>) in
      if b_refcnt (bs i) = 0 then set_links (relink i (links bs)) bs else bs)"

lemma put_back_fields:
  "same_content bs (put_back i bs)"
  "b_refcnt (put_back i bs j) = (if j = i then b_refcnt (bs i) - 1 else b_refcnt (bs j))"
  by (auto simp: put_back_def set_links_def same_content_def Let_def)

lemma lru_put_back:
  assumes "lru bs ord" "i < NBUF" shows "\<exists>ord'. lru (put_back i bs) ord'"
proof -
  have "lru (bs(i := (bs i)\<lparr>b_refcnt := b_refcnt (bs i) - 1\<rparr>)) ord"
    using assms(1) by (subst lru_same [of _ bs]) auto
  from this lru_move_front [OF this assms(2)] show ?thesis unfolding put_back_def Let_def
    by (cases "b_refcnt (bs i) = 1") auto
qed

lemma brelse_Ok:
  assumes "held s = []" "sl_locked (slocks s (SL_buf i)) \<noteq> 0" "sl_pid (slocks s (SL_buf i)) = mypid s"
  shows "brelse i s = Ok ((woken (Chan_sleeplock (SL_buf i))
    (upd_slock (SL_buf i) (\<lambda>l. l\<lparr>sl_locked := 0, sl_pid := 0\<rparr>) s))\<lparr>bufs := put_back i (bufs s)\<rparr>)"
proof -
  let ?u = "woken (Chan_sleeplock (SL_buf i)) (upd_slock (SL_buf i) (\<lambda>l. l\<lparr>sl_locked := 0, sl_pid := 0\<rparr>) s)"
  have h: "holdingsleep (SL_buf i) s = Ok (True, s)" using assms by (simp add: holdingsleep_Ok mypid_def)
  have r: "releasesleep (SL_buf i) s = Ok ?u" using assms(1) by (simp add: releasesleep_Ok no_proc_lock_def)
  have u: "held ?u = []" "bufs ?u = bufs s" using assms(1) by (simp_all add: woken_def upd_slock_def)
  have k: "L_bcache \<notin> set (held ?u)" using u by simp
  have "rbind (acquire L_bcache ?u) (\<lambda>s.
       let s = upd_buf i (\<lambda>x. x\<lparr>b_refcnt := b_refcnt x - 1\<rparr>) s;
           s = (if b_refcnt (bufs s i) = 0 then move_front i s else s) in
       release L_bcache s) = Ok (?u\<lparr>bufs := put_back i (bufs ?u)\<rparr>)"
    using k by (simp add: put_back_def Let_def upd_buf_def move_front_links)
  then show ?thesis unfolding brelse_def h r u(2) by (simp add: r u)
qed

lemma brelse_law:
  assumes "inuse dev rc H s" "i \<in> H" "rc i = 0 \<Longrightarrow> b_data (bufs s i) = disk s (b_blockno (bufs s i))"
  shows "\<exists>t. brelse i s = Ok t \<and> inuse dev rc (H - {i}) t \<and> bview dev t = bview dev s \<and>
    same_content (bufs s) (bufs t) \<and> disk t = disk s \<and> dwrites t = dwrites s \<and> bframe s t"
proof -
  let ?l = "\<lambda>l. l\<lparr>sl_locked := 0, sl_pid := 0\<rparr>"
  let ?t = "(woken (Chan_sleeplock (SL_buf i)) (upd_slock (SL_buf i) ?l s))\<lparr>bufs := put_back i (bufs s)\<rparr>"
  note i = inuse_locked [OF assms(1,2)]
  have f: "held ?t = held s" "bufs ?t = put_back i (bufs s)" "disk ?t = disk s" "dwrites ?t = dwrites s"
    "slocks ?t = (slocks s)(SL_buf i := ?l (slocks s (SL_buf i)))" "mypid ?t = mypid s"
    by (simp_all add: woken_def upd_slock_def mypid_def this_proc_def myproc_def wake_procs_def)
  have same: "same_content (bufs s) (bufs ?t)" unfolding f by (rule put_back_fields)
  have "brelse i s = Ok ?t" using i inuseD [OF assms(1)] by (intro brelse_Ok) auto
  moreover have "inuse dev rc (H - {i}) ?t"
  proof -
    obtain ord where "lru (bufs ?t) ord" using inuse_base(3) [OF assms(1)] lru_put_back i(1) f(2) by metis
    moreover have "uniq dev (bufs ?t)" using uniq_same [OF same] inuseD(2) [OF assms(1)] by simp
    moreover note at = inuse_at [OF assms(1)] put_back_fields(2) [of i "bufs s"]
    have "locked_ok (mypid ?t) rc (slocks ?t (SL_buf j)) (bufs ?t j) j" if "j < NBUF" "j \<in> H - {i}" for j
      using at(1) [of j] at(4) [of j] that same by (simp add: f locked_ok_def same_content_def)
    moreover have "free_ok rc (slocks ?t (SL_buf j)) (bufs ?t j) (disk ?t) j" if "j < NBUF" "j \<notin> H - {i}" for j
      using at(2) [of j] at(4) [of j] that assms(3) i same
      by (cases "j = i") (auto simp: f free_ok_def same_content_def)
    ultimately show ?thesis using inuse_base(1,2) [OF assms(1)] inuseD(1) [OF assms(1)] f(1)
      by (intro inuseI) auto
  qed
  moreover have "bview dev ?t = bview dev s" using bview_same [OF same] f by simp
  moreover have "bframe s ?t"
  proof -
    have "bframe s (woken (Chan_sleeplock (SL_buf i)) (upd_slock (SL_buf i) ?l s))"
      using bframe_trans bframe_intros(2,3) by blast
    moreover have "bframe u (u\<lparr>bufs := bs\<rparr>)" for u :: "'a bcache_scheme" and bs by (simp add: bframe_def)
    ultimately show ?thesis using bframe_trans by blast
  qed
  ultimately show ?thesis using f same by blast
qed

lemma refcnt_law:
  assumes "inuse dev rc H s" "i \<in> H" "r + 1 \<noteq> 0"
  shows "inuse dev (rc(i := r)) H (upd_buf i (\<lambda>x. x\<lparr>b_refcnt := r + 1\<rparr>) s)"
    "bview dev (upd_buf i (\<lambda>x. x\<lparr>b_refcnt := r + 1\<rparr>) s) = bview dev s"
proof -
  let ?t = "upd_buf i (\<lambda>x. x\<lparr>b_refcnt := r + 1\<rparr>) s"
  have f: "held ?t = held s" "slocks ?t = slocks s" "disk ?t = disk s" "mypid ?t = mypid s"
    "bufs ?t = (bufs s)(i := (bufs s i)\<lparr>b_refcnt := r + 1\<rparr>)"
    by (simp_all add: upd_buf_def mypid_def this_proc_def myproc_def)
  have same: "same_content (bufs s) (bufs ?t)" by (simp add: f same_content_def)
  show "bview dev ?t = bview dev s" using bview_same [OF same] f by simp
  obtain ord where "lru (bufs s) ord" using inuse_base(3) [OF assms(1)] by blast
  then have "lru (bufs ?t) ord" unfolding f by (subst lru_same [of _ "bufs s"]) auto
  moreover have "uniq dev (bufs ?t)" using uniq_same [OF same] inuseD(2) [OF assms(1)] by simp
  moreover have "locked_ok (mypid ?t) (rc(i := r)) (slocks ?t (SL_buf j)) (bufs ?t j) j" if "j < NBUF" "j \<in> H" for j
    using inuse_at(1) [OF assms(1) that] by (auto simp: f locked_ok_def)
  moreover have "free_ok (rc(i := r)) (slocks ?t (SL_buf j)) (bufs ?t j) (disk ?t) j" if "j < NBUF" "j \<notin> H" for j
    using inuse_at(2) [OF assms(1) that] that assms(2) by (auto simp: f free_ok_def)
  ultimately show "inuse dev (rc(i := r)) H ?t"
    using inuse_base(1,2) [OF assms(1)] inuseD(1) [OF assms(1)] assms(3) f(1) by (intro inuseI) auto
qed

lemma bpin_law:
  assumes "inuse dev rc H s" "i \<in> H" "rc i + 2 \<noteq> 0"
  shows "\<exists>t. bpin i s = Ok t \<and> inuse dev (rc(i := rc i + 1)) H t \<and> bview dev t = bview dev s \<and>
    same_content (bufs s) (bufs t) \<and> disk t = disk s \<and> dwrites t = dwrites s \<and> bframe s t"
proof -
  let ?t = "upd_buf i (\<lambda>x. x\<lparr>b_refcnt := (rc i + 1) + 1\<rparr>) s"
  have "bpin i s = Ok ?t"
    using inuseD(1) [OF assms(1)] inuse_locked(5) [OF assms(1,2)] by (simp add: bpin_def upd_buf_def)
  moreover have "rc i + 1 + 1 \<noteq> 0" using assms(3) by (simp add: add.assoc)
  note refcnt_law [OF assms(1,2) this]
  moreover have "same_content (bufs s) (bufs ?t)" "disk ?t = disk s" "dwrites ?t = dwrites s"
    by (simp_all add: upd_buf_def same_content_def)
  ultimately show ?thesis using bframe_intros(1) by blast
qed

lemma bunpin_law:
  assumes "inuse dev rc H s" "i \<in> H" "rc i \<noteq> 0"
  shows "\<exists>t. bunpin i s = Ok t \<and> inuse dev (rc(i := rc i - 1)) H t \<and> bview dev t = bview dev s \<and>
    same_content (bufs s) (bufs t) \<and> disk t = disk s \<and> dwrites t = dwrites s \<and> bframe s t"
proof -
  let ?t = "upd_buf i (\<lambda>x. x\<lparr>b_refcnt := (rc i - 1) + 1\<rparr>) s"
  have "bunpin i s = Ok ?t"
    using inuseD(1) [OF assms(1)] inuse_locked(5) [OF assms(1,2)] by (simp add: bunpin_def upd_buf_def)
  moreover have "rc i - 1 + 1 \<noteq> 0" using assms(3) by simp
  note refcnt_law [OF assms(1,2) this]
  moreover have "same_content (bufs s) (bufs ?t)" "disk ?t = disk s" "dwrites ?t = dwrites s"
    by (simp_all add: upd_buf_def same_content_def)
  ultimately show ?thesis using bframe_intros(1) by blast
qed

text \<open>A cache that has just been initialised: all buffers empty, in static storage that starts zeroed.\<close>

lemma binit_inuse:
  assumes "held s = []" "dev \<noteq> 0" "\<forall>i<NBUF. \<not> b_valid (bufs s i) \<and> b_refcnt (bufs s i) = 0 \<and> b_dev (bufs s i) = 0"
  shows "inuse dev (\<lambda>_. 0) {} (binit s) \<and> bview dev (binit s) = disk s \<and> disk (binit s) = disk s \<and>
    dwrites (binit s) = dwrites s \<and> bframe s (binit s)"
proof -
  obtain nx pv sl where b: "binit s = s\<lparr>bufs := set_links (nx, pv) (bufs s), slocks := sl\<rparr>"
    "lru (set_links (nx, pv) (bufs s)) (rev [0..<NBUF])" "\<forall>j<NBUF. sl_locked (sl (SL_buf j)) = 0"
    "\<forall>j. sl (SL_inode j) = slocks s (SL_inode j)" using binit_ring [of s] by blast
  have "uniq dev (set_links (nx, pv) (bufs s))" using assms(2,3) by (auto simp: uniq_def caches_def set_links_def)
  then have "inuse dev (\<lambda>_. 0) {} (binit s)"
    using b assms by (intro inuseI [of _ "rev [0..<NBUF]"]) (auto simp: free_ok_def set_links_def)
  moreover have "bview dev (binit s) = disk s"
  proof
    fix n
    have "bview dev (binit s) n = disk (binit s) n"
      using assms(2,3) by (intro bview_uncached) (auto simp: b(1) caches_def set_links_def)
    then show "bview dev (binit s) n = disk s n" by (simp add: b(1))
  qed
  moreover have "bframe s (binit s)" unfolding b(1) bframe_def using b(4) by simp
  ultimately show ?thesis by (simp add: b(1))
qed

section \<open>The contract\<close>

text \<open>
  The cache as the log sees it, on one device: a map from block numbers to contents, of which some
  blocks are pinned in the cache, and a disk that it writes through to. \<open>spare\<close> counts the buffers
  that can be recycled.
\<close>

definition spare :: "(nat \<Rightarrow> u32) \<Rightarrow> nat set \<Rightarrow> nat" where
  "spare rc H = card {i. i < NBUF \<and> i \<notin> H \<and> rc i = 0}"

lemma spare_insert: "spare rc H \<le> Suc (spare rc (insert i H))"
proof -
  have "{i. i < NBUF \<and> i \<notin> H \<and> rc i = 0} \<subseteq> insert i {j. j < NBUF \<and> j \<notin> insert i H \<and> rc j = 0}" by auto
  then have "spare rc H \<le> card (insert i {j. j < NBUF \<and> j \<notin> insert i H \<and> rc j = 0})"
    unfolding spare_def by (intro card_mono) auto
  also have "\<dots> \<le> Suc (spare rc (insert i H))" unfolding spare_def by (intro card_insert_le_m1) auto
  finally show ?thesis .
qed

lemma spare_pos: "0 < spare rc H \<longleftrightarrow> (\<exists>i<NBUF. i \<notin> H \<and> rc i = 0)"
  by (auto simp: spare_def card_gt_0_iff)

locale buffer_cache =
  fixes bread :: "u32 \<Rightarrow> 's \<Rightarrow> (nat \<times> 's) outcome"
    and bwrite brelse bpin bunpin :: "nat \<Rightarrow> 's \<Rightarrow> 's outcome"
    and setd :: "nat \<Rightarrow> cstr \<Rightarrow> 's \<Rightarrow> 's"
    and inuse :: "(nat \<Rightarrow> u32) \<Rightarrow> nat set \<Rightarrow> 's \<Rightarrow> bool"
    and view dsk :: "'s \<Rightarrow> u32 \<Rightarrow> cstr"
    and hist :: "'s \<Rightarrow> (u32 \<times> cstr) list"
    and blk :: "'s \<Rightarrow> nat \<Rightarrow> u32"
    and dat :: "'s \<Rightarrow> nat \<Rightarrow> cstr"
    and pin_at :: "(nat \<Rightarrow> u32) \<Rightarrow> 's \<Rightarrow> u32 \<Rightarrow> nat \<Rightarrow> bool"
    and fr :: "'s \<Rightarrow> 's \<Rightarrow> bool"
  assumes fr_trans: "fr s t \<Longrightarrow> fr t u \<Longrightarrow> fr s u"
    and pin_at_rc: "pin_at rc s n i \<Longrightarrow> rc i \<noteq> 0"
    and pin_at_one: "pin_at rc s n i \<Longrightarrow> pin_at rc s m i \<Longrightarrow> m = n"
    and bread: "inuse rc H s \<Longrightarrow> (\<And>i. i \<in> H \<Longrightarrow> blk s i \<noteq> n) \<Longrightarrow> (\<exists>i. pin_at rc s n i) \<or> 0 < spare rc H \<Longrightarrow>
      \<exists>i t. bread n s = Ok (i, t) \<and> i \<notin> H \<and> inuse rc (insert i H) t \<and> blk t i = n \<and> dat t i = view s n \<and>
        (rc i = 0 \<longrightarrow> view s n = dsk s n) \<and> (\<forall>j. pin_at rc s n j \<longrightarrow> j = i) \<and>
        view t = view s \<and> dsk t = dsk s \<and> hist t = hist s \<and> fr s t \<and> pin_at rc t = pin_at rc s \<and>
        (\<forall>j. j \<noteq> i \<longrightarrow> blk t j = blk s j \<and> dat t j = dat s j)"
    and setd: "inuse rc H s \<Longrightarrow> i \<in> H \<Longrightarrow>
      inuse rc H (setd i d s) \<and> view (setd i d s) = (view s)(blk s i := d) \<and> dsk (setd i d s) = dsk s \<and>
      hist (setd i d s) = hist s \<and> fr s (setd i d s) \<and> pin_at rc (setd i d s) = pin_at rc s \<and>
      blk (setd i d s) = blk s \<and> dat (setd i d s) = (dat s)(i := d)"
    and bwrite: "inuse rc H s \<Longrightarrow> i \<in> H \<Longrightarrow>
      \<exists>t. bwrite i s = Ok t \<and> inuse rc H t \<and> view t = view s \<and> dsk t = (dsk s)(blk s i := dat s i) \<and>
        hist t = hist s @ [(blk s i, dat s i)] \<and> fr s t \<and> pin_at rc t = pin_at rc s \<and> blk t = blk s \<and> dat t = dat s"
    and brelse: "inuse rc H s \<Longrightarrow> i \<in> H \<Longrightarrow> (rc i = 0 \<Longrightarrow> dat s i = dsk s (blk s i)) \<Longrightarrow>
      \<exists>t. brelse i s = Ok t \<and> inuse rc (H - {i}) t \<and> view t = view s \<and> dsk t = dsk s \<and>
        hist t = hist s \<and> fr s t \<and> pin_at rc t = pin_at rc s \<and> blk t = blk s \<and> dat t = dat s"
    and bunpin: "inuse rc H s \<Longrightarrow> i \<in> H \<Longrightarrow> rc i \<noteq> 0 \<Longrightarrow>
      \<exists>t. bunpin i s = Ok t \<and> inuse (rc(i := rc i - 1)) H t \<and> view t = view s \<and> dsk t = dsk s \<and>
        hist t = hist s \<and> fr s t \<and>
        (\<forall>m j. pin_at (rc(i := rc i - 1)) t m j \<longleftrightarrow> pin_at rc s m j \<and> (rc(i := rc i - 1)) j \<noteq> 0) \<and>
        blk t = blk s \<and> dat t = dat s"
    and bpin: "inuse rc H s \<Longrightarrow> i \<in> H \<Longrightarrow> rc i + 2 \<noteq> 0 \<Longrightarrow>
      \<exists>t. bpin i s = Ok t \<and> inuse (rc(i := rc i + 1)) H t \<and> view t = view s \<and> dsk t = dsk s \<and>
        hist t = hist s \<and> fr s t \<and> pin_at (rc(i := rc i + 1)) t (blk s i) i \<and>
        (\<forall>m j. j \<noteq> i \<longrightarrow> pin_at (rc(i := rc i + 1)) t m j = pin_at rc s m j) \<and> blk t = blk s \<and> dat t = dat s"
begin

text \<open>Reading a block and giving the buffer back.\<close>

lemma read_back:
  assumes "inuse rc {} s" "(\<exists>i. pin_at rc s n i) \<or> 0 < spare rc {}"
  shows "\<exists>i t u. bread n s = Ok (i, t) \<and> dat t i = view s n \<and> brelse i t = Ok u \<and> fr s t \<and>
    inuse rc {} u \<and> view u = view s \<and> dsk u = dsk s \<and> hist u = hist s \<and> fr s u \<and> pin_at rc u = pin_at rc s"
proof -
  obtain i t where t: "bread n s = Ok (i, t)" "inuse rc {i} t" "blk t i = n" "dat t i = view s n"
    "rc i = 0 \<longrightarrow> view s n = dsk s n" "view t = view s" "dsk t = dsk s" "hist t = hist s" "fr s t"
    "pin_at rc t = pin_at rc s" using bread [OF assms(1) _ assms(2)] by auto
  have "rc i = 0 \<Longrightarrow> dat t i = dsk t (blk t i)" using t by simp
  from brelse [OF t(2) singletonI this] obtain u where "brelse i t = Ok u" "inuse rc {} u" "view u = view t"
    "dsk u = dsk t" "hist u = hist t" "fr t u" "pin_at rc u = pin_at rc t" by auto
  then show ?thesis using t fr_trans [OF t(9)] by metis
qed

text \<open>Changing a block in the cache and on the disk.\<close>

lemma write_through:
  assumes "inuse rc {} s" "(\<exists>i. pin_at rc s n i) \<or> 0 < spare rc {}"
  shows "\<exists>i t u v. bread n s = Ok (i, t) \<and> dat t i = view s n \<and> fr s t \<and>
    bwrite i (setd i d t) = Ok u \<and> brelse i u = Ok v \<and> inuse rc {} v \<and> view v = (view s)(n := d) \<and>
    dsk v = (dsk s)(n := d) \<and> hist v = hist s @ [(n, d)] \<and> fr s v \<and> pin_at rc v = pin_at rc s"
proof -
  obtain i t where t: "bread n s = Ok (i, t)" "inuse rc {i} t" "blk t i = n" "dat t i = view s n"
    "view t = view s" "dsk t = dsk s" "hist t = hist s" "fr s t" "pin_at rc t = pin_at rc s"
    using bread [OF assms(1) _ assms(2)] by auto
  note s = setd [OF t(2) singletonI, of d]
  obtain u where u: "bwrite i (setd i d t) = Ok u" "inuse rc {i} u" "view u = (view s)(n := d)"
    "dsk u = (dsk s)(n := d)" "hist u = hist s @ [(n, d)]" "fr (setd i d t) u" "pin_at rc u = pin_at rc s"
    "blk u i = n" "dat u i = d"
    using bwrite [of rc "{i}" "setd i d t" i] s t by auto
  have "rc i = 0 \<Longrightarrow> dat u i = dsk u (blk u i)" using u by simp
  from brelse [OF u(2) singletonI this] obtain v where v: "brelse i u = Ok v" "inuse rc {} v" "view v = view u"
    "dsk v = dsk u" "hist v = hist u" "fr u v" "pin_at rc v = pin_at rc u" by auto
  have "fr s v" using fr_trans [OF t(8)] fr_trans [OF _ u(6)] fr_trans [OF _ v(6)] s by blast
  then show ?thesis using t u v by (intro exI [of _ i] exI [of _ t] exI [of _ u] exI [of _ v]) simp
qed

text \<open>Two blocks at a time; the second is pinned, or there are two spare buffers.\<close>

lemma read_two:
  assumes "inuse rc {} s" "a \<noteq> b" "0 < spare rc {}" "(\<exists>i. pin_at rc s b i) \<or> 1 < spare rc {}"
  shows "\<exists>i t j u. bread a s = Ok (i, t) \<and> bread b t = Ok (j, u) \<and> i \<noteq> j \<and> inuse rc {i, j} u \<and> fr s t \<and> fr s u \<and>
    blk u i = a \<and> dat u i = view s a \<and> blk u j = b \<and> dat u j = view s b \<and> (\<forall>k. pin_at rc s b k \<longrightarrow> k = j) \<and>
    (rc i = 0 \<longrightarrow> view s a = dsk s a) \<and> (rc j = 0 \<longrightarrow> view s b = dsk s b) \<and>
    view u = view s \<and> dsk u = dsk s \<and> hist u = hist s \<and> pin_at rc u = pin_at rc s"
proof -
  obtain i t where t: "bread a s = Ok (i, t)" "inuse rc {i} t" "blk t i = a" "dat t i = view s a"
    "view t = view s" "dsk t = dsk s" "hist t = hist s" "fr s t" "pin_at rc t = pin_at rc s"
    "rc i = 0 \<longrightarrow> view s a = dsk s a" using bread [OF assms(1), of a] assms(3) by auto
  have "0 < spare rc {i}" if "1 < spare rc {}" using spare_insert [of rc "{}" i] that by simp
  then have "(\<exists>k. pin_at rc t b k) \<or> 0 < spare rc {i}" using assms(4) t(9) by auto
  then obtain j u where u: "bread b t = Ok (j, u)" "j \<notin> {i}" "inuse rc {j, i} u" "blk u j = b" "dat u j = view s b"
    "view u = view s" "dsk u = dsk s" "hist u = hist s" "fr t u" "pin_at rc u = pin_at rc s"
    "rc j = 0 \<longrightarrow> view s b = dsk s b" "\<forall>k. pin_at rc s b k \<longrightarrow> k = j" "blk u i = blk t i" "dat u i = dat t i"
    using bread [OF t(2), of b] t assms(2) by auto
  show ?thesis
    using t u fr_trans [OF t(8) u(9)] by (intro exI [of _ i] exI [of _ t] exI [of _ j] exI [of _ u]) (auto simp: insert_commute)
qed

text \<open>The step of \<^verbatim>\<open>write_log\<close>: block \<open>b\<close> is copied over block \<open>a\<close>.\<close>

lemma copy_to:
  assumes "inuse rc {} s" "a \<noteq> b" "0 < spare rc {}" "(\<exists>i. pin_at rc s b i) \<or> 1 < spare rc {}"
  shows "\<exists>i t j u v w x. bread a s = Ok (i, t) \<and> bread b t = Ok (j, u) \<and> bwrite i (setd i (dat u j) u) = Ok v \<and>
    brelse j v = Ok w \<and> brelse i w = Ok x \<and> fr s t \<and> fr s x \<and> inuse rc {} x \<and>
    view x = (view s)(a := view s b) \<and> dsk x = (dsk s)(a := view s b) \<and>
    hist x = hist s @ [(a, view s b)] \<and> pin_at rc x = pin_at rc s"
proof -
  obtain i t j u where u: "bread a s = Ok (i, t)" "bread b t = Ok (j, u)" "i \<noteq> j" "inuse rc {i, j} u" "fr s t" "fr s u"
    "blk u i = a" "dat u i = view s a" "blk u j = b" "dat u j = view s b"
    "rc j = 0 \<longrightarrow> view s b = dsk s b"
    "view u = view s" "dsk u = dsk s" "hist u = hist s" "pin_at rc u = pin_at rc s"
    using read_two [OF assms] by blast
  have m: "i \<in> {i, j}" by simp
  note s = setd [OF u(4) m, of "dat u j"]
  obtain v where v: "bwrite i (setd i (dat u j) u) = Ok v" "inuse rc {i, j} v" "view v = (view s)(a := view s b)"
    "dsk v = (dsk s)(a := view s b)" "hist v = hist s @ [(a, view s b)]" "fr (setd i (dat u j) u) v"
    "pin_at rc v = pin_at rc s" "blk v = blk u" "dat v = (dat u)(i := dat u j)"
    using bwrite [of rc "{i, j}" "setd i (dat u j) u" i] s u by auto
  have "rc j = 0 \<Longrightarrow> dat v j = dsk v (blk v j)" using u v assms(2) by simp
  then obtain w where w: "brelse j v = Ok w" "inuse rc ({i, j} - {j}) w" "view w = view v" "dsk w = dsk v"
    "hist w = hist v" "fr v w" "pin_at rc w = pin_at rc v" "blk w = blk v" "dat w = dat v"
    using brelse [OF v(2), of j] by auto
  have only: "{i, j} - {j} = {i}" using u(3) by auto
  have "rc i = 0 \<Longrightarrow> dat w i = dsk w (blk w i)" using u v w by simp
  from brelse [OF w(2) [unfolded only] singletonI this] obtain x where x: "brelse i w = Ok x" "inuse rc {} x"
    "view x = view w" "dsk x = dsk w" "hist x = hist w" "fr w x" "pin_at rc x = pin_at rc w" by auto
  have "fr s x" using u(6) s v(6) w(6) x(6) fr_trans by blast
  then show ?thesis using u(1,2,5) v(1,3,4,5,7) w(1,3,4,5,7) x(1-5,7) by metis
qed

text \<open>The step of \<^verbatim>\<open>install_trans\<close>: block \<open>a\<close> is copied over block \<open>b\<close>, which may be unpinned.\<close>

lemma copy_from:
  assumes "inuse rc {} s" "a \<noteq> b" "0 < spare rc {}" "(\<exists>i. pin_at rc s b i) \<or> 1 < spare rc {}"
    and "unpin \<Longrightarrow> \<exists>i. pin_at rc s b i"
  shows "\<exists>i t j u v v' w x. bread a s = Ok (i, t) \<and> bread b t = Ok (j, u) \<and> bwrite j (setd j (dat u i) u) = Ok v \<and>
    (if unpin then bunpin j v else Ok v) = Ok v' \<and> brelse i v' = Ok w \<and> brelse j w = Ok x \<and> fr s t \<and> fr s v \<and>
    fr s v' \<and> fr s x \<and> inuse (if unpin then rc(j := rc j - 1) else rc) {} x \<and>
    view x = (view s)(b := view s a) \<and> dsk x = (dsk s)(b := view s a) \<and> hist x = hist s @ [(b, view s a)] \<and>
    (unpin \<longrightarrow> pin_at rc s b j) \<and>
    (\<forall>m k. pin_at (if unpin then rc(j := rc j - 1) else rc) x m k \<longleftrightarrow>
       pin_at rc s m k \<and> (if unpin then rc(j := rc j - 1) else rc) k \<noteq> 0)"
proof -
  obtain i t j u where u: "bread a s = Ok (i, t)" "bread b t = Ok (j, u)" "i \<noteq> j" "inuse rc {i, j} u" "fr s t" "fr s u"
    "blk u i = a" "dat u i = view s a" "blk u j = b" "dat u j = view s b" "\<forall>k. pin_at rc s b k \<longrightarrow> k = j"
    "rc i = 0 \<longrightarrow> view s a = dsk s a"
    "view u = view s" "dsk u = dsk s" "hist u = hist s" "pin_at rc u = pin_at rc s"
    using read_two [OF assms(1-4)] by blast
  have m: "j \<in> {i, j}" by simp
  note s = setd [OF u(4) m, of "dat u i"]
  obtain v where v: "bwrite j (setd j (dat u i) u) = Ok v" "inuse rc {i, j} v" "view v = (view s)(b := view s a)"
    "dsk v = (dsk s)(b := view s a)" "hist v = hist s @ [(b, view s a)]" "fr (setd j (dat u i) u) v"
    "pin_at rc v = pin_at rc s" "blk v = blk u" "dat v = (dat u)(j := dat u i)"
    using bwrite [of rc "{i, j}" "setd j (dat u i) u" j] s u by auto
  have sv: "fr s v" using u(6) s v(6) fr_trans by blast
  define rc' where "rc' = (if unpin then rc(j := rc j - 1) else rc)"
  have pin: "unpin \<Longrightarrow> pin_at rc s b j \<and> rc j \<noteq> 0" using assms(5) u(11) pin_at_rc by blast
  have "\<exists>v'. (if unpin then bunpin j v else Ok v) = Ok v' \<and> inuse rc' {i, j} v' \<and> view v' = view v \<and> dsk v' = dsk v \<and>
      hist v' = hist v \<and> fr s v' \<and> (\<forall>m k. pin_at rc' v' m k \<longleftrightarrow> pin_at rc s m k \<and> rc' k \<noteq> 0) \<and>
      blk v' = blk v \<and> dat v' = dat v"
  proof (cases unpin)
    case True
    then show ?thesis using bunpin [OF v(2) m] pin v(7) sv fr_trans by (auto simp: rc'_def)
  next
    case False
    then show ?thesis using v(2,7) sv pin_at_rc by (auto simp: rc'_def)
  qed
  then obtain v' where v': "(if unpin then bunpin j v else Ok v) = Ok v'" "inuse rc' {i, j} v'" "view v' = view v"
    "dsk v' = dsk v" "hist v' = hist v" "fr s v'" "\<forall>m k. pin_at rc' v' m k \<longleftrightarrow> pin_at rc s m k \<and> rc' k \<noteq> 0"
    "blk v' = blk v" "dat v' = dat v" by blast
  have "rc' i = rc i" using u(3) by (simp add: rc'_def)
  then have "rc' i = 0 \<Longrightarrow> dat v' i = dsk v' (blk v' i)" using u v v' assms(2) by simp
  then obtain w where w: "brelse i v' = Ok w" "inuse rc' ({i, j} - {i}) w" "view w = view v'" "dsk w = dsk v'"
    "hist w = hist v'" "fr v' w" "pin_at rc' w = pin_at rc' v'" "blk w = blk v'" "dat w = dat v'"
    using brelse [OF v'(2), of i] by auto
  have only: "{i, j} - {i} = {j}" using u(3) by auto
  have "rc' j = 0 \<Longrightarrow> dat w j = dsk w (blk w j)" using u v v' w by simp
  from brelse [OF w(2) [unfolded only] singletonI this] obtain x where x: "brelse j w = Ok x" "inuse rc' {} x"
    "view x = view w" "dsk x = dsk w" "hist x = hist w" "fr w x" "pin_at rc' x = pin_at rc' w" by auto
  have "fr s x" using v'(6) w(6) x(6) fr_trans by blast
  moreover have "view x = (view s)(b := view s a)" "dsk x = (dsk s)(b := view s a)" "hist x = hist s @ [(b, view s a)]"
    using v(3-5) v'(3-5) w(3-5) x(3-5) by simp_all
  moreover have "\<forall>m k. pin_at rc' x m k \<longleftrightarrow> pin_at rc s m k \<and> rc' k \<noteq> 0" using v'(7) w(7) x(7) by simp
  ultimately show ?thesis
    using u(1,2,5) v(1) v'(1,6) w(1) x(1,2) sv pin unfolding rc'_def by blast
qed

end

definition pin_at :: "u32 \<Rightarrow> (nat \<Rightarrow> u32) \<Rightarrow> 'a bcache_scheme \<Rightarrow> u32 \<Rightarrow> nat \<Rightarrow> bool" where
  "pin_at dev rc s n i \<longleftrightarrow> caches (bufs s) dev n i \<and> rc i \<noteq> 0"

lemma pin_at_same: "same_content (bufs s) (bufs t) \<Longrightarrow> pin_at dev rc t = pin_at dev rc s"
  by (simp add: pin_at_def same_content_def caches_def fun_eq_iff)

lemma same_content_refl: "same_content bs bs"
  by (simp add: same_content_def)

lemma same_content_blk_dat:
  "same_content (bufs s) (bufs t) \<Longrightarrow> (\<lambda>j. b_blockno (bufs t j)) = (\<lambda>j. b_blockno (bufs s j)) \<and>
   (\<lambda>j. b_data (bufs t j)) = (\<lambda>j. b_data (bufs s j))"
  by (simp add: same_content_def)

lemma bread_contract:
  assumes "inuse dev rc H s" "\<And>i. i \<in> H \<Longrightarrow> b_blockno (bufs s i) \<noteq> n" "(\<exists>i. pin_at dev rc s n i) \<or> 0 < spare rc H"
  shows "\<exists>i t. bread dev n s = Ok (i, t) \<and> i \<notin> H \<and> inuse dev rc (insert i H) t \<and> b_blockno (bufs t i) = n \<and>
    b_data (bufs t i) = bview dev s n \<and> (rc i = 0 \<longrightarrow> bview dev s n = disk s n) \<and>
    (\<forall>j. pin_at dev rc s n j \<longrightarrow> j = i) \<and> bview dev t = bview dev s \<and> disk t = disk s \<and> dwrites t = dwrites s \<and>
    bframe s t \<and> pin_at dev rc t = pin_at dev rc s \<and>
    (\<forall>j. j \<noteq> i \<longrightarrow> b_blockno (bufs t j) = b_blockno (bufs s j) \<and> b_data (bufs t j) = b_data (bufs s j))"
proof -
  have "room dev rc H n s" using assms(2,3) by (auto simp: room_def spare_pos pin_at_def)
  from bread_law [OF assms(1) this] obtain i t where t: "bread dev n s = Ok (i, t)" "i \<notin> H" "i < NBUF"
    "inuse dev rc (insert i H) t" "b_blockno (bufs t i) = n" "b_data (bufs t i) = bview dev s n"
    "bview dev t = bview dev s" "disk t = disk s" "dwrites t = dwrites s" "bframe s t"
    "\<And>j. j \<noteq> i \<or> rc j \<noteq> 0 \<Longrightarrow> b_dev (bufs t j) = b_dev (bufs s j) \<and> b_blockno (bufs t j) = b_blockno (bufs s j)"
    "\<And>j. j \<noteq> i \<Longrightarrow> bufs t j = bufs s j" by blast
  have "\<forall>j. rc j \<noteq> 0 \<longrightarrow> b_dev (bufs t j) = b_dev (bufs s j) \<and> b_blockno (bufs t j) = b_blockno (bufs s j)"
    using t(11) by blast
  then have p: "pin_at dev rc t = pin_at dev rc s" by (auto simp: pin_at_def caches_def fun_eq_iff)
  have "caches (bufs t) dev n i" using inuse_locked(8) [OF t(4), of i] t(5) by simp
  then have u: "pin_at dev rc s n j \<Longrightarrow> j = i" for j
    using inuseD(2) [OF t(4)] p [THEN fun_cong, THEN fun_cong, of n j] unfolding pin_at_def uniq_def by blast
  have "bview dev s n = disk s n" if z: "rc i = 0"
  proof (rule bviewI)
    fix j assume j: "caches (bufs s) dev n j" "b_valid (bufs s j)"
    then have j': "j < NBUF" "j \<notin> H" "b_blockno (bufs s j) = n" using assms(2) by (auto simp: caches_def)
    have "rc j = 0" using u [of j] j z by (auto simp: pin_at_def)
    then show "b_data (bufs s j) = disk s n"
      using inuse_at(2) [OF assms(1) j'(1,2)] j(2) j'(3) by (simp add: free_ok_def)
  qed simp
  then show ?thesis using t p u by (intro exI [of _ i] exI [of _ t]) auto
qed

interpretation bc: buffer_cache
  "bread dev" bwrite brelse bpin bunpin set_data "inuse dev" "bview dev" disk dwrites
  "\<lambda>s i. b_blockno (bufs s i)" "\<lambda>s i. b_data (bufs s i)" "pin_at dev" bframe
  for dev :: u32
proof unfold_locales
  fix s t u :: "'a bcache_scheme"
  assume "bframe s t" "bframe t u"
  then show "bframe s u" by (rule bframe_trans)
next
  fix rc and s :: "'a bcache_scheme" and n m i
  show "pin_at dev rc s n i \<Longrightarrow> rc i \<noteq> 0" "pin_at dev rc s n i \<Longrightarrow> pin_at dev rc s m i \<Longrightarrow> m = n"
    by (simp_all add: pin_at_def caches_def)
next
  fix rc H and s :: "'a bcache_scheme" and n
  assume a: "inuse dev rc H s" "\<And>i. i \<in> H \<Longrightarrow> b_blockno (bufs s i) \<noteq> n" "(\<exists>i. pin_at dev rc s n i) \<or> 0 < spare rc H"
  show "\<exists>i t. bread dev n s = Ok (i, t) \<and> i \<notin> H \<and> inuse dev rc (insert i H) t \<and> b_blockno (bufs t i) = n \<and>
    b_data (bufs t i) = bview dev s n \<and> (rc i = 0 \<longrightarrow> bview dev s n = disk s n) \<and>
    (\<forall>j. pin_at dev rc s n j \<longrightarrow> j = i) \<and> bview dev t = bview dev s \<and> disk t = disk s \<and> dwrites t = dwrites s \<and>
    bframe s t \<and> pin_at dev rc t = pin_at dev rc s \<and>
    (\<forall>j. j \<noteq> i \<longrightarrow> b_blockno (bufs t j) = b_blockno (bufs s j) \<and> b_data (bufs t j) = b_data (bufs s j))"
    using a by (rule bread_contract)
next
  fix rc H and s :: "'a bcache_scheme" and i d
  assume a: "inuse dev rc H s" "i \<in> H"
  show "inuse dev rc H (set_data i d s) \<and> bview dev (set_data i d s) = (bview dev s)(b_blockno (bufs s i) := d) \<and>
    disk (set_data i d s) = disk s \<and> dwrites (set_data i d s) = dwrites s \<and> bframe s (set_data i d s) \<and>
    pin_at dev rc (set_data i d s) = pin_at dev rc s \<and>
    (\<lambda>j. b_blockno (bufs (set_data i d s) j)) = (\<lambda>j. b_blockno (bufs s j)) \<and>
    (\<lambda>j. b_data (bufs (set_data i d s) j)) = (\<lambda>j. b_data (bufs s j))(i := d)"
    using set_data_law [OF a] by (auto simp: pin_at_def caches_def fun_eq_iff)
next
  fix rc H and s :: "'a bcache_scheme" and i
  assume a: "inuse dev rc H s" "i \<in> H"
  show "\<exists>t. bwrite i s = Ok t \<and> inuse dev rc H t \<and> bview dev t = bview dev s \<and>
    disk t = (disk s)(b_blockno (bufs s i) := b_data (bufs s i)) \<and>
    dwrites t = dwrites s @ [(b_blockno (bufs s i), b_data (bufs s i))] \<and> bframe s t \<and>
    pin_at dev rc t = pin_at dev rc s \<and> (\<lambda>j. b_blockno (bufs t j)) = (\<lambda>j. b_blockno (bufs s j)) \<and>
    (\<lambda>j. b_data (bufs t j)) = (\<lambda>j. b_data (bufs s j))"
    using bwrite_law [OF a] pin_at_same same_content_refl by metis
next
  fix rc H and s :: "'a bcache_scheme" and i
  assume a: "inuse dev rc H s" "i \<in> H" "rc i = 0 \<Longrightarrow> b_data (bufs s i) = disk s (b_blockno (bufs s i))"
  show "\<exists>t. brelse i s = Ok t \<and> inuse dev rc (H - {i}) t \<and> bview dev t = bview dev s \<and> disk t = disk s \<and>
    dwrites t = dwrites s \<and> bframe s t \<and> pin_at dev rc t = pin_at dev rc s \<and>
    (\<lambda>j. b_blockno (bufs t j)) = (\<lambda>j. b_blockno (bufs s j)) \<and> (\<lambda>j. b_data (bufs t j)) = (\<lambda>j. b_data (bufs s j))"
    using brelse_law [OF a] by (auto simp: pin_at_same same_content_blk_dat)
next
  fix rc H and s :: "'a bcache_scheme" and i
  assume a: "inuse dev rc H s" "i \<in> H" "rc i \<noteq> 0"
  obtain t where t: "bunpin i s = Ok t" "inuse dev (rc(i := rc i - 1)) H t" "bview dev t = bview dev s"
    "same_content (bufs s) (bufs t)" "disk t = disk s" "dwrites t = dwrites s" "bframe s t"
    using bunpin_law [OF a] by blast
  then show "\<exists>t. bunpin i s = Ok t \<and> inuse dev (rc(i := rc i - 1)) H t \<and> bview dev t = bview dev s \<and> disk t = disk s \<and>
    dwrites t = dwrites s \<and> bframe s t \<and>
    (\<forall>m j. pin_at dev (rc(i := rc i - 1)) t m j \<longleftrightarrow> pin_at dev rc s m j \<and> (rc(i := rc i - 1)) j \<noteq> 0) \<and>
    (\<lambda>j. b_blockno (bufs t j)) = (\<lambda>j. b_blockno (bufs s j)) \<and> (\<lambda>j. b_data (bufs t j)) = (\<lambda>j. b_data (bufs s j))"
    using a(3) by (auto simp: same_content_def pin_at_def caches_def)
next
  fix rc H and s :: "'a bcache_scheme" and i
  assume a: "inuse dev rc H s" "i \<in> H" "rc i + 2 \<noteq> 0"
  obtain t where t: "bpin i s = Ok t" "inuse dev (rc(i := rc i + 1)) H t" "bview dev t = bview dev s"
    "same_content (bufs s) (bufs t)" "disk t = disk s" "dwrites t = dwrites s" "bframe s t"
    using bpin_law [OF a] by blast
  moreover have "pin_at dev (rc(i := rc i + 1)) t (b_blockno (bufs s i)) i"
    using inuse_locked(6,8) [OF a(1,2)] t(4) by (simp add: pin_at_def same_content_def caches_def)
  ultimately show "\<exists>t. bpin i s = Ok t \<and> inuse dev (rc(i := rc i + 1)) H t \<and> bview dev t = bview dev s \<and> disk t = disk s \<and>
    dwrites t = dwrites s \<and> bframe s t \<and> pin_at dev (rc(i := rc i + 1)) t (b_blockno (bufs s i)) i \<and>
    (\<forall>m j. j \<noteq> i \<longrightarrow> pin_at dev (rc(i := rc i + 1)) t m j = pin_at dev rc s m j) \<and>
    (\<lambda>j. b_blockno (bufs t j)) = (\<lambda>j. b_blockno (bufs s j)) \<and> (\<lambda>j. b_data (bufs t j)) = (\<lambda>j. b_data (bufs s j))"
    by (auto simp: same_content_def pin_at_def caches_def)
qed

end
