(* ===== verification/Log.thy ===== *)
theory Log
  imports Bio_Cache
begin

text \<open>
  The redo log, \<^verbatim>\<open>kernel/log.c\<close>. A transaction's blocks stay pinned in the cache; \<^verbatim>\<open>commit\<close> copies
  them to the log on the disk, writes the header that names their home blocks, copies them home and
  erases the header. The header block is read and written byte by byte, as the 32-bit fields of
  \<^verbatim>\<open>struct logheader\<close>.
\<close>

section \<open>State and operations\<close>

definition MAXOPBLOCKS :: int where "MAXOPBLOCKS = 10"
definition LOGSIZE :: int where "LOGSIZE = MAXOPBLOCKS * 3"

record logheader =
  lh_n :: int
  lh_block :: "nat \<Rightarrow> u32"

record logst = bcache +
  log_start :: u32
  log_size :: int
  log_outstanding :: int
  log_committing :: bool
  log_dev :: u32
  log_lh :: logheader

abbreviation logged :: "'a logst_scheme \<Rightarrow> nat" where
  "logged s \<equiv> nat (lh_n (log_lh s))"

text \<open>\<open>tail\<close> runs over the blocks of the transaction, \<open>k\<close> of them left.\<close>

fun install_trans_loop :: "bool \<Rightarrow> nat \<Rightarrow> nat \<Rightarrow> 'a logst_scheme \<Rightarrow> 'a logst_scheme outcome" where
  "install_trans_loop recovering tail 0 s = Ok s"
| "install_trans_loop recovering tail (Suc k) s =
     rbind (bread (log_dev s) (log_start s + of_nat tail + 1) s) (\<lambda>(lbuf, s).
     rbind (bread (log_dev s) (lh_block (log_lh s) tail) s) (\<lambda>(dbuf, s).
     let s = set_data dbuf (b_data (bufs s lbuf)) s in
     rbind (bwrite dbuf s) (\<lambda>s.
     rbind (if \<not> recovering then bunpin dbuf s else Ok s) (\<lambda>s.
     rbind (brelse lbuf s) (\<lambda>s.
     rbind (brelse dbuf s) (\<lambda>s.
     install_trans_loop recovering (Suc tail) k s))))))"

definition install_trans :: "bool \<Rightarrow> 'a logst_scheme \<Rightarrow> 'a logst_scheme outcome" where
  "install_trans recovering s = install_trans_loop recovering 0 (logged s) s"

text \<open>The fields of the header in a block's bytes: \<^verbatim>\<open>n\<close>, then the array \<^verbatim>\<open>block\<close>.\<close>

definition get_n :: "cstr \<Rightarrow> int" where
  "get_n d = sint (get_le 4 d 0 :: u32)"

definition get_block :: "cstr \<Rightarrow> nat \<Rightarrow> u32" where
  "get_block d i = get_le 4 d (4 + 4 * i)"

definition put_n :: "cstr \<Rightarrow> int \<Rightarrow> cstr" where
  "put_n d n = put_le 4 d 0 (word_of_int n :: u32)"

definition put_block :: "cstr \<Rightarrow> nat \<Rightarrow> u32 \<Rightarrow> cstr" where
  "put_block d i v = put_le 4 d (4 + 4 * i) v"

fun read_blocks :: "cstr \<Rightarrow> nat \<Rightarrow> nat \<Rightarrow> (nat \<Rightarrow> u32) \<Rightarrow> nat \<Rightarrow> u32" where
  "read_blocks d i 0 bl = bl"
| "read_blocks d i (Suc k) bl = read_blocks d (Suc i) k (bl(i := get_block d i))"

fun write_blocks :: "(nat \<Rightarrow> u32) \<Rightarrow> nat \<Rightarrow> nat \<Rightarrow> cstr \<Rightarrow> cstr" where
  "write_blocks bl i 0 d = d"
| "write_blocks bl i (Suc k) d = write_blocks bl (Suc i) k (put_block d i (bl i))"

text \<open>
  The count comes from the disk and is not checked. One above \<open>LOGSIZE\<close> makes the loop write behind the end of
  \<^verbatim>\<open>log.lh.block\<close>, which has no meaning in C; there the run stops, so a run that returns did not do it.
\<close>

definition read_head :: "'a logst_scheme \<Rightarrow> 'a logst_scheme outcome" where
  "read_head s =
     rbind (bread (log_dev s) (log_start s) s) (\<lambda>(buf, s).
     let lh = b_data (bufs s buf);
         s = s\<lparr>log_lh := (log_lh s)\<lparr>lh_n := get_n lh\<rparr>\<rparr> in
     if lh_n (log_lh s) > LOGSIZE then Panic ''log.lh.block''
     else
       (let s = s\<lparr>log_lh := (log_lh s)\<lparr>lh_block := read_blocks lh 0 (logged s) (lh_block (log_lh s))\<rparr>\<rparr> in
        brelse buf s))"

definition write_head :: "'a logst_scheme \<Rightarrow> 'a logst_scheme outcome" where
  "write_head s =
     rbind (bread (log_dev s) (log_start s) s) (\<lambda>(buf, s).
     let hb = put_n (b_data (bufs s buf)) (lh_n (log_lh s));
         hb = write_blocks (lh_block (log_lh s)) 0 (logged s) hb;
         s = set_data buf hb s in
     rbind (bwrite buf s) (\<lambda>s. brelse buf s))"

definition recover_from_log :: "'a logst_scheme \<Rightarrow> 'a logst_scheme outcome" where
  "recover_from_log s =
     rbind (read_head s) (\<lambda>s.
     rbind (install_trans True s) (\<lambda>s.
     write_head (s\<lparr>log_lh := (log_lh s)\<lparr>lh_n := 0\<rparr>\<rparr>)))"

text \<open>\<^verbatim>\<open>sizeof(struct logheader)\<close> is \<open>4 + 4 * LOGSIZE\<close>. The superblock's fields are arguments.\<close>

definition initlog :: "u32 \<Rightarrow> u32 \<Rightarrow> u32 \<Rightarrow> 'a logst_scheme \<Rightarrow> 'a logst_scheme outcome" where
  "initlog dev logstart nlog s =
     (if 4 + 4 * LOGSIZE \<ge> int BSIZE then Panic ''initlog: too big logheader''
      else recover_from_log (s\<lparr>log_start := logstart, log_size := sint nlog, log_dev := dev\<rparr>))"

definition begin_op :: "('a logst_scheme \<Rightarrow> 'a logst_scheme) list \<Rightarrow> 'a logst_scheme \<Rightarrow> 'a logst_scheme outcome" where
  "begin_op env s =
     rbind (acquire L_log s) (\<lambda>s.
     rbind (sleep_loop (\<lambda>s.
              if log_committing s then Ok (None, s)
              else if lh_n (log_lh s) + (log_outstanding s + 1) * MAXOPBLOCKS > LOGSIZE then Ok (None, s)
              else
                rbind (release L_log (s\<lparr>log_outstanding := log_outstanding s + 1\<rparr>)) (\<lambda>s. Ok (Some (), s)))
            Chan_log L_log env s) (\<lambda>(_, env, s). Ok s))"

fun write_log_loop :: "nat \<Rightarrow> nat \<Rightarrow> 'a logst_scheme \<Rightarrow> 'a logst_scheme outcome" where
  "write_log_loop tail 0 s = Ok s"
| "write_log_loop tail (Suc k) s =
     rbind (bread (log_dev s) (log_start s + of_nat tail + 1) s) (\<lambda>(to, s).
     rbind (bread (log_dev s) (lh_block (log_lh s) tail) s) (\<lambda>(from, s).
     let s = set_data to (b_data (bufs s from)) s in
     rbind (bwrite to s) (\<lambda>s.
     rbind (brelse from s) (\<lambda>s.
     rbind (brelse to s) (\<lambda>s.
     write_log_loop (Suc tail) k s)))))"

definition write_log :: "'a logst_scheme \<Rightarrow> 'a logst_scheme outcome" where
  "write_log s = write_log_loop 0 (logged s) s"

definition commit :: "'a logst_scheme \<Rightarrow> 'a logst_scheme outcome" where
  "commit s =
     (if lh_n (log_lh s) > 0 then
        rbind (write_log s) (\<lambda>s.
        rbind (write_head s) (\<lambda>s.
        rbind (install_trans False s) (\<lambda>s.
        write_head (s\<lparr>log_lh := (log_lh s)\<lparr>lh_n := 0\<rparr>\<rparr>))))
      else Ok s)"

definition end_op :: "'a logst_scheme \<Rightarrow> 'a logst_scheme outcome" where
  "end_op s =
     rbind (acquire L_log s) (\<lambda>s.
     let s = s\<lparr>log_outstanding := log_outstanding s - 1\<rparr> in
     if log_committing s then Panic ''log.committing''
     else
       rbind (if log_outstanding s = 0 then Ok (True, s\<lparr>log_committing := True\<rparr>)
              else rbind (wakeup Chan_log s) (\<lambda>s. Ok (False, s))) (\<lambda>(do_commit, s).
       rbind (release L_log s) (\<lambda>s.
       if do_commit then
         rbind (commit s) (\<lambda>s.
         rbind (acquire L_log s) (\<lambda>s.
         let s = s\<lparr>log_committing := False\<rparr> in
         rbind (wakeup Chan_log s) (\<lambda>s.
         release L_log s)))
       else Ok s)))"

text \<open>The index at which the search of \<^verbatim>\<open>log_write\<close> stops.\<close>

fun log_find :: "u32 \<Rightarrow> (nat \<Rightarrow> u32) \<Rightarrow> nat \<Rightarrow> nat \<Rightarrow> nat" where
  "log_find n bl i 0 = i"
| "log_find n bl i (Suc k) = (if bl i = n then i else log_find n bl (Suc i) k)"

definition log_write :: "nat \<Rightarrow> 'a logst_scheme \<Rightarrow> 'a logst_scheme outcome" where
  "log_write b s =
     (if lh_n (log_lh s) \<ge> LOGSIZE \<or> lh_n (log_lh s) \<ge> log_size s - 1 then Panic ''too big a transaction''
      else if log_outstanding s < 1 then Panic ''log_write outside of trans''
      else
        rbind (acquire L_log s) (\<lambda>s.
        let i = log_find (b_blockno (bufs s b)) (lh_block (log_lh s)) 0 (logged s);
            s = s\<lparr>log_lh := (log_lh s)\<lparr>lh_block := (lh_block (log_lh s))(i := b_blockno (bufs s b))\<rparr>\<rparr> in
        rbind (if int i = lh_n (log_lh s) then
                 rbind (bpin b s) (\<lambda>s. Ok (s\<lparr>log_lh := (log_lh s)\<lparr>lh_n := lh_n (log_lh s) + 1\<rparr>\<rparr>))
               else Ok s) (\<lambda>s.
        release L_log s)))"

end
