(* ===== verification/Fs.thy ===== *)
theory Fs
  imports Log
begin

text \<open>
  The file system, \<^verbatim>\<open>kernel/fs.c\<close> with the on-disk format of \<^verbatim>\<open>kernel/fs.h\<close>: the block and inode
  allocators, the inode cache, file contents, directories and path names. An inode pointer is an
  index of the cache; structures on the disk are read and written as fields of their block's bytes.
  A path is the list of the bytes before its terminating NUL.
\<close>

section \<open>State\<close>

record superblock =
  sb_magic :: u32
  sb_size :: u32
  sb_nblocks :: u32
  sb_ninodes :: u32
  sb_nlog :: u32
  sb_logstart :: u32
  sb_inodestart :: u32
  sb_bmapstart :: u32

definition FSMAGIC :: u32 where "FSMAGIC = 0x10203040"
definition ROOTDEV :: u32 where "ROOTDEV = 1"
definition ROOTINO :: u32 where "ROOTINO = 1"
definition NDIRECT :: nat where "NDIRECT = 12"
definition NINDIRECT :: nat where "NINDIRECT = BSIZE div 4"
definition MAXFILE :: nat where "MAXFILE = NDIRECT + NINDIRECT"
definition IPB :: nat where "IPB = BSIZE div 64"
definition BPB :: nat where "BPB = BSIZE * 8"
definition DIRSIZ :: nat where "DIRSIZ = 14"
definition NINODE :: nat where "NINODE = 50"
definition T_DIR :: u16 where "T_DIR = 1"
definition T_FILE :: u16 where "T_FILE = 2"
definition T_DEVICE :: u16 where "T_DEVICE = 3"

record inode =
  i_dev :: u32
  i_inum :: u32
  i_ref :: int
  i_valid :: bool
  i_type :: u16
  i_major :: u16
  i_minor :: u16
  i_nlink :: u16
  i_size :: u32
  i_addrs :: "nat \<Rightarrow> u32"

record fsst = logst +
  sb :: superblock
  inodes :: "nat \<Rightarrow> inode"

definition IBLOCK :: "u32 \<Rightarrow> superblock \<Rightarrow> u32" where
  "IBLOCK i sbk = i div of_nat IPB + sb_inodestart sbk"

definition BBLOCK :: "u32 \<Rightarrow> superblock \<Rightarrow> u32" where
  "BBLOCK b sbk = b div of_nat BPB + sb_bmapstart sbk"

definition upd_inode :: "nat \<Rightarrow> (inode \<Rightarrow> inode) \<Rightarrow> 'a fsst_scheme \<Rightarrow> 'a fsst_scheme" where
  "upd_inode i f s = s\<lparr>inodes := (inodes s)(i := f (inodes s i))\<rparr>"

section \<open>Superblock and block allocator\<close>

definition get_sb :: "cstr \<Rightarrow> superblock" where
  "get_sb d = \<lparr>sb_magic = get_le 4 d 0, sb_size = get_le 4 d 4, sb_nblocks = get_le 4 d 8, sb_ninodes = get_le 4 d 12,
     sb_nlog = get_le 4 d 16, sb_logstart = get_le 4 d 20, sb_inodestart = get_le 4 d 24, sb_bmapstart = get_le 4 d 28\<rparr>"

definition readsb :: "u32 \<Rightarrow> 'a fsst_scheme \<Rightarrow> 'a fsst_scheme outcome" where
  "readsb dev s =
     rbind (bread dev 1 s) (\<lambda>(bp, s).
     let s = s\<lparr>sb := get_sb (b_data (bufs s bp))\<rparr> in
     brelse bp s)"

definition fsinit :: "u32 \<Rightarrow> 'a fsst_scheme \<Rightarrow> 'a fsst_scheme outcome" where
  "fsinit dev s =
     rbind (readsb dev s) (\<lambda>s.
     if sb_magic (sb s) \<noteq> FSMAGIC then Panic ''invalid file system''
     else initlog dev (sb_logstart (sb s)) (sb_nlog (sb s)) s)"

definition bzero :: "u32 \<Rightarrow> u32 \<Rightarrow> 'a fsst_scheme \<Rightarrow> 'a fsst_scheme outcome" where
  "bzero dev bno s =
     rbind (bread dev bno s) (\<lambda>(bp, s).
     let s = set_data bp (\<lambda>i. if i < BSIZE then 0 else b_data (bufs s bp) i) s in
     rbind (log_write bp s) (\<lambda>s. brelse bp s))"

text \<open>\<^verbatim>\<open>bp->data[bi/8] & m\<close> with \<^verbatim>\<open>m = 1 << (bi % 8)\<close>, and the bit set or cleared.\<close>

definition bit_of :: "cstr \<Rightarrow> nat \<Rightarrow> byte" where
  "bit_of d bi = d (bi div 8) AND push_bit (bi mod 8) 1"

definition set_bit_of :: "cstr \<Rightarrow> nat \<Rightarrow> cstr" where
  "set_bit_of d bi = d(bi div 8 := d (bi div 8) OR push_bit (bi mod 8) 1)"

definition clear_bit_of :: "cstr \<Rightarrow> nat \<Rightarrow> cstr" where
  "clear_bit_of d bi = d(bi div 8 := d (bi div 8) AND NOT (push_bit (bi mod 8) 1))"

text \<open>The inner loop of \<^verbatim>\<open>balloc\<close>: the first free bit from \<open>bi\<close> on, with \<open>k\<close> bits left to look at.\<close>

fun balloc_scan :: "cstr \<Rightarrow> nat \<Rightarrow> nat \<Rightarrow> nat option" where
  "balloc_scan d bi 0 = None"
| "balloc_scan d bi (Suc k) = (if bit_of d bi = 0 then Some bi else balloc_scan d (Suc bi) k)"

text \<open>The outer loop. \<^verbatim>\<open>b\<close> is an \<^verbatim>\<open>int\<close>, which wraps around only on disks of \<open>2 ^ 31\<close> blocks and more.\<close>

function balloc_loop :: "u32 \<Rightarrow> nat \<Rightarrow> nat \<Rightarrow> 'a fsst_scheme \<Rightarrow> (u32 \<times> 'a fsst_scheme) outcome" where
  "balloc_loop dev sz b s =
     (if b < sz then
        rbind (bread dev (BBLOCK (of_nat b) (sb s)) s) (\<lambda>(bp, s).
        case balloc_scan (b_data (bufs s bp)) 0 (min BPB (sz - b)) of
          Some bi \<Rightarrow>
            (let s = set_data bp (set_bit_of (b_data (bufs s bp)) bi) s in
             rbind (log_write bp s) (\<lambda>s.
             rbind (brelse bp s) (\<lambda>s.
             rbind (bzero dev (of_nat (b + bi)) s) (\<lambda>s. Ok (of_nat (b + bi), s)))))
        | None \<Rightarrow> rbind (brelse bp s) (\<lambda>s. balloc_loop dev sz (b + BPB) s))
      else Panic ''balloc: out of blocks'')"
  by pat_completeness auto
termination
  by (relation "measure (\<lambda>(dev, sz, b, s). sz - b)") (auto simp: BPB_def BSIZE_def)

declare balloc_loop.simps [simp del]

definition balloc :: "u32 \<Rightarrow> 'a fsst_scheme \<Rightarrow> (u32 \<times> 'a fsst_scheme) outcome" where
  "balloc dev s = balloc_loop dev (unat (sb_size (sb s))) 0 s"

definition bfree :: "u32 \<Rightarrow> u32 \<Rightarrow> 'a fsst_scheme \<Rightarrow> 'a fsst_scheme outcome" where
  "bfree dev b s =
     rbind (bread dev (BBLOCK b (sb s)) s) (\<lambda>(bp, s).
     let bi = unat b mod BPB in
     if bit_of (b_data (bufs s bp)) bi = 0 then Panic ''freeing free block''
     else
       (let s = set_data bp (clear_bit_of (b_data (bufs s bp)) bi) s in
        rbind (log_write bp s) (\<lambda>s. brelse bp s)))"

section \<open>Inodes\<close>

fun iinit :: "nat \<Rightarrow> nat \<Rightarrow> 'a fsst_scheme \<Rightarrow> 'a fsst_scheme" where
  "iinit i 0 s = s"
| "iinit i (Suc k) s = iinit (Suc i) k (initsleeplock (SL_inode i) ''inode'' s)"

text \<open>The search of \<^verbatim>\<open>iget\<close>: the entry of the inode if it is cached, else the first empty one.\<close>

fun iget_scan :: "u32 \<Rightarrow> u32 \<Rightarrow> (nat \<Rightarrow> inode) \<Rightarrow> nat \<Rightarrow> nat \<Rightarrow> nat option \<Rightarrow> nat option \<times> nat option" where
  "iget_scan dev inum ino i 0 slot0 = (None, slot0)"
| "iget_scan dev inum ino i (Suc k) slot0 =
     (if i_ref (ino i) > 0 \<and> i_dev (ino i) = dev \<and> i_inum (ino i) = inum then (Some i, slot0)
      else iget_scan dev inum ino (Suc i) k (if slot0 = None \<and> i_ref (ino i) = 0 then Some i else slot0))"

definition iget :: "u32 \<Rightarrow> u32 \<Rightarrow> 'a fsst_scheme \<Rightarrow> (nat \<times> 'a fsst_scheme) outcome" where
  "iget dev inum s =
     rbind (acquire L_icache s) (\<lambda>s.
     case iget_scan dev inum (inodes s) 0 NINODE None of
       (Some ip, _) \<Rightarrow>
         (let s = upd_inode ip (\<lambda>x. x\<lparr>i_ref := i_ref x + 1\<rparr>) s in
          rbind (release L_icache s) (\<lambda>s. Ok (ip, s)))
     | (None, None) \<Rightarrow> Panic ''iget: no inodes''
     | (None, Some ip) \<Rightarrow>
         (let s = upd_inode ip (\<lambda>x. x\<lparr>i_dev := dev, i_inum := inum, i_ref := 1, i_valid := False\<rparr>) s in
          rbind (release L_icache s) (\<lambda>s. Ok (ip, s))))"

text \<open>The place of an inode in its block, and the fields of \<^verbatim>\<open>struct dinode\<close> there.\<close>

definition dinode_off :: "u32 \<Rightarrow> nat" where
  "dinode_off inum = (unat inum mod IPB) * 64"

fun put_addrs :: "(nat \<Rightarrow> u32) \<Rightarrow> nat \<Rightarrow> nat \<Rightarrow> nat \<Rightarrow> cstr \<Rightarrow> cstr" where
  "put_addrs a off j 0 d = d"
| "put_addrs a off j (Suc k) d = put_addrs a off (Suc j) k (put_le 4 d (off + 12 + 4 * j) (a j))"

definition put_dinode :: "inode \<Rightarrow> nat \<Rightarrow> cstr \<Rightarrow> cstr" where
  "put_dinode ip off d =
     (let d = put_le 2 d off (i_type ip);
          d = put_le 2 d (off + 2) (i_major ip);
          d = put_le 2 d (off + 4) (i_minor ip);
          d = put_le 2 d (off + 6) (i_nlink ip);
          d = put_le 4 d (off + 8) (i_size ip) in
      put_addrs (i_addrs ip) off 0 (NDIRECT + 1) d)"

definition get_dinode :: "cstr \<Rightarrow> nat \<Rightarrow> inode \<Rightarrow> inode" where
  "get_dinode d off ip = ip\<lparr>i_type := get_le 2 d off, i_major := get_le 2 d (off + 2), i_minor := get_le 2 d (off + 4),
     i_nlink := get_le 2 d (off + 6), i_size := get_le 4 d (off + 8),
     i_addrs := (\<lambda>j. if j < NDIRECT + 1 then get_le 4 d (off + 12 + 4 * j) else i_addrs ip j)\<rparr>"

fun ialloc_loop :: "u32 \<Rightarrow> u16 \<Rightarrow> nat \<Rightarrow> nat \<Rightarrow> 'a fsst_scheme \<Rightarrow> (nat \<times> 'a fsst_scheme) outcome" where
  "ialloc_loop dev ty inum 0 s = Panic ''ialloc: no inodes''"
| "ialloc_loop dev ty inum (Suc k) s =
     rbind (bread dev (IBLOCK (of_nat inum) (sb s)) s) (\<lambda>(bp, s).
     let d = b_data (bufs s bp); off = dinode_off (of_nat inum) in
     if (get_le 2 d off :: u16) = 0 then
       (let d = (\<lambda>i. if off \<le> i \<and> i < off + 64 then 0 else d i);
            s = set_data bp (put_le 2 d off ty) s in
        rbind (log_write bp s) (\<lambda>s.
        rbind (brelse bp s) (\<lambda>s. iget dev (of_nat inum) s)))
     else rbind (brelse bp s) (\<lambda>s. ialloc_loop dev ty (Suc inum) k s))"

definition ialloc :: "u32 \<Rightarrow> u16 \<Rightarrow> 'a fsst_scheme \<Rightarrow> (nat \<times> 'a fsst_scheme) outcome" where
  "ialloc dev ty s = ialloc_loop dev ty 1 (unat (sb_ninodes (sb s)) - 1) s"

definition iupdate :: "nat \<Rightarrow> 'a fsst_scheme \<Rightarrow> 'a fsst_scheme outcome" where
  "iupdate ip s =
     rbind (bread (i_dev (inodes s ip)) (IBLOCK (i_inum (inodes s ip)) (sb s)) s) (\<lambda>(bp, s).
     let s = set_data bp (put_dinode (inodes s ip) (dinode_off (i_inum (inodes s ip))) (b_data (bufs s bp))) s in
     rbind (log_write bp s) (\<lambda>s. brelse bp s))"

definition idup :: "nat \<Rightarrow> 'a fsst_scheme \<Rightarrow> (nat \<times> 'a fsst_scheme) outcome" where
  "idup ip s =
     rbind (acquire L_icache s) (\<lambda>s.
     let s = upd_inode ip (\<lambda>x. x\<lparr>i_ref := i_ref x + 1\<rparr>) s in
     rbind (release L_icache s) (\<lambda>s. Ok (ip, s)))"

definition ilock :: "nat option \<Rightarrow> 'a fsst_scheme \<Rightarrow> 'a fsst_scheme outcome" where
  "ilock p s =
     (case p of
        None \<Rightarrow> Panic ''ilock''
      | Some ip \<Rightarrow>
          if i_ref (inodes s ip) < 1 then Panic ''ilock''
          else
            rbind (acquiresleep (SL_inode ip) [] s) (\<lambda>s.
            if \<not> i_valid (inodes s ip) then
              rbind (bread (i_dev (inodes s ip)) (IBLOCK (i_inum (inodes s ip)) (sb s)) s) (\<lambda>(bp, s).
              let s = upd_inode ip (get_dinode (b_data (bufs s bp)) (dinode_off (i_inum (inodes s ip)))) s in
              rbind (brelse bp s) (\<lambda>s.
              let s = upd_inode ip (\<lambda>x. x\<lparr>i_valid := True\<rparr>) s in
              if i_type (inodes s ip) = 0 then Panic ''ilock: no type'' else Ok s))
            else Ok s))"

definition iunlock :: "nat option \<Rightarrow> 'a fsst_scheme \<Rightarrow> 'a fsst_scheme outcome" where
  "iunlock p s =
     (case p of
        None \<Rightarrow> Panic ''iunlock''
      | Some ip \<Rightarrow>
          rbind (holdingsleep (SL_inode ip) s) (\<lambda>(r, s).
          if \<not> r \<or> i_ref (inodes s ip) < 1 then Panic ''iunlock''
          else releasesleep (SL_inode ip) s))"

text \<open>The loops of \<^verbatim>\<open>itrunc\<close> over the direct and the indirect blocks.\<close>

fun itrunc_direct :: "nat \<Rightarrow> nat \<Rightarrow> nat \<Rightarrow> 'a fsst_scheme \<Rightarrow> 'a fsst_scheme outcome" where
  "itrunc_direct ip i 0 s = Ok s"
| "itrunc_direct ip i (Suc k) s =
     rbind (if i_addrs (inodes s ip) i \<noteq> 0 then
              rbind (bfree (i_dev (inodes s ip)) (i_addrs (inodes s ip) i) s) (\<lambda>s.
              Ok (upd_inode ip (\<lambda>x. x\<lparr>i_addrs := (i_addrs x)(i := 0)\<rparr>) s))
            else Ok s) (\<lambda>s.
     itrunc_direct ip (Suc i) k s)"

fun itrunc_indirect :: "u32 \<Rightarrow> nat \<Rightarrow> nat \<Rightarrow> nat \<Rightarrow> 'a fsst_scheme \<Rightarrow> 'a fsst_scheme outcome" where
  "itrunc_indirect dev bp j 0 s = Ok s"
| "itrunc_indirect dev bp j (Suc k) s =
     (let a = get_le 4 (b_data (bufs s bp)) (4 * j) in
      rbind (if a \<noteq> 0 then bfree dev a s else Ok s) (\<lambda>s.
      itrunc_indirect dev bp (Suc j) k s))"

definition itrunc :: "nat \<Rightarrow> 'a fsst_scheme \<Rightarrow> 'a fsst_scheme outcome" where
  "itrunc ip s =
     rbind (itrunc_direct ip 0 NDIRECT s) (\<lambda>s.
     rbind (if i_addrs (inodes s ip) NDIRECT \<noteq> 0 then
              rbind (bread (i_dev (inodes s ip)) (i_addrs (inodes s ip) NDIRECT) s) (\<lambda>(bp, s).
              rbind (itrunc_indirect (i_dev (inodes s ip)) bp 0 NINDIRECT s) (\<lambda>s.
              rbind (brelse bp s) (\<lambda>s.
              rbind (bfree (i_dev (inodes s ip)) (i_addrs (inodes s ip) NDIRECT) s) (\<lambda>s.
              Ok (upd_inode ip (\<lambda>x. x\<lparr>i_addrs := (i_addrs x)(NDIRECT := 0)\<rparr>) s)))))
            else Ok s) (\<lambda>s.
     iupdate ip (upd_inode ip (\<lambda>x. x\<lparr>i_size := 0\<rparr>) s)))"

definition iput :: "nat \<Rightarrow> 'a fsst_scheme \<Rightarrow> 'a fsst_scheme outcome" where
  "iput ip s =
     rbind (acquire L_icache s) (\<lambda>s.
     rbind (if i_ref (inodes s ip) = 1 \<and> i_valid (inodes s ip) \<and> i_nlink (inodes s ip) = 0 then
              rbind (acquiresleep (SL_inode ip) [] s) (\<lambda>s.
              rbind (release L_icache s) (\<lambda>s.
              rbind (itrunc ip s) (\<lambda>s.
              rbind (iupdate ip (upd_inode ip (\<lambda>x. x\<lparr>i_type := 0\<rparr>) s)) (\<lambda>s.
              let s = upd_inode ip (\<lambda>x. x\<lparr>i_valid := False\<rparr>) s in
              rbind (releasesleep (SL_inode ip) s) (\<lambda>s. acquire L_icache s)))))
            else Ok s) (\<lambda>s.
     release L_icache (upd_inode ip (\<lambda>x. x\<lparr>i_ref := i_ref x - 1\<rparr>) s)))"

definition iunlockput :: "nat \<Rightarrow> 'a fsst_scheme \<Rightarrow> 'a fsst_scheme outcome" where
  "iunlockput ip s = rbind (iunlock (Some ip) s) (\<lambda>s. iput ip s)"

section \<open>File contents\<close>

definition bmap :: "nat \<Rightarrow> u32 \<Rightarrow> 'a fsst_scheme \<Rightarrow> (u32 \<times> 'a fsst_scheme) outcome" where
  "bmap ip bn s =
     (if bn < of_nat NDIRECT then
        (let addr = i_addrs (inodes s ip) (unat bn) in
         if addr = 0 then
           rbind (balloc (i_dev (inodes s ip)) s) (\<lambda>(addr, s).
           Ok (addr, upd_inode ip (\<lambda>x. x\<lparr>i_addrs := (i_addrs x)(unat bn := addr)\<rparr>) s))
         else Ok (addr, s))
      else
        (let bn = bn - of_nat NDIRECT in
         if bn < of_nat NINDIRECT then
           rbind (let addr = i_addrs (inodes s ip) NDIRECT in
                  if addr = 0 then
                    rbind (balloc (i_dev (inodes s ip)) s) (\<lambda>(addr, s).
                    Ok (addr, upd_inode ip (\<lambda>x. x\<lparr>i_addrs := (i_addrs x)(NDIRECT := addr)\<rparr>) s))
                  else Ok (addr, s)) (\<lambda>(addr, s).
           rbind (bread (i_dev (inodes s ip)) addr s) (\<lambda>(bp, s).
           let addr = get_le 4 (b_data (bufs s bp)) (4 * unat bn) in
           rbind (if addr = 0 then
                    rbind (balloc (i_dev (inodes s ip)) s) (\<lambda>(addr, s).
                    let s = set_data bp (put_le 4 (b_data (bufs s bp)) (4 * unat bn) addr) s in
                    rbind (log_write bp s) (\<lambda>s. Ok (addr, s)))
                  else Ok (addr, s)) (\<lambda>(addr, s).
           rbind (brelse bp s) (\<lambda>s. Ok (addr, s)))))
         else Panic ''bmap: out of range''))"

record stat =
  st_dev :: u32
  st_ino :: u32
  st_type :: u16
  st_nlink :: u16
  st_size :: u64

definition stati :: "nat \<Rightarrow> 'a fsst_scheme \<Rightarrow> stat" where
  "stati ip s = \<lparr>st_dev = i_dev (inodes s ip), st_ino = i_inum (inodes s ip), st_type = i_type (inodes s ip),
     st_nlink = i_nlink (inodes s ip), st_size = ucast (i_size (inodes s ip))\<rparr>"

lemma io_chunk:
  fixes off n tot :: u32
  assumes "tot < n"
  defines "m \<equiv> min (n - tot) (1024 - off mod 1024)"
  shows "unat n - unat (tot + m) < unat n - unat tot" "0 < unat m" "unat m \<le> unat n - unat tot"
    "unat m \<le> 1024 - unat off mod 1024" "unat (tot + m) = unat tot + unat m"
proof -
  have o: "unat (off mod 1024) = unat off mod 1024" by (simp add: unat_mod)
  have lt: "unat off mod 1024 < 1024" by simp
  then have "off mod 1024 \<le> 1024" using o by (simp add: word_le_nat_alt)
  then have r: "unat (1024 - off mod 1024) = 1024 - unat off mod 1024" using o by (simp add: unat_sub)
  have t: "unat tot < unat n" using assms(1) by (simp add: word_less_nat_alt)
  then have d: "unat (n - tot) = unat n - unat tot" using assms(1) by (simp add: unat_sub)
  have m: "unat m = min (unat n - unat tot) (1024 - unat off mod 1024)"
    unfolding m_def using d r by (auto simp: min_def word_le_nat_alt)
  show p: "0 < unat m" "unat m \<le> unat n - unat tot" "unat m \<le> 1024 - unat off mod 1024" using m t lt by auto
  have "unat tot + unat m < 2 ^ 32" using p(2) t unsigned_less [of n, where ?'a = nat] by simp
  then show s: "unat (tot + m) = unat tot + unat m" by (simp add: unat_plus_if')
  show "unat n - unat (tot + m) < unat n - unat tot" using s p t by linarith
qed

function readi_loop :: "nat \<Rightarrow> kptr \<Rightarrow> u32 \<Rightarrow> u32 \<Rightarrow> u32 \<Rightarrow> 'a fsst_scheme \<Rightarrow> (u32 \<times> 'a fsst_scheme) outcome" where
  "readi_loop ip dst off n tot s =
     (if tot < n then
        rbind (bmap ip (off div 1024) s) (\<lambda>(addr, s).
        rbind (bread (i_dev (inodes s ip)) addr s) (\<lambda>(bp, s).
        let m = min (n - tot) (1024 - off mod 1024) in
        rbind (either_copyout dst (b_data (bufs s bp)) (unat (off mod 1024)) (unat m) s) (\<lambda>(r, s).
        if r = -1 then rbind (brelse bp s) (\<lambda>s. Ok (-1, s))
        else rbind (brelse bp s) (\<lambda>s. readi_loop ip (kptr_add dst (unat m)) (off + m) n (tot + m) s))))
      else Ok (tot, s))"
  by pat_completeness auto
termination
  by (relation "measure (\<lambda>(ip, dst, off, n, tot, s). unat n - unat tot)") (auto simp: io_chunk(1))

declare readi_loop.simps [simp del]

definition readi :: "nat \<Rightarrow> kptr \<Rightarrow> u32 \<Rightarrow> u32 \<Rightarrow> 'a fsst_scheme \<Rightarrow> (u32 \<times> 'a fsst_scheme) outcome" where
  "readi ip dst off n s =
     (if off > i_size (inodes s ip) \<or> off + n < off then Ok (0, s)
      else readi_loop ip dst off (if off + n > i_size (inodes s ip) then i_size (inodes s ip) - off else n) 0 s)"

function writei_loop :: "nat \<Rightarrow> kptr \<Rightarrow> u32 \<Rightarrow> u32 \<Rightarrow> u32 \<Rightarrow> 'a fsst_scheme \<Rightarrow> (u32 \<times> u32 \<times> 'a fsst_scheme) outcome" where
  "writei_loop ip src off n tot s =
     (if tot < n then
        rbind (bmap ip (off div 1024) s) (\<lambda>(addr, s).
        rbind (bread (i_dev (inodes s ip)) addr s) (\<lambda>(bp, s).
        let m = min (n - tot) (1024 - off mod 1024) in
        rbind (either_copyin (b_data (bufs s bp)) (unat (off mod 1024)) src (unat m) s) (\<lambda>(r, d).
        let s = set_data bp d s in
        if r = -1 then rbind (brelse bp s) (\<lambda>s. Ok (off, tot, s))
        else
          rbind (log_write bp s) (\<lambda>s.
          rbind (brelse bp s) (\<lambda>s. writei_loop ip (kptr_add src (unat m)) (off + m) n (tot + m) s)))))
      else Ok (off, tot, s))"
  by pat_completeness auto
termination
  by (relation "measure (\<lambda>(ip, src, off, n, tot, s). unat n - unat tot)") (auto simp: io_chunk(1))

declare writei_loop.simps [simp del]

definition writei :: "nat \<Rightarrow> kptr \<Rightarrow> u32 \<Rightarrow> u32 \<Rightarrow> 'a fsst_scheme \<Rightarrow> (u32 \<times> 'a fsst_scheme) outcome" where
  "writei ip src off n s =
     (if off > i_size (inodes s ip) \<or> off + n < off then Ok (-1, s)
      else if off + n > of_nat (MAXFILE * BSIZE) then Ok (-1, s)
      else
        rbind (writei_loop ip src off n 0 s) (\<lambda>(off, tot, s).
        let s = (if off > i_size (inodes s ip) then upd_inode ip (\<lambda>x. x\<lparr>i_size := off\<rparr>) s else s) in
        rbind (iupdate ip s) (\<lambda>s. Ok (tot, s))))"

end
