(* ===== verification/Uart.thy ===== *)
theory Uart
  imports Fs
begin

text \<open>
  Console output: the UART driver \<^verbatim>\<open>kernel/uart.c\<close>, \<^verbatim>\<open>consputc\<close> of \<^verbatim>\<open>kernel/console.c\<close> and
  \<^verbatim>\<open>kernel/printf.c\<close>. The 16550 chip is seen through its registers: \<open>uart_log\<close> is the sequence of
  all register writes, \<open>uart_in\<close> the received bytes not yet read from \<^verbatim>\<open>RHR\<close>, and \<open>tx_idle\<close> says of
  the coming reads of \<^verbatim>\<open>LSR\<close> whether they find the transmitter idle; after that it is always idle.
  A loop \<^verbatim>\<open>for(;;);\<close> is \<open>Blocks Chan_none\<close>.
\<close>

section \<open>Registers\<close>

definition RHR :: nat where "RHR = 0"
definition THR :: nat where "THR = 0"
definition IER :: nat where "IER = 1"
definition IER_RX_ENABLE :: byte where "IER_RX_ENABLE = push_bit 0 1"
definition IER_TX_ENABLE :: byte where "IER_TX_ENABLE = push_bit 1 1"
definition FCR :: nat where "FCR = 2"
definition FCR_FIFO_ENABLE :: byte where "FCR_FIFO_ENABLE = push_bit 0 1"
definition FCR_FIFO_CLEAR :: byte where "FCR_FIFO_CLEAR = push_bit 1 3"
definition LCR :: nat where "LCR = 3"
definition LCR_EIGHT_BITS :: byte where "LCR_EIGHT_BITS = push_bit 0 3"
definition LCR_BAUD_LATCH :: byte where "LCR_BAUD_LATCH = push_bit 7 1"
definition LSR :: nat where "LSR = 5"
definition LSR_RX_READY :: byte where "LSR_RX_READY = push_bit 0 1"
definition LSR_TX_IDLE :: byte where "LSR_TX_IDLE = push_bit 5 1"
definition UART_TX_BUF_SIZE :: nat where "UART_TX_BUF_SIZE = 32"

record uartst = fsst +
  uart_tx_buf :: "nat \<Rightarrow> byte"
  uart_tx_w :: u64
  uart_tx_r :: u64
  uart_log :: "(nat \<times> byte) list"
  uart_in :: "byte list"
  tx_idle :: "bool list"
  panicked :: bool
  pr_locking :: bool

definition WriteReg :: "nat \<Rightarrow> byte \<Rightarrow> 'a uartst_scheme \<Rightarrow> 'a uartst_scheme" where
  "WriteReg reg v s = s\<lparr>uart_log := uart_log s @ [(reg, v)]\<rparr>"

text \<open>A read of the line status register.\<close>

definition read_lsr :: "'a uartst_scheme \<Rightarrow> byte \<times> 'a uartst_scheme" where
  "read_lsr s =
     (((if uart_in s \<noteq> [] then LSR_RX_READY else 0) OR
       (if tx_idle s = [] \<or> hd (tx_idle s) then LSR_TX_IDLE else 0)), s\<lparr>tx_idle := tl (tx_idle s)\<rparr>)"

definition read_rhr :: "'a uartst_scheme \<Rightarrow> byte \<times> 'a uartst_scheme" where
  "read_rhr s = (if uart_in s = [] then (0, s) else (hd (uart_in s), s\<lparr>uart_in := tl (uart_in s)\<rparr>))"

definition uartinit :: "'a uartst_scheme \<Rightarrow> 'a uartst_scheme" where
  "uartinit s =
     (let s = WriteReg IER 0x00 s;
          s = WriteReg LCR LCR_BAUD_LATCH s;
          s = WriteReg 0 0x03 s;
          s = WriteReg 1 0x00 s;
          s = WriteReg LCR LCR_EIGHT_BITS s;
          s = WriteReg FCR (FCR_FIFO_ENABLE OR FCR_FIFO_CLEAR) s in
      WriteReg IER (IER_TX_ENABLE OR IER_RX_ENABLE) s)"

section \<open>Sending\<close>

lemma lsr_busy: "fst (read_lsr s) AND LSR_TX_IDLE = 0 \<longleftrightarrow> tx_idle s \<noteq> [] \<and> \<not> hd (tx_idle s)"
  by (auto simp: read_lsr_def LSR_TX_IDLE_def LSR_RX_READY_def)

text \<open>
  The wait of \<^verbatim>\<open>uartputc_sync\<close> for the transmitter. The \<^verbatim>\<open>push_off\<close> and \<^verbatim>\<open>pop_off\<close> around it leave the
  interrupt state as it was (theory \<open>Spinlock\<close>).
\<close>

function wait_tx_idle :: "'a uartst_scheme \<Rightarrow> 'a uartst_scheme" where
  "wait_tx_idle s =
     (let (lsr, t) = read_lsr s in if lsr AND LSR_TX_IDLE = 0 then wait_tx_idle t else t)"
  by pat_completeness auto
termination
proof (relation "measure (\<lambda>s. length (tx_idle s))", goal_cases)
  case (2 s x lsr t)
  then show ?case using lsr_busy [of s] by (cases "tx_idle s") (auto simp: read_lsr_def)
qed simp

declare wait_tx_idle.simps [simp del]

definition uartputc_sync :: "int \<Rightarrow> 'a uartst_scheme \<Rightarrow> 'a uartst_scheme outcome" where
  "uartputc_sync c s =
     (if panicked s then Blocks Chan_none
      else Ok (WriteReg THR (of_int c) (wait_tx_idle s)))"

lemma wakeup_loop_frame: "wakeup_loop c i k s = Ok t \<Longrightarrow> \<exists>h ps. t = s\<lparr>held := h, proc := ps\<rparr>"
proof (induction k arbitrary: i s)
  case 0
  then have "t = s\<lparr>held := held s, proc := proc s\<rparr>" by simp
  then show ?case by blast
next
  case (Suc k)
  define u where "u = (if p_state (proc s i) = SLEEPING \<and> p_chan (proc s i) = c
      then upd_proc i (\<lambda>p. p\<lparr>p_state := RUNNABLE\<rparr>) s else s)"
  have "wakeup_loop c (Suc i) k u = Ok t"
    using Suc.prems
    by (auto simp: rbind_Ok_iff acquire_def release_def holding_def upd_proc_def u_def Let_def split: if_splits)
  then obtain h ps where "t = u\<lparr>held := h, proc := ps\<rparr>" using Suc.IH by blast
  then have "t = s\<lparr>held := h, proc := ps\<rparr>" by (simp add: u_def upd_proc_def)
  then show ?case by blast
qed

lemma wakeup_frame:
  assumes "wakeup c s = Ok t"
  obtains h ps where "t = s\<lparr>held := h, proc := ps\<rparr>"
  using wakeup_loop_frame assms unfolding wakeup_def by blast

text \<open>One byte leaves the ring on each turn of the loop.\<close>

function uartstart :: "'a uartst_scheme \<Rightarrow> 'a uartst_scheme outcome" where
  "uartstart s =
     (if uart_tx_w s = uart_tx_r s then Ok s
      else
        (let (lsr, s) = read_lsr s in
         if lsr AND LSR_TX_IDLE = 0 then Ok s
         else
           (let c = uart_tx_buf s (unat (uart_tx_r s) mod UART_TX_BUF_SIZE);
                s = s\<lparr>uart_tx_r := uart_tx_r s + 1\<rparr> in
            rbind (wakeup Chan_uart_tx_r s) (\<lambda>s. uartstart (WriteReg THR c s)))))"
  by pat_completeness auto
termination
proof (relation "measure (\<lambda>s. unat (uart_tx_w s - uart_tx_r s))", goal_cases)
  case (2 s x lsr t c u v)
  have v: "uart_tx_w (WriteReg THR c v) = uart_tx_w s" "uart_tx_r (WriteReg THR c v) = uart_tx_r s + 1"
    using 2 by (auto elim!: wakeup_frame simp: WriteReg_def read_lsr_def)
  let ?d = "uart_tx_w s - uart_tx_r s"
  have "?d \<noteq> 0" using 2(1) by simp
  then have "unat (?d - 1) < unat ?d" by (simp add: unat_minus_one unat_gt_0)
  moreover have "uart_tx_w s - (uart_tx_r s + 1) = ?d - 1" by simp
  ultimately have "unat (uart_tx_w s - (uart_tx_r s + 1)) < unat ?d" by (simp only:)
  then show ?case unfolding in_measure v .
qed simp

declare uartstart.simps [simp del]

text \<open>The list says what the machine does in each sleep for space in the ring.\<close>

definition uartputc :: "byte \<Rightarrow> ('a uartst_scheme \<Rightarrow> 'a uartst_scheme) list \<Rightarrow> 'a uartst_scheme \<Rightarrow>
    (('a uartst_scheme \<Rightarrow> 'a uartst_scheme) list \<times> 'a uartst_scheme) outcome" where
  "uartputc c env s =
     rbind (acquire L_uart_tx s) (\<lambda>s.
     if panicked s then Blocks Chan_none
     else
       rbind (sleep_loop (\<lambda>s.
           if uart_tx_w s = uart_tx_r s + of_nat UART_TX_BUF_SIZE then Ok (None, s)
           else
             (let s = s\<lparr>uart_tx_buf := (uart_tx_buf s)(unat (uart_tx_w s) mod UART_TX_BUF_SIZE := c)\<rparr>;
                  s = s\<lparr>uart_tx_w := uart_tx_w s + 1\<rparr> in
              rbind (uartstart s) (\<lambda>s.
              rbind (release L_uart_tx s) (\<lambda>s. Ok (Some (), s)))))
         Chan_uart_tx_r L_uart_tx env s) (\<lambda>(_, env, s). Ok (env, s)))"

definition uartgetc :: "'a uartst_scheme \<Rightarrow> int \<times> 'a uartst_scheme" where
  "uartgetc s =
     (let (lsr, s) = read_lsr s in
      if lsr AND 0x01 \<noteq> 0 then (let (c, s) = read_rhr s in (uint c, s)) else (-1, s))"

section \<open>Printing\<close>

definition BACKSPACE :: int where "BACKSPACE = 0x100"

definition consputc :: "int \<Rightarrow> 'a uartst_scheme \<Rightarrow> 'a uartst_scheme outcome" where
  "consputc c s =
     (if c = BACKSPACE then
        rbind (uartputc_sync 8 s) (\<lambda>s. rbind (uartputc_sync 32 s) (\<lambda>s. uartputc_sync 8 s))
      else uartputc_sync c s)"

fun consputs :: "byte list \<Rightarrow> 'a uartst_scheme \<Rightarrow> 'a uartst_scheme outcome" where
  "consputs [] s = Ok s"
| "consputs (c # cs) s = rbind (consputc (uint c) s) (\<lambda>s. consputs cs s)"

definition bytes_of :: "string \<Rightarrow> byte list" where
  "bytes_of t = map of_char t"

definition digits :: "byte list" where
  "digits = bytes_of ''0123456789abcdef''"

text \<open>
  The digits that \<^verbatim>\<open>printint\<close> stores in its buffer, least significant first. It is called with base 10
  and 16 only; a base below 2 would not make progress.
\<close>

function int_digits :: "u32 \<Rightarrow> u32 \<Rightarrow> byte list" where
  "int_digits base x =
     digits ! unat (x mod base) # (if x div base = 0 \<or> base < 2 then [] else int_digits base (x div base))"
  by pat_completeness auto
termination
proof (relation "measure (\<lambda>(base, x). unat x)", goal_cases)
  case (2 base x)
  have "0 < unat x" using 2 by (auto simp: unat_gt_0)
  moreover have "1 < unat base" using 2 by (simp add: not_less word_le_nat_alt)
  ultimately show ?case by (simp add: unat_div_distrib)
qed simp

declare int_digits.simps [simp del]

definition int_bytes :: "u32 \<Rightarrow> u32 \<Rightarrow> bool \<Rightarrow> byte list" where
  "int_bytes xx base sign =
     (let neg = (sign \<and> sint xx < 0);
          x = (if neg then - xx else xx);
          buf = int_digits base x in
      rev (if neg then buf @ [45] else buf))"

definition printint :: "u32 \<Rightarrow> u32 \<Rightarrow> bool \<Rightarrow> 'a uartst_scheme \<Rightarrow> 'a uartst_scheme outcome" where
  "printint xx base sign s = consputs (int_bytes xx base sign) s"

fun ptr_digits :: "nat \<Rightarrow> u64 \<Rightarrow> byte list" where
  "ptr_digits 0 x = []"
| "ptr_digits (Suc k) x = digits ! unat (drop_bit 60 x) # ptr_digits k (push_bit 4 x)"

definition printptr :: "u64 \<Rightarrow> 'a uartst_scheme \<Rightarrow> 'a uartst_scheme outcome" where
  "printptr x s =
     rbind (consputc 48 s) (\<lambda>s.
     rbind (consputc 120 s) (\<lambda>s.
     consputs (ptr_digits 16 x) s))"

text \<open>
  The variable arguments. Taking one that is not there, or of another type, is undefined in C; the
  model stops.
\<close>

datatype va = V_int u32 | V_ptr u64 | V_str "byte list option"

fun printf_conv :: "byte \<Rightarrow> va list \<Rightarrow> 'a uartst_scheme \<Rightarrow> (va list \<times> 'a uartst_scheme) outcome" where
  "printf_conv c ap s =
     (if c = 100 then
        (case ap of V_int x # ap \<Rightarrow> rbind (printint x 10 True s) (\<lambda>s. Ok (ap, s)) | _ \<Rightarrow> Panic ''va_arg'')
      else if c = 120 then
        (case ap of V_int x # ap \<Rightarrow> rbind (printint x 16 True s) (\<lambda>s. Ok (ap, s)) | _ \<Rightarrow> Panic ''va_arg'')
      else if c = 112 then
        (case ap of V_ptr x # ap \<Rightarrow> rbind (printptr x s) (\<lambda>s. Ok (ap, s)) | _ \<Rightarrow> Panic ''va_arg'')
      else if c = 115 then
        (case ap of
           V_str t # ap \<Rightarrow>
             rbind (consputs (case t of None \<Rightarrow> bytes_of ''(null)'' | Some t \<Rightarrow> t) s) (\<lambda>s. Ok (ap, s))
         | _ \<Rightarrow> Panic ''va_arg'')
      else if c = 37 then rbind (consputc 37 s) (\<lambda>s. Ok (ap, s))
      else rbind (consputc 37 s) (\<lambda>s. rbind (consputc (uint c) s) (\<lambda>s. Ok (ap, s))))"

fun printf_loop :: "byte list \<Rightarrow> va list \<Rightarrow> 'a uartst_scheme \<Rightarrow> 'a uartst_scheme outcome" where
  "printf_loop [] ap s = Ok s"
| "printf_loop [c] ap s = (if c \<noteq> 37 then consputc (uint c) s else Ok s)"
| "printf_loop (c # d # fmt) ap s =
     (if c \<noteq> 37 then rbind (consputc (uint c) s) (\<lambda>s. printf_loop (d # fmt) ap s)
      else rbind (printf_conv d ap s) (\<lambda>(ap, s). printf_loop fmt ap s))"

definition printf :: "byte list \<Rightarrow> va list \<Rightarrow> 'a uartst_scheme \<Rightarrow> 'a uartst_scheme outcome" where
  "printf fmt ap s =
     (let locking = pr_locking s in
      rbind (if locking then acquire L_pr s else Ok s) (\<lambda>s.
      rbind (printf_loop fmt ap s) (\<lambda>s.
      if locking then release L_pr s else Ok s)))"

text \<open>The state in which \<^verbatim>\<open>panic\<close> spins.\<close>

definition panic :: "byte list \<Rightarrow> 'a uartst_scheme \<Rightarrow> 'a uartst_scheme outcome" where
  "panic msg s =
     (let s = s\<lparr>pr_locking := False\<rparr> in
      rbind (printf (bytes_of ''panic: '') [] s) (\<lambda>s.
      rbind (printf msg [] s) (\<lambda>s.
      rbind (printf [10] [] s) (\<lambda>s.
      Ok (s\<lparr>panicked := True\<rparr>)))))"

definition printfinit :: "'a uartst_scheme \<Rightarrow> 'a uartst_scheme" where
  "printfinit s = s\<lparr>pr_locking := True\<rparr>"

fun state_name :: "procstate \<Rightarrow> string" where
  "state_name UNUSED = ''unused''"
| "state_name SLEEPING = ''sleep ''"
| "state_name RUNNABLE = ''runble''"
| "state_name RUNNING = ''run   ''"
| "state_name ZOMBIE = ''zombie''"

text \<open>The name of a process is printed up to its NUL, which \<^verbatim>\<open>safestrcpy\<close> puts within 16 bytes.\<close>

definition name_bytes :: "cstr \<Rightarrow> byte list" where
  "name_bytes nm = takeWhile (\<lambda>c. c \<noteq> 0) (map nm [0..<16])"

fun procdump_loop :: "nat \<Rightarrow> nat \<Rightarrow> 'a uartst_scheme \<Rightarrow> 'a uartst_scheme outcome" where
  "procdump_loop i 0 s = Ok s"
| "procdump_loop i (Suc k) s =
     (if p_state (proc s i) = UNUSED then procdump_loop (Suc i) k s
      else
        rbind (printf (bytes_of ''%d %s %s'')
          [V_int (of_int (p_pid (proc s i))), V_str (Some (bytes_of (state_name (p_state (proc s i))))),
           V_str (Some (name_bytes (p_name (proc s i))))] s) (\<lambda>s.
        rbind (printf [10] [] s) (\<lambda>s. procdump_loop (Suc i) k s)))"

definition procdump :: "'a uartst_scheme \<Rightarrow> 'a uartst_scheme outcome" where
  "procdump s = rbind (printf [10] [] s) (\<lambda>s. procdump_loop 0 NPROC s)"

end
