(* ===== verification/Console.thy ===== *)
theory Console
  imports Uart
begin

text \<open>
  The console device, \<^verbatim>\<open>kernel/console.c\<close>, and the UART interrupt of \<^verbatim>\<open>kernel/uart.c\<close> that feeds it:
  line editing on the input ring by the interrupt handler, reads of whole lines by processes.
\<close>

section \<open>State and operations\<close>

definition INPUT_BUF :: nat where "INPUT_BUF = 128"

text \<open>The devices that \<^verbatim>\<open>devsw\<close> can name.\<close>

datatype devfns = Console_dev

record consst = uartst +
  cons_buf :: "nat \<Rightarrow> byte"
  cons_r :: u32
  cons_w :: u32
  cons_e :: u32
  devsw :: "nat \<Rightarrow> devfns option"

definition CONSOLE :: nat where "CONSOLE = 1"

text \<open>\<^verbatim>\<open>C(x)\<close>, for a letter.\<close>

definition ctrl :: "char \<Rightarrow> byte" where
  "ctrl x = of_char x - 64"

fun consolewrite_loop :: "kptr \<Rightarrow> nat \<Rightarrow> nat \<Rightarrow> ('a consst_scheme \<Rightarrow> 'a consst_scheme) list \<Rightarrow> 'a consst_scheme \<Rightarrow>
    (nat \<times> ('a consst_scheme \<Rightarrow> 'a consst_scheme) list \<times> 'a consst_scheme) outcome" where
  "consolewrite_loop src i 0 env s = Ok (i, env, s)"
| "consolewrite_loop src i (Suc k) env s =
     rbind (either_copyin (\<lambda>_. 0) 0 (kptr_add src i) 1 s) (\<lambda>(r, c).
     if r = -1 then Ok (i, env, s)
     else rbind (uartputc (c 0) env s) (\<lambda>(env, s). consolewrite_loop src (Suc i) k env s))"

definition consolewrite :: "kptr \<Rightarrow> int \<Rightarrow> ('a consst_scheme \<Rightarrow> 'a consst_scheme) list \<Rightarrow> 'a consst_scheme \<Rightarrow>
    (int \<times> ('a consst_scheme \<Rightarrow> 'a consst_scheme) list \<times> 'a consst_scheme) outcome" where
  "consolewrite src n env s =
     rbind (consolewrite_loop src 0 (nat n) env s) (\<lambda>(i, env, s). Ok (int i, env, s))"

text \<open>
  The inner loop of \<^verbatim>\<open>consoleread\<close>: sleep until there is input. \<open>False\<close> if the process was killed.
\<close>

definition wait_input :: "('a consst_scheme \<Rightarrow> 'a consst_scheme) list \<Rightarrow> 'a consst_scheme \<Rightarrow>
    (bool \<times> ('a consst_scheme \<Rightarrow> 'a consst_scheme) list \<times> 'a consst_scheme) outcome" where
  "wait_input env s =
     sleep_loop (\<lambda>s.
       if cons_r s \<noteq> cons_w s then Ok (Some True, s)
       else if p_killed (proc s (this_proc s)) \<noteq> 0 then rbind (release L_cons s) (\<lambda>s. Ok (Some False, s))
       else Ok (None, s)) Chan_cons_r L_cons env s"

text \<open>The outer loop with \<open>n\<close> bytes still wanted of \<open>target\<close>; \<open>None\<close> if the process was killed.\<close>

fun consoleread_loop :: "kptr \<Rightarrow> nat \<Rightarrow> nat \<Rightarrow> ('a consst_scheme \<Rightarrow> 'a consst_scheme) list \<Rightarrow> 'a consst_scheme \<Rightarrow>
    (nat option \<times> ('a consst_scheme \<Rightarrow> 'a consst_scheme) list \<times> 'a consst_scheme) outcome" where
  "consoleread_loop dst target 0 env s = Ok (Some 0, env, s)"
| "consoleread_loop dst target (Suc n) env s =
     rbind (wait_input env s) (\<lambda>(go, env, s).
     if \<not> go then Ok (None, env, s)
     else
       (let c = cons_buf s (unat (cons_r s) mod INPUT_BUF);
            s = s\<lparr>cons_r := cons_r s + 1\<rparr> in
        if c = ctrl CHR ''D'' then
          Ok (Some (Suc n), env, if Suc n < target then s\<lparr>cons_r := cons_r s - 1\<rparr> else s)
        else
          rbind (either_copyout dst (\<lambda>_. c) 0 1 s) (\<lambda>(r, s).
          if r = -1 then Ok (Some (Suc n), env, s)
          else if c = 10 then Ok (Some n, env, s)
          else consoleread_loop (kptr_add dst 1) target n env s)))"

definition consoleread :: "kptr \<Rightarrow> int \<Rightarrow> ('a consst_scheme \<Rightarrow> 'a consst_scheme) list \<Rightarrow> 'a consst_scheme \<Rightarrow>
    (int \<times> ('a consst_scheme \<Rightarrow> 'a consst_scheme) list \<times> 'a consst_scheme) outcome" where
  "consoleread dst n env s =
     rbind (acquire L_cons s) (\<lambda>s.
     rbind (consoleread_loop dst (nat n) (nat n) env s) (\<lambda>(left, env, s).
     case left of
       None \<Rightarrow> Ok (-1, env, s)
     | Some k \<Rightarrow> rbind (release L_cons s) (\<lambda>s. Ok (int (nat n) - int k, env, s))))"

section \<open>What printing leaves alone\<close>

lemma wait_tx_idle_frame: "\<exists>i. wait_tx_idle s = s\<lparr>tx_idle := i\<rparr>"
proof (induction s rule: wait_tx_idle.induct)
  case (1 s)
  show ?case
  proof (cases "fst (read_lsr s) AND LSR_TX_IDLE = 0")
    case True
    obtain i where "wait_tx_idle (snd (read_lsr s)) = (snd (read_lsr s))\<lparr>tx_idle := i\<rparr>"
      using 1 [OF refl prod.collapse True] by blast
    then have "wait_tx_idle s = s\<lparr>tx_idle := i\<rparr>"
      using True by (subst wait_tx_idle.simps) (simp add: case_prod_beta read_lsr_def)
    then show ?thesis by blast
  next
    case False
    then have "wait_tx_idle s = s\<lparr>tx_idle := tl (tx_idle s)\<rparr>"
      by (subst wait_tx_idle.simps) (simp add: case_prod_beta read_lsr_def)
    then show ?thesis by blast
  qed
qed

text \<open>A state that differs in the state of the UART at most.\<close>

definition printed :: "'a uartst_scheme \<Rightarrow> 'a uartst_scheme \<Rightarrow> bool" where
  "printed s t \<longleftrightarrow> (\<exists>l i. t = s\<lparr>uart_log := l, tx_idle := i\<rparr>)"

lemma printed_refl [simp, intro]: "printed s s"
  unfolding printed_def by (rule exI [of _ "uart_log s"], rule exI [of _ "tx_idle s"]) simp

lemma printed_trans [trans]: "printed s t \<Longrightarrow> printed t u \<Longrightarrow> printed s u"
proof -
  assume "printed s t" "printed t u"
  then obtain l i m j where "t = s\<lparr>uart_log := l, tx_idle := i\<rparr>" "u = t\<lparr>uart_log := m, tx_idle := j\<rparr>"
    unfolding printed_def by blast
  then have "u = s\<lparr>uart_log := m, tx_idle := j\<rparr>" by simp
  then show ?thesis unfolding printed_def by blast
qed

lemma uartputc_sync_printed:
  assumes "uartputc_sync c s = Ok t"
  shows "printed s t"
proof -
  obtain i where "wait_tx_idle s = s\<lparr>tx_idle := i\<rparr>" using wait_tx_idle_frame by blast
  then have "t = s\<lparr>uart_log := uart_log s @ [(THR, of_int c)], tx_idle := i\<rparr>"
    using assms by (auto simp: uartputc_sync_def WriteReg_def split: if_splits)
  then show ?thesis unfolding printed_def by blast
qed

lemma consputc_printed: "consputc c s = Ok t \<Longrightarrow> printed s t"
  by (auto simp: consputc_def rbind_Ok_iff split: if_splits
      dest!: uartputc_sync_printed intro: printed_trans)

lemma consputs_printed: "consputs cs s = Ok t \<Longrightarrow> printed s t"
  by (induction cs arbitrary: s) (auto simp: rbind_Ok_iff dest!: consputc_printed intro: printed_trans)

lemma printf_conv_printed: "printf_conv c ap s = Ok (ap', t) \<Longrightarrow> printed s t"
  by (auto simp: rbind_Ok_iff printint_def printptr_def split: if_splits list.splits va.splits
      dest!: consputs_printed consputc_printed intro: printed_trans)

lemma printf_loop_printed: "printf_loop fmt ap s = Ok t \<Longrightarrow> printed s t"
proof (induction fmt ap s rule: printf_loop.induct)
  case (3 c d fmt ap s)
  show ?case
  proof (cases "c = 37")
    case True
    then obtain ap' u where u: "printf_conv d ap s = Ok (ap', u)" "printf_loop fmt ap' u = Ok t"
      using "3.prems" by (auto simp: rbind_Ok_iff simp del: printf_conv.simps)
    have "printed u t" using "3.IH"(2) [OF _ u(1) refl u(2)] True by simp
    then show ?thesis using printed_trans [OF printf_conv_printed [OF u(1)]] by simp
  next
    case False
    then obtain u where u: "consputc (uint c) s = Ok u" "printf_loop (d # fmt) ap u = Ok t"
      using "3.prems" unfolding printf_loop.simps by (simp add: rbind_Ok_iff) blast
    have "printed u t" by (rule "3.IH"(1) [OF False u])
    then show ?thesis using printed_trans [OF consputc_printed [OF u(1)]] by simp
  qed
qed (auto split: if_splits dest: consputc_printed)

lemma printf_frame: "printf fmt ap s = Ok t \<Longrightarrow> printed s t"
proof -
  assume p: "printf fmt ap s = Ok t"
  show "printed s t"
  proof (cases "pr_locking s")
    case True
    then obtain u where u: "printf_loop fmt ap (s\<lparr>held := L_pr # held s\<rparr>) = Ok u" "release L_pr u = Ok t"
      using p by (auto simp: printf_def rbind_Ok_iff acquire_def split: if_splits)
    then obtain l i where "u = s\<lparr>held := L_pr # held s\<rparr>\<lparr>uart_log := l, tx_idle := i\<rparr>"
      using printf_loop_printed unfolding printed_def by blast
    then have "t = s\<lparr>uart_log := l, tx_idle := i\<rparr>"
      using u(2) by (auto simp: release_def split: if_splits)
    then show ?thesis unfolding printed_def by blast
  next
    case False
    then show ?thesis using p printf_loop_printed by (auto simp: printf_def rbind_Ok_iff)
  qed
qed

lemma procdump_loop_printed: "procdump_loop i k s = Ok t \<Longrightarrow> printed s t"
  by (induction k arbitrary: i s)
     (auto simp: rbind_Ok_iff split: if_splits dest!: printf_frame intro: printed_trans)

lemma procdump_printed: "procdump s = Ok t \<Longrightarrow> printed s t"
  by (auto simp: procdump_def rbind_Ok_iff dest!: printf_frame procdump_loop_printed intro: printed_trans)

section \<open>Input\<close>

text \<open>Kill line: back to the last newline or the start of the line being edited.\<close>

function kill_line :: "'a consst_scheme \<Rightarrow> 'a consst_scheme outcome" where
  "kill_line s =
     (if cons_e s \<noteq> cons_w s \<and> cons_buf s (unat (cons_e s - 1) mod INPUT_BUF) \<noteq> 10 then
        rbind (consputc BACKSPACE (s\<lparr>cons_e := cons_e s - 1\<rparr>)) (\<lambda>s. kill_line s)
      else Ok s)"
  by pat_completeness auto
termination
proof (relation "measure (\<lambda>s. unat (cons_e s - cons_w s))", goal_cases)
  case (2 s t)
  then have "cons_e t = cons_e s - 1" "cons_w t = cons_w s"
    using consputc_printed unfolding printed_def by fastforce+
  moreover have "cons_e s - cons_w s \<noteq> 0" using 2 by simp
  then have "unat (cons_e s - cons_w s - 1) < unat (cons_e s - cons_w s)" by (simp add: unat_minus_one unat_gt_0)
  moreover have "cons_e s - 1 - cons_w s = cons_e s - cons_w s - 1" by simp
  ultimately show ?case by (simp only: in_measure)
qed simp

declare kill_line.simps [simp del]

definition consoleintr :: "int \<Rightarrow> 'a consst_scheme \<Rightarrow> 'a consst_scheme outcome" where
  "consoleintr c s =
     rbind (acquire L_cons s) (\<lambda>s.
     rbind
       (if c = uint (ctrl CHR ''P'') then procdump s
        else if c = uint (ctrl CHR ''U'') then kill_line s
        else if c = uint (ctrl CHR ''H'') \<or> c = 0x7f then
          (if cons_e s \<noteq> cons_w s then consputc BACKSPACE (s\<lparr>cons_e := cons_e s - 1\<rparr>) else Ok s)
        else if c \<noteq> 0 \<and> cons_e s - cons_r s < of_nat INPUT_BUF then
          (let c = (if c = 13 then 10 else c) in
           rbind (consputc c s) (\<lambda>s.
           let s = s\<lparr>cons_buf := (cons_buf s)(unat (cons_e s) mod INPUT_BUF := of_int c)\<rparr>;
               s = s\<lparr>cons_e := cons_e s + 1\<rparr> in
           if c = 10 \<or> c = uint (ctrl CHR ''D'') \<or> cons_e s = cons_r s + of_nat INPUT_BUF then
             wakeup Chan_cons_r (s\<lparr>cons_w := cons_e s\<rparr>)
           else Ok s))
        else Ok s)
       (\<lambda>s. release L_cons s))"

lemma printed_in: "printed s t \<Longrightarrow> uart_in t = uart_in s"
  by (auto simp: printed_def)

lemma kill_line_in: "kill_line s = Ok t \<Longrightarrow> uart_in t = uart_in s"
proof (induction s rule: kill_line.induct)
  case (1 s)
  show ?case
  proof (cases "cons_e s \<noteq> cons_w s \<and> cons_buf s (unat (cons_e s - 1) mod INPUT_BUF) \<noteq> 10")
    case True
    then obtain u where u: "consputc BACKSPACE (s\<lparr>cons_e := cons_e s - 1\<rparr>) = Ok u" "kill_line u = Ok t"
      using 1(2) by (subst (asm) kill_line.simps) (auto simp: rbind_Ok_iff)
    then have "uart_in t = uart_in u" using 1(1) True by blast
    then show ?thesis using printed_in [OF consputc_printed [OF u(1)]] by simp
  next
    case False
    then show ?thesis using 1(2) by (subst (asm) kill_line.simps) auto
  qed
qed

lemma consoleintr_in: "consoleintr c s = Ok t \<Longrightarrow> uart_in t = uart_in s"
  by (auto simp: consoleintr_def rbind_Ok_iff acquire_def release_def Let_def split: if_splits
      dest!: procdump_printed consputc_printed kill_line_in printed_in elim!: wakeup_frame)

text \<open>Input is drained byte by byte.\<close>

function uartintr_loop :: "'a consst_scheme \<Rightarrow> 'a consst_scheme outcome" where
  "uartintr_loop s =
     (let (c, s) = uartgetc s in
      if c = -1 then Ok s else rbind (consoleintr c s) (\<lambda>s. uartintr_loop s))"
  by pat_completeness auto
termination
proof (relation "measure (\<lambda>s. length (uart_in s))", goal_cases)
  case (2 s x c t u)
  then have "uart_in u = uart_in t" using consoleintr_in by blast
  moreover have "length (uart_in t) < length (uart_in s)"
    using 2 by (cases "uart_in s")
      (auto simp: uartgetc_def read_lsr_def read_rhr_def LSR_RX_READY_def LSR_TX_IDLE_def split: if_splits)
  ultimately show ?case by simp
qed simp

declare uartintr_loop.simps [simp del]

definition uartintr :: "'a consst_scheme \<Rightarrow> 'a consst_scheme outcome" where
  "uartintr s =
     rbind (uartintr_loop s) (\<lambda>s.
     rbind (acquire L_uart_tx s) (\<lambda>s.
     rbind (uartstart s) (\<lambda>s. release L_uart_tx s)))"

definition consoleinit :: "'a consst_scheme \<Rightarrow> 'a consst_scheme" where
  "consoleinit s = (uartinit s)\<lparr>devsw := (devsw s)(CONSOLE := Some Console_dev)\<rparr>"

end
