(* ===== verification/Queue.thy ===== *)
theory Queue
  imports Prelude
begin

text \<open>
  The contract of a first-in first-out queue, for the queues of the kernel: the ring of a pipe, the ring
  of the serial port and the packet queue of a socket. A ring is an array with two free-running counters,
  which wrap around at the width of the counter.
\<close>

section \<open>The contract\<close>

fun pops :: "('q \<Rightarrow> 'x \<times> 'q) \<Rightarrow> nat \<Rightarrow> 'q \<Rightarrow> 'x list \<times> 'q" where
  "pops pop 0 q = ([], q)"
| "pops pop (Suc n) q = (let (x, q) = pop q; (xs, q) = pops pop n q in (x # xs, q))"

lemma pops_Suc:
  "fst (pops pop (Suc n) q) = fst (pop q) # fst (pops pop n (snd (pop q)))"
  "snd (pops pop (Suc n) q) = snd (pops pop n (snd (pop q)))"
  by (simp_all add: split_def Let_def)

locale fifo =
  fixes items :: "'q \<Rightarrow> 'x list"
    and valid :: "'q \<Rightarrow> bool"
    and room :: "'x \<Rightarrow> 'q \<Rightarrow> bool"
    and push :: "'x \<Rightarrow> 'q \<Rightarrow> 'q"
    and pop :: "'q \<Rightarrow> 'x \<times> 'q"
  assumes push_law: "valid q \<Longrightarrow> room x q \<Longrightarrow> valid (push x q) \<and> items (push x q) = items q @ [x]"
    and pop_law: "valid q \<Longrightarrow> items q \<noteq> [] \<Longrightarrow> valid (snd (pop q)) \<and> items q = fst (pop q) # items (snd (pop q))"
begin

lemma pop_items: "valid q \<Longrightarrow> items q = x # xs \<Longrightarrow> fst (pop q) = x \<and> items (snd (pop q)) = xs"
  using pop_law [of q] by simp

lemma pops_items:
  "valid q \<Longrightarrow> n \<le> length (items q) \<Longrightarrow>
    valid (snd (pops pop n q)) \<and> fst (pops pop n q) = take n (items q) \<and> items (snd (pops pop n q)) = drop n (items q)"
proof (induction n arbitrary: q)
  case (Suc n)
  then have "items q \<noteq> []" by auto
  then have "valid (snd (pop q)) \<and> items q = fst (pop q) # items (snd (pop q))" using pop_law Suc.prems(1) by blast
  then show ?case using Suc.IH [of "snd (pop q)"] Suc.prems(2)
    by (auto simp: Let_def split: prod.split)
qed simp

lemma push_pops:
  assumes "valid q" "room x q"
  shows "fst (pops pop (Suc (length (items q))) (push x q)) = items q @ [x]"
  using pops_items [of "push x q" "Suc (length (items q))"] push_law [OF assms] by simp

end

text \<open>A queue whose only limit is the number of its items.\<close>

locale bounded_fifo = fifo items valid "\<lambda>x q. length (items q) < cap" push pop
  for items :: "'q \<Rightarrow> 'x list" and valid :: "'q \<Rightarrow> bool" and cap :: nat and push :: "'x \<Rightarrow> 'q \<Rightarrow> 'q" and pop :: "'q \<Rightarrow> 'x \<times> 'q"
begin

lemma pushes_items:
  "valid q \<Longrightarrow> length (items q) + length xs \<le> cap \<Longrightarrow> valid (fold push xs q) \<and> items (fold push xs q) = items q @ xs"
proof (induction xs arbitrary: q)
  case (Cons x xs)
  then have "valid (push x q) \<and> items (push x q) = items q @ [x]" using push_law by simp
  then show ?case using Cons.IH [of "push x q"] Cons.prems by simp
qed simp

lemma pushes_pops:
  "valid q \<Longrightarrow> length (items q) + length xs \<le> cap \<Longrightarrow>
    fst (pops pop (length (items q) + length xs) (fold push xs q)) = items q @ xs"
  using pushes_items [of q xs] pops_items [of "fold push xs q" "length (items q) + length xs"] by simp

end

section \<open>Rings\<close>

text \<open>\<open>r\<close> and \<open>w\<close> are the counters of bytes ever read and written.\<close>

definition ring_items :: "nat \<Rightarrow> (nat \<Rightarrow> 'x) \<Rightarrow> 'w::len word \<Rightarrow> 'w word \<Rightarrow> 'x list" where
  "ring_items N b r w = map (\<lambda>k. b ((unat r + k) mod N)) [0..<unat (w - r)]"

lemma length_ring_items [simp]: "length (ring_items N b r w) = unat (w - r)"
  by (simp add: ring_items_def)

lemma counter_mod:
  assumes "N dvd 2 ^ LENGTH('w::len)"
  shows "unat (r + of_nat k :: 'w word) mod N = (unat r + k) mod N"
proof -
  have "unat (r + of_nat k :: 'w word) mod N = (unat r + k) mod 2 ^ LENGTH('w) mod N"
    by (simp add: unat_word_ariths unat_of_nat mod_simps)
  then show ?thesis using assms by (simp add: mod_mod_cancel)
qed

lemma ring_push:
  assumes "N dvd 2 ^ LENGTH('w::len)" "unat (w - r :: 'w word) < N" "N < 2 ^ LENGTH('w)"
  shows "unat (w + 1 - r) = Suc (unat (w - r))" "ring_items N (b(unat w mod N := x)) r (w + 1) = ring_items N b r w @ [x]"
proof -
  have d: "w + 1 - r = (w - r) + 1" by simp
  have "unat (w - r) + 1 < 2 ^ LENGTH('w)" using assms(2,3) by simp
  then show l: "unat (w + 1 - r) = Suc (unat (w - r))" unfolding d by (simp add: unat_word_ariths)
  have w: "unat w mod N = (unat r + unat (w - r)) mod N"
    using counter_mod [OF assms(1), of r "unat (w - r)"] by simp
  have ne: "(unat r + k) mod N \<noteq> (unat r + unat (w - r)) mod N" if "k < unat (w - r)" for k
  proof
    assume "(unat r + k) mod N = (unat r + unat (w - r)) mod N"
    then have "(int (unat r) + int k) mod int N = (int (unat r) + int (unat (w - r))) mod int N"
      by (simp only: of_nat_add [symmetric] of_nat_mod [symmetric])
    then have "int k mod int N = int (unat (w - r)) mod int N" by (simp add: mod_eq_dvd_iff)
    then have "k mod N = unat (w - r) mod N" by (simp only: of_nat_mod [symmetric] of_nat_eq_iff)
    then show False using that assms(2) by simp
  qed
  show "ring_items N (b(unat w mod N := x)) r (w + 1) = ring_items N b r w @ [x]"
    unfolding ring_items_def l using ne by (simp add: w)
qed

lemma ring_pop:
  assumes "N dvd 2 ^ LENGTH('w::len)" "r \<noteq> (w :: 'w word)"
  shows "unat (w - r) = Suc (unat (w - (r + 1)))" "ring_items N b r w = b (unat r mod N) # ring_items N b (r + 1) w"
proof -
  have d: "w - (r + 1) = (w - r) - 1" "w - r \<noteq> 0" using assms(2) by auto
  show l: "unat (w - r) = Suc (unat (w - (r + 1)))"
    unfolding d(1) using d(2) by (simp add: unat_minus_one unat_gt_0)
  have "(unat r + Suc k) mod N = (unat (r + 1) + k) mod N" for k
    using counter_mod [OF assms(1), of r "Suc k"] counter_mod [OF assms(1), of "r + 1" k] by (simp only: of_nat_Suc add.assoc)
  then show "ring_items N b r w = b (unat r mod N) # ring_items N b (r + 1) w"
    unfolding ring_items_def l by (simp add: upt_conv_Cons map_Suc_upt [symmetric] del: upt_Suc)
qed

lemma ring_full: "N < 2 ^ LENGTH('w::len) \<Longrightarrow> (w :: 'w word) = r + of_nat N \<longleftrightarrow> unat (w - r) = N"
proof
  assume N: "N < 2 ^ LENGTH('w)" and "unat (w - r) = N"
  then have "w - r = of_nat N" by (metis of_nat_unat ucast_id)
  then show "w = r + of_nat N" by (metis add_diff_cancel_left' diff_add_cancel add.commute)
qed (simp add: unat_of_nat)

end
