(* ===== verification/Proc_Props.thy ===== *)
theory Proc_Props
  imports Proc
begin

text \<open>
  Scheduling and signalling: a pass of \<^verbatim>\<open>scheduler()\<close> dispatches every runnable process, and \<^verbatim>\<open>kill()\<close>
  marks the process with the given pid and lets it run.
\<close>

section \<open>Sleeping\<close>

text \<open>No sleep when the condition holds at once.\<close>

lemma sleep_loop_now: "body s = Ok (Some v, t) \<Longrightarrow> sleep_loop body c lk env s = Ok (v, env, t)"
  by (cases env) simp_all

section \<open>The scheduler\<close>

text \<open>
  What the scheduler relies on while a process runs: the process switches back with the locks as they
  were (its own one only), and does not take another process off the run queue.
\<close>

definition runs_fairly :: "(nat \<Rightarrow> 'a procs_scheme \<Rightarrow> 'a procs_scheme) \<Rightarrow> bool" where
  "runs_fairly run \<longleftrightarrow> (\<forall>i s. held (run i s) = held s \<and>
     (\<forall>j. j \<noteq> i \<longrightarrow> p_state (proc s j) = RUNNABLE \<longrightarrow> p_state (proc (run i s) j) = RUNNABLE))"

text \<open>The dispatch of entry \<open>i\<close> as one step, with the lock of the entry taken and released around it.\<close>

definition dispatch :: "(nat \<Rightarrow> 'a procs_scheme \<Rightarrow> 'a procs_scheme) \<Rightarrow> nat \<Rightarrow> 'a procs_scheme \<Rightarrow> 'a procs_scheme" where
  "dispatch run i s = (run i ((upd_proc i (\<lambda>p. p\<lparr>p_state := RUNNING\<rparr>) (s\<lparr>held := L_proc i # held s\<rparr>))\<lparr>curproc := Some i\<rparr>))
     \<lparr>curproc := None, held := held s\<rparr>"

definition visit :: "(nat \<Rightarrow> 'a procs_scheme \<Rightarrow> 'a procs_scheme) \<Rightarrow> nat \<Rightarrow> 'a procs_scheme \<Rightarrow> 'a procs_scheme" where
  "visit run i s = (if p_state (proc s i) = RUNNABLE then dispatch run i s else s)"

lemma scheduler_pass_step:
  assumes "runs_fairly run" "no_proc_lock s"
  shows "scheduler_pass run i (Suc k) n s =
    scheduler_pass run (Suc i) k (if p_state (proc s i) \<noteq> UNUSED then Suc n else n) (visit run i s)"
proof -
  have f: "L_proc i \<notin> set (held s)" using assms(2) by (simp add: no_proc_lock_def)
  have h: "held (run i t) = held t" for t using assms(1) by (simp add: runs_fairly_def)
  show ?thesis using f by (auto simp: visit_def dispatch_def h upd_proc_def Let_def)
qed

lemma visit_keeps:
  assumes "runs_fairly run" "no_proc_lock s"
  shows "no_proc_lock (visit run i s)"
    "j \<noteq> i \<Longrightarrow> p_state (proc s j) = RUNNABLE \<Longrightarrow> p_state (proc (visit run i s) j) = RUNNABLE"
  using assms by (auto simp: visit_def dispatch_def no_proc_lock_def runs_fairly_def upd_proc_def)

lemma scheduler_pass_reaches:
  assumes "runs_fairly run" "no_proc_lock s" "i + d = j" "p_state (proc s j) = RUNNABLE"
  shows "\<exists>m t. scheduler_pass run i d n s = Ok (m, t) \<and> no_proc_lock t \<and> p_state (proc t j) = RUNNABLE \<and>
    (\<forall>k. scheduler_pass run i (d + k) n s = scheduler_pass run j k m t)"
  using assms(2-)
proof (induction d arbitrary: i n s)
  case (Suc d)
  let ?n = "if p_state (proc s i) \<noteq> UNUSED then Suc n else n"
  have "p_state (proc (visit run i s) j) = RUNNABLE" "no_proc_lock (visit run i s)"
    using visit_keeps(2) [OF assms(1) Suc.prems(1), of j i] visit_keeps(1) [OF assms(1) Suc.prems(1)] Suc.prems by auto
  then obtain m t where "scheduler_pass run (Suc i) d ?n (visit run i s) = Ok (m, t)" "no_proc_lock t" "p_state (proc t j) = RUNNABLE"
    "\<forall>k. scheduler_pass run (Suc i) (d + k) ?n (visit run i s) = scheduler_pass run j k m t"
    using Suc.IH [of "visit run i s" "Suc i" ?n] Suc.prems(2) by auto
  then show ?case using scheduler_pass_step [OF assms(1) Suc.prems(1), of i _ n] by (auto simp del: scheduler_pass.simps)
qed simp

lemma scheduler_pass_returns:
  assumes "runs_fairly run" "no_proc_lock s"
  shows "\<exists>m t. scheduler_pass run i k n s = Ok (m, t) \<and> no_proc_lock t"
  using assms(2)
proof (induction k arbitrary: i n s)
  case (Suc k)
  then show ?case using scheduler_pass_step [OF assms(1) Suc.prems, of i k n] visit_keeps(1) [OF assms(1) Suc.prems, of i]
    by (simp del: scheduler_pass.simps)
qed simp

text \<open>
  C13: A runnable process waits for at most one pass over the table: the pass gets to it with the process
  still runnable, dispatches it, and goes on to the end of the table from the state in which it gave the
  processor back.
\<close>

theorem scheduler_dispatches_runnable:
  assumes "runs_fairly run" "no_proc_lock s" "j < NPROC" "p_state (proc s j) = RUNNABLE"
  shows "\<exists>m t m' t'. scheduler_pass run 0 j 0 s = Ok (m, t) \<and> p_state (proc t j) = RUNNABLE \<and>
    scheduler_pass run 0 NPROC 0 s = scheduler_pass run (Suc j) (NPROC - Suc j) (Suc m) (dispatch run j t) \<and>
    scheduler_pass run 0 NPROC 0 s = Ok (m', t')"
proof -
  obtain m t where r: "scheduler_pass run 0 j 0 s = Ok (m, t)" "no_proc_lock t" "p_state (proc t j) = RUNNABLE"
    and all: "\<And>k. scheduler_pass run 0 (j + k) 0 s = scheduler_pass run j k m t"
    using scheduler_pass_reaches [OF assms(1,2), of 0 j j 0] assms(4) by auto
  obtain k where k: "NPROC = j + Suc k" using assms(3) less_imp_Suc_add by auto
  then have k': "NPROC - Suc j = k" by simp
  have "scheduler_pass run 0 NPROC 0 s = scheduler_pass run (Suc j) (NPROC - Suc j) (Suc m) (dispatch run j t)"
    using all [of "Suc k"] scheduler_pass_step [OF assms(1) r(2), of j k m] r(3) k k'
    by (simp add: visit_def del: scheduler_pass.simps)
  then show ?thesis using r scheduler_pass_returns [OF assms(1,2)] by blast
qed

text \<open>A table in which process 0 sleeps on the ticks and the others are runnable, for the witnesses.\<close>

definition sample_proc :: "nat \<Rightarrow> proc" where
  "sample_proc i = \<lparr>p_state = (if i = 0 then SLEEPING else RUNNABLE), p_parent = None, p_chan = Chan_ticks, p_killed = 0,
     p_xstate = 0, p_pid = int i + 1, p_kstack = 0, p_sz = 0, p_pagetable = 0, p_trapframe = 0,
     p_context = \<lparr>ctx_ra = 0, ctx_sp = 0, ctx_s = (\<lambda>_. 0)\<rparr>, p_ofile = (\<lambda>_. None), p_cwd = None, p_name = (\<lambda>_. 0)\<rparr>"

definition sample_procs :: procs where
  "sample_procs = \<lparr>held = [], mem = (\<lambda>_. 0), freelist = 0, kend = 0, proc = sample_proc, curproc = None, initproc = Some 0,
     nextpid = 65, forkret_addr = 0, trampoline_addr = 0, klocal = (\<lambda>_. 0)\<rparr>"

lemma sample_procs_unlocked: "no_proc_lock sample_procs"
  by (simp add: no_proc_lock_def sample_procs_def)

text \<open>Every process gives the processor back at once.\<close>

definition yielding :: "nat \<Rightarrow> 'a procs_scheme \<Rightarrow> 'a procs_scheme" where
  "yielding i s = upd_proc i (\<lambda>p. p\<lparr>p_state := RUNNABLE\<rparr>) s"

theorem scheduler_dispatches_runnable_witness:
  "\<exists>m t m' t'. scheduler_pass yielding 0 5 0 sample_procs = Ok (m, t) \<and> p_state (proc t 5) = RUNNABLE \<and>
    scheduler_pass yielding 0 NPROC 0 sample_procs = scheduler_pass yielding 6 58 (Suc m) (dispatch yielding 5 t) \<and>
    scheduler_pass yielding 0 NPROC 0 sample_procs = Ok (m', t')"
proof -
  have y: "runs_fairly (yielding :: nat \<Rightarrow> procs \<Rightarrow> procs)" by (simp add: runs_fairly_def yielding_def upd_proc_def)
  have "Suc 5 = 6" "NPROC - Suc 5 = 58" "5 < NPROC" "p_state (proc sample_procs 5) = RUNNABLE"
    by (simp_all add: NPROC_def sample_procs_def sample_proc_def)
  then show ?thesis using scheduler_dispatches_runnable [OF y sample_procs_unlocked, of 5] by simp
qed

section \<open>Killing a process\<close>

definition killed_proc :: "proc \<Rightarrow> proc" where
  "killed_proc p = p\<lparr>p_killed := 1, p_state := (if p_state p = SLEEPING then RUNNABLE else p_state p)\<rparr>"

lemma kill_loop_none:
  assumes "no_proc_lock s" "\<forall>j. i \<le> j \<and> j < i + d \<longrightarrow> p_pid (proc s j) \<noteq> pid"
  shows "kill_loop pid i (d + k) s = kill_loop pid (i + d) k s"
  using assms(2)
proof (induction d arbitrary: i)
  case (Suc d)
  have "L_proc i \<notin> set (held s)" using assms(1) by (simp add: no_proc_lock_def)
  then show ?case using Suc.IH [of "Suc i"] Suc.prems by simp
qed simp

text \<open>
  C28: \<^verbatim>\<open>kill(pid)\<close> returns -1 and changes nothing when no process has the pid; otherwise it returns 0, sets
  \<^verbatim>\<open>killed\<close> in the first process with that pid, makes it runnable if it sleeps, and touches nothing else.
\<close>

theorem kill_marks_process:
  assumes "no_proc_lock s"
  shows "kill pid s =
    (case find (\<lambda>i. p_pid (proc s i) = pid) [0..<NPROC] of
       None \<Rightarrow> Ok (-1, s)
     | Some i \<Rightarrow> Ok (0, s\<lparr>proc := (proc s)(i := killed_proc (proc s i))\<rparr>))"
proof (cases "find (\<lambda>i. p_pid (proc s i) = pid) [0..<NPROC]")
  case None
  then have "\<forall>j. j < NPROC \<longrightarrow> p_pid (proc s j) \<noteq> pid" by (auto simp: find_None_iff)
  then show ?thesis using None kill_loop_none [OF assms, of 0 NPROC pid 0] by (simp add: kill_def)
next
  case (Some i)
  then have i: "i < NPROC" "p_pid (proc s i) = pid" "\<forall>j. j < i \<longrightarrow> p_pid (proc s j) \<noteq> pid"
    unfolding find_Some_iff by auto
  obtain k where k: "NPROC = i + Suc k" using i(1) less_imp_Suc_add by auto
  have "L_proc i \<notin> set (held s)" using assms by (simp add: no_proc_lock_def)
  then have "kill_loop pid i (Suc k) s = Ok (0, s\<lparr>proc := (proc s)(i := killed_proc (proc s i))\<rparr>)"
    using i(2) by (auto simp: upd_proc_def killed_proc_def Let_def)
  then show ?thesis using Some kill_loop_none [OF assms, of 0 i pid "Suc k"] i(3) k by (simp add: kill_def del: kill_loop.simps)
qed

theorem kill_marks_process_witness:
  "kill 1 sample_procs = Ok (0, sample_procs\<lparr>proc := (sample_proc)(0 := (sample_proc 0)\<lparr>p_killed := 1, p_state := RUNNABLE\<rparr>)\<rparr>)"
proof -
  have "find (\<lambda>i. p_pid (proc sample_procs i) = 1) [0..<NPROC] = Some 0"
    by (simp add: NPROC_def upt_rec sample_procs_def sample_proc_def)
  then show ?thesis using kill_marks_process [OF sample_procs_unlocked, of 1]
    by (simp add: killed_proc_def) (simp add: sample_procs_def sample_proc_def)
qed

end
