(* ===== verification/Uart_Fifo.thy ===== *)
theory Uart_Fifo
  imports Console Queue Proc_Props
begin

text \<open>
  The serial output as a stream: the bytes handed to the transmitter followed by the bytes waiting in the ring
  are the bytes that \<^verbatim>\<open>uartputc\<close> was given, in order, whenever the transmitter is found busy or idle.
\<close>

definition uart_sent :: "'a uartst_scheme \<Rightarrow> byte list" where
  "uart_sent s = map snd (filter (\<lambda>e. fst e = THR) (uart_log s))"

definition uart_pending :: "'a uartst_scheme \<Rightarrow> byte list" where
  "uart_pending s = ring_items UART_TX_BUF_SIZE (uart_tx_buf s) (uart_tx_r s) (uart_tx_w s)"

definition uart_valid :: "'a uartst_scheme \<Rightarrow> bool" where
  "uart_valid s \<longleftrightarrow> unat (uart_tx_w s - uart_tx_r s) \<le> UART_TX_BUF_SIZE"

definition uart_push :: "byte \<Rightarrow> 'a uartst_scheme \<Rightarrow> 'a uartst_scheme" where
  "uart_push c s = s\<lparr>uart_tx_buf := (uart_tx_buf s)(unat (uart_tx_w s) mod UART_TX_BUF_SIZE := c), uart_tx_w := uart_tx_w s + 1\<rparr>"

definition uart_pop :: "'a uartst_scheme \<Rightarrow> byte \<times> 'a uartst_scheme" where
  "uart_pop s = (uart_tx_buf s (unat (uart_tx_r s) mod UART_TX_BUF_SIZE), s\<lparr>uart_tx_r := uart_tx_r s + 1\<rparr>)"

lemma uart_size: "UART_TX_BUF_SIZE dvd 2 ^ LENGTH(64)" "UART_TX_BUF_SIZE < 2 ^ LENGTH(64)"
  by (simp_all add: UART_TX_BUF_SIZE_def)

lemma uart_empty: "uart_pending s = [] \<longleftrightarrow> uart_tx_r s = uart_tx_w s"
  by (auto simp: uart_pending_def ring_items_def unat_eq_zero)

lemma uart_full: "uart_tx_w s = uart_tx_r s + of_nat UART_TX_BUF_SIZE \<longleftrightarrow> length (uart_pending s) = UART_TX_BUF_SIZE"
  using ring_full [OF uart_size(2), of "uart_tx_w s" "uart_tx_r s"] by (simp add: uart_pending_def)

interpretation ut: bounded_fifo uart_pending uart_valid UART_TX_BUF_SIZE uart_push uart_pop
proof unfold_locales
  fix q :: "'a uartst_scheme" and x :: byte assume q: "uart_valid q"
  show "uart_valid (uart_push x q) \<and> uart_pending (uart_push x q) = uart_pending q @ [x]" if "length (uart_pending q) < UART_TX_BUF_SIZE"
    using that ring_push(1) [OF uart_size(1) _ uart_size(2), of "uart_tx_w q" "uart_tx_r q"]
      ring_push(2) [OF uart_size(1) _ uart_size(2), of "uart_tx_w q" "uart_tx_r q" "uart_tx_buf q" x]
    by (simp add: uart_valid_def uart_pending_def uart_push_def)
  show "uart_valid (snd (uart_pop q)) \<and> uart_pending q = fst (uart_pop q) # uart_pending (snd (uart_pop q))" if "uart_pending q \<noteq> []"
  proof -
    have "uart_tx_r q \<noteq> uart_tx_w q" using that uart_empty by blast
    then show ?thesis using q ring_pop(1) [OF uart_size(1), of "uart_tx_r q" "uart_tx_w q"]
        ring_pop(2) [OF uart_size(1), of "uart_tx_r q" "uart_tx_w q" "uart_tx_buf q"]
      by (simp add: uart_valid_def uart_pending_def uart_pop_def)
  qed
qed

section \<open>The driver\<close>

text \<open>What the driver may change besides the chip and the ring: processes that wait for room become runnable.\<close>

definition uart_frame :: "'a uartst_scheme \<Rightarrow> 'a uartst_scheme \<Rightarrow> bool" where
  "uart_frame s t \<longleftrightarrow> (\<exists>b w r l i ps. t = s\<lparr>uart_tx_buf := b, uart_tx_w := w, uart_tx_r := r, uart_log := l, tx_idle := i, proc := ps\<rparr>)"

lemma uart_frameI: "t = s\<lparr>uart_tx_buf := b, uart_tx_w := w, uart_tx_r := r, uart_log := l, tx_idle := i, proc := ps\<rparr> \<Longrightarrow> uart_frame s t"
  unfolding uart_frame_def by blast

lemma uart_frame_trans: "uart_frame s t \<Longrightarrow> uart_frame t u \<Longrightarrow> uart_frame s u"
proof -
  assume "uart_frame s t" "uart_frame t u"
  then obtain b w r l i ps b' w' r' l' i' ps' where
    "t = s\<lparr>uart_tx_buf := b, uart_tx_w := w, uart_tx_r := r, uart_log := l, tx_idle := i, proc := ps\<rparr>"
    "u = t\<lparr>uart_tx_buf := b', uart_tx_w := w', uart_tx_r := r', uart_log := l', tx_idle := i', proc := ps'\<rparr>"
    unfolding uart_frame_def by blast
  then show ?thesis by (intro uart_frameI) simp
qed

lemma uart_frame_fields: "uart_frame s t \<Longrightarrow> held t = held s \<and> panicked t = panicked s"
  by (auto simp: uart_frame_def)

lemma uartstart_stream:
  assumes "no_proc_lock s" "uart_valid s"
  shows "\<exists>t. uartstart s = Ok t \<and> uart_frame s t \<and> uart_valid t \<and> uart_sent t @ uart_pending t = uart_sent s @ uart_pending s \<and>
    (uart_pending t = [] \<or> tx_idle s \<noteq> [])"
  using assms
proof (induction s rule: uartstart.induct)
  case (1 s)
  define i where "i = tl (tx_idle s)"
  have s: "uart_frame s (s\<lparr>tx_idle := j\<rparr>)" for j
    by (rule uart_frameI [where b = "uart_tx_buf s" and w = "uart_tx_w s" and r = "uart_tx_r s" and l = "uart_log s" and i = j and ps = "proc s"]) simp
  have r: "read_lsr s = (fst (read_lsr s), s\<lparr>tx_idle := i\<rparr>)" by (simp add: read_lsr_def i_def)
  consider "uart_tx_w s = uart_tx_r s" | "uart_tx_w s \<noteq> uart_tx_r s" "fst (read_lsr s) AND LSR_TX_IDLE = 0" |
    "uart_tx_w s \<noteq> uart_tx_r s" "fst (read_lsr s) AND LSR_TX_IDLE \<noteq> 0" by blast
  then show ?case
  proof cases
    case 1
    then show ?thesis using "1.prems" s [of "tx_idle s"] by (subst uartstart.simps) (simp add: uart_empty)
  next
    case 2
    have "uartstart s = Ok (s\<lparr>tx_idle := i\<rparr>)"
      using 2 by (subst uartstart.simps) (subst r, simp)
    then show ?thesis using 2(2) "1.prems" s by (auto simp: lsr_busy uart_valid_def uart_sent_def uart_pending_def)
  next
    case 3
    let ?c = "fst (uart_pop s)" let ?u = "s\<lparr>tx_idle := i, uart_tx_r := uart_tx_r s + 1\<rparr>"
    define v where "v = WriteReg THR ?c (woken Chan_uart_tx_r ?u)"
    have w: "wakeup Chan_uart_tx_r ?u = Ok (woken Chan_uart_tx_r ?u)"
      using "1.prems"(1) by (intro wakeup_Ok) (simp add: no_proc_lock_def)
    have one: "uartstart s = uartstart v"
      using 3 w by (subst uartstart.simps) (subst r, simp add: v_def uart_pop_def)
    have ne: "uart_pending s \<noteq> []" using 3(1) uart_empty [of s] by auto
    have v: "uart_sent v = uart_sent s @ [?c]" "uart_pending v = uart_pending (snd (uart_pop s))"
      "uart_valid v \<longleftrightarrow> uart_valid (snd (uart_pop s))" "no_proc_lock v" "tx_idle v = i"
      using "1.prems"(1)
      by (simp_all add: v_def WriteReg_def woken_def uart_sent_def uart_pending_def uart_valid_def uart_pop_def no_proc_lock_def)
    have f: "uart_frame s v"
      by (intro uart_frameI [where b = "uart_tx_buf s" and w = "uart_tx_w s" and r = "uart_tx_r v" and l = "uart_log v" and i = i and ps = "proc v"])
         (simp add: v_def WriteReg_def woken_def)
    have "\<exists>t. uartstart v = Ok t \<and> uart_frame v t \<and> uart_valid t \<and> uart_sent t @ uart_pending t = uart_sent v @ uart_pending v \<and>
      (uart_pending t = [] \<or> tx_idle v \<noteq> [])"
      using "1.IH" [OF 3(1) refl r [symmetric] 3(2) refl refl] w "1.prems"(2) v(3,4) ut.pop_law [OF "1.prems"(2) ne]
      by (simp add: v_def uart_pop_def)
    then show ?thesis using uart_frame_trans [OF f] ut.pop_law [OF "1.prems"(2) ne] unfolding one v
      by (auto simp: i_def)
  qed
qed

text \<open>
  C27: \<^verbatim>\<open>uartputc\<close> with room in the ring returns and appends its byte to the output stream, the bytes sent to the
  transmitter followed by those still in the ring: none is lost, doubled or reordered, also when the
  64-bit counters wrap around. If the transmitter stays idle, nothing is left in the ring.
\<close>

theorem uartputc_stream:
  assumes "no_proc_lock s" "L_uart_tx \<notin> set (held s)" "\<not> panicked s" "uart_valid s" "length (uart_pending s) < UART_TX_BUF_SIZE"
  shows "\<exists>t. uartputc c env s = Ok (env, t) \<and> uart_frame s t \<and> uart_valid t \<and>
    uart_sent t @ uart_pending t = uart_sent s @ uart_pending s @ [c] \<and> (uart_pending t = [] \<or> tx_idle s \<noteq> [])"
proof -
  let ?s = "s\<lparr>held := L_uart_tx # held s\<rparr>"
  let ?body = "\<lambda>s. if uart_tx_w s = uart_tx_r s + of_nat UART_TX_BUF_SIZE then Ok (None, s)
    else let s = s\<lparr>uart_tx_buf := (uart_tx_buf s)(unat (uart_tx_w s) mod UART_TX_BUF_SIZE := c)\<rparr>;
             s = s\<lparr>uart_tx_w := uart_tx_w s + 1\<rparr> in
         rbind (uartstart s) (\<lambda>s. rbind (release L_uart_tx s) (\<lambda>s. Ok (Some (), s)))"
  have nf: "\<not> uart_tx_w ?s = uart_tx_r ?s + of_nat UART_TX_BUF_SIZE"
    using assms(5) uart_full [of s] by simp
  have q: "uart_valid (uart_push c ?s)" "uart_pending (uart_push c ?s) = uart_pending s @ [c]" "uart_sent (uart_push c ?s) = uart_sent s"
    using ut.push_law [OF assms(4,5), of c] by (simp_all add: uart_push_def uart_valid_def uart_pending_def uart_sent_def)
  have "no_proc_lock (uart_push c ?s)" using assms(1) by (simp add: no_proc_lock_def uart_push_def)
  from uartstart_stream [OF this q(1)] obtain t where t: "uartstart (uart_push c ?s) = Ok t" "uart_frame (uart_push c ?s) t"
    "uart_valid t" "uart_sent t @ uart_pending t = uart_sent s @ uart_pending s @ [c]" "uart_pending t = [] \<or> tx_idle s \<noteq> []"
    unfolding q by (auto simp: uart_push_def)
  obtain b w r l i ps where "t = (uart_push c ?s)\<lparr>uart_tx_buf := b, uart_tx_w := w, uart_tx_r := r, uart_log := l, tx_idle := i, proc := ps\<rparr>"
    using t(2) unfolding uart_frame_def by blast
  then have "t\<lparr>held := held s\<rparr> = s\<lparr>uart_tx_buf := b, uart_tx_w := w, uart_tx_r := r, uart_log := l, tx_idle := i, proc := ps\<rparr>"
    by (simp add: uart_push_def)
  then have f: "uart_frame s (t\<lparr>held := held s\<rparr>)" by (rule uart_frameI)
  have "held t = L_uart_tx # held s" using uart_frame_fields [OF t(2)] by (simp add: uart_push_def)
  then have "?body ?s = Ok (Some (), t\<lparr>held := held s\<rparr>)"
    using nf t(1) by (simp add: uart_push_def)
  from sleep_loop_now [where body = ?body, OF this, of Chan_uart_tx_r L_uart_tx env]
  have "uartputc c env s = Ok (env, t\<lparr>held := held s\<rparr>)"
    using assms(2,3) by (simp only: uartputc_def acquire_free rbind.simps lockst.simps) simp
  then show ?thesis using f t(3-5) by (auto simp: uart_valid_def uart_pending_def uart_sent_def)
qed

theorem uartputc_stream_witness:
  "\<exists>(s :: uartst) t. uart_sent s = [] \<and> uart_pending s = [] \<and> uartputc 65 [] s = Ok ([], t) \<and> uart_sent t = [65] \<and> uart_pending t = []"
proof -
  define s where "s = (undefined :: uartst)\<lparr>held := [], panicked := False, uart_tx_r := -1, uart_tx_w := -1, uart_log := [], tx_idle := []\<rparr>"
  have s: "no_proc_lock s" "L_uart_tx \<notin> set (held s)" "\<not> panicked s" "uart_valid s" "length (uart_pending s) < UART_TX_BUF_SIZE"
    "uart_sent s = []" "uart_pending s = []" "tx_idle s = []"
    by (simp_all add: s_def no_proc_lock_def uart_valid_def uart_pending_def ring_items_def uart_sent_def UART_TX_BUF_SIZE_def)
  from uartputc_stream [OF s(1-5), of 65 "[]"] show ?thesis using s(6-8) by auto
qed

end
