(* ===== verification/Console_Line.thy ===== *)
theory Console_Line
  imports Uart_Fifo
begin

text \<open>
  The line discipline of the console. The abstract console is the input that readers may take and the line that
  is being edited; \<open>key\<close> says what a key does to it, and \<^verbatim>\<open>consoleintr\<close> does the same to the ring of 128 bytes
  and its three counters.
\<close>

section \<open>Editing at the end of a ring\<close>

lemma ring_append:
  assumes "N dvd 2 ^ LENGTH('w::len)" "unat (w - r :: 'w word) + unat (e - w) = unat (e - r)"
  shows "ring_items N b r w @ ring_items N b w e = ring_items N b r e"
proof -
  have w: "(unat w + k) mod N = (unat r + (unat (w - r) + k)) mod N" for k
    using counter_mod [OF assms(1), of r "unat (w - r) + k"] counter_mod [OF assms(1), of w k] by (simp add: add.assoc [symmetric])
  have "[0..<a + b] = [0..<a] @ map (\<lambda>k. a + k) [0..<b]" for a b :: nat by (induction b) auto
  then show ?thesis unfolding ring_items_def assms(2) [symmetric] by (simp add: w)
qed

lemma ring_keep:
  assumes "N dvd 2 ^ LENGTH('w::len)" "unat (w - r :: 'w word) \<le> unat (e - r)" "unat (e - r) < N" "N < 2 ^ LENGTH('w)"
  shows "ring_items N (b(unat e mod N := x)) r w = ring_items N b r w"
proof -
  have "take (unat (w - r)) (ring_items N (b(unat e mod N := x)) r (e + 1)) = take (unat (w - r)) (ring_items N b r e)"
    using ring_push(2) [OF assms(1,3,4), of b x] assms(2) by simp
  then show ?thesis using ring_push(1) [OF assms(1,3,4)] assms(2) by (simp add: ring_items_def take_map min_def)
qed

lemma ring_butlast:
  assumes "e \<noteq> (w :: 'w::len word)"
  shows "unat (e - 1 - w) = unat (e - w) - 1" "ring_items N b w (e - 1) = butlast (ring_items N b w e)"
proof -
  have "e - 1 - w = (e - w) - 1" "e - w \<noteq> 0" using assms by auto
  then show l: "unat (e - 1 - w) = unat (e - w) - 1" using unat_minus_one [of "e - w"] by metis
  show "ring_items N b w (e - 1) = butlast (ring_items N b w e)"
    unfolding ring_items_def l by (cases "unat (e - w)") (simp_all add: map_butlast [symmetric])
qed

section \<open>The abstract console\<close>

definition typed :: "int \<Rightarrow> byte list \<times> byte list \<Rightarrow> byte list \<times> byte list" where
  "typed c = (\<lambda>(input, line).
     let c = (if c = 13 then 10 else c) in
     if c = 10 \<or> c = 4 \<or> length input + length line = 127 then (input @ line @ [of_int c], []) else (input, line @ [of_int c]))"

definition key :: "int \<Rightarrow> byte list \<times> byte list \<Rightarrow> byte list \<times> byte list" where
  "key c = (\<lambda>(input, line).
     if c = 16 then (input, line)
     else if c = 21 then (input, [])
     else if c = 8 \<or> c = 127 then (input, butlast line)
     else if c \<noteq> 0 \<and> length input + length line < 128 then
       typed c (input, line)
     else (input, line))"

definition cons_line :: "'a consst_scheme \<Rightarrow> byte list \<times> byte list" where
  "cons_line s = (ring_items INPUT_BUF (cons_buf s) (cons_r s) (cons_w s), ring_items INPUT_BUF (cons_buf s) (cons_w s) (cons_e s))"

definition cons_valid :: "'a consst_scheme \<Rightarrow> bool" where
  "cons_valid s \<longleftrightarrow> unat (cons_e s - cons_r s) \<le> INPUT_BUF \<and>
     unat (cons_w s - cons_r s) + unat (cons_e s - cons_w s) = unat (cons_e s - cons_r s) \<and> 10 \<notin> set (snd (cons_line s))"

lemma cons_size: "INPUT_BUF dvd 2 ^ LENGTH(32)" "INPUT_BUF < 2 ^ LENGTH(32)"
  by (simp_all add: INPUT_BUF_def)

lemma cons_lengths: "length (fst (cons_line s)) = unat (cons_w s - cons_r s)" "length (snd (cons_line s)) = unat (cons_e s - cons_w s)"
  by (simp_all add: cons_line_def)

section \<open>Output does not stop\<close>

text \<open>A piece of output code that returns, and has only written to the UART.\<close>

definition prints :: "('a uartst_scheme \<Rightarrow> 'a uartst_scheme outcome) \<Rightarrow> bool" where
  "prints f \<longleftrightarrow> (\<forall>s. \<not> panicked s \<longrightarrow> (\<exists>t. f s = Ok t \<and> printed s t))"

lemma printed_panicked: "printed s t \<Longrightarrow> panicked t = panicked s"
  by (auto simp: printed_def)

lemma prints_bind: "prints f \<Longrightarrow> prints g \<Longrightarrow> prints (\<lambda>s. rbind (f s) g)"
  unfolding prints_def by (metis printed_panicked printed_trans rbind.simps(1))

lemma prints_Ok: "prints Ok"
  by (auto simp: prints_def)

lemma uartputc_sync_prints: "prints (uartputc_sync c)"
  unfolding prints_def
proof (intro allI impI)
  fix s :: "'a uartst_scheme" assume s: "\<not> panicked s"
  have "uartputc_sync c s = Ok (WriteReg THR (of_int c) (wait_tx_idle s))" using s by (simp add: uartputc_sync_def)
  then show "\<exists>t. uartputc_sync c s = Ok t \<and> printed s t" using uartputc_sync_printed by blast
qed

lemma consputc_prints: "prints (consputc c :: 'a uartst_scheme \<Rightarrow> 'a uartst_scheme outcome)"
proof -
  have "(consputc c :: 'a uartst_scheme \<Rightarrow> 'a uartst_scheme outcome) = (\<lambda>s. rbind (uartputc_sync 8 s) (\<lambda>s. rbind (uartputc_sync 32 s) (uartputc_sync 8)))" if "c = BACKSPACE"
    using that by (simp add: consputc_def fun_eq_iff)
  moreover have "(consputc c :: 'a uartst_scheme \<Rightarrow> 'a uartst_scheme outcome) = uartputc_sync c" if "c \<noteq> BACKSPACE" using that by (simp add: consputc_def fun_eq_iff)
  moreover have "prints (\<lambda>s :: 'a uartst_scheme. rbind (uartputc_sync 8 s) (\<lambda>s. rbind (uartputc_sync 32 s) (uartputc_sync 8)))"
    by (intro prints_bind uartputc_sync_prints)
  ultimately show ?thesis using uartputc_sync_prints by (cases "c = BACKSPACE") simp_all
qed

lemma consputs_prints: "prints (consputs cs :: 'a uartst_scheme \<Rightarrow> 'a uartst_scheme outcome)"
proof (induction cs)
  case (Cons c cs)
  have "(consputs (c # cs) :: 'a uartst_scheme \<Rightarrow> 'a uartst_scheme outcome) = (\<lambda>s. rbind (consputc (uint c) s) (consputs cs))" by (simp add: fun_eq_iff)
  then show ?case using prints_bind [OF consputc_prints Cons] by simp
next
  case Nil
  then show ?case using prints_Ok by (simp add: prints_def)
qed

text \<open>The arguments fit the conversions of the format.\<close>

fun va_fits :: "byte list \<Rightarrow> va list \<Rightarrow> bool" where
  "va_fits [] ap = True"
| "va_fits [c] ap = True"
| "va_fits (c # d # fmt) ap =
     (if c \<noteq> 37 then va_fits (d # fmt) ap
      else if d = 100 \<or> d = 120 then (case ap of V_int x # ap \<Rightarrow> va_fits fmt ap | _ \<Rightarrow> False)
      else if d = 112 then (case ap of V_ptr x # ap \<Rightarrow> va_fits fmt ap | _ \<Rightarrow> False)
      else if d = 115 then (case ap of V_str x # ap \<Rightarrow> va_fits fmt ap | _ \<Rightarrow> False)
      else va_fits fmt ap)"

lemma printptr_prints: "prints (printptr x)"
  unfolding printptr_def [abs_def] by (intro prints_bind consputc_prints consputs_prints)

lemma printf_conv_prints:
  assumes "va_fits (37 # d # fmt) ap"
  shows "\<exists>f ap'. prints f \<and> va_fits fmt ap' \<and> (\<forall>s :: 'a uartst_scheme. printf_conv d ap s = rbind (f s) (\<lambda>s. Ok (ap', s)))"
proof -
  consider x ap' where "d = 100" "ap = V_int x # ap'" | x ap' where "d = 120" "ap = V_int x # ap'" |
    x ap' where "d = 112" "ap = V_ptr x # ap'" | x ap' where "d = 115" "ap = V_str x # ap'" |
    "d \<notin> {100, 120, 112, 115}"
    using assms by (cases "d \<in> {100, 120, 112, 115}") (auto split: list.splits va.splits)
  then show ?thesis
  proof cases
    case (1 x ap')
    then show ?thesis using assms consputs_prints [of "int_bytes x 10 True"] by (auto simp: printint_def [abs_def])
  next
    case (2 x ap')
    then show ?thesis using assms consputs_prints [of "int_bytes x 16 True"] by (auto simp: printint_def [abs_def])
  next
    case (3 x ap')
    then show ?thesis using assms printptr_prints [of x] by auto
  next
    case (4 x ap')
    then show ?thesis using assms consputs_prints by auto
  next
    case 5
    then have v: "va_fits fmt ap" using assms by auto
    show ?thesis
    proof (cases "d = 37")
      case True
      then show ?thesis using v consputc_prints [of 37] by auto
    next
      case False
      then have "printf_conv d ap s = rbind (rbind (consputc 37 s) (consputc (uint d))) (\<lambda>s. Ok (ap, s))" for s :: "'a uartst_scheme"
        using 5 by (simp add: rbind_assoc)
      then show ?thesis using v prints_bind [OF consputc_prints consputc_prints] by blast
    qed
  qed
qed

lemma printf_loop_prints: "va_fits fmt ap \<Longrightarrow> prints (printf_loop fmt ap :: 'a uartst_scheme \<Rightarrow> 'a uartst_scheme outcome)"
proof (induction "length fmt" arbitrary: fmt ap rule: less_induct)
  case less
  consider "fmt = []" | c where "fmt = [c]" | c d r where "fmt = c # d # r" by (metis list.exhaust)
  then show ?case
  proof cases
    case 1
    then show ?thesis using prints_Ok by (simp add: prints_def)
  next
    case (2 c)
    then show ?thesis using prints_Ok consputc_prints [of "uint c"] by (cases "c = 37") (simp_all add: prints_def)
  next
    case (3 c d r)
    show ?thesis
    proof (cases "c = 37")
      case True
      obtain f ap' where f: "prints f" "va_fits r ap'" "\<forall>s :: 'a uartst_scheme. printf_conv d ap s = rbind (f s) (\<lambda>s. Ok (ap', s))"
        using printf_conv_prints [of d r ap] less.prems 3 True by blast
      then have "printf_loop fmt ap = (\<lambda>s. rbind (f s) (printf_loop r ap'))"
        using 3 True by (simp add: fun_eq_iff rbind_assoc del: printf_conv.simps)
      moreover have "prints (printf_loop r ap' :: 'a uartst_scheme \<Rightarrow> 'a uartst_scheme outcome)" using less.hyps [OF _ f(2)] 3 by simp
      ultimately show ?thesis using prints_bind [OF f(1)] by simp
    next
      case False
      have "(printf_loop fmt ap :: 'a uartst_scheme \<Rightarrow> 'a uartst_scheme outcome) = (\<lambda>s. rbind (consputc (uint c) s) (printf_loop (d # r) ap))"
        using False 3 by (simp add: fun_eq_iff)
      moreover have "prints (printf_loop (d # r) ap :: 'a uartst_scheme \<Rightarrow> 'a uartst_scheme outcome)" using less 3 False by simp
      ultimately show ?thesis using prints_bind [OF consputc_prints] by simp
    qed
  qed
qed

lemma printf_returns:
  assumes "va_fits fmt ap" "\<not> panicked s" "L_pr \<notin> set (held s)"
  shows "\<exists>t. printf fmt ap s = Ok t \<and> printed s t"
proof (cases "pr_locking s")
  case True
  obtain u where u: "printf_loop fmt ap (s\<lparr>held := L_pr # held s\<rparr>) = Ok u" "printed (s\<lparr>held := L_pr # held s\<rparr>) u"
    using printf_loop_prints [OF assms(1), unfolded prints_def, rule_format, of "s\<lparr>held := L_pr # held s\<rparr>"] assms(2) by auto
  then have "held u = L_pr # held s" by (auto simp: printed_def)
  then have "printf fmt ap s = Ok (u\<lparr>held := held s\<rparr>)" using True u(1) assms(3) by (simp add: printf_def)
  then show ?thesis using printf_frame by blast
next
  case False
  obtain t where "printf_loop fmt ap s = Ok t" "printed s t"
    using printf_loop_prints [OF assms(1), unfolded prints_def, rule_format, OF assms(2)] by blast
  then show ?thesis using False by (simp add: printf_def)
qed

lemma printed_held: "printed s t \<Longrightarrow> held t = held s"
  by (auto simp: printed_def)

lemma procdump_loop_returns:
  "\<not> panicked s \<Longrightarrow> L_pr \<notin> set (held s) \<Longrightarrow> \<exists>t. procdump_loop i k s = Ok t"
proof (induction k arbitrary: i s)
  case (Suc k)
  let ?ap = "[V_int (of_int (p_pid (proc s i))), V_str (Some (bytes_of (state_name (p_state (proc s i))))),
           V_str (Some (name_bytes (p_name (proc s i))))]"
  have v: "va_fits (bytes_of ''%d %s %s'') ?ap" "va_fits [10] []" by (simp_all add: bytes_of_def)
  obtain t where t: "printf (bytes_of ''%d %s %s'') ?ap s = Ok t" "printed s t" using printf_returns [OF v(1) Suc.prems] by blast
  obtain u where u: "printf [10] [] t = Ok u" "printed t u"
    using printf_returns [OF v(2), of t] Suc.prems printed_held [OF t(2)] printed_panicked [OF t(2)] by auto
  show ?case using Suc.IH [of u "Suc i"] Suc.IH [of s "Suc i"] Suc.prems t(1) u(1) printed_held [OF t(2)] printed_panicked [OF t(2)]
      printed_held [OF u(2)] printed_panicked [OF u(2)] by simp
qed simp

lemma procdump_returns:
  assumes "\<not> panicked s" "L_pr \<notin> set (held s)"
  shows "\<exists>t. procdump s = Ok t \<and> printed s t"
proof -
  obtain t where t: "printf [10] [] s = Ok t" "printed s t" using printf_returns [OF _ assms, of "[10]" "[]"] by auto
  then obtain u where "procdump_loop 0 NPROC t = Ok u"
    using procdump_loop_returns [of t] assms printed_held [OF t(2)] printed_panicked [OF t(2)] by auto
  then have "procdump s = Ok u" using t(1) by (simp add: procdump_def)
  then show ?thesis using procdump_printed by blast
qed

section \<open>The interrupt handler\<close>

text \<open>Output on the console leaves the input alone.\<close>

lemma printed_cons:
  assumes "printed s t"
  shows "cons_line t = cons_line s" "cons_valid t = cons_valid s" "cons_e t = cons_e s" "cons_w t = cons_w s" "cons_r t = cons_r s"
    "cons_buf t = cons_buf s" "held t = held s" "panicked t = panicked s"
  using assms by (auto simp: printed_def cons_valid_def cons_line_def)

lemma erase_last:
  assumes "cons_valid s" "cons_e s \<noteq> cons_w s"
  shows "cons_valid (s\<lparr>cons_e := cons_e s - 1\<rparr>)"
    "cons_line (s\<lparr>cons_e := cons_e s - 1\<rparr>) = (fst (cons_line s), butlast (snd (cons_line s)))"
proof -
  have "cons_e s \<noteq> cons_r s"
  proof
    assume "cons_e s = cons_r s"
    then have "unat (cons_e s - cons_w s) = 0" using assms(1) by (simp add: cons_valid_def)
    then show False using assms(2) by (simp add: unat_eq_zero)
  qed
  moreover show l: "cons_line (s\<lparr>cons_e := cons_e s - 1\<rparr>) = (fst (cons_line s), butlast (snd (cons_line s)))"
    using ring_butlast(2) [OF assms(2)] by (simp add: cons_line_def)
  moreover have "0 < unat (cons_e s - cons_w s)" using assms(2) by (simp add: unat_gt_0)
  ultimately show "cons_valid (s\<lparr>cons_e := cons_e s - 1\<rparr>)"
    using assms ring_butlast(1) [of "cons_e s"] unfolding cons_valid_def l by (auto dest: in_set_butlastD)
qed

lemma kill_line_clears:
  assumes "cons_valid s" "\<not> panicked s"
  shows "\<exists>t. kill_line s = Ok t \<and> held t = held s \<and> cons_valid t \<and> cons_line t = (fst (cons_line s), [])"
  using assms
proof (induction s rule: kill_line.induct)
  case (1 s)
  show ?case
  proof (cases "cons_e s = cons_w s")
    case True
    then have "kill_line s = Ok s" by (subst kill_line.simps) simp
    then show ?thesis using "1.prems" True by (auto simp: cons_line_def ring_items_def)
  next
    case False
    have "snd (cons_line s) \<noteq> []" "last (snd (cons_line s)) = cons_buf s (unat (cons_e s - 1) mod INPUT_BUF)"
    proof -
      have l: "unat (cons_e s - cons_w s) = Suc (unat (cons_e s - 1 - cons_w s))"
        using ring_butlast(1) [OF False] False by (simp add: unat_gt_0 unat_eq_zero)
      then show "snd (cons_line s) \<noteq> []" by (simp add: cons_line_def ring_items_def)
      show "last (snd (cons_line s)) = cons_buf s (unat (cons_e s - 1) mod INPUT_BUF)"
        using counter_mod [OF cons_size(1), of "cons_w s" "unat (cons_e s - 1 - cons_w s)"]
        by (simp add: cons_line_def ring_items_def l)
    qed
    then have nl: "cons_buf s (unat (cons_e s - 1) mod INPUT_BUF) \<noteq> 10"
      using "1.prems"(1) last_in_set [of "snd (cons_line s)"] by (auto simp: cons_valid_def)
    let ?s = "s\<lparr>cons_e := cons_e s - 1\<rparr>"
    note er = erase_last [OF "1.prems"(1) False]
    obtain u where u: "consputc BACKSPACE ?s = Ok u" "printed ?s u"
      using consputc_prints [unfolded prints_def, rule_format, of ?s BACKSPACE] "1.prems"(2) by auto
    note pc = printed_cons [OF u(2)]
    obtain t where "kill_line u = Ok t" "held t = held u" "cons_valid t" "cons_line t = (fst (cons_line u), [])"
      using "1.IH" [OF conjI [OF False nl] u(1)] pc er(1) "1.prems"(2) by auto
    moreover from this have "kill_line s = Ok t" using False nl u(1) by (subst kill_line.simps) simp
    ultimately show ?thesis using pc er(2) by simp
  qed
qed

lemma add_char:
  assumes "cons_valid s" "unat (cons_e s - cons_r s) < INPUT_BUF"
    and t_def: "t = s\<lparr>cons_buf := (cons_buf s)(unat (cons_e s) mod INPUT_BUF := b), cons_e := cons_e s + 1\<rparr>"
  shows "cons_line t = (fst (cons_line s), snd (cons_line s) @ [b])"
    "unat (cons_e t - cons_r t) = Suc (unat (cons_e s - cons_r s))" "unat (cons_e t - cons_w t) = Suc (unat (cons_e s - cons_w s))"
proof -
  have le: "unat (cons_w s - cons_r s) \<le> unat (cons_e s - cons_r s)" "unat (cons_e s - cons_w s) < INPUT_BUF"
    using assms(1,2) by (auto simp: cons_valid_def)
  show "cons_line t = (fst (cons_line s), snd (cons_line s) @ [b])"
    using ring_keep [OF cons_size(1) le(1) assms(2) cons_size(2), of "cons_buf s" b]
      ring_push(2) [OF cons_size(1) le(2) cons_size(2), of "cons_buf s" b] by (simp add: cons_line_def t_def)
  show "unat (cons_e t - cons_r t) = Suc (unat (cons_e s - cons_r s))" "unat (cons_e t - cons_w t) = Suc (unat (cons_e s - cons_w s))"
    using ring_push(1) [OF cons_size(1) assms(2) cons_size(2)] ring_push(1) [OF cons_size(1) le(2) cons_size(2)] by (simp_all add: t_def)
qed

lemma ctrl_keys: "uint (ctrl CHR ''P'') = 16" "uint (ctrl CHR ''U'') = 21" "uint (ctrl CHR ''H'') = 8" "uint (ctrl CHR ''D'') = 4"
  by (simp_all add: ctrl_def)

text \<open>What the handler does with the lock held, for a key that is stored.\<close>

definition store_key :: "int \<Rightarrow> 'a consst_scheme \<Rightarrow> 'a consst_scheme outcome" where
  "store_key c s =
     (let c = (if c = 13 then 10 else c) in
      rbind (consputc c s) (\<lambda>s.
      let s = s\<lparr>cons_buf := (cons_buf s)(unat (cons_e s) mod INPUT_BUF := of_int c)\<rparr>;
          s = s\<lparr>cons_e := cons_e s + 1\<rparr> in
      if c = 10 \<or> c = uint (ctrl CHR ''D'') \<or> cons_e s = cons_r s + of_nat INPUT_BUF then
        wakeup Chan_cons_r (s\<lparr>cons_w := cons_e s\<rparr>)
      else Ok s))"

lemma store_key_line:
  assumes "cons_valid s" "unat (cons_e s - cons_r s) < INPUT_BUF" "no_proc_lock s" "\<not> panicked s" "0 \<le> c" "c < 256"
  shows "\<exists>t. store_key c s = Ok t \<and> held t = held s \<and> cons_valid t \<and> cons_line t = typed c (cons_line s)"
proof -
  define d where "d = (if c = 13 then 10 else c)"
  obtain u where u: "consputc d s = Ok u" "printed s u"
    using consputc_prints [unfolded prints_def, rule_format, of s d] assms(4) by auto
  note pc = printed_cons [OF u(2)]
  have uv: "cons_valid u" "unat (cons_e u - cons_r u) < INPUT_BUF" using assms(1,2) pc by simp_all
  define v where "v = u\<lparr>cons_buf := (cons_buf u)(unat (cons_e u) mod INPUT_BUF := of_int d), cons_e := cons_e u + 1\<rparr>"
  note ac = add_char [OF uv v_def]
  have ve: "cons_e v = cons_e u + 1" "cons_r v = cons_r u" by (simp_all add: v_def)
  have vf: "cons_w v = cons_w u" "cons_r v = cons_r u" "held v = held s" using pc by (simp_all add: v_def)
  have len: "unat (cons_e u - cons_r u) = length (fst (cons_line s)) + length (snd (cons_line s))"
    using uv(1) pc by (simp add: cons_valid_def cons_lengths)
  let ?commit = "d = 10 \<or> d = 4 \<or> length (fst (cons_line s)) + length (snd (cons_line s)) = 127"
  have full: "cons_e v = cons_r v + of_nat INPUT_BUF \<longleftrightarrow> length (fst (cons_line s)) + length (snd (cons_line s)) = 127"
    unfolding ring_full [OF cons_size(2)] ac(2) len by (simp add: INPUT_BUF_def)
  have one: "store_key c s = (if ?commit then wakeup Chan_cons_r (v\<lparr>cons_w := cons_e v\<rparr>) else Ok v)"
    using u(1) full ve unfolding store_key_def d_def [symmetric] by (simp add: v_def [symmetric] ctrl_keys)
  show ?thesis
  proof (cases ?commit)
    case True
    let ?w = "v\<lparr>cons_w := cons_e v\<rparr>"
    have "no_proc_lock ?w" using assms(3) vf by (simp add: no_proc_lock_def)
    then have r: "store_key c s = Ok (woken Chan_cons_r ?w)" using one True wakeup_Ok by simp
    have a: "unat (cons_w v - cons_r v) + unat (cons_e v - cons_w v) = unat (cons_e v - cons_r v)"
      using uv(1) ac(2,3) vf by (simp add: cons_valid_def)
    have l: "cons_line (woken Chan_cons_r ?w) = (fst (cons_line s) @ snd (cons_line s) @ [of_int d], [])"
      using ring_append [OF cons_size(1) a, of "cons_buf v"] ac(1) pc(1)
      by (simp add: cons_line_def woken_def) (simp add: ring_items_def)
    have "unat (cons_e v - cons_r v) \<le> INPUT_BUF" using uv(2) ac(2) by simp
    then have "cons_valid (woken Chan_cons_r ?w)" unfolding cons_valid_def l by (simp add: woken_def)
    then show ?thesis using r l True vf by (simp add: typed_def split_def Let_def d_def [symmetric])
  next
    case False
    have "(of_int d :: byte) \<noteq> 10"
    proof
      assume "(of_int d :: byte) = 10"
      then have "uint (of_int d :: byte) = 10" by simp
      then show False using False assms(5,6) by (simp add: d_def uint_word_of_int split: if_splits)
    qed
    then have "10 \<notin> set (snd (cons_line v))" using uv(1) ac(1) by (simp add: cons_valid_def)
    then have "cons_valid v" using uv ac(2,3) vf unfolding cons_valid_def by simp
    then show ?thesis using one False ac(1) pc(1) vf by (simp add: typed_def split_def Let_def d_def [symmetric])
  qed
qed

text \<open>
  C9: \<^verbatim>\<open>consoleintr\<close> implements the line discipline: whatever key arrives, it returns with its locks released and
  the input ring stands for what the key makes of the lines it stood for. A key beyond the 128th
  unread byte is dropped, the 128th ends the line, and the invariant of the three counters is kept.
\<close>

theorem consoleintr_refines:
  assumes "cons_valid s" "no_proc_lock s" "L_cons \<notin> set (held s)" "L_pr \<notin> set (held s)" "\<not> panicked s" "0 \<le> c" "c < 256"
  shows "\<exists>t. consoleintr c s = Ok t \<and> held t = held s \<and> cons_valid t \<and> cons_line t = key c (cons_line s)"
proof -
  let ?s = "s\<lparr>held := L_cons # held s\<rparr>"
  have s: "cons_valid ?s" "no_proc_lock ?s" "\<not> panicked ?s" "L_pr \<notin> set (held ?s)" "cons_line ?s = cons_line s"
    using assms by (auto simp: cons_valid_def cons_line_def no_proc_lock_def)
  have fin: ?thesis if "consoleintr c s = rbind m (\<lambda>s. release L_cons s)" "\<exists>t. m = Ok t \<and> held t = held ?s \<and> cons_valid t \<and> cons_line t = key c (cons_line s)" for m
    using that by (auto simp: cons_valid_def cons_line_def)
  have lt: "cons_e s - cons_r s < of_nat INPUT_BUF \<longleftrightarrow> unat (cons_e s - cons_r s) < INPUT_BUF"
    by (simp add: word_less_nat_alt INPUT_BUF_def)
  have len: "unat (cons_e s - cons_r s) = length (fst (cons_line s)) + length (snd (cons_line s))"
    using assms(1) by (simp add: cons_valid_def cons_lengths)
  consider "c = 16" | "c = 21" | "c = 8 \<or> c = 127" "cons_e s = cons_w s" | "c = 8 \<or> c = 127" "cons_e s \<noteq> cons_w s" |
    "c \<notin> {16, 21, 8, 127}" "c \<noteq> 0" "unat (cons_e s - cons_r s) < INPUT_BUF" |
    "c \<notin> {16, 21, 8, 127}" "c = 0 \<or> \<not> unat (cons_e s - cons_r s) < INPUT_BUF" by blast
  then show ?thesis
  proof cases
    case 1
    obtain t where "procdump ?s = Ok t" "printed ?s t" using procdump_returns [OF s(3,4)] by blast
    then show ?thesis using 1 s assms(3) printed_cons [of ?s t]
      by (intro fin [of "procdump ?s"]) (simp_all add: consoleintr_def ctrl_keys key_def split_def)
  next
    case 2
    then show ?thesis using s assms(3) kill_line_clears [OF s(1,3)]
      by (intro fin [of "kill_line ?s"]) (simp_all add: consoleintr_def ctrl_keys key_def split_def)
  next
    case 3
    then have "cons_line s = (fst (cons_line s), [])" by (simp add: cons_line_def ring_items_def)
    then show ?thesis using 3 s assms(3)
      by (intro fin [of "Ok ?s"]) (auto simp: consoleintr_def ctrl_keys key_def split: prod.split)
  next
    case 4
    let ?u = "?s\<lparr>cons_e := cons_e ?s - 1\<rparr>"
    obtain t where t: "consputc BACKSPACE ?u = Ok t" "printed ?u t"
      using consputc_prints [unfolded prints_def, rule_format, of ?u BACKSPACE] s(3) by auto
    then show ?thesis using 4 s assms(3) printed_cons [OF t(2)] erase_last [OF s(1)]
      by (intro fin [of "consputc BACKSPACE ?u"]) (auto simp: consoleintr_def ctrl_keys key_def split_def)
  next
    case 5
    have k: "key c (cons_line s) = typed c (cons_line ?s)" using 5 len s(5) by (auto simp: key_def INPUT_BUF_def split: prod.split)
    have "consoleintr c s = rbind (store_key c ?s) (\<lambda>s. release L_cons s)"
      using 5 assms(3) lt unfolding consoleintr_def store_key_def by (simp add: ctrl_keys)
    then show ?thesis by (rule fin) (use 5 s assms(6,7) k store_key_line [of ?s c] in simp)
  next
    case 6
    then show ?thesis using s assms(3) lt len
      by (intro fin [of "Ok ?s"]) (auto simp: consoleintr_def ctrl_keys key_def split_def INPUT_BUF_def)
  qed
qed

theorem consoleintr_refines_witness:
  "\<exists>(s :: consst) t. cons_line s = ([], [104, 105]) \<and> consoleintr 13 s = Ok t \<and> cons_line t = ([104, 105, 10], [])"
proof -
  define s where "s = (undefined :: consst)\<lparr>held := [], panicked := False, cons_r := 0xFFFFFFFF, cons_w := 0xFFFFFFFF, cons_e := 1,
    cons_buf := (\<lambda>k. if k = 127 then 104 else 105)\<rparr>"
  have l: "cons_line s = ([], [104, 105])"
  proof -
    have "ring_items 128 b (0xFFFFFFFF :: u32) 1 = [b 127, b 0]" for b :: "nat \<Rightarrow> byte"
      using ring_pop(2) [of 128 "0xFFFFFFFF :: u32" 1 b] ring_pop(2) [of 128 "0 :: u32" 1 b]
      by simp (simp add: ring_items_def)
    then show ?thesis by (simp add: s_def cons_line_def INPUT_BUF_def) (simp add: ring_items_def)
  qed
  have s: "cons_valid s" "no_proc_lock s" "L_cons \<notin> set (held s)" "L_pr \<notin> set (held s)" "\<not> panicked s"
    unfolding cons_valid_def l by (simp_all add: s_def no_proc_lock_def INPUT_BUF_def)
  have "(0 :: int) \<le> 13" "(13 :: int) < 256" by simp_all
  from consoleintr_refines [OF s this] show ?thesis using l by (auto simp: key_def typed_def)
qed

end
