(* ===== verification/Mbuf.thy ===== *)
theory Mbuf
  imports Console
begin

text \<open>
  Packet buffers and their queues, byte order and the Internet checksum: \<^verbatim>\<open>kernel/net.h\<close> and the
  first half of \<^verbatim>\<open>kernel/net.c\<close>, with the data of \<^verbatim>\<open>kernel/sysnet.c\<close> and \<^verbatim>\<open>kernel/e1000.c\<close>. An mbuf or
  socket lives at the address that \<^verbatim>\<open>kalloc\<close> gave; the position \<^verbatim>\<open>head\<close> in an mbuf is the index from
  \<^verbatim>\<open>buf\<close> on, which may run past \<^verbatim>\<open>MBUF_SIZE\<close> into the rest of the page.
\<close>

section \<open>State\<close>

definition MBUF_SIZE :: nat where "MBUF_SIZE = 2048"
definition MBUF_DEFAULT_HEADROOM :: u32 where "MBUF_DEFAULT_HEADROOM = 128"

record mbuf =
  m_next :: u64
  m_head :: nat
  m_len :: u32
  m_buf :: cstr

record mbufq =
  q_head :: u64
  q_tail :: u64

record sock =
  so_next :: u64
  so_raddr :: u32
  so_lport :: u16
  so_rport :: u16
  so_rxq :: mbufq

record tx_desc =
  txd_addr :: u64
  txd_length :: u16
  txd_cso :: byte
  txd_cmd :: byte
  txd_status :: byte
  txd_css :: byte
  txd_special :: u16

record rx_desc =
  rxd_addr :: u64
  rxd_length :: u16
  rxd_csum :: u16
  rxd_status :: byte
  rxd_errors :: byte
  rxd_special :: u16

definition TX_RING_SIZE :: nat where "TX_RING_SIZE = 16"
definition RX_RING_SIZE :: nat where "RX_RING_SIZE = 16"

record netst = consst +
  mbufs :: "u64 \<Rightarrow> mbuf"
  socks :: "u64 \<Rightarrow> sock"
  sockets :: u64
  tx_ring :: "nat \<Rightarrow> tx_desc"
  tx_mbufs :: "nat \<Rightarrow> u64"
  rx_ring :: "nat \<Rightarrow> rx_desc"
  rx_mbufs :: "nat \<Rightarrow> u64"
  regs :: "nat \<Rightarrow> u32"

definition upd_mbuf :: "u64 \<Rightarrow> (mbuf \<Rightarrow> mbuf) \<Rightarrow> 'a netst_scheme \<Rightarrow> 'a netst_scheme" where
  "upd_mbuf m f s = s\<lparr>mbufs := (mbufs s)(m := f (mbufs s m))\<rparr>"

definition upd_sock :: "u64 \<Rightarrow> (sock \<Rightarrow> sock) \<Rightarrow> 'a netst_scheme \<Rightarrow> 'a netst_scheme" where
  "upd_sock a f s = s\<lparr>socks := (socks s)(a := f (socks s a))\<rparr>"

section \<open>Packet buffers\<close>

definition mbufpull :: "u64 \<Rightarrow> u32 \<Rightarrow> 'a netst_scheme \<Rightarrow> nat option \<times> 'a netst_scheme" where
  "mbufpull m len s =
     (let tmp = m_head (mbufs s m) in
      if m_len (mbufs s m) < len then (None, s)
      else (Some tmp, upd_mbuf m (\<lambda>b. b\<lparr>m_len := m_len b - len, m_head := m_head b + unat len\<rparr>) s))"

definition mbufpush :: "u64 \<Rightarrow> u32 \<Rightarrow> 'a netst_scheme \<Rightarrow> (nat \<times> 'a netst_scheme) outcome" where
  "mbufpush m len s =
     (if m_head (mbufs s m) < unat len then Panic ''mbufpush''
      else
        (let s = upd_mbuf m (\<lambda>b. b\<lparr>m_head := m_head b - unat len, m_len := m_len b + len\<rparr>) s in
         Ok (m_head (mbufs s m), s)))"

definition mbufput :: "u64 \<Rightarrow> u32 \<Rightarrow> 'a netst_scheme \<Rightarrow> (nat \<times> 'a netst_scheme) outcome" where
  "mbufput m len s =
     (let tmp = m_head (mbufs s m) + unat (m_len (mbufs s m));
          s = upd_mbuf m (\<lambda>b. b\<lparr>m_len := m_len b + len\<rparr>) s in
      if unat (m_len (mbufs s m)) > MBUF_SIZE then Panic ''mbufput'' else Ok (tmp, s))"

definition mbuftrim :: "u64 \<Rightarrow> u32 \<Rightarrow> 'a netst_scheme \<Rightarrow> nat option \<times> 'a netst_scheme" where
  "mbuftrim m len s =
     (if len > m_len (mbufs s m) then (None, s)
      else
        (let s = upd_mbuf m (\<lambda>b. b\<lparr>m_len := m_len b - len\<rparr>) s in
         (Some (m_head (mbufs s m) + unat (m_len (mbufs s m))), s)))"

definition mbufalloc :: "u32 \<Rightarrow> 'a netst_scheme \<Rightarrow> (u64 \<times> 'a netst_scheme) outcome" where
  "mbufalloc headroom s =
     (if unat headroom > MBUF_SIZE then Ok (0, s)
      else
        rbind (kalloc s) (\<lambda>(m, s).
        if m = 0 then Ok (0, s)
        else
          Ok (m, upd_mbuf m (\<lambda>b. b\<lparr>m_next := 0, m_head := unat headroom, m_len := 0,
            m_buf := (\<lambda>i. if i < MBUF_SIZE then 0 else m_buf b i)\<rparr>) s)))"

text \<open>
  \<^verbatim>\<open>kfree(m)\<close> fills the page with ones and links it into the free list through its first eight bytes, the field
  \<^verbatim>\<open>next\<close>; this is what a later access through \<^verbatim>\<open>m\<close> would find. \<^verbatim>\<open>head\<close> is an offset into \<^verbatim>\<open>buf\<close>, which is at \<open>m + 20\<close>.
\<close>

definition freed_mbuf :: "u64 \<Rightarrow> u64 \<Rightarrow> mbuf" where
  "freed_mbuf fl m = \<lparr>m_next = fl, m_head = unat (0x0101010101010101 - (m + 20)), m_len = 0x01010101, m_buf = (\<lambda>_. 1)\<rparr>"

definition mbuffree :: "u64 \<Rightarrow> 'a netst_scheme \<Rightarrow> 'a netst_scheme outcome" where
  "mbuffree m s = rbind (kfree m s) (\<lambda>t. Ok (upd_mbuf m (\<lambda>_. freed_mbuf (freelist s) m) t))"

section \<open>Queues\<close>

definition mbufq_pushtail :: "mbufq \<Rightarrow> u64 \<Rightarrow> 'a netst_scheme \<Rightarrow> mbufq \<times> 'a netst_scheme" where
  "mbufq_pushtail q m s =
     (let s = upd_mbuf m (\<lambda>b. b\<lparr>m_next := 0\<rparr>) s in
      if q_head q = 0 then (q\<lparr>q_head := m, q_tail := m\<rparr>, s)
      else (q\<lparr>q_tail := m\<rparr>, upd_mbuf (q_tail q) (\<lambda>b. b\<lparr>m_next := m\<rparr>) s))"

definition mbufq_pophead :: "mbufq \<Rightarrow> 'a netst_scheme \<Rightarrow> u64 \<times> mbufq" where
  "mbufq_pophead q s =
     (let h = q_head q in
      if h = 0 then (0, q) else (h, q\<lparr>q_head := m_next (mbufs s h)\<rparr>))"

definition mbufq_empty :: "mbufq \<Rightarrow> bool" where
  "mbufq_empty q \<longleftrightarrow> q_head q = 0"

definition mbufq_init :: "mbufq \<Rightarrow> mbufq" where
  "mbufq_init q = q\<lparr>q_head := 0\<rparr>"

section \<open>Byte order\<close>

definition bswaps :: "u16 \<Rightarrow> u16" where
  "bswaps val = (push_bit 8 (val AND 0x00ff) OR drop_bit 8 (val AND 0xff00))"

definition bswapl :: "u32 \<Rightarrow> u32" where
  "bswapl val =
     (push_bit 24 (val AND 0x000000ff) OR push_bit 8 (val AND 0x0000ff00) OR
      drop_bit 8 (val AND 0x00ff0000) OR drop_bit 24 (val AND 0xff000000))"

abbreviation (input) ntohs :: "u16 \<Rightarrow> u16" where "ntohs \<equiv> bswaps"
abbreviation (input) htons :: "u16 \<Rightarrow> u16" where "htons \<equiv> bswaps"
abbreviation (input) ntohl :: "u32 \<Rightarrow> u32" where "ntohl \<equiv> bswapl"
abbreviation (input) htonl :: "u32 \<Rightarrow> u32" where "htonl \<equiv> bswapl"

definition MAKE_IP_ADDR :: "u32 \<Rightarrow> u32 \<Rightarrow> u32 \<Rightarrow> u32 \<Rightarrow> u32" where
  "MAKE_IP_ADDR a b c d = (push_bit 24 a OR push_bit 16 b OR push_bit 8 c OR d)"

section \<open>The Internet checksum\<close>

text \<open>The 16-bit words of an array from byte \<open>i\<close> on are added while more than one byte is left.\<close>

fun cksum_loop :: "cstr \<Rightarrow> nat \<Rightarrow> nat \<Rightarrow> u32 \<Rightarrow> u32" where
  "cksum_loop w i 0 acc = acc"
| "cksum_loop w i (Suc 0) acc = acc + ucast (w i)"
| "cksum_loop w i (Suc (Suc nleft)) acc = cksum_loop w (i + 2) nleft (acc + ucast (get_le 2 w i :: u16))"

definition in_cksum :: "cstr \<Rightarrow> nat \<Rightarrow> nat \<Rightarrow> u16" where
  "in_cksum addr i len =
     (let acc = cksum_loop addr i len 0;
          acc = (acc AND 0xffff) + drop_bit 16 acc;
          acc = acc + drop_bit 16 acc in
      ucast (NOT acc))"

end
