(* ===== verification/Net.thy ===== *)
theory Net
  imports Mbuf
begin

text \<open>
  Sending and receiving packets: \<^verbatim>\<open>e1000_transmit\<close> of \<^verbatim>\<open>kernel/e1000.c\<close>, the Ethernet, IP, UDP and ARP
  layers of \<^verbatim>\<open>kernel/net.c\<close>, and the delivery of a datagram to its socket in \<^verbatim>\<open>kernel/sysnet.c\<close>. A header
  is the bytes of the packet from a position on, with each field at its offset in the C struct.
\<close>

section \<open>Addresses and protocol numbers\<close>

definition ETHADDR_LEN :: nat where "ETHADDR_LEN = 6"
definition local_ip :: u32 where "local_ip = MAKE_IP_ADDR 10 0 2 15"
definition local_mac :: "byte list" where "local_mac = [0x52, 0x54, 0x00, 0x12, 0x34, 0x56]"
definition broadcast_mac :: "byte list" where "broadcast_mac = [0xFF, 0xFF, 0xFF, 0xFF, 0xFF, 0xFF]"
definition ETHTYPE_IP :: u16 where "ETHTYPE_IP = 0x0800"
definition ETHTYPE_ARP :: u16 where "ETHTYPE_ARP = 0x0806"
definition IPPROTO_UDP :: byte where "IPPROTO_UDP = 17"
definition ARP_HRD_ETHER :: u16 where "ARP_HRD_ETHER = 1"
definition ARP_OP_REQUEST :: u16 where "ARP_OP_REQUEST = 1"
definition ARP_OP_REPLY :: u16 where "ARP_OP_REPLY = 2"

definition sizeof_eth :: u32 where "sizeof_eth = 14"
definition sizeof_ip :: u32 where "sizeof_ip = 20"
definition sizeof_udp :: u32 where "sizeof_udp = 8"
definition sizeof_arp :: u32 where "sizeof_arp = 28"

definition put_array :: "cstr \<Rightarrow> nat \<Rightarrow> byte list \<Rightarrow> cstr" where
  "put_array b p xs = (\<lambda>i. if p \<le> i \<and> i < p + length xs then xs ! (i - p) else b i)"

definition get_array :: "cstr \<Rightarrow> nat \<Rightarrow> nat \<Rightarrow> byte list" where
  "get_array b p n = map (\<lambda>i. b (p + i)) [0..<n]"

section \<open>The transmit ring\<close>

definition E1000_TDT :: nat where "E1000_TDT = 0x03818 div 4"
definition E1000_TXD_CMD_EOP :: byte where "E1000_TXD_CMD_EOP = 0x01"
definition E1000_TXD_CMD_RS :: byte where "E1000_TXD_CMD_RS = 0x08"
definition E1000_TXD_STAT_DD :: byte where "E1000_TXD_STAT_DD = 0x01"

text \<open>The address of a position in an mbuf: \<^verbatim>\<open>buf\<close> is at offset 20 of the struct.\<close>

definition mbuf_addr :: "u64 \<Rightarrow> nat \<Rightarrow> u64" where
  "mbuf_addr m p = m + 20 + of_nat p"

definition e1000_transmit :: "u64 \<Rightarrow> 'a netst_scheme \<Rightarrow> (int \<times> 'a netst_scheme) outcome" where
  "e1000_transmit m s =
     rbind (acquire L_e1000 s) (\<lambda>s.
     let tail = unat (regs s E1000_TDT) in
     if txd_status (tx_ring s tail) AND E1000_TXD_STAT_DD = 0 then
       rbind (release L_e1000 s) (\<lambda>s. Ok (-1, s))
     else
       rbind (if tx_mbufs s tail \<noteq> 0
              then rbind (mbuffree (tx_mbufs s tail) s) (\<lambda>s. Ok (s\<lparr>tx_mbufs := (tx_mbufs s)(tail := 0)\<rparr>))
              else Ok s) (\<lambda>s.
       let d = tx_ring s tail;
           d = d\<lparr>txd_cmd := E1000_TXD_CMD_EOP OR E1000_TXD_CMD_RS,
                 txd_addr := mbuf_addr m (m_head (mbufs s m)),
                 txd_length := ucast (m_len (mbufs s m))\<rparr>;
           s = s\<lparr>tx_ring := (tx_ring s)(tail := d)\<rparr>;
           s = s\<lparr>tx_mbufs := (tx_mbufs s)(tail := m)\<rparr>;
           s = s\<lparr>regs := (regs s)(E1000_TDT := (regs s E1000_TDT + 1) mod of_nat TX_RING_SIZE)\<rparr> in
       rbind (release L_e1000 s) (\<lambda>s. Ok (0, s))))"

section \<open>Sending\<close>

definition put_eth :: "u16 \<Rightarrow> nat \<Rightarrow> cstr \<Rightarrow> cstr" where
  "put_eth ethtype p b =
     (let b = put_array b (p + 6) local_mac;
          b = put_array b p broadcast_mac in
      put_le 2 b (p + 12) (htons ethtype))"

definition net_tx_eth :: "u64 \<Rightarrow> u16 \<Rightarrow> 'a netst_scheme \<Rightarrow> 'a netst_scheme outcome" where
  "net_tx_eth m ethtype s =
     rbind (mbufpush m sizeof_eth s) (\<lambda>(ethhdr, s).
     let s = upd_mbuf m (\<lambda>x. x\<lparr>m_buf := put_eth ethtype ethhdr (m_buf x)\<rparr>) s in
     rbind (e1000_transmit m s) (\<lambda>(r, s).
     if r \<noteq> 0 then mbuffree m s else Ok s))"

definition put_ip :: "byte \<Rightarrow> u32 \<Rightarrow> u16 \<Rightarrow> nat \<Rightarrow> cstr \<Rightarrow> cstr" where
  "put_ip proto dip len p b =
     (let b = put_array b p (replicate 20 0);
          b = b(p := push_bit 4 4 OR drop_bit 2 20);
          b = b(p + 9 := proto);
          b = put_le 4 b (p + 12) (htonl local_ip);
          b = put_le 4 b (p + 16) (htonl dip);
          b = put_le 2 b (p + 2) (htons len);
          b = b(p + 8 := 100) in
      put_le 2 b (p + 10) (in_cksum b p 20))"

definition net_tx_ip :: "u64 \<Rightarrow> byte \<Rightarrow> u32 \<Rightarrow> 'a netst_scheme \<Rightarrow> 'a netst_scheme outcome" where
  "net_tx_ip m proto dip s =
     rbind (mbufpush m sizeof_ip s) (\<lambda>(iphdr, s).
     let s = upd_mbuf m (\<lambda>x. x\<lparr>m_buf := put_ip proto dip (ucast (m_len x)) iphdr (m_buf x)\<rparr>) s in
     net_tx_eth m ETHTYPE_IP s)"

definition put_udp :: "u16 \<Rightarrow> u16 \<Rightarrow> u16 \<Rightarrow> nat \<Rightarrow> cstr \<Rightarrow> cstr" where
  "put_udp sport dport len p b =
     (let b = put_le 2 b p (htons sport);
          b = put_le 2 b (p + 2) (htons dport);
          b = put_le 2 b (p + 4) (htons len) in
      put_le 2 b (p + 6) (0 :: u16))"

definition net_tx_udp :: "u64 \<Rightarrow> u32 \<Rightarrow> u16 \<Rightarrow> u16 \<Rightarrow> 'a netst_scheme \<Rightarrow> 'a netst_scheme outcome" where
  "net_tx_udp m dip sport dport s =
     rbind (mbufpush m sizeof_udp s) (\<lambda>(udphdr, s).
     let s = upd_mbuf m (\<lambda>x. x\<lparr>m_buf := put_udp sport dport (ucast (m_len x)) udphdr (m_buf x)\<rparr>) s in
     net_tx_ip m IPPROTO_UDP dip s)"

definition put_arp :: "u16 \<Rightarrow> byte list \<Rightarrow> u32 \<Rightarrow> nat \<Rightarrow> cstr \<Rightarrow> cstr" where
  "put_arp op dmac dip p b =
     (let b = put_le 2 b p (htons ARP_HRD_ETHER);
          b = put_le 2 b (p + 2) (htons ETHTYPE_IP);
          b = b(p + 4 := of_nat ETHADDR_LEN);
          b = b(p + 5 := 4);
          b = put_le 2 b (p + 6) (htons op);
          b = put_array b (p + 8) local_mac;
          b = put_le 4 b (p + 14) (htonl local_ip);
          b = put_array b (p + 18) dmac in
      put_le 4 b (p + 24) (htonl dip))"

definition net_tx_arp :: "u16 \<Rightarrow> byte list \<Rightarrow> u32 \<Rightarrow> 'a netst_scheme \<Rightarrow> (int \<times> 'a netst_scheme) outcome" where
  "net_tx_arp op dmac dip s =
     rbind (mbufalloc MBUF_DEFAULT_HEADROOM s) (\<lambda>(m, s).
     if m = 0 then Ok (-1, s)
     else
       rbind (mbufput m sizeof_arp s) (\<lambda>(arphdr, s).
       let s = upd_mbuf m (\<lambda>x. x\<lparr>m_buf := put_arp op dmac dip arphdr (m_buf x)\<rparr>) s in
       rbind (net_tx_eth m ETHTYPE_ARP s) (\<lambda>s. Ok (0, s))))"

section \<open>Delivery to sockets\<close>

text \<open>
  The search through the list of sockets. Nothing but the shape of the list makes it end, so the
  first argument bounds it.
\<close>

fun find_sock :: "nat \<Rightarrow> u32 \<Rightarrow> u16 \<Rightarrow> u16 \<Rightarrow> u64 \<Rightarrow> (u64 \<Rightarrow> sock) \<Rightarrow> u64 outcome" where
  "find_sock 0 raddr lport rport si ss = (if si = 0 then Ok 0 else Unfinished)"
| "find_sock (Suc n) raddr lport rport si ss =
     (if si = 0 then Ok 0
      else if so_raddr (ss si) = raddr \<and> so_lport (ss si) = lport \<and> so_rport (ss si) = rport then Ok si
      else find_sock n raddr lport rport (so_next (ss si)) ss)"

text \<open>There is at most one socket for each page that \<^verbatim>\<open>kalloc\<close> manages.\<close>

definition NSOCK :: nat where "NSOCK = 32768"

definition sockrecvudp :: "u64 \<Rightarrow> u32 \<Rightarrow> u16 \<Rightarrow> u16 \<Rightarrow> 'a netst_scheme \<Rightarrow> 'a netst_scheme outcome" where
  "sockrecvudp m raddr lport rport s =
     rbind (acquire L_socktbl s) (\<lambda>s.
     rbind (find_sock NSOCK raddr lport rport (sockets s) (socks s)) (\<lambda>si.
     if si = 0 then rbind (release L_socktbl s) (\<lambda>s. mbuffree m s)
     else
       rbind (acquire (L_sock si) s) (\<lambda>s.
       let (q, s) = mbufq_pushtail (so_rxq (socks s si)) m s;
           s = upd_sock si (\<lambda>x. x\<lparr>so_rxq := q\<rparr>) s in
       rbind (wakeup (Chan_sock_rxq si) s) (\<lambda>s.
       rbind (release (L_sock si) s) (\<lambda>s.
       release L_socktbl s)))))"

section \<open>Receiving\<close>

definition net_rx_arp :: "u64 \<Rightarrow> 'a netst_scheme \<Rightarrow> 'a netst_scheme outcome" where
  "net_rx_arp m s =
     (case mbufpull m sizeof_arp s of
        (None, s) \<Rightarrow> mbuffree m s
      | (Some p, s) \<Rightarrow>
          (let b = m_buf (mbufs s m) in
           if ntohs (get_le 2 b p) \<noteq> ARP_HRD_ETHER \<or> ntohs (get_le 2 b (p + 2)) \<noteq> ETHTYPE_IP \<or>
              b (p + 4) \<noteq> of_nat ETHADDR_LEN \<or> b (p + 5) \<noteq> 4
           then mbuffree m s
           else
             (let tip = ntohl (get_le 4 b (p + 24)) in
              if ntohs (get_le 2 b (p + 6)) \<noteq> ARP_OP_REQUEST \<or> tip \<noteq> local_ip then mbuffree m s
              else
                (let smac = get_array b (p + 8) ETHADDR_LEN;
                     sip = ntohl (get_le 4 b (p + 14)) in
                 rbind (net_tx_arp ARP_OP_REPLY smac sip s) (\<lambda>(r, s). mbuffree m s)))))"

text \<open>\<open>iphdr\<close> is the position of the IP header in the same buffer.\<close>

definition net_rx_udp :: "u64 \<Rightarrow> u16 \<Rightarrow> nat \<Rightarrow> 'a netst_scheme \<Rightarrow> 'a netst_scheme outcome" where
  "net_rx_udp m len iphdr s =
     (case mbufpull m sizeof_udp s of
        (None, s) \<Rightarrow> mbuffree m s
      | (Some p, s) \<Rightarrow>
          (let b = m_buf (mbufs s m) in
           if ntohs (get_le 2 b (p + 4)) \<noteq> len then mbuffree m s
           else
             (let len = len - ucast sizeof_udp in
              if ucast len > m_len (mbufs s m) then mbuffree m s
              else
                (let (_, s) = mbuftrim m (m_len (mbufs s m) - ucast len) s;
                     sip = ntohl (get_le 4 b (iphdr + 12));
                     sport = ntohs (get_le 2 b p);
                     dport = ntohs (get_le 2 b (p + 2)) in
                 sockrecvudp m sip dport sport s))))"

definition net_rx_ip :: "u64 \<Rightarrow> 'a netst_scheme \<Rightarrow> 'a netst_scheme outcome" where
  "net_rx_ip m s =
     (case mbufpull m sizeof_ip s of
        (None, s) \<Rightarrow> mbuffree m s
      | (Some p, s) \<Rightarrow>
          (let b = m_buf (mbufs s m) in
           if b p \<noteq> push_bit 4 4 OR drop_bit 2 20 then mbuffree m s
           else if in_cksum b p 20 \<noteq> 0 then mbuffree m s
           else if htons (get_le 2 b (p + 6)) \<noteq> 0 then mbuffree m s
           else if htonl (get_le 4 b (p + 16)) \<noteq> local_ip then mbuffree m s
           else if b (p + 9) \<noteq> IPPROTO_UDP then mbuffree m s
           else net_rx_udp m (ntohs (get_le 2 b (p + 2)) - ucast sizeof_ip) p s))"

definition net_rx :: "u64 \<Rightarrow> 'a netst_scheme \<Rightarrow> 'a netst_scheme outcome" where
  "net_rx m s =
     (case mbufpull m sizeof_eth s of
        (None, s) \<Rightarrow> mbuffree m s
      | (Some p, s) \<Rightarrow>
          (let type = ntohs (get_le 2 (m_buf (mbufs s m)) (p + 12)) in
           if type = ETHTYPE_IP then net_rx_ip m s
           else if type = ETHTYPE_ARP then net_rx_arp m s
           else mbuffree m s))"

end
