(* ===== verification/E1000_Props.thy ===== *)
theory E1000_Props
  imports Net
begin

text \<open>The transmit ring of \<^verbatim>\<open>kernel/e1000.c\<close>.\<close>

lemma ring_next:
  fixes x :: u32
  assumes "unat x < TX_RING_SIZE"
  shows "unat ((x + 1) mod of_nat TX_RING_SIZE) = Suc (unat x) mod TX_RING_SIZE"
proof -
  have "unat (x + 1) = Suc (unat x)" using assms by (simp add: TX_RING_SIZE_def unat_word_ariths)
  then show ?thesis by (simp add: unat_mod_distrib TX_RING_SIZE_def)
qed

text \<open>
  C24: \<^verbatim>\<open>e1000_transmit\<close> returns -1 and changes nothing when the descriptor at the tail is not marked as done. Otherwise it
  frees the packet that was sent from this slot, if any, puts the new packet there with its address and
  length, and advances the tail around the ring; the other slots and all packets but the freed one stay as they are. The mark of the
  slot is not cleared, so it counts as done although the packet was not sent yet.
\<close>

theorem e1000_transmit_enqueues:
  assumes "unat (regs s E1000_TDT) = i" "i < TX_RING_SIZE" "L_e1000 \<notin> set (held s)" "L_kmem \<notin> set (held s)"
    and "tx_mbufs s i \<noteq> 0 \<longrightarrow> page_ok (kend s) (tx_mbufs s i)"
  shows "if txd_status (tx_ring s i) AND E1000_TXD_STAT_DD = 0 then e1000_transmit m s = Ok (-1, s)
    else \<exists>t. e1000_transmit m s = Ok (0, t) \<and> held t = held s \<and> tx_mbufs t = (tx_mbufs s)(i := m) \<and>
      unat (regs t E1000_TDT) = Suc i mod TX_RING_SIZE \<and> (\<forall>j. j \<noteq> i \<longrightarrow> tx_ring t j = tx_ring s j) \<and>
      txd_addr (tx_ring t i) = mbuf_addr m (m_head (mbufs t m)) \<and> txd_length (tx_ring t i) = ucast (m_len (mbufs t m)) \<and>
      txd_cmd (tx_ring t i) = E1000_TXD_CMD_EOP OR E1000_TXD_CMD_RS \<and> txd_status (tx_ring t i) AND E1000_TXD_STAT_DD \<noteq> 0 \<and>
      freelist t = (if tx_mbufs s i = 0 then freelist s else tx_mbufs s i) \<and>
      mbufs t = (if tx_mbufs s i = 0 then mbufs s else (mbufs s)(tx_mbufs s i := freed_mbuf (freelist s) (tx_mbufs s i)))"
proof -
  let ?l = "s\<lparr>held := L_e1000 # held s\<rparr>"
  have f: "kfree (tx_mbufs s i) ?l = Ok (pushed (tx_mbufs s i) ?l)" if "tx_mbufs s i \<noteq> 0"
    using that assms(4,5) by (intro kfree_Ok) simp_all
  have n: "unat ((regs s E1000_TDT + 1) mod of_nat TX_RING_SIZE) = Suc i mod TX_RING_SIZE" using ring_next [of "regs s E1000_TDT"] assms(1,2) by simp
  show ?thesis
    using assms(1-3) n f by (auto simp: e1000_transmit_def mbuffree_def upd_mbuf_def Let_def pushed_def)
qed

theorem e1000_transmit_enqueues_witness:
  "\<exists>(s :: netst) t. e1000_transmit 0x80042000 s = Ok (0, t) \<and> unat (regs s E1000_TDT) = 15 \<and> unat (regs t E1000_TDT) = 0 \<and> freelist t = 0x80041000"
proof -
  let ?s = "(undefined :: netst)\<lparr>held := [], kend := 0x80026018, regs := (\<lambda>_. 15), tx_ring := (\<lambda>_. undefined\<lparr>txd_status := 1\<rparr>),
    tx_mbufs := (\<lambda>_. 0x80041000)\<rparr>"
  have "page_ok 0x80026018 0x80041000" by (simp add: page_ok_def aligned_def PHYSTOP_def KERNBASE_def)
  then have "\<exists>t. e1000_transmit 0x80042000 ?s = Ok (0, t) \<and> unat (regs t E1000_TDT) = Suc 15 mod TX_RING_SIZE \<and> freelist t = 0x80041000"
    using e1000_transmit_enqueues [of ?s 15 "0x80042000"] by (auto simp: TX_RING_SIZE_def E1000_TXD_STAT_DD_def)
  then obtain t where "e1000_transmit 0x80042000 ?s = Ok (0, t)" "unat (regs t E1000_TDT) = Suc 15 mod TX_RING_SIZE" "freelist t = 0x80041000" by blast
  then show ?thesis by (intro exI [of _ ?s] exI [of _ t]) (simp add: TX_RING_SIZE_def)
qed

end
