(* ===== verification/Fs_Dir.thy ===== *)
theory Fs_Dir
  imports Fs
begin

text \<open>
  Directories and path names of \<^verbatim>\<open>kernel/fs.c\<close>. A directory entry that the code reads into or writes from a
  local variable \<^verbatim>\<open>de\<close> goes through \<open>klocal\<close>: two bytes of inode number, then the name.
\<close>

section \<open>Directories\<close>

definition namecmp :: "cstr \<Rightarrow> cstr \<Rightarrow> int" where
  "namecmp s t = strncmp s t DIRSIZ"

definition de_inum :: "cstr \<Rightarrow> u16" where
  "de_inum de = get_le 2 de 0"

definition de_name :: "cstr \<Rightarrow> cstr" where
  "de_name de = (\<lambda>i. de (2 + i))"

lemma readi_no_wrap: "readi ip dst off 16 s = Ok (16, t) \<Longrightarrow> unat (off + 16) = unat off + 16"
  by (auto simp: readi_def not_less word_le_nat_alt unat_plus_if' split: if_splits)

lemma readi_decreases:
  assumes "readi ip dst off 16 s = Ok (16, t)"
  shows "2 ^ 32 - unat (off + 16) < 2 ^ 32 - unat off"
  using readi_no_wrap [OF assms] unsigned_less [of off, where ?'a = nat] by simp

function dirlookup_loop :: "nat \<Rightarrow> cstr \<Rightarrow> u32 \<Rightarrow> 'a fsst_scheme \<Rightarrow> ((nat \<times> u32) option \<times> 'a fsst_scheme) outcome" where
  "dirlookup_loop dp name off s =
     (if off < i_size (inodes s dp) then
        rbind (readi dp (Local 0) off 16 s) (\<lambda>(r, s).
        if r \<noteq> 16 then Panic ''dirlookup read''
        else if de_inum (klocal s) = 0 then dirlookup_loop dp name (off + 16) s
        else if namecmp name (de_name (klocal s)) = 0 then
          rbind (iget (i_dev (inodes s dp)) (ucast (de_inum (klocal s))) s) (\<lambda>(ip, s). Ok (Some (ip, off), s))
        else dirlookup_loop dp name (off + 16) s)
      else Ok (None, s))"
  by pat_completeness auto
termination
  by (relation "measure (\<lambda>(dp, name, off, s). 2 ^ 32 - unat off)")
     (auto dest!: readi_decreases)

declare dirlookup_loop.simps [simp del]

text \<open>The result carries the offset that \<^verbatim>\<open>*poff\<close> is set to.\<close>

definition dirlookup :: "nat \<Rightarrow> cstr \<Rightarrow> 'a fsst_scheme \<Rightarrow> ((nat \<times> u32) option \<times> 'a fsst_scheme) outcome" where
  "dirlookup dp name s =
     (if i_type (inodes s dp) \<noteq> T_DIR then Panic ''dirlookup not DIR'' else dirlookup_loop dp name 0 s)"

function dirlink_find :: "nat \<Rightarrow> u32 \<Rightarrow> 'a fsst_scheme \<Rightarrow> (u32 \<times> 'a fsst_scheme) outcome" where
  "dirlink_find dp off s =
     (if off < i_size (inodes s dp) then
        rbind (readi dp (Local 0) off 16 s) (\<lambda>(r, s).
        if r \<noteq> 16 then Panic ''dirlink read''
        else if de_inum (klocal s) = 0 then Ok (off, s)
        else dirlink_find dp (off + 16) s)
      else Ok (off, s))"
  by pat_completeness auto
termination
  by (relation "measure (\<lambda>(dp, off, s). 2 ^ 32 - unat off)")
     (auto dest!: readi_decreases)

declare dirlink_find.simps [simp del]

definition put_dirent :: "u32 \<Rightarrow> cstr \<Rightarrow> cstr \<Rightarrow> cstr" where
  "put_dirent inum name de =
     (let nm = strncpy (de_name de) name (int DIRSIZ);
          de = (\<lambda>i. if i < 2 then de i else nm (i - 2)) in
      put_le 2 de 0 (ucast inum :: u16))"

definition dirlink :: "nat \<Rightarrow> cstr \<Rightarrow> u32 \<Rightarrow> 'a fsst_scheme \<Rightarrow> (int \<times> 'a fsst_scheme) outcome" where
  "dirlink dp name inum s =
     rbind (dirlookup dp name s) (\<lambda>(r, s).
     case r of
       Some (ip, _) \<Rightarrow> rbind (iput ip s) (\<lambda>s. Ok (-1, s))
     | None \<Rightarrow>
         rbind (dirlink_find dp 0 s) (\<lambda>(off, s).
         let s = s\<lparr>klocal := put_dirent inum name (klocal s)\<rparr> in
         rbind (writei dp (Local 0) off 16 s) (\<lambda>(r, s).
         if r \<noteq> 16 then Panic ''dirlink'' else Ok (0, s))))"

section \<open>Paths\<close>

definition slash :: byte where "slash = 47"

text \<open>The element's bytes stored into \<^verbatim>\<open>name\<close>.\<close>

definition store_elem :: "byte list \<Rightarrow> cstr \<Rightarrow> cstr" where
  "store_elem e name =
     (if length e \<ge> DIRSIZ then (\<lambda>i. if i < DIRSIZ then e ! i else name i)
      else (\<lambda>i. if i < length e then e ! i else if i = length e then 0 else name i))"

definition skipelem :: "byte list \<Rightarrow> cstr \<Rightarrow> (byte list \<times> cstr) option" where
  "skipelem path name =
     (let path = dropWhile (\<lambda>c. c = slash) path in
      if path = [] then None
      else
        (let e = takeWhile (\<lambda>c. c \<noteq> slash) path;
             path = dropWhile (\<lambda>c. c \<noteq> slash) path;
             path = dropWhile (\<lambda>c. c = slash) path in
         Some (path, store_elem e name)))"

lemma skipelem_shorter: "skipelem path name = Some (path', name') \<Longrightarrow> length path' < length path"
proof -
  assume s: "skipelem path name = Some (path', name')"
  let ?p = "dropWhile (\<lambda>c. c = slash) path"
  have p: "?p \<noteq> []" "path' = dropWhile (\<lambda>c. c = slash) (dropWhile (\<lambda>c. c \<noteq> slash) ?p)"
    using s by (auto simp: skipelem_def Let_def split: if_splits)
  then obtain c cs where "?p = c # cs" by (cases ?p) auto
  moreover have "c \<noteq> slash" using calculation hd_dropWhile [of "\<lambda>c. c = slash" path] p(1) by simp
  ultimately have "length (dropWhile (\<lambda>c. c \<noteq> slash) ?p) < length ?p" by (simp add: le_imp_less_Suc length_dropWhile_le)
  then show ?thesis using p(2) length_dropWhile_le le_less_trans order_less_le_trans by metis
qed

function namex_loop :: "byte list \<Rightarrow> bool \<Rightarrow> cstr \<Rightarrow> nat \<Rightarrow> 'a fsst_scheme \<Rightarrow>
    (nat option \<times> cstr \<times> 'a fsst_scheme) outcome" where
  "namex_loop path parent name ip s =
     (case skipelem path name of
        None \<Rightarrow>
          if parent then rbind (iput ip s) (\<lambda>s. Ok (None, name, s)) else Ok (Some ip, name, s)
      | Some (path, name) \<Rightarrow>
          rbind (ilock (Some ip) s) (\<lambda>s.
          if i_type (inodes s ip) \<noteq> T_DIR then rbind (iunlockput ip s) (\<lambda>s. Ok (None, name, s))
          else if parent \<and> path = [] then rbind (iunlock (Some ip) s) (\<lambda>s. Ok (Some ip, name, s))
          else
            rbind (dirlookup ip name s) (\<lambda>(r, s).
            case r of
              None \<Rightarrow> rbind (iunlockput ip s) (\<lambda>s. Ok (None, name, s))
            | Some (next_ip, _) \<Rightarrow> rbind (iunlockput ip s) (\<lambda>s. namex_loop path parent name next_ip s))))"
  by pat_completeness auto
termination
  by (relation "measure (\<lambda>(path, parent, name, ip, s). length path)") (auto dest: skipelem_shorter)

declare namex_loop.simps [simp del]

definition namex :: "byte list \<Rightarrow> bool \<Rightarrow> cstr \<Rightarrow> 'a fsst_scheme \<Rightarrow> (nat option \<times> cstr \<times> 'a fsst_scheme) outcome" where
  "namex path parent name s =
     rbind (if path \<noteq> [] \<and> hd path = slash then iget ROOTDEV ROOTINO s
            else (case p_cwd (proc s (this_proc s)) of
                    Some ip \<Rightarrow> idup ip s
                  | None \<Rightarrow> Panic ''kerneltrap'')) (\<lambda>(ip, s).
     namex_loop path parent name ip s)"

definition namei :: "byte list \<Rightarrow> 'a fsst_scheme \<Rightarrow> (nat option \<times> 'a fsst_scheme) outcome" where
  "namei path s = rbind (namex path False (\<lambda>_. 0) s) (\<lambda>(ip, name, s). Ok (ip, s))"

definition nameiparent :: "byte list \<Rightarrow> cstr \<Rightarrow> 'a fsst_scheme \<Rightarrow> (nat option \<times> cstr \<times> 'a fsst_scheme) outcome" where
  "nameiparent path name s = namex path True name s"

end
