(* ===== verification/Sock.thy ===== *)
theory Sock
  imports Net
begin

text \<open>
  Sockets, \<^verbatim>\<open>kernel/sysnet.c\<close>: reading, writing and closing. \<^verbatim>\<open>sockalloc\<close> needs the file table and is in
  the theory \<open>File\<close>.
\<close>

text \<open>
  The list of sockets without \<open>si\<close>: the loop with the pointer to a pointer. \<open>pos\<close> is the socket whose
  \<^verbatim>\<open>next\<close> the pointer is the address of, 0 for the variable \<^verbatim>\<open>sockets\<close>.
\<close>

fun sock_unlink :: "nat \<Rightarrow> u64 \<Rightarrow> u64 \<Rightarrow> 'a netst_scheme \<Rightarrow> 'a netst_scheme outcome" where
  "sock_unlink 0 si pos s =
     (if (if pos = 0 then sockets s else so_next (socks s pos)) = 0 then Ok s else Unfinished)"
| "sock_unlink (Suc n) si pos s =
     (let cur = (if pos = 0 then sockets s else so_next (socks s pos)) in
      if cur = 0 then Ok s
      else if cur = si then
        (let nx = so_next (socks s si) in
         Ok (if pos = 0 then s\<lparr>sockets := nx\<rparr> else upd_sock pos (\<lambda>x. x\<lparr>so_next := nx\<rparr>) s))
      else sock_unlink n si cur s)"

text \<open>Each pending mbuf is a page, so there are at most \<open>NSOCK\<close> of them.\<close>

fun sock_drain :: "nat \<Rightarrow> u64 \<Rightarrow> 'a netst_scheme \<Rightarrow> 'a netst_scheme outcome" where
  "sock_drain 0 si s = (if mbufq_empty (so_rxq (socks s si)) then Ok s else Unfinished)"
| "sock_drain (Suc n) si s =
     (if mbufq_empty (so_rxq (socks s si)) then Ok s
      else
        (let (m, q) = mbufq_pophead (so_rxq (socks s si)) s;
             s = upd_sock si (\<lambda>x. x\<lparr>so_rxq := q\<rparr>) s in
         rbind (mbuffree m s) (\<lambda>s. sock_drain n si s)))"

text \<open>
  \<^verbatim>\<open>kfree((char*)si)\<close> fills the page with ones and then links it into the free list through its first
  eight bytes, so this is what a later access through \<^verbatim>\<open>si\<close> would find.
\<close>

definition kfree_sock :: "u64 \<Rightarrow> 'a netst_scheme \<Rightarrow> 'a netst_scheme outcome" where
  "kfree_sock si s =
     rbind (kfree si s) (\<lambda>t.
     Ok (upd_sock si (\<lambda>_. \<lparr>so_next = freelist s, so_raddr = 0x01010101, so_lport = 0x0101, so_rport = 0x0101,
       so_rxq = \<lparr>q_head = 0x0101010101010101, q_tail = 0x0101010101010101\<rparr>\<rparr>) t))"

definition sockclose :: "u64 \<Rightarrow> 'a netst_scheme \<Rightarrow> 'a netst_scheme outcome" where
  "sockclose si s =
     rbind (acquire L_socktbl s) (\<lambda>s.
     rbind (sock_unlink NSOCK si 0 s) (\<lambda>s.
     rbind (release L_socktbl s) (\<lambda>s.
     rbind (sock_drain NSOCK si s) (\<lambda>s.
     kfree_sock si s))))"

text \<open>The list says what the machine does in each sleep for a packet.\<close>

definition sockread :: "u64 \<Rightarrow> u64 \<Rightarrow> int \<Rightarrow> ('a netst_scheme \<Rightarrow> 'a netst_scheme) list \<Rightarrow> 'a netst_scheme \<Rightarrow>
    (int \<times> 'a netst_scheme) outcome" where
  "sockread si addr n env s =
     (let pr = this_proc s in
      rbind (acquire (L_sock si) s) (\<lambda>s.
      rbind (sleep_loop (\<lambda>s.
               Ok (if mbufq_empty (so_rxq (socks s si)) \<and> p_killed (proc s pr) = 0 then None else Some (), s))
             (Chan_sock_rxq si) (L_sock si) env s) (\<lambda>(_, env, s).
      if p_killed (proc s pr) \<noteq> 0 then rbind (release (L_sock si) s) (\<lambda>s. Ok (-1, s))
      else
        (let (m, q) = mbufq_pophead (so_rxq (socks s si)) s;
             s = upd_sock si (\<lambda>x. x\<lparr>so_rxq := q\<rparr>) s in
         rbind (release (L_sock si) s) (\<lambda>s.
         let b = mbufs s m;
             len = sint (m_len b);
             len = (if len > n then n else len) in
         rbind (copyout_loop (p_pagetable (proc s pr)) addr (m_buf b) (m_head b) (of_int len) s) (\<lambda>(r, s).
         if r = -1 then rbind (mbuffree m s) (\<lambda>s. Ok (-1, s))
         else rbind (mbuffree m s) (\<lambda>s. Ok (len, s))))))))"

definition sockwrite :: "u64 \<Rightarrow> u64 \<Rightarrow> int \<Rightarrow> 'a netst_scheme \<Rightarrow> (int \<times> 'a netst_scheme) outcome" where
  "sockwrite si addr n s =
     (let pr = this_proc s in
      rbind (mbufalloc MBUF_DEFAULT_HEADROOM s) (\<lambda>(m, s).
      if m = 0 then Ok (-1, s)
      else
        rbind (mbufput m (of_int n) s) (\<lambda>(p, s).
        rbind (copyin_loop (p_pagetable (proc s pr)) (m_buf (mbufs s m)) p addr (of_int n) s) (\<lambda>(r, b).
        let s = upd_mbuf m (\<lambda>x. x\<lparr>m_buf := b\<rparr>) s in
        if r = -1 then rbind (mbuffree m s) (\<lambda>s. Ok (-1, s))
        else
          rbind (net_tx_udp m (so_raddr (socks s si)) (so_lport (socks s si)) (so_rport (socks s si)) s) (\<lambda>s.
          Ok (n, s))))))"

end
