(* ===== verification/Pipe.thy ===== *)
theory Pipe
  imports Net
begin

text \<open>
  Pipes, \<^verbatim>\<open>kernel/pipe.c\<close>. A pipe lives at the address that \<^verbatim>\<open>kalloc\<close> gave. The list arguments say what
  the machine does in each sleep. \<^verbatim>\<open>pipealloc\<close> needs the file table and is in the theory \<open>File\<close>.
\<close>

definition PIPESIZE :: nat where "PIPESIZE = 512"

record pipe =
  pi_data :: cstr
  pi_nread :: u32
  pi_nwrite :: u32
  pi_readopen :: bool
  pi_writeopen :: bool

record pipest = netst +
  pipes :: "u64 \<Rightarrow> pipe"

definition upd_pipe :: "u64 \<Rightarrow> (pipe \<Rightarrow> pipe) \<Rightarrow> 'a pipest_scheme \<Rightarrow> 'a pipest_scheme" where
  "upd_pipe a f s = s\<lparr>pipes := (pipes s)(a := f (pipes s a))\<rparr>"

definition pipeclose :: "u64 \<Rightarrow> bool \<Rightarrow> 'a pipest_scheme \<Rightarrow> 'a pipest_scheme outcome" where
  "pipeclose pi writable s =
     rbind (acquire (L_pipe pi) s) (\<lambda>s.
     rbind (if writable
            then wakeup (Chan_pipe_nread pi) (upd_pipe pi (\<lambda>x. x\<lparr>pi_writeopen := False\<rparr>) s)
            else wakeup (Chan_pipe_nwrite pi) (upd_pipe pi (\<lambda>x. x\<lparr>pi_readopen := False\<rparr>) s)) (\<lambda>s.
     if \<not> pi_readopen (pipes s pi) \<and> \<not> pi_writeopen (pipes s pi) then
       rbind (release (L_pipe pi) s) (\<lambda>s. kfree pi s)
     else release (L_pipe pi) s))"

text \<open>The loop of \<^verbatim>\<open>pipewrite\<close> with \<open>k\<close> bytes to go; \<open>None\<close> if it returned -1.\<close>

function pipewrite_loop :: "u64 \<Rightarrow> u64 \<Rightarrow> nat \<Rightarrow> nat \<Rightarrow> ('a pipest_scheme \<Rightarrow> 'a pipest_scheme) list \<Rightarrow>
    'a pipest_scheme \<Rightarrow> (nat option \<times> 'a pipest_scheme) outcome" where
  "pipewrite_loop pi addr i 0 env s = Ok (Some i, s)"
| "pipewrite_loop pi addr i (Suc k) env s =
     (let pr = this_proc s in
      if \<not> pi_readopen (pipes s pi) \<or> p_killed (proc s pr) \<noteq> 0 then
        rbind (release (L_pipe pi) s) (\<lambda>s. Ok (None, s))
      else if pi_nwrite (pipes s pi) = pi_nread (pipes s pi) + of_nat PIPESIZE then
        rbind (wakeup (Chan_pipe_nread pi) s) (\<lambda>s.
        case env of
          [] \<Rightarrow> rbind (sleep (Chan_pipe_nwrite pi) (L_pipe pi) None s) (\<lambda>s. Unfinished)
        | w # env \<Rightarrow>
            rbind (sleep (Chan_pipe_nwrite pi) (L_pipe pi) (Some w) s) (\<lambda>s. pipewrite_loop pi addr i (Suc k) env s))
      else
        rbind (copyin (p_pagetable (proc s pr)) (\<lambda>_. 0) (addr + of_nat i) 1 s) (\<lambda>(r, ch).
        if r = -1 then Ok (Some i, s)
        else
          pipewrite_loop pi addr (Suc i) k env
            (upd_pipe pi (\<lambda>x. x\<lparr>pi_data := (pi_data x)(unat (pi_nwrite x) mod PIPESIZE := ch 0),
               pi_nwrite := pi_nwrite x + 1\<rparr>) s)))"
  by pat_completeness auto
termination
  by (relation "measures [\<lambda>(pi, addr, i, k, env, s). k, \<lambda>(pi, addr, i, k, env, s). length env]") auto

declare pipewrite_loop.simps(2) [simp del]

definition pipewrite :: "u64 \<Rightarrow> u64 \<Rightarrow> int \<Rightarrow> ('a pipest_scheme \<Rightarrow> 'a pipest_scheme) list \<Rightarrow> 'a pipest_scheme \<Rightarrow>
    (int \<times> 'a pipest_scheme) outcome" where
  "pipewrite pi addr n env s =
     rbind (acquire (L_pipe pi) s) (\<lambda>s.
     rbind (pipewrite_loop pi addr 0 (nat n) env s) (\<lambda>(r, s).
     case r of
       None \<Rightarrow> Ok (-1, s)
     | Some i \<Rightarrow>
         rbind (wakeup (Chan_pipe_nread pi) s) (\<lambda>s.
         rbind (release (L_pipe pi) s) (\<lambda>s. Ok (int i, s)))))"

fun piperead_copy :: "u64 \<Rightarrow> u64 \<Rightarrow> nat \<Rightarrow> nat \<Rightarrow> 'a pipest_scheme \<Rightarrow> (nat \<times> 'a pipest_scheme) outcome" where
  "piperead_copy pi addr i 0 s = Ok (i, s)"
| "piperead_copy pi addr i (Suc k) s =
     (if pi_nread (pipes s pi) = pi_nwrite (pipes s pi) then Ok (i, s)
      else
        (let ch = pi_data (pipes s pi) (unat (pi_nread (pipes s pi)) mod PIPESIZE);
             s = upd_pipe pi (\<lambda>x. x\<lparr>pi_nread := pi_nread x + 1\<rparr>) s in
         rbind (copyout (p_pagetable (proc s (this_proc s))) (addr + of_nat i) (\<lambda>_. ch) 1 s) (\<lambda>(r, s).
         if r = -1 then Ok (i, s) else piperead_copy pi addr (Suc i) k s)))"

definition piperead :: "u64 \<Rightarrow> u64 \<Rightarrow> int \<Rightarrow> ('a pipest_scheme \<Rightarrow> 'a pipest_scheme) list \<Rightarrow> 'a pipest_scheme \<Rightarrow>
    (int \<times> 'a pipest_scheme) outcome" where
  "piperead pi addr n env s =
     (let pr = this_proc s in
      rbind (acquire (L_pipe pi) s) (\<lambda>s.
      rbind (sleep_loop (\<lambda>s.
               if pi_nread (pipes s pi) = pi_nwrite (pipes s pi) \<and> pi_writeopen (pipes s pi) then
                 if p_killed (proc s pr) \<noteq> 0 then rbind (release (L_pipe pi) s) (\<lambda>s. Ok (Some False, s))
                 else Ok (None, s)
               else Ok (Some True, s))
             (Chan_pipe_nread pi) (L_pipe pi) env s) (\<lambda>(go, env, s).
      if \<not> go then Ok (-1, s)
      else
        rbind (piperead_copy pi addr 0 (nat n) s) (\<lambda>(i, s).
        rbind (wakeup (Chan_pipe_nwrite pi) s) (\<lambda>s.
        rbind (release (L_pipe pi) s) (\<lambda>s. Ok (int i, s)))))))"

end
