(* ===== verification/File.thy ===== *)
theory File
  imports Fs_Dir Sock Pipe
begin

text \<open>
  The file table, \<^verbatim>\<open>kernel/file.c\<close>, and the two kinds of file that are made without a path: pipes
  (\<^verbatim>\<open>pipealloc\<close> of \<^verbatim>\<open>kernel/pipe.c\<close>) and sockets (\<^verbatim>\<open>sockalloc\<close> of \<^verbatim>\<open>kernel/sysnet.c\<close>). A
  \<^verbatim>\<open>struct file *\<close> is an index into the table. The list arguments say what the machine does while the
  operation sleeps for data; sleeps for a lock of the file system end in \<open>Blocks\<close>.
\<close>

section \<open>State\<close>

datatype filetype = FD_NONE | FD_PIPE | FD_INODE | FD_DEVICE | FD_SOCK

record kfile =
  f_type :: filetype
  f_ref :: int
  f_readable :: bool
  f_writable :: bool
  f_pipe :: u64
  f_ip :: nat
  f_sock :: u64
  f_off :: u32
  f_major :: u16

record filest = pipest +
  ftable :: "nat \<Rightarrow> kfile"

definition NFILE :: nat where "NFILE = 100"
definition NDEV :: int where "NDEV = 10"

definition upd_file :: "nat \<Rightarrow> (kfile \<Rightarrow> kfile) \<Rightarrow> 'a filest_scheme \<Rightarrow> 'a filest_scheme" where
  "upd_file f g s = s\<lparr>ftable := (ftable s)(f := g (ftable s f))\<rparr>"

section \<open>References\<close>

fun filealloc_scan :: "nat \<Rightarrow> nat \<Rightarrow> (nat \<Rightarrow> kfile) \<Rightarrow> nat option" where
  "filealloc_scan f 0 fs = None"
| "filealloc_scan f (Suc k) fs = (if f_ref (fs f) = 0 then Some f else filealloc_scan (Suc f) k fs)"

definition filealloc :: "'a filest_scheme \<Rightarrow> (nat option \<times> 'a filest_scheme) outcome" where
  "filealloc s =
     rbind (acquire L_ftable s) (\<lambda>s.
     case filealloc_scan 0 NFILE (ftable s) of
       Some f \<Rightarrow>
         rbind (release L_ftable (upd_file f (\<lambda>x. x\<lparr>f_ref := 1\<rparr>) s)) (\<lambda>s. Ok (Some f, s))
     | None \<Rightarrow> rbind (release L_ftable s) (\<lambda>s. Ok (None, s)))"

definition filedup :: "nat \<Rightarrow> 'a filest_scheme \<Rightarrow> (nat \<times> 'a filest_scheme) outcome" where
  "filedup f s =
     rbind (acquire L_ftable s) (\<lambda>s.
     if f_ref (ftable s f) < 1 then Panic ''filedup''
     else
       rbind (release L_ftable (upd_file f (\<lambda>x. x\<lparr>f_ref := f_ref x + 1\<rparr>) s)) (\<lambda>s. Ok (f, s)))"

definition fileclose :: "nat \<Rightarrow> 'a filest_scheme \<Rightarrow> 'a filest_scheme outcome" where
  "fileclose f s =
     rbind (acquire L_ftable s) (\<lambda>s.
     if f_ref (ftable s f) < 1 then Panic ''fileclose''
     else
       (let s = upd_file f (\<lambda>x. x\<lparr>f_ref := f_ref x - 1\<rparr>) s in
        if f_ref (ftable s f) > 0 then release L_ftable s
        else
          (let ff = ftable s f;
               s = upd_file f (\<lambda>x. x\<lparr>f_ref := 0, f_type := FD_NONE\<rparr>) s in
           rbind (release L_ftable s) (\<lambda>s.
           if f_type ff = FD_PIPE then pipeclose (f_pipe ff) (f_writable ff) s
           else if f_type ff = FD_INODE \<or> f_type ff = FD_DEVICE then
             rbind (begin_op [] s) (\<lambda>s. rbind (iput (f_ip ff) s) (\<lambda>s. end_op s))
           else if f_type ff = FD_SOCK then sockclose (f_sock ff) s
           else Ok s))))"

section \<open>Reading and writing\<close>

text \<open>The bytes of a \<^verbatim>\<open>struct stat\<close>; four bytes of padding before \<^verbatim>\<open>size\<close> keep what was there.\<close>

definition put_stat :: "stat \<Rightarrow> cstr \<Rightarrow> cstr" where
  "put_stat st b =
     (let b = put_le 4 b 0 (st_dev st);
          b = put_le 4 b 4 (st_ino st);
          b = put_le 2 b 8 (st_type st);
          b = put_le 2 b 10 (st_nlink st) in
      put_le 8 b 16 (st_size st))"

definition filestat :: "nat \<Rightarrow> u64 \<Rightarrow> 'a filest_scheme \<Rightarrow> (int \<times> 'a filest_scheme) outcome" where
  "filestat f addr s =
     (let p = this_proc s; ff = ftable s f in
      if f_type ff = FD_INODE \<or> f_type ff = FD_DEVICE then
        rbind (ilock (Some (f_ip ff)) s) (\<lambda>s.
        let s = s\<lparr>klocal := put_stat (stati (f_ip ff) s) (klocal s)\<rparr> in
        rbind (iunlock (Some (f_ip ff)) s) (\<lambda>s.
        rbind (copyout (p_pagetable (proc s p)) addr (klocal s) 24 s) (\<lambda>(r, s).
        if r < 0 then Ok (-1, s) else Ok (0, s))))
      else Ok (-1, s))"

definition fileread :: "nat \<Rightarrow> u64 \<Rightarrow> int \<Rightarrow> ('a filest_scheme \<Rightarrow> 'a filest_scheme) list \<Rightarrow> 'a filest_scheme \<Rightarrow>
    (int \<times> 'a filest_scheme) outcome" where
  "fileread f addr n env s =
     (let ff = ftable s f in
      if \<not> f_readable ff then Ok (-1, s)
      else
        (case f_type ff of
           FD_PIPE \<Rightarrow> piperead (f_pipe ff) addr n env s
         | FD_DEVICE \<Rightarrow>
             if sint (f_major ff) < 0 \<or> sint (f_major ff) \<ge> NDEV then Ok (-1, s)
             else (case devsw s (nat (sint (f_major ff))) of
                     None \<Rightarrow> Ok (-1, s)
                   | Some Console_dev \<Rightarrow> rbind (consoleread (User addr) n env s) (\<lambda>(r, env, s). Ok (r, s)))
         | FD_INODE \<Rightarrow>
             rbind (ilock (Some (f_ip ff)) s) (\<lambda>s.
             rbind (readi (f_ip ff) (User addr) (f_off (ftable s f)) (of_int n) s) (\<lambda>(r, s).
             let s = (if sint r > 0 then upd_file f (\<lambda>x. x\<lparr>f_off := f_off x + r\<rparr>) s else s) in
             rbind (iunlock (Some (f_ip ff)) s) (\<lambda>s. Ok (sint r, s))))
         | FD_SOCK \<Rightarrow> sockread (f_sock ff) addr n env s
         | FD_NONE \<Rightarrow> Panic ''fileread''))"

definition max_write :: int where
  "max_write = ((MAXOPBLOCKS - 1 - 1 - 2) div 2) * int BSIZE"

text \<open>The loop of \<^verbatim>\<open>filewrite\<close> over pieces that fit into a transaction; it gives the final \<^verbatim>\<open>i\<close>.\<close>

function filewrite_loop :: "nat \<Rightarrow> u64 \<Rightarrow> int \<Rightarrow> int \<Rightarrow> 'a filest_scheme \<Rightarrow> (int \<times> 'a filest_scheme) outcome" where
  "filewrite_loop f addr i n s =
     (if i < n then
        (let n1 = (if n - i > max_write then max_write else n - i) in
         rbind (begin_op [] s) (\<lambda>s.
         rbind (ilock (Some (f_ip (ftable s f))) s) (\<lambda>s.
         rbind (writei (f_ip (ftable s f)) (User (addr + of_int i)) (f_off (ftable s f)) (of_int n1) s) (\<lambda>(r, s).
         let s = (if sint r > 0 then upd_file f (\<lambda>x. x\<lparr>f_off := f_off x + r\<rparr>) s else s) in
         rbind (iunlock (Some (f_ip (ftable s f))) s) (\<lambda>s.
         rbind (end_op s) (\<lambda>s.
         if sint r \<noteq> n1 then Ok (i, s) else filewrite_loop f addr (i + sint r) n s))))))
      else Ok (i, s))"
  by pat_completeness auto
termination
  by (relation "measure (\<lambda>(f, addr, i, n, s). nat (n - i))")
     (auto simp: max_write_def MAXOPBLOCKS_def BSIZE_def)

declare filewrite_loop.simps [simp del]

definition filewrite :: "nat \<Rightarrow> u64 \<Rightarrow> int \<Rightarrow> ('a filest_scheme \<Rightarrow> 'a filest_scheme) list \<Rightarrow> 'a filest_scheme \<Rightarrow>
    (int \<times> 'a filest_scheme) outcome" where
  "filewrite f addr n env s =
     (let ff = ftable s f in
      if \<not> f_writable ff then Ok (-1, s)
      else
        (case f_type ff of
           FD_PIPE \<Rightarrow> pipewrite (f_pipe ff) addr n env s
         | FD_DEVICE \<Rightarrow>
             if sint (f_major ff) < 0 \<or> sint (f_major ff) \<ge> NDEV then Ok (-1, s)
             else (case devsw s (nat (sint (f_major ff))) of
                     None \<Rightarrow> Ok (-1, s)
                   | Some Console_dev \<Rightarrow> rbind (consolewrite (User addr) n env s) (\<lambda>(r, env, s). Ok (r, s)))
         | FD_INODE \<Rightarrow>
             rbind (filewrite_loop f addr 0 n s) (\<lambda>(i, s). Ok (if i = n then n else -1, s))
         | FD_SOCK \<Rightarrow> sockwrite (f_sock ff) addr n s
         | FD_NONE \<Rightarrow> Panic ''filewrite''))"

section \<open>Pipes and sockets as files\<close>

definition pipealloc_bad :: "u64 \<Rightarrow> nat option \<Rightarrow> nat option \<Rightarrow> 'a filest_scheme \<Rightarrow>
    ((nat \<times> nat) option \<times> 'a filest_scheme) outcome" where
  "pipealloc_bad pi f0 f1 s =
     rbind (if pi \<noteq> 0 then kfree pi s else Ok s) (\<lambda>s.
     rbind (case f0 of Some f \<Rightarrow> fileclose f s | None \<Rightarrow> Ok s) (\<lambda>s.
     rbind (case f1 of Some f \<Rightarrow> fileclose f s | None \<Rightarrow> Ok s) (\<lambda>s. Ok (None, s))))"

text \<open>\<open>None\<close> is the result -1.\<close>

definition pipealloc :: "'a filest_scheme \<Rightarrow> ((nat \<times> nat) option \<times> 'a filest_scheme) outcome" where
  "pipealloc s =
     rbind (filealloc s) (\<lambda>(f0, s).
     case f0 of
       None \<Rightarrow> pipealloc_bad 0 None None s
     | Some r \<Rightarrow>
         rbind (filealloc s) (\<lambda>(f1, s).
         case f1 of
           None \<Rightarrow> pipealloc_bad 0 (Some r) None s
         | Some w \<Rightarrow>
             rbind (kalloc s) (\<lambda>(pi, s).
             if pi = 0 then pipealloc_bad 0 (Some r) (Some w) s
             else
               (let s = upd_pipe pi (\<lambda>x. x\<lparr>pi_readopen := True, pi_writeopen := True, pi_nwrite := 0, pi_nread := 0\<rparr>) s;
                    s = upd_file r (\<lambda>x. x\<lparr>f_type := FD_PIPE, f_readable := True, f_writable := False, f_pipe := pi\<rparr>) s;
                    s = upd_file w (\<lambda>x. x\<lparr>f_type := FD_PIPE, f_readable := False, f_writable := True, f_pipe := pi\<rparr>) s in
                Ok (Some (r, w), s)))))"

definition sockalloc_bad :: "u64 \<Rightarrow> nat option \<Rightarrow> 'a filest_scheme \<Rightarrow> (nat option \<times> 'a filest_scheme) outcome" where
  "sockalloc_bad si f s =
     rbind (if si \<noteq> 0 then kfree_sock si s else Ok s) (\<lambda>s.
     rbind (case f of Some f \<Rightarrow> fileclose f s | None \<Rightarrow> Ok s) (\<lambda>s. Ok (None, s)))"

text \<open>\<open>None\<close> is the result -1.\<close>

definition sockalloc :: "u32 \<Rightarrow> u16 \<Rightarrow> u16 \<Rightarrow> 'a filest_scheme \<Rightarrow> (nat option \<times> 'a filest_scheme) outcome" where
  "sockalloc raddr lport rport s =
     rbind (filealloc s) (\<lambda>(f, s).
     case f of
       None \<Rightarrow> sockalloc_bad 0 None s
     | Some f \<Rightarrow>
         rbind (kalloc s) (\<lambda>(si, s).
         if si = 0 then sockalloc_bad 0 (Some f) s
         else
           (let s = upd_sock si (\<lambda>x. x\<lparr>so_raddr := raddr, so_lport := lport, so_rport := rport,
                      so_rxq := mbufq_init (so_rxq x)\<rparr>) s;
                s = upd_file f (\<lambda>x. x\<lparr>f_type := FD_SOCK, f_readable := True, f_writable := True, f_sock := si\<rparr>) s in
            rbind (acquire L_socktbl s) (\<lambda>s.
            rbind (find_sock NSOCK raddr lport rport (sockets s) (socks s)) (\<lambda>pos.
            if pos \<noteq> 0 then rbind (release L_socktbl s) (\<lambda>s. sockalloc_bad si (Some f) s)
            else
              (let s = upd_sock si (\<lambda>x. x\<lparr>so_next := sockets s\<rparr>) s;
                   s = s\<lparr>sockets := si\<rparr> in
               rbind (release L_socktbl s) (\<lambda>s. Ok (Some f, s))))))))"

end
