(* ===== verification/Page_Table.thy ===== *)
theory Page_Table
  imports Vm
begin

text \<open>
  Page tables as trees: \<open>tbl m root is\<close> is the table page reached from \<open>root\<close> by the indices
  \<open>is\<close>. A well-formed table reaches pages of the allocator's range, each by one path only; then
  a store to one entry changes only what lies below that entry. On these lemmas rest the
  properties of \<^verbatim>\<open>walk\<close>, \<^verbatim>\<open>mappages\<close>, \<^verbatim>\<open>uvmunmap\<close> and \<^verbatim>\<open>freewalk\<close>.
\<close>

section \<open>Entries\<close>

lemma slot_facts:
  assumes "aligned p" "i < 512"
  shows "PGROUNDDOWN (slot p i) = p" "slot p i mod 8 = 0"
proof -
  have i: "unat i < 512" using assms(2) by (simp add: word_less_nat_alt)
  then have "unat (8 * i) = 8 * unat i" by (simp add: unat_word_ariths)
  then have off: "unat (slot p i - p) < 4096" using i by (simp add: slot_def)
  then show "PGROUNDDOWN (slot p i) = p" using PGROUNDDOWN_eq_iff [OF assms(1)] by simp
  obtain k where k: "unat p = 8 * k" using aligned8_unat [OF aligned_mod8 [OF assms(1)]] by blast
  have "unat (slot p i) = (8 * k + 8 * unat i) mod 2 ^ 64"
    using \<open>unat (8 * i) = 8 * unat i\<close> k by (simp add: slot_def unat_word_ariths)
  then have "unat (slot p i) mod 8 = 0" by (simp add: mod_mod_cancel)
  then show "slot p i mod 8 = 0" by (simp add: word_unat_eq_iff unat_mod)
qed

lemma slot_inj:
  assumes "aligned p" "aligned q" "i < 512" "j < 512" "slot p i = slot q j"
  shows "p = q \<and> i = j"
proof -
  have "p = q" using slot_facts(1) [OF assms(1,3)] slot_facts(1) [OF assms(2,4)] assms(5) by simp
  then have "8 * i = 8 * j" using assms(5) by (simp add: slot_def)
  moreover have "unat i < 512" "unat j < 512" using assms(3,4) by (simp_all add: word_less_nat_alt)
  then have "unat (8 * i) = 8 * unat i" "unat (8 * j) = 8 * unat j" by (simp_all add: unat_word_ariths)
  ultimately have "unat i = unat j" by simp
  then show ?thesis using \<open>p = q\<close> by (simp add: word_unat_eq_iff)
qed

lemma PX_less [simp]: "PX l va < 512"
proof -
  have "PX l va = take_bit 9 (drop_bit (PXSHIFT l) va)"
    by (simp add: PX_def take_bit_eq_mask mask_eq_exp_minus_1)
  also have "\<dots> = drop_bit (PXSHIFT l) va mod 512" by (simp add: take_bit_eq_mod)
  finally show ?thesis by (simp add: word_less_nat_alt unat_mod)
qed

lemma PTE2PA_PA2PTE:
  assumes "aligned p" "f < 1024"
  shows "PTE2PA (PA2PTE p OR f) = p"
proof (rule bit_eqI)
  fix n
  assume "possible_bit TYPE(64 word) n"
  then have n: "n < 64" by simp
  have low: "\<not> bit p n" if "n < 12"
  proof -
    have "take_bit 12 p = 0" using assms(1) by (simp add: aligned_def take_bit_eq_mod)
    then show ?thesis using that by (metis bit_take_bit_iff bit_0_eq bot_apply bot_bool_def)
  qed
  have high: "\<not> bit f k" if "k \<ge> 10" for k
  proof -
    have "take_bit 10 f = f" using assms(2)
      by (simp add: take_bit_eq_mod word_unat_eq_iff unat_mod word_less_nat_alt)
    then show ?thesis using that by (metis bit_take_bit_iff not_le)
  qed
  show "bit (PTE2PA (PA2PTE p OR f)) n = bit p n"
  proof (cases "n < 12")
    case True
    then show ?thesis using low n by (simp add: PTE2PA_def bit_simps)
  next
    case False
    then have "n - 12 + 10 - 10 + 12 = n" "10 \<le> n - 12 + 10" "n - 12 + 10 < 64" using n by simp_all
    then show ?thesis using False n high [of "n - 12 + 10"]
      by (simp add: PTE2PA_def PA2PTE_def bit_simps add.commute)
  qed
qed

lemma PTE_V_value: "PTE_V = 1" by (simp add: PTE_V_def)

lemma PA2PTE_valid: "(PA2PTE p OR f OR PTE_V) AND PTE_V \<noteq> 0" "(PA2PTE p OR PTE_V) AND PTE_V \<noteq> 0"
proof -
  have "bit ((x OR PTE_V) AND PTE_V) 0" for x by (simp add: PTE_V_value bit_simps)
  then show "(PA2PTE p OR f OR PTE_V) AND PTE_V \<noteq> 0" "(PA2PTE p OR PTE_V) AND PTE_V \<noteq> 0"
    by (metis bit_0_eq bot_apply bot_bool_def or.assoc)+
qed

lemma PA2PTE_dir: "(PA2PTE p OR PTE_V) AND (PTE_R OR PTE_W OR PTE_X) = 0"
proof -
  have rwx: "PTE_R OR PTE_W OR PTE_X = take_bit 10 14"
    by (simp add: PTE_R_def PTE_W_def PTE_X_def take_bit_eq_mod)
  have "x AND take_bit 10 y = take_bit 10 x AND y" for x y :: u64
    by (auto intro!: bit_eqI simp: bit_simps)
  then have "(PA2PTE p OR PTE_V) AND take_bit 10 14 = take_bit 10 (PA2PTE p OR PTE_V) AND 14" .
  also have "take_bit 10 (PA2PTE p OR PTE_V) = 1"
    by (simp add: PA2PTE_def PTE_V_value take_bit_push_bit)
  finally show ?thesis by (simp only: rwx) simp
qed

lemma load64_zero_page:
  assumes "aligned q" "j < 512"
  shows "load64 (memset m q 0 PGSIZE) (slot q j) = 0"
proof -
  have "load64 (memset m q 0 PGSIZE) (slot q j) = load64 (\<lambda>_. 0) (slot q j)"
    by (rule load64_other_page) (simp_all add: slot_facts assms memset_page)
  also have "\<dots> = 0" by (simp add: load64_def upt_rec)
  finally show ?thesis .
qed

section \<open>The tree of table pages\<close>

fun tbl :: "memory \<Rightarrow> pagetable_t \<Rightarrow> u64 list \<Rightarrow> pagetable_t option" where
  "tbl m p [] = Some p"
| "tbl m p (i # is) =
     (let e = load64 m (slot p i) in if e AND PTE_V \<noteq> 0 then tbl m (PTE2PA e) is else None)"

definition path :: "u64 list \<Rightarrow> bool" where
  "path is \<longleftrightarrow> length is \<le> 2 \<and> (\<forall>i \<in> set is. i < 512)"

definition pt_pages :: "memory \<Rightarrow> pagetable_t \<Rightarrow> pagetable_t set" where
  "pt_pages m root = {p. \<exists>is. path is \<and> tbl m root is = Some p}"

definition pt_wf :: "u64 \<Rightarrow> memory \<Rightarrow> pagetable_t \<Rightarrow> bool" where
  "pt_wf e m root \<longleftrightarrow> (\<forall>p \<in> pt_pages m root. page_ok e p) \<and>
     (\<forall>is js p. path is \<longrightarrow> path js \<longrightarrow> tbl m root is = Some p \<longrightarrow> tbl m root js = Some p \<longrightarrow> is = js)"

text \<open>The entries above the bottom level are not leaves.\<close>

definition pt_dirs :: "memory \<Rightarrow> pagetable_t \<Rightarrow> bool" where
  "pt_dirs m root \<longleftrightarrow>
     (\<forall>is p i. path is \<longrightarrow> length is < 2 \<longrightarrow> tbl m root is = Some p \<longrightarrow> i < 512 \<longrightarrow>
        load64 m (slot p i) AND PTE_V \<noteq> 0 \<longrightarrow> load64 m (slot p i) AND (PTE_R OR PTE_W OR PTE_X) = 0)"

lemma tbl_snoc:
  "tbl m p (is @ [i]) =
     (case tbl m p is of None \<Rightarrow> None
      | Some q \<Rightarrow> (let e = load64 m (slot q i) in if e AND PTE_V \<noteq> 0 then Some (PTE2PA e) else None))"
  by (induction "is" arbitrary: p) (simp_all add: Let_def)

lemma tbl_append:
  "tbl m p (is @ js) = (case tbl m p is of None \<Rightarrow> None | Some q \<Rightarrow> tbl m q js)"
  by (induction "is" arbitrary: p) (simp_all add: Let_def)

lemma path_Nil [simp]: "path []" by (simp add: path_def)

lemma path_snocD: "path (is @ [i]) \<Longrightarrow> path is \<and> i < 512" by (simp add: path_def)

lemma root_in_pages [simp, intro]: "root \<in> pt_pages m root"
  unfolding pt_pages_def by (rule CollectI) (rule exI [of _ "[]"], simp)

lemma pt_pagesI: "path is \<Longrightarrow> tbl m root is = Some p \<Longrightarrow> p \<in> pt_pages m root"
  by (auto simp: pt_pages_def)

lemma pt_wf_page: "pt_wf e m root \<Longrightarrow> path is \<Longrightarrow> tbl m root is = Some p \<Longrightarrow> page_ok e p"
  using pt_pagesI by (simp add: pt_wf_def)

lemma pt_wf_inj:
  "pt_wf e m root \<Longrightarrow> path is \<Longrightarrow> path js \<Longrightarrow> tbl m root is = Some p \<Longrightarrow> tbl m root js = Some p \<Longrightarrow> is = js"
  by (auto simp: pt_wf_def)

text \<open>Memory that agrees on the table pages gives the same tree.\<close>

lemma tbl_frame:
  assumes "\<And>p. p \<in> pt_pages m root \<Longrightarrow> aligned p"
    and "\<And>a. PGROUNDDOWN a \<in> pt_pages m root \<Longrightarrow> m' a = m a" "path is"
  shows "tbl m' root is = tbl m root is"
  using assms(3)
proof (induction "is" rule: rev_induct)
  case (snoc i "is")
  show ?case
  proof (cases "tbl m root is")
    case (Some q)
    then have q: "q \<in> pt_pages m root" using path_snocD [OF snoc.prems] by (blast intro: pt_pagesI)
    have "load64 m' (slot q i) = load64 m (slot q i)"
      using assms(1,2) [of] q path_snocD [OF snoc.prems] assms
      by (intro load64_other_page) (auto simp: slot_facts)
    then show ?thesis using snoc path_snocD [OF snoc.prems] Some by (simp add: tbl_snoc)
  qed (use snoc path_snocD in \<open>auto simp: tbl_snoc\<close>)
qed simp

lemma pt_pages_cong: "(\<And>is. path is \<Longrightarrow> tbl m' root is = tbl m root is) \<Longrightarrow> pt_pages m' root = pt_pages m root"
  by (auto simp: pt_pages_def)

lemma pt_wf_cong:
  "(\<And>is. path is \<Longrightarrow> tbl m' root is = tbl m root is) \<Longrightarrow> pt_wf e m' root = pt_wf e m root"
  using pt_pages_cong [of m' root m] by (simp add: pt_wf_def)

section \<open>A store to one entry\<close>

text \<open>\<open>P\<close> leads to the page \<open>p\<close> whose entry \<open>i\<close> is overwritten.\<close>

lemma tbl_store:
  assumes wf: "pt_wf e m root" and P: "path P" "tbl m root P = Some p" and i: "i < 512"
    and Q: "path Q" "\<And>R. Q \<noteq> P @ i # R"
  shows "tbl (store64 m (slot p i) v) root Q = tbl m root Q"
  using Q
proof (induction Q rule: rev_induct)
  case (snoc j Q)
  have Qj: "path Q" "j < 512" using path_snocD [OF snoc.prems(1)] by auto
  have "Q \<noteq> P @ i # R" for R using snoc.prems(2) [of "R @ [j]"] by auto
  then have IH: "tbl (store64 m (slot p i) v) root Q = tbl m root Q" using snoc.IH Qj(1) by blast
  show ?case
  proof (cases "tbl m root Q")
    case (Some q)
    have al: "aligned p" "aligned q"
      using pt_wf_page [OF wf] P Qj(1) Some by (auto simp: page_ok_def)
    have "slot q j \<noteq> slot p i"
    proof
      assume "slot q j = slot p i"
      then have "q = p" "j = i" using slot_inj al Qj(2) i by blast+
      then have "Q = P" using pt_wf_inj [OF wf Qj(1) P(1)] Some P(2) by simp
      then show False using snoc.prems(2) [of "[]"] \<open>j = i\<close> by simp
    qed
    then have "load64 (store64 m (slot p i) v) (slot q j) = load64 m (slot q j)"
      using slot_facts(2) al Qj(2) i by (intro load64_store64_other) auto
    then show ?thesis using IH Some by (simp add: tbl_snoc)
  qed (use IH in \<open>simp add: tbl_snoc\<close>)
qed simp

lemma not_below: "length Q \<le> 2 \<Longrightarrow> length P = 2 \<Longrightarrow> Q \<noteq> P @ i # R"
  by auto

text \<open>An entry of a bottom table is not part of the tree.\<close>

lemma tbl_store_leaf:
  assumes "pt_wf e m root" "path P" "length P = 2" "tbl m root P = Some p" "i < 512" "path Q"
  shows "tbl (store64 m (slot p i) v) root Q = tbl m root Q"
  using assms not_below [of Q P i] by (intro tbl_store) (auto simp: path_def)

text \<open>A new, zeroed page hung below an unused entry.\<close>

lemma tbl_new_page:
  assumes wf: "pt_wf e m root" and P: "path P" "length P < 2" "tbl m root P = Some p" and i: "i < 512"
    and unused: "load64 m (slot p i) AND PTE_V = 0"
    and q: "page_ok e q" "q \<notin> pt_pages m root"
    and Q: "path Q"
  defines "m' \<equiv> store64 (memset m q 0 PGSIZE) (slot p i) (PA2PTE q OR PTE_V)"
  shows "tbl m' root Q = (if Q = P @ [i] then Some q else tbl m root Q)"
proof -
  have qa: "aligned q" using q(1) by (simp add: page_ok_def)
  let ?m = "memset m q 0 PGSIZE"
  have frame: "tbl ?m root is = tbl m root is" if "path is" for "is"
    using that wf q(2) by (intro tbl_frame) (auto simp: pt_wf_def page_ok_def memset_page qa)
  have wf': "pt_wf e ?m root" using wf pt_wf_cong [of ?m root m, OF frame] by simp
  have P': "tbl ?m root P = Some p" using frame P by simp
  have below: "tbl m root (P @ i # R) = None" for R
    using P(3) unused by (simp add: tbl_append)
  have pq: "p \<noteq> q" using q(2) pt_pagesI [OF P(1,3)] by auto
  have pa: "aligned p" using pt_wf_page [OF wf P(1,3)] by (simp add: page_ok_def)
  show ?thesis
  proof (cases "\<exists>R. Q = P @ i # R")
    case False
    then show ?thesis
      using tbl_store [OF wf' P(1) P' i Q] frame [OF Q] by (auto simp: m'_def)
  next
    case True
    then obtain R where R: "Q = P @ i # R" by blast
    have "P \<noteq> P @ i # S" for S by simp
    then have "tbl m' root P = Some p"
      using tbl_store [OF wf' P(1) P' i P(1)] P' by (simp add: m'_def)
    moreover have "load64 m' (slot p i) = PA2PTE q OR PTE_V" by (simp add: m'_def)
    ultimately have step: "tbl m' root Q = tbl m' q R"
      using PA2PTE_valid(2) [of q] PTE2PA_PA2PTE [OF qa, of PTE_V]
      by (simp add: R tbl_append PTE_V_value)
    have "tbl m' q R = None" if "R \<noteq> []"
    proof -
      obtain j S where j: "R = j # S" using \<open>R \<noteq> []\<close> by (cases R) auto
      then have j512: "j < 512" using Q R by (simp add: path_def)
      have "load64 m' (slot q j) = load64 ?m (slot q j)" unfolding m'_def
        using slot_inj [OF qa pa j512 i] pq slot_facts(2) [OF qa j512] slot_facts(2) [OF pa i]
        by (intro load64_store64_other) auto
      also have "\<dots> = 0" by (rule load64_zero_page [OF qa j512])
      finally show ?thesis by (simp add: j)
    qed
    then show ?thesis using step R below by (cases R) auto
  qed
qed

section \<open>Translations\<close>

definition leaf_path :: "u64 \<Rightarrow> u64 list" where
  "leaf_path va = [PX 2 va, PX 1 va]"

definition pte_slot :: "memory \<Rightarrow> pagetable_t \<Rightarrow> u64 \<Rightarrow> u64" where
  "pte_slot m root va = (case tbl m root (leaf_path va) of None \<Rightarrow> 0 | Some p \<Rightarrow> slot p (PX 0 va))"

definition pte_of :: "memory \<Rightarrow> pagetable_t \<Rightarrow> u64 \<Rightarrow> u64" where
  "pte_of m root va = (case tbl m root (leaf_path va) of None \<Rightarrow> 0 | Some p \<Rightarrow> load64 m (slot p (PX 0 va)))"

lemma path_leaf_path [simp]: "path (leaf_path va)" by (simp add: leaf_path_def path_def)

lemma length_leaf_path [simp]: "length (leaf_path va) = 2" by (simp add: leaf_path_def)

lemma two_levels: "(2 :: nat) = Suc (Suc 0)" by simp

lemma walk_levels_noalloc: "walk_levels 2 root va False s = Ok (pte_slot (mem s) root va, s)"
  by (simp add: two_levels pte_slot_def leaf_path_def Let_def)

lemma walk_noalloc: "va < MAXVA \<Longrightarrow> walk root va False s = Ok (pte_slot (mem s) root va, s)"
  using walk_levels_noalloc [of root va s] by (simp add: walk_def not_le [symmetric])

lemma pte_slot_0:
  assumes "pt_wf e m root"
  shows "pte_slot m root va = 0 \<longleftrightarrow> tbl m root (leaf_path va) = None"
proof (cases "tbl m root (leaf_path va)")
  case (Some p)
  then have "page_ok e p" using pt_wf_page [OF assms path_leaf_path] by blast
  then have "aligned p" "p \<noteq> 0" by (simp_all add: page_ok_def)
  then have "slot p (PX 0 va) \<noteq> 0"
    using slot_facts(1) [of p "PX 0 va"] by (auto simp: PGROUNDDOWN_def)
  then show ?thesis by (simp add: pte_slot_def Some)
qed (simp add: pte_slot_def)

lemma load_pte_slot: "pte_slot m root va \<noteq> 0 \<Longrightarrow> load64 m (pte_slot m root va) = pte_of m root va"
  by (auto simp: pte_slot_def pte_of_def split: option.splits)

text \<open>Two addresses of 39 bits use the same entry exactly when they are in the same page.\<close>

lemma bit_PX: "bit (PX l va) n \<longleftrightarrow> n < 9 \<and> bit va (12 + 9 * l + n)"
proof -
  have "PX l va = take_bit 9 (drop_bit (PXSHIFT l) va)"
    by (simp add: PX_def take_bit_eq_mask mask_eq_exp_minus_1)
  then show ?thesis by (simp add: bit_simps PXSHIFT_def)
qed

text \<open>The three index fields reach one bit further than \<^verbatim>\<open>MAXVA\<close>.\<close>

definition SV39 :: u64 where "SV39 = 0x8000000000"

lemma MAXVA_SV39: "va < MAXVA \<Longrightarrow> va < SV39"
  by (simp add: MAXVA_value SV39_def word_less_nat_alt)

lemma bit_above_SV39:
  assumes "va < SV39" "39 \<le> n"
  shows "\<not> bit va n"
proof -
  have "take_bit 39 va = va"
    using assms(1) by (simp add: take_bit_eq_mod SV39_def word_unat_eq_iff unat_mod word_less_nat_alt)
  then show ?thesis using assms(2) by (metis bit_take_bit_iff not_le)
qed

lemma bit_PGROUNDDOWN: "bit (PGROUNDDOWN a) n \<longleftrightarrow> 12 \<le> n \<and> bit a n"
proof -
  have "PGROUNDDOWN a = a AND NOT (mask 12)" by (simp add: PGROUNDDOWN_def mask_eq_exp_minus_1)
  then show ?thesis by (auto simp: bit_simps dest: bit_imp_le_length)
qed

lemma same_page_iff:
  assumes "va < SV39" "va' < SV39"
  shows "leaf_path va = leaf_path va' \<and> PX 0 va = PX 0 va' \<longleftrightarrow> PGROUNDDOWN va = PGROUNDDOWN va'"
proof
  assume eq: "leaf_path va = leaf_path va' \<and> PX 0 va = PX 0 va'"
  show "PGROUNDDOWN va = PGROUNDDOWN va'"
  proof (rule bit_eqI)
    fix n :: nat
    have lvl: "bit va (12 + 9 * l + k) = bit va' (12 + 9 * l + k)" if "l < 3" "k < 9" for l k
    proof -
      have "PX l va = PX l va'" using eq that(1) by (auto simp: leaf_path_def less_Suc_eq numeral_3_eq_3 numeral_2_eq_2)
      then show ?thesis using bit_PX [of l va k] bit_PX [of l va' k] that(2) by simp
    qed
    consider "n < 12" | "12 \<le> n" "n < 39" | "39 \<le> n" by linarith
    then show "bit (PGROUNDDOWN va) n = bit (PGROUNDDOWN va') n"
    proof cases
      case 2
      then have "12 + 9 * ((n - 12) div 9) + (n - 12) mod 9 = n" "(n - 12) div 9 < 3"
        by (auto simp: less_mult_imp_div_less)
      then have "bit va n = bit va' n" using lvl [of "(n - 12) div 9" "(n - 12) mod 9"] by simp
      then show ?thesis by (simp add: bit_PGROUNDDOWN)
    qed (use bit_above_SV39 [OF assms(1)] bit_above_SV39 [OF assms(2)] in \<open>simp_all add: bit_PGROUNDDOWN\<close>)
  qed
next
  assume eq: "PGROUNDDOWN va = PGROUNDDOWN va'"
  have "PX l va = PX l va'" for l
  proof (rule bit_eqI)
    fix n
    show "bit (PX l va) n = bit (PX l va') n"
      using bit_PGROUNDDOWN [of va "12 + 9 * l + n"] bit_PGROUNDDOWN [of va' "12 + 9 * l + n"] eq
      by (simp add: bit_PX)
  qed
  then show "leaf_path va = leaf_path va' \<and> PX 0 va = PX 0 va'" by (simp add: leaf_path_def)
qed

text \<open>Overwriting one entry of a bottom table changes one translation.\<close>

lemma pte_of_store_leaf:
  assumes wf: "pt_wf e m root" and some: "tbl m root (leaf_path va) = Some p"
    and va: "va < SV39" "va' < SV39"
  shows "pte_of (store64 m (slot p (PX 0 va)) v) root va' =
           (if PGROUNDDOWN va' = PGROUNDDOWN va then v else pte_of m root va')"
proof -
  let ?m = "store64 m (slot p (PX 0 va)) v"
  have tree: "tbl ?m root (leaf_path va') = tbl m root (leaf_path va')"
    using tbl_store_leaf [OF wf path_leaf_path length_leaf_path some PX_less path_leaf_path] .
  show ?thesis
  proof (cases "tbl m root (leaf_path va')")
    case None
    then have "leaf_path va' \<noteq> leaf_path va" using some by auto
    then show ?thesis
      using None tree same_page_iff [OF va(2,1)] by (auto simp: pte_of_def)
  next
    case (Some q)
    have al: "aligned p" "aligned q"
      using pt_wf_page [OF wf path_leaf_path] some Some by (auto simp: page_ok_def)
    have "slot q (PX 0 va') = slot p (PX 0 va) \<longleftrightarrow> leaf_path va' = leaf_path va \<and> PX 0 va' = PX 0 va"
      using slot_inj [OF al(2,1) PX_less PX_less, of 0 va' 0 va] some Some
        pt_wf_inj [OF wf path_leaf_path path_leaf_path] by auto
    then show ?thesis
      using Some tree same_page_iff [OF va(2,1)] slot_facts(2) [OF al(2) PX_less] slot_facts(2) [OF al(1) PX_less]
      by (auto simp: pte_of_def load64_store64_other)
  qed
qed

text \<open>A new page below an unused entry changes no translation.\<close>

lemma pte_of_new_page:
  assumes wf: "pt_wf e m root" and P: "path P" "length P < 2" "tbl m root P = Some p" and i: "i < 512"
    and unused: "load64 m (slot p i) AND PTE_V = 0"
    and q: "page_ok e q" "q \<notin> pt_pages m root"
  defines "m' \<equiv> store64 (memset m q 0 PGSIZE) (slot p i) (PA2PTE q OR PTE_V)"
  shows "pte_of m' root va = pte_of m root va"
proof -
  have tree: "tbl m' root (leaf_path va) = (if leaf_path va = P @ [i] then Some q else tbl m root (leaf_path va))"
    unfolding m'_def by (rule tbl_new_page [OF wf P i unused q path_leaf_path])
  have al: "aligned p" "aligned q"
    using pt_wf_page [OF wf P(1,3)] q(1) by (simp_all add: page_ok_def)
  have entry: "load64 m' (slot r j) = load64 (memset m q 0 PGSIZE) (slot r j)"
    if "aligned r" "r \<noteq> p" "j < 512" for r j
    unfolding m'_def using slot_inj [OF that(1) al(1) that(3) i] that slot_facts(2) al(1) i
    by (intro load64_store64_other) auto
  show ?thesis
  proof (cases "leaf_path va = P @ [i]")
    case True
    have "p \<noteq> q" using q(2) pt_pagesI [OF P(1,3)] by auto
    then have "load64 m' (slot q (PX 0 va)) = load64 (memset m q 0 PGSIZE) (slot q (PX 0 va))"
      using entry [OF al(2)] by simp
    also have "\<dots> = 0" by (rule load64_zero_page [OF al(2) PX_less])
    finally show ?thesis using True tree P(3) unused by (simp add: pte_of_def tbl_append)
  next
    case False
    show ?thesis
    proof (cases "tbl m root (leaf_path va)")
      case (Some r)
      have r: "r \<in> pt_pages m root" "aligned r"
        using pt_pagesI [OF path_leaf_path Some] pt_wf_page [OF wf path_leaf_path Some]
        by (simp_all add: page_ok_def)
      have "r \<noteq> p" using pt_wf_inj [OF wf P(1) path_leaf_path P(3), of va] Some P(2) by auto
      then have "load64 m' (slot r (PX 0 va)) = load64 (memset m q 0 PGSIZE) (slot r (PX 0 va))"
        using entry [OF r(2)] by simp
      also have "\<dots> = load64 m (slot r (PX 0 va))"
        using r q(2) by (intro load64_other_page) (auto simp: slot_facts memset_page al)
      finally show ?thesis using False tree Some by (simp add: pte_of_def)
    qed (use False tree in \<open>simp add: pte_of_def\<close>)
  qed
qed

section \<open>Growing a page table\<close>

text \<open>A table and the allocator, apart from each other.\<close>

definition as_inv :: "'a kmem_scheme \<Rightarrow> pagetable_t \<Rightarrow> u64 list \<Rightarrow> bool" where
  "as_inv s root ps \<longleftrightarrow> free_pages s ps \<and> kmem_ready s \<and> pt_wf (kend s) (mem s) root \<and>
     pt_pages (mem s) root \<inter> set ps = {} \<and> pt_dirs (mem s) root"

text \<open>From \<open>s\<close> to \<open>t\<close> the table has taken the pages \<open>us\<close> off the free list and keeps every
  translation; memory has changed in table pages only.\<close>

definition grown :: "pagetable_t \<Rightarrow> 'a kmem_scheme \<Rightarrow> u64 list \<Rightarrow> u64 list \<Rightarrow> 'a kmem_scheme \<Rightarrow> u64 list \<Rightarrow> bool" where
  "grown root s ps us t ps' \<longleftrightarrow> as_inv t root ps' \<and> ps = us @ ps' \<and>
     pt_pages (mem t) root = pt_pages (mem s) root \<union> set us \<and>
     (\<forall>is p. path is \<longrightarrow> tbl (mem s) root is = Some p \<longrightarrow> tbl (mem t) root is = Some p) \<and>
     (\<forall>va. pte_of (mem t) root va = pte_of (mem s) root va) \<and>
     (\<forall>a. PGROUNDDOWN a \<notin> pt_pages (mem s) root \<union> set us \<longrightarrow> mem t a = mem s a) \<and>
     held t = held s \<and> kend t = kend s \<and> kmem.more t = kmem.more s"

lemma grown_refl: "as_inv s root ps \<Longrightarrow> grown root s ps [] s ps"
  by (simp add: grown_def)

lemma grown_trans:
  assumes "grown root s ps us t ps'" "grown root t ps' vs u ps''"
  shows "grown root s ps (us @ vs) u ps''"
  using assms by (auto simp: grown_def)

lemma as_inv_page: "as_inv s root ps \<Longrightarrow> p \<in> set ps \<Longrightarrow> page_ok (kend s) p"
  by (simp add: as_inv_def free_pages_def)

lemma grow_step:
  assumes inv: "as_inv s root (q # ps)" and P: "path P" "length P < 2" "tbl (mem s) root P = Some p"
    and i: "i < 512" and unused: "load64 (mem s) (slot p i) AND PTE_V = 0"
  defines "s1 \<equiv> popped q s"
  defines "t \<equiv> s1\<lparr>mem := store64 (memset (mem s1) q 0 PGSIZE) (slot p i) (PA2PTE q OR PTE_V)\<rparr>"
  shows "kalloc s = Ok (q, s1)" "q \<noteq> 0" "grown root s (q # ps) [q] t ps" "tbl (mem t) root (P @ [i]) = Some q"
proof -
  have free: "free_pages s (q # ps)" and wf: "pt_wf (kend s) (mem s) root"
    and disj: "pt_pages (mem s) root \<inter> set (q # ps) = {}" and ready: "L_kmem \<notin> set (held s)"
    using inv by (auto simp: as_inv_def kmem_ready_def)
  have q: "page_ok (kend s) q" "q \<notin> pt_pages (mem s) root" "aligned q" "q \<notin> set ps"
    using free disj by (auto simp: free_pages_def page_ok_def)
  show "kalloc s = Ok (q, s1)" unfolding s1_def using kalloc_Cons [OF free ready] .
  show "q \<noteq> 0" using q(1) by (simp add: page_ok_def)
  have "memset (mem s1) q 0 PGSIZE = memset (mem s) q 0 PGSIZE"
    by (rule ext) (simp add: s1_def memset_page q popped_mem)
  then have mt: "mem t = store64 (memset (mem s) q 0 PGSIZE) (slot p i) (PA2PTE q OR PTE_V)"
    by (simp add: t_def)
  have tree: "tbl (mem t) root Q = (if Q = P @ [i] then Some q else tbl (mem s) root Q)" if "path Q" for Q
    unfolding mt by (rule tbl_new_page [OF wf P i unused q(1,2) that])
  have Pi: "path (P @ [i])" using P i by (auto simp: path_def)
  then show "tbl (mem t) root (P @ [i]) = Some q" by (simp add: tree)
  have none: "tbl (mem s) root (P @ [i]) = None" using P(3) unused by (simp add: tbl_append)
  have mono: "tbl (mem t) root is = Some x" if "path is" "tbl (mem s) root is = Some x" for "is" x
    using that tree none by auto
  have pages: "pt_pages (mem t) root = insert q (pt_pages (mem s) root)"
  proof
    show "pt_pages (mem t) root \<subseteq> insert q (pt_pages (mem s) root)"
      by (auto simp: pt_pages_def tree split: if_splits)
    show "insert q (pt_pages (mem s) root) \<subseteq> pt_pages (mem t) root"
      using mono pt_pagesI [OF Pi, of "mem t" root q] tree [OF Pi] by (auto simp: pt_pages_def)
  qed
  have wf': "pt_wf (kend s) (mem t) root"
    unfolding pt_wf_def pages using wf q(1,2) tree pt_pagesI
    by (auto simp: pt_wf_def split: if_splits)
  have p: "p \<in> pt_pages (mem s) root" "aligned p"
    using pt_pagesI [OF P(1,3)] pt_wf_page [OF wf P(1,3)] by (simp_all add: page_ok_def)
  have outside: "mem t a = mem s a" if "PGROUNDDOWN a \<notin> insert q (pt_pages (mem s) root)" for a
    unfolding mt using that p slot_facts [OF p(2) i]
    by (subst store64_other_page) (auto simp: memset_page q)
  have "free_pages t ps"
  proof (rule free_pages_frame [OF popped_free_pages [OF free]])
    fix a
    assume "PGROUNDDOWN a \<in> set ps"
    then have "PGROUNDDOWN a \<notin> insert q (pt_pages (mem s) root)" using disj q(4) by auto
    then show "mem t a = mem (popped q s) a" by (simp add: outside popped_mem q(3))
  qed (simp_all add: t_def s1_def)
  moreover have "kmem_ready t" using ready by (simp add: kmem_ready_def t_def s1_def)
  moreover have "pt_dirs (mem t) root"
  proof -
    have dirs: "pt_dirs (mem s) root" using inv by (simp add: as_inv_def)
    have "load64 (mem t) (slot r j) AND (PTE_R OR PTE_W OR PTE_X) = 0"
      if r: "path is" "length is < 2" "tbl (mem t) root is = Some r" "j < 512"
        "load64 (mem t) (slot r j) AND PTE_V \<noteq> 0" for "is" r j
    proof (cases "r = p \<and> j = i")
      case True
      then show ?thesis by (simp add: mt PA2PTE_dir)
    next
      case False
      have al: "aligned r" using pt_wf_page [OF wf' r(1,3)] by (simp add: page_ok_def)
      have "slot r j \<noteq> slot p i" using slot_inj [OF al p(2) r(4) i] False by auto
      then have e: "load64 (mem t) (slot r j) = load64 (memset (mem s) q 0 PGSIZE) (slot r j)"
        unfolding mt using slot_facts(2) al p(2) r(4) i by (intro load64_store64_other) auto
      have "r \<noteq> q" using e load64_zero_page [OF q(3) r(4)] r(5) by auto
      then have "tbl (mem s) root is = Some r" using tree [OF r(1)] r(3) by (auto split: if_splits)
      moreover have "load64 (memset (mem s) q 0 PGSIZE) (slot r j) = load64 (mem s) (slot r j)"
        using \<open>r \<noteq> q\<close> by (intro load64_other_page) (auto simp: slot_facts al r(4) memset_page q(3))
      ultimately show ?thesis using dirs r e unfolding pt_dirs_def by metis
    qed
    then show ?thesis unfolding pt_dirs_def by blast
  qed
  ultimately have "as_inv t root ps"
    using wf' pages disj q by (auto simp: as_inv_def t_def s1_def)
  moreover have "pte_of (mem t) root va = pte_of (mem s) root va" for va
    unfolding mt by (rule pte_of_new_page [OF wf P i unused q(1,2)])
  ultimately show "grown root s (q # ps) [q] t ps"
    unfolding grown_def using pages outside tree none by (auto simp: t_def s1_def)
qed

text \<open>One level of \<^verbatim>\<open>walk(.., 1)\<close>: either memory has run out, or the walk goes on one level down.\<close>

lemma walk_level_alloc:
  assumes inv: "as_inv s root ps" and P: "path P" "length P < 2" "tbl (mem s) root P = Some p"
  shows "ps = [] \<and> walk_levels (Suc l) p va True s = Ok (0, s) \<or>
    (\<exists>t us ps' q. walk_levels (Suc l) p va True s = walk_levels l q va True t \<and>
        grown root s ps us t ps' \<and> length us \<le> 1 \<and> tbl (mem t) root (P @ [PX (Suc l) va]) = Some q)"
proof -
  let ?e = "load64 (mem s) (slot p (PX (Suc l) va))"
  show ?thesis
  proof (cases "?e AND PTE_V = 0")
    case False
    then have "tbl (mem s) root (P @ [PX (Suc l) va]) = Some (PTE2PA ?e)" using P by (simp add: tbl_snoc Let_def)
    moreover have "walk_levels (Suc l) p va True s = walk_levels l (PTE2PA ?e) va True s"
      using False by (simp add: Let_def)
    ultimately show ?thesis using grown_refl [OF inv] by (metis le0 list.size(3))
  next
    case True
    show ?thesis
    proof (cases ps)
      case Nil
      then have "kalloc s = Ok (0, s)" using inv by (intro kalloc_Nil) (auto simp: as_inv_def kmem_ready_def)
      then show ?thesis using True Nil by (simp add: Let_def)
    next
      case (Cons q qs)
      note g = grow_step [OF inv [unfolded Cons] P PX_less True]
      have "walk_levels (Suc l) p va True s = walk_levels l q va True
         ((popped q s)\<lparr>mem := store64 (memset (mem (popped q s)) q 0 PGSIZE) (slot p (PX (Suc l) va)) (PA2PTE q OR PTE_V)\<rparr>)"
        using True g(1,2) by (simp add: Let_def)
      moreover have "length [q] \<le> 1" by simp
      ultimately show ?thesis using g(3,4) Cons by blast
    qed
  qed
qed

lemma walk_alloc:
  assumes inv: "as_inv s root ps" and va: "va < MAXVA"
  obtains (none) t us where "walk root va True s = Ok (0, t)" "grown root s ps us t []" "length us \<le> 1"
  | (some) t us ps' p where "walk root va True s = Ok (slot p (PX 0 va), t)" "grown root s ps us t ps'"
      "tbl (mem t) root (leaf_path va) = Some p" "slot p (PX 0 va) \<noteq> 0" "length us \<le> 2"
proof -
  have w: "walk root va True s = walk_levels (Suc 1) root va True s"
    using va by (simp add: walk_def not_le [symmetric] numeral_2_eq_2)
  have len: "length ([] :: u64 list) < 2" "length [PX 2 va] < 2" "path [PX 2 va]" by (simp_all add: path_def)
  from walk_level_alloc [OF inv path_Nil len(1) tbl.simps(1), of 1 va] show thesis
  proof (elim disjE exE conjE)
    assume "ps = []" "walk_levels (Suc 1) root va True s = Ok (0, s)"
    then show thesis using none [of s "[]"] w grown_refl [OF inv] by auto
  next
    fix t us ps' q
    assume 1: "walk_levels (Suc 1) root va True s = walk_levels 1 q va True t"
      "grown root s ps us t ps'" "tbl (mem t) root ([] @ [PX (Suc 1) va]) = Some q" "length us \<le> 1"
    have inv': "as_inv t root ps'" using 1(2) by (simp add: grown_def)
    have q: "tbl (mem t) root [PX 2 va] = Some q" using 1(3) by (simp add: numeral_2_eq_2)
    from walk_level_alloc [OF inv' len(3,2) q, of 0 va] show thesis
    proof (elim disjE exE conjE)
      assume "ps' = []" "walk_levels (Suc 0) q va True t = Ok (0, t)"
      then show thesis using none w 1(1,2,4) by simp
    next
      fix u vs ps'' r
      assume 2: "walk_levels (Suc 0) q va True t = walk_levels 0 r va True u"
        "grown root t ps' vs u ps''" "tbl (mem u) root ([PX 2 va] @ [PX (Suc 0) va]) = Some r" "length vs \<le> 1"
      have r: "tbl (mem u) root (leaf_path va) = Some r" using 2(3) by (simp add: leaf_path_def)
      have "pt_wf (kend u) (mem u) root" using 2(2) unfolding grown_def as_inv_def by blast
      then have "slot r (PX 0 va) \<noteq> 0" using pte_slot_0 [of _ "mem u" root va] r by (simp add: pte_slot_def)
      then show thesis using some [of r u "us @ vs" ps''] grown_trans [OF 1(2) 2(2)] w 1(1,4) 2(1,4) r by simp
    qed
  qed
qed

section \<open>\<^verbatim>\<open>mappages\<close>\<close>

text \<open>Storing the entry of \<open>va\<close> in a table that has a place for it.\<close>

lemma set_pte:
  fixes s :: "'a kmem_scheme" and v :: u64
  assumes inv: "as_inv s root ps" and some: "tbl (mem s) root (leaf_path va) = Some p"
    and va: "va < MAXVA"
  defines "t \<equiv> s\<lparr>mem := store64 (mem s) (slot p (PX 0 va)) v\<rparr>"
  shows "as_inv t root ps" "pt_pages (mem t) root = pt_pages (mem s) root"
    "\<And>va'. va' < SV39 \<Longrightarrow>
       pte_of (mem t) root va' = (if PGROUNDDOWN va' = PGROUNDDOWN va then v else pte_of (mem s) root va')"
    "\<And>a. PGROUNDDOWN a \<notin> pt_pages (mem s) root \<Longrightarrow> mem t a = mem s a"
proof -
  have wf: "pt_wf (kend s) (mem s) root" and disj: "pt_pages (mem s) root \<inter> set ps = {}"
    using inv by (auto simp: as_inv_def)
  have tree: "tbl (mem t) root Q = tbl (mem s) root Q" if "path Q" for Q
    using tbl_store_leaf [OF wf path_leaf_path length_leaf_path some PX_less that] by (simp add: t_def)
  show pages: "pt_pages (mem t) root = pt_pages (mem s) root" by (rule pt_pages_cong) (rule tree)
  have p: "p \<in> pt_pages (mem s) root" "aligned p"
    using pt_pagesI [OF path_leaf_path some] pt_wf_page [OF wf path_leaf_path some]
    by (simp_all add: page_ok_def)
  show out: "mem t a = mem s a" if "PGROUNDDOWN a \<notin> pt_pages (mem s) root" for a
    using that p slot_facts [OF p(2) PX_less] by (simp add: t_def) (subst store64_other_page; auto)
  have "free_pages s ps" using inv by (simp add: as_inv_def)
  then have "free_pages t ps"
    by (rule free_pages_frame) (use out disj in \<open>auto simp: t_def\<close>)
  moreover have "pt_wf (kend s) (mem t) root" using wf pt_wf_cong [of "mem t" root "mem s", OF tree] by simp
  moreover have "pt_dirs (mem t) root"
  proof -
    have "load64 (mem t) (slot r j) = load64 (mem s) (slot r j)"
      if r: "path is" "length is < 2" "tbl (mem s) root is = Some r" "j < 512" for "is" r j
    proof -
      have al: "aligned r" using pt_wf_page [OF wf r(1,3)] by (simp add: page_ok_def)
      have "r \<noteq> p" using pt_wf_inj [OF wf r(1) path_leaf_path r(3), of va] some r(2) by auto
      then have "slot r j \<noteq> slot p (PX 0 va)" using slot_inj [OF al p(2) r(4) PX_less] by blast
      then show ?thesis
        using slot_facts(2) al p(2) r(4) by (simp add: t_def load64_store64_other)
    qed
    moreover have "pt_dirs (mem s) root" using inv by (simp add: as_inv_def)
    ultimately show ?thesis unfolding pt_dirs_def using tree by metis
  qed
  ultimately show "as_inv t root ps"
    using inv pages by (simp add: as_inv_def kmem_ready_def) (simp add: t_def)
  show "pte_of (mem t) root va' = (if PGROUNDDOWN va' = PGROUNDDOWN va then v else pte_of (mem s) root va')"
    if "va' < SV39" for va'
    unfolding t_def using pte_of_store_leaf [OF wf some MAXVA_SV39 [OF va] that] by simp
qed

lemma page_index:
  assumes "aligned a" "unat a + 4096 * n \<le> 2 ^ 38" "k < n"
  shows "unat (a + of_nat (4096 * k)) = unat a + 4096 * k" "aligned (a + of_nat (4096 * k))"
    "a + of_nat (4096 * k) < MAXVA"
proof -
  have lt: "unat a + 4096 * k < 2 ^ 38" using assms(2,3) by linarith
  then have "unat (of_nat (4096 * k) :: u64) = 4096 * k" by (subst unat_of_nat) simp
  then show eq: "unat (a + of_nat (4096 * k)) = unat a + 4096 * k"
    using lt by (subst unat_plus_if') simp
  show "a + of_nat (4096 * k) < MAXVA" using lt eq by (simp add: MAXVA_value word_less_nat_alt)
  show "aligned (a + of_nat (4096 * k))" using assms(1) eq by (simp add: aligned_iff_unat)
qed

text \<open>Address \<open>va\<close> is in one of the \<open>n\<close> pages from \<open>a\<close> on.\<close>

definition in_pages :: "u64 \<Rightarrow> nat \<Rightarrow> u64 \<Rightarrow> bool" where
  "in_pages a n va \<longleftrightarrow> unat a \<le> unat va \<and> unat va < unat a + 4096 * n"

lemma in_pages_Suc:
  assumes "aligned a" "unat a + 4096 * Suc n \<le> 2 ^ 38"
  shows "in_pages a (Suc n) va \<longleftrightarrow> PGROUNDDOWN va = a \<or> in_pages (a + 4096) n va"
proof -
  have nxt: "unat (a + 4096) = unat a + 4096" using assms(2) by (subst unat_plus_if') simp
  have "PGROUNDDOWN va = a \<longleftrightarrow> unat a \<le> unat va \<and> unat va < unat a + 4096"
    unfolding PGROUNDDOWN_eq_iff [OF assms(1)] using u64_bound [of va] u64_bound [of a] assms(2)
    by (auto simp: unat_sub_if' split: if_splits)
  then show ?thesis unfolding in_pages_def nxt by auto
qed

lemma in_pages_base: "aligned a \<Longrightarrow> unat a + 4096 * Suc n \<le> 2 ^ 38 \<Longrightarrow> in_pages (a + 4096) n va \<Longrightarrow> PGROUNDDOWN va \<noteq> a"
proof
  assume *: "aligned a" "unat a + 4096 * Suc n \<le> 2 ^ 38" "in_pages (a + 4096) n va" "PGROUNDDOWN va = a"
  have "unat (a + 4096) = unat a + 4096" using *(2) by (subst unat_plus_if') simp
  then have "unat a + 4096 \<le> unat va" using *(3) by (simp add: in_pages_def)
  moreover have "unat (va - a) < 4096" using *(4) PGROUNDDOWN_eq_iff [OF *(1)] by simp
  ultimately show False by (simp add: unat_sub_if')
qed

text \<open>What a successful or failed \<^verbatim>\<open>mappages\<close> over the \<open>n + 1\<close> pages from \<open>a\<close> on leaves behind.\<close>

definition mapped :: "pagetable_t \<Rightarrow> u64 \<Rightarrow> nat \<Rightarrow> u64 \<Rightarrow> u64 \<Rightarrow> 'a kmem_scheme \<Rightarrow> 'a kmem_scheme \<Rightarrow> bool" where
  "mapped root a n pa perm s t \<longleftrightarrow>
     (\<forall>va. va < SV39 \<longrightarrow> pte_of (mem t) root va =
        (if in_pages a n va then PA2PTE (pa + (PGROUNDDOWN va - a)) OR perm OR PTE_V
         else pte_of (mem s) root va))"

definition table_frame :: "pagetable_t \<Rightarrow> 'a kmem_scheme \<Rightarrow> u64 list \<Rightarrow> 'a kmem_scheme \<Rightarrow> u64 list \<Rightarrow> bool" where
  "table_frame root s ps t ps' \<longleftrightarrow> as_inv t root ps' \<and>
     (\<exists>us. ps = us @ ps' \<and> pt_pages (mem t) root = pt_pages (mem s) root \<union> set us \<and>
       (\<forall>a. PGROUNDDOWN a \<notin> pt_pages (mem s) root \<union> set us \<longrightarrow> mem t a = mem s a)) \<and>
     held t = held s \<and> kend t = kend s \<and> kmem.more t = kmem.more s"

lemma grown_table_frame: "grown root s ps us t ps' \<Longrightarrow> table_frame root s ps t ps'"
  by (auto simp: grown_def table_frame_def)

lemma table_frame_trans:
  assumes "table_frame root s ps t ps'" "table_frame root t ps' u ps''"
  shows "table_frame root s ps u ps''"
proof -
  obtain us where us: "ps = us @ ps'" "pt_pages (mem t) root = pt_pages (mem s) root \<union> set us"
    "\<forall>a. PGROUNDDOWN a \<notin> pt_pages (mem s) root \<union> set us \<longrightarrow> mem t a = mem s a"
    using assms(1) by (auto simp: table_frame_def)
  obtain vs where vs: "ps' = vs @ ps''" "pt_pages (mem u) root = pt_pages (mem t) root \<union> set vs"
    "\<forall>a. PGROUNDDOWN a \<notin> pt_pages (mem t) root \<union> set vs \<longrightarrow> mem u a = mem t a"
    using assms(2) by (auto simp: table_frame_def)
  have "ps = (us @ vs) @ ps''" "pt_pages (mem u) root = pt_pages (mem s) root \<union> set (us @ vs)"
    "\<forall>a. PGROUNDDOWN a \<notin> pt_pages (mem s) root \<union> set (us @ vs) \<longrightarrow> mem u a = mem s a"
    using us vs by auto
  with assms show ?thesis unfolding table_frame_def by metis
qed

lemma set_pte_frame:
  assumes "as_inv s root ps" "tbl (mem s) root (leaf_path va) = Some p" "va < MAXVA"
  shows "table_frame root s ps (s\<lparr>mem := store64 (mem s) (slot p (PX 0 va)) v\<rparr>) ps"
  using set_pte [OF assms, where v = v] by (auto simp: table_frame_def)

lemma mappages_loop_spec:
  assumes "as_inv s root ps" "aligned a" "unat a + 4096 * Suc n \<le> 2 ^ 38"
    and "\<forall>va. in_pages a (Suc n) va \<longrightarrow> pte_of (mem s) root va AND PTE_V = 0"
  shows "\<exists>r t ps'. mappages_loop root a (a + of_nat (4096 * n)) pa perm s = Ok (r, t) \<and>
           table_frame root s ps t ps' \<and>
           (r = 0 \<and> mapped root a (Suc n) pa perm s t \<or> r = -1 \<and> ps' = [] \<and> length ps \<le> 2 * Suc n)"
  using assms
proof (induction n arbitrary: a pa s ps)
  case 0
  have a: "a < MAXVA" "PGROUNDDOWN a = a" using page_index(3) [OF 0(2,3), of 0] 0(2) by simp_all
  have in0: "in_pages a (Suc 0) va \<longleftrightarrow> PGROUNDDOWN va = a" for va
    using in_pages_Suc [OF 0(2,3)] by (auto simp: in_pages_def)
  show ?case
  proof (cases rule: walk_alloc [OF 0(1) a(1)])
    case (1 t us)
    then have "length ps \<le> 1" by (simp add: grown_def)
    with 1 show ?thesis by (subst mappages_loop.simps) (auto intro: grown_table_frame)
  next
    case (2 t us ps' p)
    have inv: "as_inv t root ps'" and pt: "\<And>va. pte_of (mem t) root va = pte_of (mem s) root va"
      using 2(2) by (auto simp: grown_def)
    have "load64 (mem t) (slot p (PX 0 a)) = pte_of (mem s) root a"
      using 2(3) pt [of a] by (simp add: pte_of_def)
    then have unused: "load64 (mem t) (slot p (PX 0 a)) AND PTE_V = 0" using 0(4) in0 [of a] a by simp
    let ?v = "PA2PTE pa OR perm OR PTE_V"
    let ?t = "t\<lparr>mem := store64 (mem t) (slot p (PX 0 a)) ?v\<rparr>"
    have "mappages_loop root a (a + of_nat (4096 * 0)) pa perm s = Ok (0, ?t)"
      using 2(1,4) unused by (subst mappages_loop.simps) simp
    moreover have "mapped root a (Suc 0) pa perm s ?t"
      using set_pte(3) [OF inv 2(3) a(1), where v = ?v] pt by (simp add: mapped_def in0 a(2))
    ultimately show ?thesis
      using table_frame_trans [OF grown_table_frame [OF 2(2)] set_pte_frame [OF inv 2(3) a(1)]] by blast
  qed
next
  case (Suc n)
  have a: "a < MAXVA" "PGROUNDDOWN a = a" using page_index(3) [OF Suc.prems(2,3), of 0] Suc.prems(2) by simp_all
  note split = in_pages_Suc [OF Suc.prems(2,3)]
  show ?case
  proof (cases rule: walk_alloc [OF Suc.prems(1) a(1)])
    case (1 t us)
    then have "length ps \<le> 1" by (simp add: grown_def)
    with 1 show ?thesis by (subst mappages_loop.simps) (auto intro: grown_table_frame)
  next
    case (2 t us ps' p)
    have inv: "as_inv t root ps'" and pt: "\<And>va. pte_of (mem t) root va = pte_of (mem s) root va"
      using 2(2) by (auto simp: grown_def)
    have "load64 (mem t) (slot p (PX 0 a)) = pte_of (mem s) root a"
      using 2(3) pt [of a] by (simp add: pte_of_def)
    then have unused: "load64 (mem t) (slot p (PX 0 a)) AND PTE_V = 0"
      using Suc.prems(4) split [of a] a by simp
    let ?v = "PA2PTE pa OR perm OR PTE_V"
    let ?t = "t\<lparr>mem := store64 (mem t) (slot p (PX 0 a)) ?v\<rparr>"
    note upd = set_pte [OF inv 2(3) a(1), where v = ?v]
    have a': "unat (a + 4096) = unat a + 4096" using Suc.prems(3) by (subst unat_plus_if') simp
    then have range: "unat (a + 4096) + 4096 * Suc n \<le> 2 ^ 38" using Suc.prems(3) by simp
    have fin: "a + of_nat (4096 * Suc n) = a + 4096 + of_nat (4096 * n)" by simp
    have below: "va < SV39" if "in_pages (a + 4096) (Suc n) va" for va
      using that range by (simp add: in_pages_def SV39_def word_less_nat_alt)
    have "\<forall>va. in_pages (a + 4096) (Suc n) va \<longrightarrow> pte_of (mem ?t) root va AND PTE_V = 0"
      using upd(3) Suc.prems(4) split pt in_pages_base [OF Suc.prems(2,3)] a(2) below by auto
    from Suc.IH [OF upd(1) aligned_add_page [OF Suc.prems(2)] range this, of "pa + 4096"]
    obtain r u ps'' where IH: "mappages_loop root (a + 4096) (a + 4096 + of_nat (4096 * n)) (pa + 4096) perm ?t = Ok (r, u)"
      "table_frame root ?t ps' u ps''"
      "r = 0 \<and> mapped root (a + 4096) (Suc n) (pa + 4096) perm ?t u \<or> r = -1 \<and> ps'' = [] \<and> length ps' \<le> 2 * Suc n"
      by blast
    have "length ps \<le> 2 + length ps'" using 2(2,5) by (simp add: grown_def)
    have "a \<noteq> a + of_nat (4096 * Suc n)"
    proof
      assume "a = a + of_nat (4096 * Suc n)"
      then have "unat (a + of_nat (4096 * Suc n)) = unat a" by simp
      then show False using page_index(1) [OF Suc.prems(2,3), of "Suc n"] by simp
    qed
    then have run: "mappages_loop root a (a + of_nat (4096 * Suc n)) pa perm s = Ok (r, u)"
      using 2(1,4) unused IH(1) unfolding fin [symmetric] by (subst mappages_loop.simps) (simp add: Let_def)
    have "mapped root a (Suc (Suc n)) pa perm s u" if "r = 0"
    proof -
      have "mapped root (a + 4096) (Suc n) (pa + 4096) perm ?t u" using IH(3) that by auto
      then show ?thesis
        unfolding mapped_def using upd(3) pt split in_pages_base [OF Suc.prems(2,3)] a(2)
        by (auto simp: algebra_simps)
    qed
    then have "r = 0 \<and> mapped root a (Suc (Suc n)) pa perm s u \<or> r = -1 \<and> ps'' = [] \<and> length ps \<le> 2 * Suc (Suc n)"
      using IH(3) \<open>length ps \<le> 2 + length ps'\<close> by auto
    then show ?thesis
      using run IH(2) table_frame_trans [OF grown_table_frame [OF 2(2)] set_pte_frame [OF inv 2(3) a(1)]]
        table_frame_trans by blast
  qed
qed

end
