(* ===== verification/User_Memory.thy ===== *)
theory User_Memory
  imports Page_Table
begin

text \<open>
  User address spaces: what \<^verbatim>\<open>uvmcreate\<close>, \<^verbatim>\<open>uvmalloc\<close>, \<^verbatim>\<open>uvmdealloc\<close>, \<^verbatim>\<open>uvmcopy\<close> and \<^verbatim>\<open>uvmfree\<close> do to the
  pages a process owns, and what \<^verbatim>\<open>copyin\<close> and \<^verbatim>\<open>copyout\<close> read and write through its page table.
\<close>

section \<open>Changes outside a page table\<close>

lemma store_slot_outside:
  "aligned p \<Longrightarrow> i < 512 \<Longrightarrow> PGROUNDDOWN a \<noteq> p \<Longrightarrow> store64 m (slot p i) v a = m a"
  using slot_facts by (intro store64_other_page) auto

lemma pte_of_frame:
  assumes "\<And>p. p \<in> pt_pages m root \<Longrightarrow> aligned p"
    and "\<And>a. PGROUNDDOWN a \<in> pt_pages m root \<Longrightarrow> m' a = m a"
  shows "pte_of m' root va = pte_of m root va"
proof (cases "tbl m root (leaf_path va)")
  case None
  then show ?thesis using tbl_frame [OF assms path_leaf_path] by (simp add: pte_of_def)
next
  case (Some p)
  have p: "p \<in> pt_pages m root" using pt_pagesI [OF path_leaf_path Some] .
  have "load64 m' (slot p (PX 0 va)) = load64 m (slot p (PX 0 va))"
    using assms p by (intro load64_other_page) (auto simp: slot_facts)
  then show ?thesis using Some tbl_frame [OF assms path_leaf_path] by (simp add: pte_of_def)
qed

lemma pt_dirs_frame:
  assumes al: "\<And>p. p \<in> pt_pages m root \<Longrightarrow> aligned p"
    and fr: "\<And>a. PGROUNDDOWN a \<in> pt_pages m root \<Longrightarrow> m' a = m a" and "pt_dirs m root"
  shows "pt_dirs m' root"
proof -
  have same: "tbl m root is = Some p \<and> load64 m' (slot p i) = load64 m (slot p i)"
    if "path is" "tbl m' root is = Some p" "i < 512" for "is" p i
  proof -
    have "tbl m root is = Some p" using tbl_frame [OF al fr that(1)] that(2) by simp
    moreover from this have "p \<in> pt_pages m root" using pt_pagesI [OF that(1)] by blast
    then have "load64 m' (slot p i) = load64 m (slot p i)"
      using al fr that(3) by (intro load64_other_page) (auto simp: slot_facts)
    ultimately show ?thesis by blast
  qed
  show ?thesis
    unfolding pt_dirs_def
  proof (intro allI impI)
    fix "is" p i
    assume a: "path is" "length is < 2" "tbl m' root is = Some p" "i < 512" "load64 m' (slot p i) AND PTE_V \<noteq> 0"
    show "load64 m' (slot p i) AND (PTE_R OR PTE_W OR PTE_X) = 0"
      using assms(3) [unfolded pt_dirs_def, rule_format, of "is" p i] same [OF a(1,3,4)] a by simp
  qed
qed

lemma as_inv_aligned: "as_inv s root ps \<Longrightarrow> p \<in> pt_pages (mem s) root \<Longrightarrow> aligned p"
  by (auto simp: as_inv_def pt_wf_def page_ok_def)

lemma as_inv_frame:
  assumes inv: "as_inv s root ps"
    and fr: "\<And>a. PGROUNDDOWN a \<in> pt_pages (mem s) root \<Longrightarrow> mem t a = mem s a"
    and t: "free_pages t ps'" "kmem_ready t" "kend t = kend s" "pt_pages (mem s) root \<inter> set ps' = {}"
  shows "as_inv t root ps'" "pt_pages (mem t) root = pt_pages (mem s) root"
    "pte_of (mem t) root va = pte_of (mem s) root va"
    "path is \<Longrightarrow> tbl (mem t) root is = tbl (mem s) root is"
proof -
  note al = as_inv_aligned [OF inv]
  have tree: "tbl (mem t) root is = tbl (mem s) root is" if "path is" for "is"
    by (rule tbl_frame [OF al fr that])
  show pages: "pt_pages (mem t) root = pt_pages (mem s) root" by (rule pt_pages_cong) (rule tree)
  show "pte_of (mem t) root va = pte_of (mem s) root va" by (rule pte_of_frame [OF al fr])
  have "pt_dirs (mem t) root" using inv by (intro pt_dirs_frame [OF al fr]) (auto simp: as_inv_def)
  then show "as_inv t root ps'"
    using inv t pages pt_wf_cong [of "mem t" root "mem s", OF tree] by (simp add: as_inv_def)
qed (rule tbl_frame [OF as_inv_aligned [OF inv] fr])

text \<open>Releasing a page that is neither free nor part of the table.\<close>

lemma as_inv_pushed:
  assumes inv: "as_inv s root ps" and u: "page_ok (kend s) u" "u \<notin> set ps" "u \<notin> pt_pages (mem s) root"
  shows "kfree u s = Ok (pushed u s)" "as_inv (pushed u s) root (u # ps)"
    "pt_pages (mem (pushed u s)) root = pt_pages (mem s) root"
    "pte_of (mem (pushed u s)) root va = pte_of (mem s) root va"
    "path is \<Longrightarrow> tbl (mem (pushed u s)) root is = tbl (mem s) root is"
proof -
  have fr: "mem (pushed u s) a = mem s a" if "PGROUNDDOWN a \<in> pt_pages (mem s) root" for a
    using that u by (intro pushed_mem) (auto simp: page_ok_def)
  have s: "free_pages s ps" "kmem_ready s" "pt_pages (mem s) root \<inter> set ps = {}"
    using inv by (simp_all add: as_inv_def)
  show "kfree u s = Ok (pushed u s)" using s(2) by (intro kfree_Ok [OF u(1)]) (simp add: kmem_ready_def)
  have t: "free_pages (pushed u s) (u # ps)" "kmem_ready (pushed u s)"
    "pt_pages (mem s) root \<inter> set (u # ps) = {}"
    using pushed_free_pages [OF s(1) u(1,2)] s u by (auto simp: kmem_ready_def)
  note * = as_inv_frame [OF inv fr t(1,2) pushed_fields(2) t(3)]
  show "as_inv (pushed u s) root (u # ps)" "pt_pages (mem (pushed u s)) root = pt_pages (mem s) root"
    "pte_of (mem (pushed u s)) root va = pte_of (mem s) root va"
    "path is \<Longrightarrow> tbl (mem (pushed u s)) root is = tbl (mem s) root is"
    using * by blast+
qed

section \<open>A new address space\<close>

lemma fresh_table:
  assumes free: "free_pages s (q # ps)" and ready: "kmem_ready s"
  defines "t \<equiv> (popped q s)\<lparr>mem := memset (mem (popped q s)) q 0 PGSIZE\<rparr>"
  shows "uvmcreate s = Ok (q, t)" "as_inv t q ps" "pt_pages (mem t) q = {q}" "pte_of (mem t) q va = 0"
    "\<And>a. PGROUNDDOWN a \<noteq> q \<Longrightarrow> mem t a = mem s a"
proof -
  have q: "page_ok (kend s) q" "q \<noteq> 0" "aligned q" "q \<notin> set ps"
    using free by (auto simp: free_pages_def page_ok_def)
  show "uvmcreate s = Ok (q, t)"
    using kalloc_Cons [OF free] ready q(2) by (simp add: uvmcreate_def kmem_ready_def t_def)
  have zero: "load64 (mem t) (slot q i) = 0" if "i < 512" for i
    using load64_zero_page [OF q(3) that] by (simp add: t_def)
  have tree: "tbl (mem t) q is = (if is = [] then Some q else None)" if "path is" for "is"
    using that by (cases "is") (simp_all add: zero path_def)
  then show pages: "pt_pages (mem t) q = {q}"
    by (auto simp: pt_pages_def split: if_splits) (metis path_Nil)
  show out: "mem t a = mem s a" if "PGROUNDDOWN a \<noteq> q" for a
    using that by (simp add: t_def memset_page q popped_mem)
  have "free_pages t ps"
  proof (rule free_pages_frame [OF popped_free_pages [OF free]])
    show "mem t a = mem (popped q s) a" if "PGROUNDDOWN a \<in> set ps" for a
      using that q by (auto simp: t_def memset_page)
  qed (simp_all add: t_def)
  moreover have "pt_wf (kend s) (mem t) q"
    unfolding pt_wf_def pages using q tree by (auto split: if_splits)
  moreover have "pt_dirs (mem t) q"
    unfolding pt_dirs_def by (auto simp: tree zero split: if_splits)
  ultimately show "as_inv t q ps" using ready q pages by (simp add: as_inv_def kmem_ready_def t_def)
  show "pte_of (mem t) q va = 0"
    using tree [OF path_leaf_path, of va] by (simp add: pte_of_def leaf_path_def)
qed

section \<open>Removing mappings and their pages\<close>

fun upages :: "memory \<Rightarrow> pagetable_t \<Rightarrow> u64 \<Rightarrow> nat \<Rightarrow> u64 list" where
  "upages m root a 0 = []"
| "upages m root a (Suc n) = PTE2PA (pte_of m root a) # upages m root (a + 4096) n"

lemma next_in_range:
  assumes "aligned a" "unat a + 4096 * Suc n \<le> 2 ^ 38"
  shows "unat (a + 4096) + 4096 * n \<le> 2 ^ 38" "aligned (a + 4096)" "a < MAXVA" "PGROUNDDOWN a = a"
proof -
  have "unat (a + 4096) = unat a + 4096" using assms(2) by (subst unat_plus_if') simp
  then show "unat (a + 4096) + 4096 * n \<le> 2 ^ 38" using assms(2) by simp
  show "aligned (a + 4096)" "PGROUNDDOWN a = a" using assms(1) by (simp_all add: aligned_add_page)
  show "a < MAXVA" using assms(2) by (simp add: MAXVA_value word_less_nat_alt)
qed

lemma upages_cong:
  assumes "aligned a" "unat a + 4096 * n \<le> 2 ^ 38"
    and "\<And>va. in_pages a n va \<Longrightarrow> pte_of m' root va = pte_of m root va"
  shows "upages m' root a n = upages m root a n"
  using assms
proof (induction n arbitrary: a)
  case (Suc n)
  note nx = next_in_range [OF Suc.prems(1,2)] and split = in_pages_Suc [OF Suc.prems(1,2)]
  then show ?case using Suc by simp
qed simp

lemma in_pages_0 [simp]: "\<not> in_pages a 0 va" by (simp add: in_pages_def)

text \<open>The pages mapped in a range are the process's own: leaves, in use, each mapped once.\<close>

definition owned :: "'a kmem_scheme \<Rightarrow> pagetable_t \<Rightarrow> u64 list \<Rightarrow> u64 \<Rightarrow> nat \<Rightarrow> bool" where
  "owned s root ps a n \<longleftrightarrow>
     (\<forall>va. in_pages a n va \<longrightarrow> pte_of (mem s) root va AND PTE_V \<noteq> 0 \<and>
        PTE_FLAGS (pte_of (mem s) root va) \<noteq> PTE_V) \<and>
     distinct (upages (mem s) root a n) \<and>
     (\<forall>u \<in> set (upages (mem s) root a n). page_ok (kend s) u \<and> u \<notin> set ps \<and> u \<notin> pt_pages (mem s) root)"

lemma pte_valid_slot:
  assumes "as_inv s root ps" "pte_of (mem s) root va AND PTE_V \<noteq> 0"
  obtains p where "tbl (mem s) root (leaf_path va) = Some p" "pte_slot (mem s) root va = slot p (PX 0 va)"
    "slot p (PX 0 va) \<noteq> 0" "load64 (mem s) (slot p (PX 0 va)) = pte_of (mem s) root va"
proof -
  obtain p where p: "tbl (mem s) root (leaf_path va) = Some p"
    using assms(2) by (auto simp: pte_of_def split: option.splits)
  moreover have "pt_wf (kend s) (mem s) root" using assms(1) by (simp add: as_inv_def)
  ultimately show thesis using that pte_slot_0 [of "kend s" "mem s" root va] by (simp add: pte_slot_def pte_of_def)
qed

lemma unmap_step:
  assumes inv: "as_inv s root ps" and own: "owned s root ps a (Suc n)"
    and a: "aligned a" "unat a + 4096 * Suc n \<le> 2 ^ 38"
  defines "u \<equiv> PTE2PA (pte_of (mem s) root a)"
  obtains t where
    "\<And>fin. a < fin \<Longrightarrow> uvmunmap_loop root a fin True s = uvmunmap_loop root (a + 4096) fin True t"
    "as_inv t root (u # ps)" "owned t root (u # ps) (a + 4096) n"
    "upages (mem t) root (a + 4096) n = upages (mem s) root (a + 4096) n"
    "pt_pages (mem t) root = pt_pages (mem s) root"
    "\<And>va. va < SV39 \<Longrightarrow> pte_of (mem t) root va = (if PGROUNDDOWN va = a then 0 else pte_of (mem s) root va)"
    "\<And>b. PGROUNDDOWN b \<notin> pt_pages (mem s) root \<Longrightarrow> PGROUNDDOWN b \<noteq> u \<Longrightarrow> mem t b = mem s b"
    "held t = held s" "kend t = kend s" "kmem.more t = kmem.more s"
proof -
  note nx = next_in_range [OF a] and split = in_pages_Suc [OF a]
  have e: "pte_of (mem s) root a AND PTE_V \<noteq> 0" "PTE_FLAGS (pte_of (mem s) root a) \<noteq> PTE_V"
    using own split [of a] nx(4) by (auto simp: owned_def)
  obtain p where p: "tbl (mem s) root (leaf_path a) = Some p" "pte_slot (mem s) root a = slot p (PX 0 a)"
    "slot p (PX 0 a) \<noteq> 0" "load64 (mem s) (slot p (PX 0 a)) = pte_of (mem s) root a"
    using pte_valid_slot [OF inv e(1)] by blast
  have u: "page_ok (kend s) u" "u \<notin> set ps" "u \<notin> pt_pages (mem s) root"
    and rest: "u \<notin> set (upages (mem s) root (a + 4096) n)" "distinct (upages (mem s) root (a + 4096) n)"
    using own by (auto simp: owned_def u_def)
  note push = as_inv_pushed [OF inv u]
  have p': "tbl (mem (pushed u s)) root (leaf_path a) = Some p" using push(5) [OF path_leaf_path] p(1) by simp
  let ?t = "(pushed u s)\<lparr>mem := store64 (mem (pushed u s)) (slot p (PX 0 a)) 0\<rparr>"
  note upd = set_pte [OF push(2) p' nx(3), where v = 0]
  have pte: "pte_of (mem ?t) root va = (if PGROUNDDOWN va = a then 0 else pte_of (mem s) root va)"
    if "va < SV39" for va using upd(3) [OF that] push(4) nx(4) by simp
  have pages: "pt_pages (mem ?t) root = pt_pages (mem s) root" using upd(2) push(3) by simp
  have below: "va < SV39 \<and> PGROUNDDOWN va \<noteq> a" if "in_pages (a + 4096) n va" for va
    using that nx(1) in_pages_base [OF a that] by (simp add: in_pages_def SV39_def word_less_nat_alt)
  have ups: "upages (mem ?t) root (a + 4096) n = upages (mem s) root (a + 4096) n"
    using nx pte below by (intro upages_cong) auto
  have "owned ?t root (u # ps) (a + 4096) n"
    unfolding owned_def ups pages using own rest split pte below by (auto simp: owned_def)
  moreover have "uvmunmap_loop root a fin True s = uvmunmap_loop root (a + 4096) fin True ?t" if "a < fin" for fin
    using that e p(2-4) push(1) walk_noalloc [OF nx(3), of root s]
    by (subst uvmunmap_loop.simps) (simp add: Let_def u_def)
  moreover have "mem ?t b = mem s b" if "PGROUNDDOWN b \<notin> pt_pages (mem s) root" "PGROUNDDOWN b \<noteq> u" for b
    using upd(4) [of b] that push(3) pushed_mem [of u b s] u(1) by (simp add: page_ok_def)
  ultimately show thesis
    using that [of ?t] upd(1) ups pages pte by (simp del: upages.simps)
qed

lemma unmap_loop_spec:
  assumes "as_inv s root ps" "owned s root ps a n" "aligned a" "unat a + 4096 * n \<le> 2 ^ 38"
  shows "\<exists>t. uvmunmap_loop root a (a + of_nat (4096 * n)) True s = Ok t \<and>
    as_inv t root (rev (upages (mem s) root a n) @ ps) \<and> pt_pages (mem t) root = pt_pages (mem s) root \<and>
    (\<forall>va. va < SV39 \<longrightarrow> pte_of (mem t) root va = (if in_pages a n va then 0 else pte_of (mem s) root va)) \<and>
    (\<forall>b. PGROUNDDOWN b \<notin> pt_pages (mem s) root \<longrightarrow> PGROUNDDOWN b \<notin> set (upages (mem s) root a n) \<longrightarrow>
         mem t b = mem s b) \<and>
    held t = held s \<and> kend t = kend s \<and> kmem.more t = kmem.more s"
  using assms
proof (induction n arbitrary: a s ps)
  case 0
  then show ?case by (subst uvmunmap_loop.simps) simp
next
  case (Suc n)
  let ?u = "PTE2PA (pte_of (mem s) root a)"
  note nx = next_in_range [OF Suc.prems(3,4)] and split = in_pages_Suc [OF Suc.prems(3,4)]
  obtain t where t:
    "\<And>fin. a < fin \<Longrightarrow> uvmunmap_loop root a fin True s = uvmunmap_loop root (a + 4096) fin True t"
    "as_inv t root (?u # ps)" "owned t root (?u # ps) (a + 4096) n"
    "upages (mem t) root (a + 4096) n = upages (mem s) root (a + 4096) n"
    "pt_pages (mem t) root = pt_pages (mem s) root"
    "\<And>va. va < SV39 \<Longrightarrow> pte_of (mem t) root va = (if PGROUNDDOWN va = a then 0 else pte_of (mem s) root va)"
    "\<And>b. PGROUNDDOWN b \<notin> pt_pages (mem s) root \<Longrightarrow> PGROUNDDOWN b \<noteq> ?u \<Longrightarrow> mem t b = mem s b"
    "held t = held s" "kend t = kend s" "kmem.more t = kmem.more s"
    by (rule unmap_step [OF Suc.prems], rule that) assumption+
  have fin: "a + of_nat (4096 * Suc n) = a + 4096 + of_nat (4096 * n)" by simp
  have "unat (of_nat (4096 * Suc n) :: u64) = 4096 * Suc n" using Suc.prems(4) by (subst unat_of_nat) simp
  then have "unat (a + of_nat (4096 * Suc n)) = unat a + 4096 * Suc n"
    using Suc.prems(4) by (subst unat_plus_if') simp
  then have "a < a + of_nat (4096 * Suc n)" unfolding word_less_nat_alt by simp
  then have run: "uvmunmap_loop root a (a + of_nat (4096 * Suc n)) True s =
      uvmunmap_loop root (a + 4096) (a + 4096 + of_nat (4096 * n)) True t" using t(1) unfolding fin by simp
  obtain v where v: "uvmunmap_loop root (a + 4096) (a + 4096 + of_nat (4096 * n)) True t = Ok v"
    "as_inv v root (rev (upages (mem t) root (a + 4096) n) @ ?u # ps)"
    "pt_pages (mem v) root = pt_pages (mem t) root"
    "\<forall>va. va < SV39 \<longrightarrow> pte_of (mem v) root va = (if in_pages (a + 4096) n va then 0 else pte_of (mem t) root va)"
    "\<forall>b. PGROUNDDOWN b \<notin> pt_pages (mem t) root \<longrightarrow> PGROUNDDOWN b \<notin> set (upages (mem t) root (a + 4096) n) \<longrightarrow>
         mem v b = mem t b"
    "held v = held t" "kend v = kend t" "kmem.more v = kmem.more t"
    using Suc.IH [OF t(2,3) nx(2,1)] by blast
  have "\<forall>va. va < SV39 \<longrightarrow> pte_of (mem v) root va = (if in_pages a (Suc n) va then 0 else pte_of (mem s) root va)"
    using v(4) t(6) split by auto
  moreover have "\<forall>b. PGROUNDDOWN b \<notin> pt_pages (mem s) root \<longrightarrow>
      PGROUNDDOWN b \<notin> set (upages (mem s) root a (Suc n)) \<longrightarrow> mem v b = mem s b"
    using v(5) t(4,5,7) by simp
  ultimately show ?case
    using run v(1-3,6-8) t(4,5,8-10) by (intro exI [of _ v]) simp
qed

section \<open>Freeing the table\<close>

fun pt_tree :: "nat \<Rightarrow> memory \<Rightarrow> pagetable_t \<Rightarrow> u64 set" where
  "pt_tree 0 m p = {p}"
| "pt_tree (Suc d) m p = insert p
     (\<Union>i \<in> {i. i < 512 \<and> load64 m (slot p i) AND PTE_V \<noteq> 0}. pt_tree d m (PTE2PA (load64 m (slot p i))))"

text \<open>What is left to free from entry \<open>i\<close> of table \<open>p\<close> on, when its subtables have depth \<open>d\<close>.\<close>

definition kids :: "nat \<Rightarrow> memory \<Rightarrow> pagetable_t \<Rightarrow> u64 \<Rightarrow> u64 set" where
  "kids d m p i = (\<Union>j \<in> {j. j < 512 \<and> i \<le> j \<and> load64 m (slot p j) AND PTE_V \<noteq> 0}.
     pt_tree d m (PTE2PA (load64 m (slot p j))))"

text \<open>No leaves are left below \<open>p\<close>, and no page is reached twice.\<close>

fun emptied :: "nat \<Rightarrow> memory \<Rightarrow> pagetable_t \<Rightarrow> bool" where
  "emptied 0 m p \<longleftrightarrow> (\<forall>i<512. load64 m (slot p i) AND PTE_V = 0)"
| "emptied (Suc d) m p \<longleftrightarrow>
     (\<forall>i<512. load64 m (slot p i) AND PTE_V \<noteq> 0 \<longrightarrow>
        load64 m (slot p i) AND (PTE_R OR PTE_W OR PTE_X) = 0 \<and>
        emptied d m (PTE2PA (load64 m (slot p i))) \<and> p \<notin> pt_tree d m (PTE2PA (load64 m (slot p i))) \<and>
        (\<forall>j<512. j \<noteq> i \<longrightarrow> load64 m (slot p j) AND PTE_V \<noteq> 0 \<longrightarrow>
           pt_tree d m (PTE2PA (load64 m (slot p i))) \<inter> pt_tree d m (PTE2PA (load64 m (slot p j))) = {}))"

lemma pt_tree_self [simp, intro]: "p \<in> pt_tree d m p" by (cases d) auto

lemma pt_tree_frame:
  assumes "\<And>q. q \<in> pt_tree d m p \<Longrightarrow> aligned q"
    and "\<And>a. PGROUNDDOWN a \<in> pt_tree d m p \<Longrightarrow> m' a = m a"
  shows "pt_tree d m' p = pt_tree d m p \<and> emptied d m' p = emptied d m p"
  using assms
proof (induction d arbitrary: p)
  case 0
  then have "load64 m' (slot p i) = load64 m (slot p i)" if "i < 512" for i
    using that by (intro load64_other_page) (simp_all add: slot_facts)
  then show ?case by simp
next
  case (Suc d)
  have p: "aligned p" "\<And>a. PGROUNDDOWN a = p \<Longrightarrow> m' a = m a" using Suc.prems by auto
  have e: "load64 m' (slot p i) = load64 m (slot p i)" if "i < 512" for i
    using that p by (intro load64_other_page) (simp_all add: slot_facts)
  have IH: "pt_tree d m' (PTE2PA (load64 m (slot p i))) = pt_tree d m (PTE2PA (load64 m (slot p i))) \<and>
      emptied d m' (PTE2PA (load64 m (slot p i))) = emptied d m (PTE2PA (load64 m (slot p i)))"
    if "i < 512" "load64 m (slot p i) AND PTE_V \<noteq> 0" for i
    by (rule Suc.IH) (use Suc.prems that in auto)
  have "pt_tree (Suc d) m' p = pt_tree (Suc d) m p" using e IH by auto
  moreover have "emptied (Suc d) m' p = emptied (Suc d) m p" using e IH by (auto 0 4)
  ultimately show ?case by blast
qed

lemma freewalk_loop_empty:
  assumes "\<And>j. j < 512 \<Longrightarrow> load64 (mem s) (slot p j) AND PTE_V = 0" "unat i + k = 512"
  shows "freewalk_loop rec p i k s = Some (Ok s)"
  using assms(2)
proof (induction k arbitrary: i)
  case (Suc k)
  then have "unat i < 512" by simp
  then have "i < 512" "unat (i + 1) + k = 512" using Suc.prems by (simp_all add: word_less_nat_alt unat_plus_if')
  then show ?case using assms(1) Suc.IH by (simp add: Let_def)
qed simp

text \<open>The conditions under which the loop of \<^verbatim>\<open>freewalk\<close> may go on at entry \<open>i\<close>.\<close>

definition kids_ok :: "nat \<Rightarrow> u64 \<Rightarrow> memory \<Rightarrow> pagetable_t \<Rightarrow> u64 \<Rightarrow> bool" where
  "kids_ok d e m p i \<longleftrightarrow>
     (\<forall>j<512. i \<le> j \<longrightarrow> load64 m (slot p j) AND PTE_V \<noteq> 0 \<longrightarrow>
        load64 m (slot p j) AND (PTE_R OR PTE_W OR PTE_X) = 0 \<and>
        emptied d m (PTE2PA (load64 m (slot p j))) \<and> p \<notin> pt_tree d m (PTE2PA (load64 m (slot p j))) \<and>
        (\<forall>q \<in> pt_tree d m (PTE2PA (load64 m (slot p j))). page_ok e q) \<and>
        (\<forall>k<512. i \<le> k \<longrightarrow> k \<noteq> j \<longrightarrow> load64 m (slot p k) AND PTE_V \<noteq> 0 \<longrightarrow>
           pt_tree d m (PTE2PA (load64 m (slot p j))) \<inter> pt_tree d m (PTE2PA (load64 m (slot p k))) = {}))"

lemma next_index:
  assumes "(i :: u64) < 512"
  shows "i + 1 \<le> j \<longleftrightarrow> i \<le> j \<and> j \<noteq> i" "unat (i + 1) = Suc (unat i)"
proof -
  have "unat i < 512" using assms by (simp add: word_less_nat_alt)
  then show u: "unat (i + 1) = Suc (unat i)" by (simp add: unat_plus_if')
  show "i + 1 \<le> j \<longleftrightarrow> i \<le> j \<and> j \<noteq> i" by (auto simp: word_le_nat_alt word_unat_eq_iff u)
qed

text \<open>Later entries and the subtables below them do not see a change inside the subtable of entry
  \<open>i\<close> and in entry \<open>i\<close> itself.\<close>

lemma kids_frame:
  assumes ok: "kids_ok d e m p i" and p: "aligned p" and i: "i < 512"
    and fr: "\<And>a. PGROUNDDOWN a \<notin> insert p T \<Longrightarrow> m' a = m a"
    and ent: "\<And>j. j < 512 \<Longrightarrow> i < j \<Longrightarrow> load64 m' (slot p j) = load64 m (slot p j)"
    and T: "\<And>j. j < 512 \<Longrightarrow> i < j \<Longrightarrow> load64 m (slot p j) AND PTE_V \<noteq> 0 \<Longrightarrow>
       T \<inter> pt_tree d m (PTE2PA (load64 m (slot p j))) = {}"
  shows "kids_ok d e m' p (i + 1)" "kids d m' p (i + 1) = kids d m p (i + 1)"
proof -
  have later: "i + 1 \<le> j \<longleftrightarrow> i < j" for j using next_index(1) [OF i, of j] by auto
  have sub: "pt_tree d m' (PTE2PA (load64 m (slot p j))) = pt_tree d m (PTE2PA (load64 m (slot p j))) \<and>
      emptied d m' (PTE2PA (load64 m (slot p j))) = emptied d m (PTE2PA (load64 m (slot p j)))"
    if j: "j < 512" "i < j" "load64 m (slot p j) AND PTE_V \<noteq> 0" for j
  proof (rule pt_tree_frame)
    have ok': "p \<notin> pt_tree d m (PTE2PA (load64 m (slot p j)))"
      "\<forall>q \<in> pt_tree d m (PTE2PA (load64 m (slot p j))). page_ok e q"
      using ok j by (auto simp: kids_ok_def)
    show "aligned q" if "q \<in> pt_tree d m (PTE2PA (load64 m (slot p j)))" for q
      using that ok' by (auto simp: page_ok_def)
    show "m' a = m a" if "PGROUNDDOWN a \<in> pt_tree d m (PTE2PA (load64 m (slot p j)))" for a
      using that ok'(1) T [OF j] by (intro fr) auto
  qed
  show "kids d m' p (i + 1) = kids d m p (i + 1)"
    unfolding kids_def later using ent sub by auto
  show "kids_ok d e m' p (i + 1)"
    using ok unfolding kids_ok_def later
    using ent sub by auto
qed

definition freed :: "u64 set \<Rightarrow> u64 set \<Rightarrow> 'a kmem_scheme \<Rightarrow> u64 list \<Rightarrow> 'a kmem_scheme \<Rightarrow> u64 list \<Rightarrow> bool" where
  "freed F W s ps t ps' \<longleftrightarrow> free_pages t ps' \<and> set ps' = set ps \<union> F \<and>
     (\<forall>a. PGROUNDDOWN a \<notin> W \<longrightarrow> mem t a = mem s a) \<and>
     held t = held s \<and> kend t = kend s \<and> kmem.more t = kmem.more s"

definition freewalk_ok :: "nat \<Rightarrow> pagetable_t \<Rightarrow> 'a kmem_scheme \<Rightarrow> u64 list \<Rightarrow> bool" where
  "freewalk_ok d p s ps \<longleftrightarrow> free_pages s ps \<and> kmem_ready s \<and> emptied d (mem s) p \<and>
     (\<forall>q \<in> pt_tree d (mem s) p. page_ok (kend s) q) \<and> pt_tree d (mem s) p \<inter> set ps = {}"

lemma kids_split:
  assumes "i < 512"
  shows "kids d m p i = (if load64 m (slot p i) AND PTE_V \<noteq> 0 then pt_tree d m (PTE2PA (load64 m (slot p i))) else {})
           \<union> kids d m p (i + 1)"
proof -
  have "{j. j < 512 \<and> i \<le> j \<and> load64 m (slot p j) AND PTE_V \<noteq> 0} =
      (if load64 m (slot p i) AND PTE_V \<noteq> 0 then {i} else {}) \<union>
      {j. j < 512 \<and> i + 1 \<le> j \<and> load64 m (slot p j) AND PTE_V \<noteq> 0}"
    using assms next_index(1) [OF assms] by auto
  then show ?thesis unfolding kids_def by simp
qed

lemma freewalk_loop_spec:
  assumes rec: "\<And>c s ps. freewalk_ok d c s ps \<Longrightarrow>
      \<exists>t ps'. rec c s = Some (Ok t) \<and> freed (pt_tree d (mem s) c) (pt_tree d (mem s) c) s ps t ps'"
    and "free_pages s ps" "kmem_ready s" "kids_ok d (kend s) (mem s) p i" "page_ok (kend s) p"
    and "kids d (mem s) p i \<inter> set ps = {}" "p \<notin> set ps" "unat i + k = 512"
  shows "\<exists>t ps'. freewalk_loop rec p i k s = Some (Ok t) \<and>
           freed (kids d (mem s) p i) (insert p (kids d (mem s) p i)) s ps t ps'"
  using assms(2-)
proof (induction k arbitrary: i s ps)
  case 0
  then have i: "unat i = 512" by simp
  have "kids d (mem s) p i = {}" by (auto simp: kids_def word_le_nat_alt word_less_nat_alt i)
  then show ?case using 0 by (auto simp: freed_def)
next
  case (Suc k)
  have i: "i < 512" using Suc.prems(7) by (simp add: word_less_nat_alt)
  have k: "unat (i + 1) + k = 512" using Suc.prems(7) next_index(2) [OF i] by simp
  have p: "aligned p" using Suc.prems(4) by (simp add: page_ok_def)
  let ?e = "load64 (mem s) (slot p i)"
  show ?case
  proof (cases "?e AND PTE_V = 0")
    case True
    have "kids_ok d (kend s) (mem s) p (i + 1)"
      by (rule kids_frame(1) [OF Suc.prems(3) p i, of "{}"]) simp_all
    moreover have "kids d (mem s) p i = kids d (mem s) p (i + 1)" using kids_split [OF i] True by simp
    ultimately show ?thesis
      using Suc.IH [OF Suc.prems(1,2) _ Suc.prems(4) _ Suc.prems(6) k] Suc.prems(5) True by (simp add: Let_def)
  next
    case False
    let ?c = "PTE2PA ?e" and ?T = "pt_tree d (mem s) (PTE2PA ?e)"
    have kids: "kids d (mem s) p i = ?T \<union> kids d (mem s) p (i + 1)" using kids_split [OF i] False by simp
    have child: "?e AND (PTE_R OR PTE_W OR PTE_X) = 0" "emptied d (mem s) ?c" "p \<notin> ?T" "\<forall>q \<in> ?T. page_ok (kend s) q"
      using Suc.prems(3) i False by (auto simp: kids_ok_def)
    have "freewalk_ok d ?c s ps"
      using Suc.prems(1,2,5) child kids by (auto simp: freewalk_ok_def)
    then obtain t ps1 where t: "rec ?c s = Some (Ok t)" "freed ?T ?T s ps t ps1" using rec by blast
    let ?t = "t\<lparr>mem := store64 (mem t) (slot p i) 0\<rparr>"
    have mem_t: "mem t a = mem s a" if "PGROUNDDOWN a \<notin> ?T" for a using t(2) that by (simp add: freed_def)
    have fr: "mem ?t a = mem s a" if "PGROUNDDOWN a \<notin> insert p ?T" for a
      using that slot_facts [OF p i] mem_t by (simp add: store64_other_page)
    have ent: "load64 (mem ?t) (slot p j) = load64 (mem s) (slot p j)" if "j < 512" "i < j" for j
    proof -
      have "slot p j \<noteq> slot p i" using slot_inj [OF p p that(1) i] that(2) by auto
      then have "load64 (mem ?t) (slot p j) = load64 (mem t) (slot p j)"
        using slot_facts(2) p i that by (simp add: load64_store64_other)
      also have "\<dots> = load64 (mem s) (slot p j)"
        using slot_facts [OF p that(1)] child(3) mem_t by (intro load64_other_page) auto
      finally show ?thesis .
    qed
    have disj: "?T \<inter> pt_tree d (mem s) (PTE2PA (load64 (mem s) (slot p j))) = {}"
      if "j < 512" "i < j" "load64 (mem s) (slot p j) AND PTE_V \<noteq> 0" for j
      using Suc.prems(3) that i False unfolding kids_ok_def by (metis less_imp_le less_irrefl order_refl)
    have fr_kids: "kids_ok d (kend s) (mem ?t) p (i + 1)"
        "kids d (mem ?t) p (i + 1) = kids d (mem s) p (i + 1)"
      by (rule kids_frame [OF Suc.prems(3) p i fr ent disj], assumption+)+
    have ps1: "set ps1 = set ps \<union> ?T" and keep: "held t = held s" "kend t = kend s" "kmem.more t = kmem.more s"
      using t(2) by (auto simp: freed_def)
    have "p \<notin> set ps1" using Suc.prems(6) child(3) ps1 by simp
    have "free_pages t ps1" using t(2) by (simp add: freed_def)
    then have free: "free_pages ?t ps1"
      by (rule free_pages_frame) (use \<open>p \<notin> set ps1\<close> p i in \<open>auto intro!: store_slot_outside\<close>)
    have "i + 1 \<le> j \<Longrightarrow> i < j" for j using next_index(1) [OF i, of j] by auto
    then have "kids d (mem s) p (i + 1) \<inter> ?T = {}" using disj by (auto simp: kids_def)
    moreover have "kids d (mem s) p (i + 1) \<subseteq> kids d (mem s) p i" using kids by (rule Set.equalityD2 [THEN subset_trans [OF Un_upper2]])
    then have "kids d (mem s) p (i + 1) \<inter> set ps = {}" using Suc.prems(5) by blast
    ultimately have "kids d (mem s) p (i + 1) \<inter> set ps1 = {}" by (simp only: ps1 Int_Un_distrib Un_empty)
    then have k1: "kids d (mem ?t) p (i + 1) \<inter> set ps1 = {}" by (simp only: fr_kids(2))
    have t': "kmem_ready ?t" "kids_ok d (kend ?t) (mem ?t) p (i + 1)" "page_ok (kend ?t) p"
      using fr_kids(1) Suc.prems(2,4) keep by (simp_all add: kmem_ready_def)
    obtain v ps2 where v: "freewalk_loop rec p (i + 1) k ?t = Some (Ok v)"
      "freed (kids d (mem ?t) p (i + 1)) (insert p (kids d (mem ?t) p (i + 1))) ?t ps1 v ps2"
      using Suc.IH [OF free t' k1 \<open>p \<notin> set ps1\<close> k] by blast
    have "freewalk_loop rec p i (Suc k) s = Some (Ok v)"
      using False child(1) t(1) v(1) by (simp add: Let_def obind_def)
    moreover have "freed (kids d (mem s) p i) (insert p (kids d (mem s) p i)) s ps v ps2"
      using v(2) fr keep unfolding freed_def fr_kids(2) kids ps1 by auto
    ultimately show ?thesis by blast
  qed
qed

lemma freewalk_spec:
  "freewalk_ok d p s ps \<Longrightarrow>
   \<exists>t ps'. freewalk (Suc d) p s = Some (Ok t) \<and> freed (pt_tree d (mem s) p) (pt_tree d (mem s) p) s ps t ps'"
proof (induction d arbitrary: p s ps)
  case 0
  then have p: "page_ok (kend s) p" "p \<notin> set ps" "free_pages s ps" "kmem_ready s" by (auto simp: freewalk_ok_def)
  have "freewalk_loop (freewalk 0) p 0 512 s = Some (Ok s)"
    using 0 by (intro freewalk_loop_empty) (auto simp: freewalk_ok_def)
  then have "freewalk (Suc 0) p s = Some (Ok (pushed p s))"
    using kfree_Ok p by (simp add: obind_def kmem_ready_def)
  moreover have "freed {p} {p} s ps (pushed p s) (p # ps)"
    using pushed_free_pages [OF p(3,1,2)] pushed_mem p(1) by (auto simp: freed_def page_ok_def)
  ultimately show ?case by auto
next
  case (Suc d)
  have s: "free_pages s ps" "kmem_ready s" "page_ok (kend s) p" "p \<notin> set ps" "emptied (Suc d) (mem s) p"
    using Suc.prems by (auto simp: freewalk_ok_def)
  have tree: "pt_tree (Suc d) (mem s) p = insert p (kids d (mem s) p 0)" by (auto simp: kids_def)
  have "kids_ok d (kend s) (mem s) p 0"
    using s(5) Suc.prems unfolding kids_ok_def freewalk_ok_def by simp
  moreover have "kids d (mem s) p 0 \<inter> set ps = {}"
    using Suc.prems unfolding freewalk_ok_def tree by blast
  ultimately obtain t ps1 where t: "freewalk_loop (freewalk (Suc d)) p 0 512 s = Some (Ok t)"
    "freed (kids d (mem s) p 0) (insert p (kids d (mem s) p 0)) s ps t ps1"
    using freewalk_loop_spec [of d "freewalk (Suc d)" s ps p 0 512] Suc.IH s by auto
  have t': "free_pages t ps1" "page_ok (kend t) p" "kmem_ready t" "set ps1 = set ps \<union> kids d (mem s) p 0"
    using t(2) s by (auto simp: freed_def kmem_ready_def)
  have "p \<notin> kids d (mem s) p 0" using s(5) by (auto simp: kids_def)
  then have "free_pages (pushed p t) (p # ps1)" using t' s(4) by (intro pushed_free_pages) auto
  then have "freed (pt_tree (Suc d) (mem s) p) (pt_tree (Suc d) (mem s) p) s ps (pushed p t) (p # ps1)"
    using t(2) t' pushed_mem [of p _ t] unfolding freed_def tree by (auto simp: page_ok_def)
  moreover have "freewalk (Suc (Suc d)) p s = Some (Ok (pushed p t))"
    using t(1) kfree_Ok t' by (simp add: obind_def kmem_ready_def)
  ultimately show ?case by blast
qed

text \<open>The recursive view of a table agrees with the paths of \<open>Page_Table\<close>.\<close>

definition indices :: "nat \<Rightarrow> u64 list \<Rightarrow> bool" where
  "indices d is \<longleftrightarrow> length is \<le> d \<and> (\<forall>i \<in> set is. i < 512)"

lemma indices_Suc_Cons [simp]: "indices (Suc d) (i # is) \<longleftrightarrow> i < 512 \<and> indices d is"
  by (auto simp: indices_def)

lemma indices_Nil [simp]: "indices d []" by (simp add: indices_def)

lemma path_indices: "path = indices 2" by (auto simp: path_def indices_def fun_eq_iff)

lemma pt_tree_paths: "q \<in> pt_tree d m p \<longleftrightarrow> (\<exists>is. indices d is \<and> tbl m p is = Some q)"
proof (induction d arbitrary: p)
  case 0
  have "indices 0 is \<longleftrightarrow> is = []" for "is" by (auto simp: indices_def)
  then show ?case by auto
next
  case (Suc d)
  have "(\<exists>is. indices (Suc d) is \<and> tbl m p is = Some q) \<longleftrightarrow>
      p = q \<or> (\<exists>i is. i < 512 \<and> indices d is \<and> tbl m p (i # is) = Some q)"
    by (metis indices_Nil indices_Suc_Cons neq_Nil_conv option.inject tbl.simps(1))
  also have "\<dots> \<longleftrightarrow> q \<in> pt_tree (Suc d) m p" using Suc by (auto simp: Let_def)
  finally show ?case by simp
qed

lemma emptied_paths:
  assumes "\<And>is js q. indices d is \<Longrightarrow> indices d js \<Longrightarrow> tbl m p is = Some q \<Longrightarrow> tbl m p js = Some q \<Longrightarrow> is = js"
    and "\<And>is q i. indices d is \<Longrightarrow> tbl m p is = Some q \<Longrightarrow> i < 512 \<Longrightarrow> load64 m (slot q i) AND PTE_V \<noteq> 0 \<Longrightarrow>
       length is < d \<and> load64 m (slot q i) AND (PTE_R OR PTE_W OR PTE_X) = 0"
  shows "emptied d m p"
  using assms
proof (induction d arbitrary: p)
  case 0
  then show ?case using 0(2) [of "[]" p] by simp blast
next
  case (Suc d)
  have sub: "tbl m p (i # is) = tbl m (PTE2PA (load64 m (slot p i))) is"
    if "load64 m (slot p i) AND PTE_V \<noteq> 0" for i "is" using that by (simp add: Let_def)
  have inj: "is = js \<and> i = j"
    if "i < 512" "j < 512" "indices d is" "indices d js" "load64 m (slot p i) AND PTE_V \<noteq> 0"
      "load64 m (slot p j) AND PTE_V \<noteq> 0" "tbl m (PTE2PA (load64 m (slot p i))) is = Some q"
      "tbl m (PTE2PA (load64 m (slot p j))) js = Some q" for i j "is" js q
    using Suc.prems(1) [of "i # is" "j # js" q] that by simp
  have self: "False" if "i < 512" "indices d is" "load64 m (slot p i) AND PTE_V \<noteq> 0"
    "tbl m (PTE2PA (load64 m (slot p i))) is = Some p" for i "is"
    using Suc.prems(1) [of "i # is" "[]" p] that by simp
  have "emptied d m (PTE2PA (load64 m (slot p i)))" if i: "i < 512" "load64 m (slot p i) AND PTE_V \<noteq> 0" for i
  proof (rule Suc.IH)
    show "is = js" if "indices d is" "indices d js" "tbl m (PTE2PA (load64 m (slot p i))) is = Some q"
      "tbl m (PTE2PA (load64 m (slot p i))) js = Some q" for "is" js q
      using inj [OF i(1) i(1) that(1,2) i(2) i(2) that(3,4)] by simp
    show "length is < d \<and> load64 m (slot q j) AND (PTE_R OR PTE_W OR PTE_X) = 0"
      if "indices d is" "tbl m (PTE2PA (load64 m (slot p i))) is = Some q" "j < 512"
        "load64 m (slot q j) AND PTE_V \<noteq> 0" for "is" q j
      using Suc.prems(2) [of "i # is" q j] that i by simp
  qed
  moreover have "load64 m (slot p i) AND (PTE_R OR PTE_W OR PTE_X) = 0"
    if "i < 512" "load64 m (slot p i) AND PTE_V \<noteq> 0" for i
    using Suc.prems(2) [of "[]" p i] that by simp
  ultimately show ?case
    unfolding emptied.simps by (intro allI impI conjI) (auto simp: pt_tree_paths dest: self inj)
qed

text \<open>Every entry of a bottom table is the entry of some 39-bit address.\<close>

definition va_of :: "u64 \<Rightarrow> u64 \<Rightarrow> u64 \<Rightarrow> u64" where
  "va_of i j k = push_bit 30 i OR push_bit 21 j OR push_bit 12 k"

lemma va_of:
  assumes "i < 512" "j < 512" "k < 512"
  shows "leaf_path (va_of i j k) = [i, j]" "PX 0 (va_of i j k) = k" "va_of i j k < SV39"
proof -
  have small: "\<not> bit x n" if "x < 512" "9 \<le> n" for x :: u64 and n
  proof -
    have "take_bit 9 x = x"
      using that(1) by (simp add: take_bit_eq_mod word_unat_eq_iff unat_mod word_less_nat_alt)
    then show ?thesis using that(2) by (metis bit_take_bit_iff not_le)
  qed
  have va: "bit (va_of i j k) n \<longleftrightarrow> n < 64 \<and> (30 \<le> n \<and> bit i (n - 30) \<or> 21 \<le> n \<and> bit j (n - 21) \<or> 12 \<le> n \<and> bit k (n - 12))" for n
    by (auto simp: va_of_def bit_simps)
  have px: "PX l (va_of i j k) = x" if "x < 512" "\<And>n. n < 9 \<Longrightarrow> bit (va_of i j k) (12 + 9 * l + n) = bit x n" for l x
  proof (rule bit_eqI)
    show "bit (PX l (va_of i j k)) n = bit x n" for n
      using that small [of x n] by (cases "n < 9") (auto simp: bit_PX)
  qed
  have "PX 2 (va_of i j k) = i" "PX 1 (va_of i j k) = j"
    using assms by (auto intro!: px simp: va small)
  then show "leaf_path (va_of i j k) = [i, j]" by (simp add: leaf_path_def)
  show "PX 0 (va_of i j k) = k" using assms by (auto intro!: px simp: va small)
  have "va_of i j k = take_bit 39 (va_of i j k)"
  proof (rule bit_eqI)
    show "bit (va_of i j k) n = bit (take_bit 39 (va_of i j k)) n" for n
      using small [OF assms(1), of "n - 30"] small [OF assms(2), of "n - 21"] small [OF assms(3), of "n - 12"]
      by (cases "n < 39") (auto simp: bit_take_bit_iff va)
  qed
  then have "unat (va_of i j k) = unat (va_of i j k) mod 2 ^ 39"
    by (metis take_bit_eq_mod unsigned_take_bit_eq)
  then have "unat (va_of i j k) < 2 ^ 39" by (metis mod_less_divisor zero_less_numeral zero_less_power)
  then show "va_of i j k < SV39" by (simp add: SV39_def word_less_nat_alt)
qed

lemma freewalk_ready:
  assumes inv: "as_inv s root ps" and none: "\<And>va. va < SV39 \<Longrightarrow> pte_of (mem s) root va AND PTE_V = 0"
  shows "freewalk_ok 2 root s ps" "pt_tree 2 (mem s) root = pt_pages (mem s) root"
proof -
  have wf: "pt_wf (kend s) (mem s) root" and dirs: "pt_dirs (mem s) root" using inv by (simp_all add: as_inv_def)
  show tree: "pt_tree 2 (mem s) root = pt_pages (mem s) root"
    by (auto simp: pt_pages_def pt_tree_paths path_indices)
  have "emptied 2 (mem s) root"
  proof (rule emptied_paths)
    show "is = js" if "indices 2 is" "indices 2 js" "tbl (mem s) root is = Some q" "tbl (mem s) root js = Some q"
      for "is" js q using pt_wf_inj [OF wf] that by (simp add: path_indices)
    show "length is < 2 \<and> load64 (mem s) (slot q k) AND (PTE_R OR PTE_W OR PTE_X) = 0"
      if "indices 2 is" "tbl (mem s) root is = Some q" "k < 512" "load64 (mem s) (slot q k) AND PTE_V \<noteq> 0" for "is" q k
    proof
      show short: "length is < 2"
      proof (rule ccontr)
        assume "\<not> length is < 2"
        then have len: "length is = 2" and small: "\<forall>i \<in> set is. i < 512"
          using that(1) by (auto simp: indices_def)
        from len obtain i j where "is = [i, j]" by (auto simp: numeral_2_eq_2 length_Suc_conv)
        with small have ij: "is = [i, j]" "i < 512" "j < 512" by simp_all
        note va = va_of [OF ij(2,3) that(3)]
        have "pte_of (mem s) root (va_of i j k) = load64 (mem s) (slot q k)"
          using that(2) ij va by (simp add: pte_of_def)
        then show False using none [OF va(3)] that(4) by simp
      qed
      show "load64 (mem s) (slot q k) AND (PTE_R OR PTE_W OR PTE_X) = 0"
        using dirs that short by (auto simp: pt_dirs_def path_indices)
    qed
  qed
  then show "freewalk_ok 2 root s ps"
    using inv wf by (simp add: freewalk_ok_def as_inv_def tree pt_wf_def)
qed

lemma uvmfree_spec:
  assumes inv: "as_inv s root ps" and own: "owned s root ps 0 n" and n: "4096 * n \<le> 2 ^ 38"
    and sz: "unat (PGROUNDUP sz) = 4096 * n" "sz = 0 \<longrightarrow> n = 0"
    and rest: "\<And>va. va < SV39 \<Longrightarrow> \<not> in_pages 0 n va \<Longrightarrow> pte_of (mem s) root va AND PTE_V = 0"
  shows "\<exists>t ps'. uvmfree 3 root sz s = Some (Ok t) \<and> free_pages t ps' \<and>
    set ps' = set ps \<union> pt_pages (mem s) root \<union> set (upages (mem s) root 0 n) \<and> held t = held s \<and>
    kend t = kend s \<and> kmem.more t = kmem.more s \<and>
    (\<forall>b. PGROUNDDOWN b \<notin> pt_pages (mem s) root \<union> set (upages (mem s) root 0 n) \<longrightarrow> mem t b = mem s b)"
proof -
  let ?us = "upages (mem s) root 0 n"
  obtain t where t: "uvmunmap_loop root 0 (0 + of_nat (4096 * n)) True s = Ok t" "as_inv t root (rev ?us @ ps)"
    "pt_pages (mem t) root = pt_pages (mem s) root"
    "\<forall>va. va < SV39 \<longrightarrow> pte_of (mem t) root va = (if in_pages 0 n va then 0 else pte_of (mem s) root va)"
    "\<forall>b. PGROUNDDOWN b \<notin> pt_pages (mem s) root \<longrightarrow> PGROUNDDOWN b \<notin> set ?us \<longrightarrow> mem t b = mem s b"
    "held t = held s" "kend t = kend s" "kmem.more t = kmem.more s"
    using unmap_loop_spec [OF inv own] n by (auto simp: aligned_def)
  have "PGROUNDUP sz div 4096 * 4096 = of_nat (4096 * n)"
  proof -
    have "unat (PGROUNDUP sz div 4096 * 4096) = 4096 * n" using sz(1) n by (simp add: unat_word_ariths unat_div)
    moreover have "unat (of_nat (4096 * n) :: u64) = 4096 * n" using n by (subst unat_of_nat) simp
    ultimately show ?thesis unfolding word_unat_eq_iff by (simp only:)
  qed
  then have unmap: "(if sz > 0 then uvmunmap root 0 (PGROUNDUP sz div 4096) True s else Ok s) = Ok t"
    using t(1) sz(2) by (auto simp: uvmunmap_def word_gt_0 uvmunmap_loop.simps)
  have none: "pte_of (mem t) root va AND PTE_V = 0" if "va < SV39" for va using t(4) rest that by auto
  have fw: "freewalk_ok 2 root t (rev ?us @ ps)" "pt_tree 2 (mem t) root = pt_pages (mem t) root"
    using freewalk_ready [OF t(2)] none by blast+
  obtain v ps' where v: "freewalk (Suc 2) root t = Some (Ok v)"
    "freed (pt_tree 2 (mem t) root) (pt_tree 2 (mem t) root) t (rev ?us @ ps) v ps'"
    using freewalk_spec [OF fw(1)] by blast
  have "uvmfree 3 root sz s = Some (Ok v)"
    using v(1) unmap by (simp add: uvmfree_def obind_def numeral_3_eq_3 numeral_2_eq_2)
  then show ?thesis
    using v(2) t(5-8) unfolding freed_def fw(2) t(3) by (intro exI [of _ v] exI [of _ ps']) auto
qed

end
