(* ===== verification/Copy_User.thy ===== *)
theory Copy_User
  imports User_Memory
begin

text \<open>
  \<^verbatim>\<open>copyin\<close>, \<^verbatim>\<open>copyout\<close> and \<^verbatim>\<open>copyinstr\<close> of \<^verbatim>\<open>kernel/vm.c\<close> seen through the page table: byte \<open>j\<close> of the
  kernel buffer corresponds to the byte of physical memory that the user address \<open>va + j\<close> stands
  for. The loops go page by page; the specifications do not mention pages.
\<close>

section \<open>The page behind a user address\<close>

text \<open>What \<^verbatim>\<open>walkaddr\<close> returns, and the physical address of a user byte.\<close>

definition upa :: "memory \<Rightarrow> pagetable_t \<Rightarrow> u64 \<Rightarrow> u64" where
  "upa m root va = (let e = pte_of m root va in
     if va < MAXVA \<and> e AND PTE_V \<noteq> 0 \<and> e AND PTE_U \<noteq> 0 then PTE2PA e else 0)"

definition uaddr :: "memory \<Rightarrow> pagetable_t \<Rightarrow> u64 \<Rightarrow> u64" where
  "uaddr m root va = upa m root (PGROUNDDOWN va) + (va - PGROUNDDOWN va)"

definition umapped :: "memory \<Rightarrow> pagetable_t \<Rightarrow> u64 \<Rightarrow> bool" where
  "umapped m root va \<longleftrightarrow> upa m root (PGROUNDDOWN va) \<noteq> 0"

lemma walkaddr_upa:
  assumes "pt_wf e (mem s) root"
  shows "walkaddr root va s = Ok (upa (mem s) root va)"
proof (cases "va < MAXVA")
  case True
  have "load64 (mem s) (pte_slot (mem s) root va) = pte_of (mem s) root va" if "pte_slot (mem s) root va \<noteq> 0"
    using that by (rule load_pte_slot)
  moreover have "pte_of (mem s) root va = 0" if "pte_slot (mem s) root va = 0"
    using that pte_slot_0 [OF assms] by (simp add: pte_of_def)
  ultimately show ?thesis
    using True walk_noalloc [OF True, of root s] by (auto simp: walkaddr_def upa_def Let_def)
qed (auto simp: walkaddr_def upa_def Let_def)

lemma aligned_PTE2PA: "aligned (PTE2PA e)"
  by (simp add: aligned_def PTE2PA_def take_bit_push_bit flip: take_bit_12)

lemma aligned_upa: "aligned (upa m root va)"
  by (simp add: upa_def Let_def aligned_PTE2PA) (simp add: aligned_def)

lemma PGROUNDDOWN_upa_offset: "PGROUNDDOWN (uaddr m root va) = upa m root (PGROUNDDOWN va)"
  by (subst PGROUNDDOWN_eq_iff [OF aligned_upa]) (simp add: uaddr_def PGROUNDDOWN_offset)

text \<open>Offsets inside a page.\<close>

lemma offset_in_page:
  assumes "unat va mod 4096 + j < 4096"
  shows "PGROUNDDOWN (va + of_nat j) = PGROUNDDOWN va"
    "va + of_nat j - PGROUNDDOWN va = va - PGROUNDDOWN va + of_nat j"
proof -
  have "unat (of_nat j :: u64) = j" using assms by (simp add: unat_of_nat)
  then have "unat (va - PGROUNDDOWN va + of_nat j) < 4096"
    using assms PGROUNDDOWN_offset [of va] by (subst unat_plus_if') simp
  then have "unat (va + of_nat j - PGROUNDDOWN va) < 4096" by (simp add: algebra_simps)
  then show "PGROUNDDOWN (va + of_nat j) = PGROUNDDOWN va"
    using PGROUNDDOWN_eq_iff [OF aligned_PGROUNDDOWN] by blast
qed simp

lemma uaddr_chunk:
  "unat va mod 4096 + j < 4096 \<Longrightarrow> uaddr m root (va + of_nat j) = uaddr m root va + of_nat j"
  by (simp add: uaddr_def offset_in_page)

text \<open>A chunk that stops before the end of the buffer stops at the end of the page.\<close>

lemma chunk_next:
  fixes len va :: u64
  assumes "len \<noteq> 0"
  defines "n \<equiv> min (4096 - (va - PGROUNDDOWN va)) len"
  shows "unat va mod 4096 + unat n \<le> 4096"
    "len - n \<noteq> 0 \<Longrightarrow> PGROUNDDOWN va + 4096 = va + n" "unat (len - n) = unat len - unat n"
proof -
  note c = chunk_positive [OF assms(1), of va, folded n_def]
  show "unat va mod 4096 + unat n \<le> 4096" using c(4) by (simp add: le_diff_conv2)
  show "unat (len - n) = unat len - unat n" using c(3) by (simp add: unat_sub word_le_nat_alt)
  show "PGROUNDDOWN va + 4096 = va + n" if "len - n \<noteq> 0"
  proof -
    have "n = 4096 - (va - PGROUNDDOWN va)" using that by (auto simp: n_def min_def split: if_splits)
    then show ?thesis by simp
  qed
qed

section \<open>\<^verbatim>\<open>copyin\<close>\<close>

lemma later_byte:
  fixes n srcva va0 :: u64
  assumes "va0 + 4096 = srcva + n" "i + unat n \<le> k"
  shows "va0 + 4096 + of_nat (k - (i + unat n)) = srcva + of_nat (k - i)"
proof -
  have "k - i = unat n + (k - (i + unat n))" using assms(2) by simp
  then have "(of_nat (k - i) :: u64) = of_nat (unat n) + of_nat (k - (i + unat n))" by (metis of_nat_add)
  then show ?thesis using assms(1) by simp
qed

lemma copyin_loop_mapped:
  assumes wf: "pt_wf e (mem s) root"
    and "\<forall>j < unat len. umapped (mem s) root (srcva + of_nat j)"
  shows "copyin_loop root dst i srcva len s =
    Ok (0, \<lambda>k. if i \<le> k \<and> k < i + unat len then mem s (uaddr (mem s) root (srcva + of_nat (k - i))) else dst k)"
  using assms(2)
proof (induction "unat len" arbitrary: dst i srcva len rule: less_induct)
  case less
  show ?case
  proof (cases "len = 0")
    case True
    then show ?thesis by (subst copyin_loop.simps) (auto simp: fun_eq_iff)
  next
    case False
    let ?va0 = "PGROUNDDOWN srcva" let ?n = "min (4096 - (srcva - ?va0)) len"
    note c = chunk_positive [OF False, of srcva] chunk_next [OF False, of srcva]
    let ?dst = "get_bytes (mem s) (upa (mem s) root ?va0 + (srcva - ?va0)) dst i (unat ?n)"
    have "upa (mem s) root ?va0 \<noteq> 0" using less.prems c(2,3) by (force simp: umapped_def)
    then have step: "copyin_loop root dst i srcva len s =
        copyin_loop root ?dst (i + unat ?n) (?va0 + 4096) (len - ?n) s"
      using False walkaddr_upa [OF wf] by (subst copyin_loop.simps) (simp add: Let_def)
    have later: "?va0 + 4096 + of_nat (k - (i + unat ?n)) = srcva + of_nat (k - i)"
      if "i + unat ?n \<le> k" "k < i + unat len" for k
    proof -
      have "unat (len - ?n) \<noteq> 0" using that unfolding c(7) by linarith
      then have "len - ?n \<noteq> 0" by (metis unat_eq_0)
      then show ?thesis using later_byte [OF c(6) that(1)] by blast
    qed
    have "\<forall>j < unat (len - ?n). umapped (mem s) root (?va0 + 4096 + of_nat j)"
    proof (intro allI impI)
      fix j assume j: "j < unat (len - ?n)"
      then have lt: "unat ?n + j < unat len" unfolding c(7) by linarith
      have "?va0 + 4096 + of_nat j = srcva + of_nat (unat ?n + j)"
        using later [of "i + unat ?n + j"] lt by (simp del: of_nat_add)
      then show "umapped (mem s) root (?va0 + 4096 + of_nat j)"
        using less.prems lt by (simp only: less_eq_nat.simps)
    qed
    from less.hyps [OF c(1) this, of ?dst "i + unat ?n"] step
    have run: "copyin_loop root dst i srcva len s = Ok (0, \<lambda>k. if i + unat ?n \<le> k \<and> k < i + unat ?n + unat (len - ?n)
        then mem s (uaddr (mem s) root (?va0 + 4096 + of_nat (k - (i + unat ?n)))) else ?dst k)" by simp
    have "(if i + unat ?n \<le> k \<and> k < i + unat ?n + unat (len - ?n)
        then mem s (uaddr (mem s) root (?va0 + 4096 + of_nat (k - (i + unat ?n)))) else ?dst k) =
      (if i \<le> k \<and> k < i + unat len then mem s (uaddr (mem s) root (srcva + of_nat (k - i))) else dst k)" for k
    proof (cases "i + unat ?n \<le> k")
      case True
      show ?thesis
      proof (cases "k < i + unat len")
        case below: True
        have "k < i + unat ?n + unat (len - ?n)" "i \<le> k" using below True c(3,7) by linarith+
        then show ?thesis unfolding later [OF True below] using True below by simp
      qed (use True c(3,7) in \<open>auto simp: get_bytes_def\<close>)
    next
      case False
      show ?thesis
      proof (cases "i \<le> k")
        case True
        then have lt: "k - i < unat ?n" "k < i + unat ?n" "k < i + unat len" using False c(3) by linarith+
        then have "uaddr (mem s) root (srcva + of_nat (k - i)) = uaddr (mem s) root srcva + of_nat (k - i)"
          using uaddr_chunk c(5) by (meson add_less_cancel_left less_le_trans)
        then show ?thesis
          unfolding get_bytes_def uaddr_def [of "mem s" root srcva] using False True lt by (simp only: if_True if_False simp_thms)
      qed (use False in \<open>simp add: get_bytes_def\<close>)
    qed
    then show ?thesis using run by presburger
  qed
qed

lemma chunk_later:
  fixes len va :: u64
  assumes "len \<noteq> 0"
  defines "n \<equiv> min (4096 - (va - PGROUNDDOWN va)) len"
  assumes "j < unat (len - n)"
  shows "PGROUNDDOWN va + 4096 + of_nat j = va + of_nat (unat n + j)" "unat n + j < unat len"
proof -
  note c = chunk_next [OF assms(1), of va, folded n_def]
  have "len - n \<noteq> 0" using assms(3) by auto
  then show "PGROUNDDOWN va + 4096 + of_nat j = va + of_nat (unat n + j)" using c(2) by simp
  show "unat n + j < unat len" using assms(3) c(3) by linarith
qed

lemma copyin_loop_unmapped:
  assumes wf: "pt_wf e (mem s) root" and "j < unat len" "\<not> umapped (mem s) root (srcva + of_nat j)"
  shows "\<exists>dst'. copyin_loop root dst i srcva len s = Ok (-1, dst')"
  using assms(2,3)
proof (induction "unat len" arbitrary: dst i srcva len j rule: less_induct)
  case less
  then have len: "len \<noteq> 0" by auto
  let ?va0 = "PGROUNDDOWN srcva" let ?n = "min (4096 - (srcva - ?va0)) len"
  note c = chunk_positive [OF len, of srcva] chunk_next [OF len, of srcva]
  show ?case
  proof (cases "upa (mem s) root ?va0 = 0")
    case True
    then show ?thesis using len walkaddr_upa [OF wf] by (subst copyin_loop.simps) (simp add: Let_def)
  next
    case False
    let ?dst = "get_bytes (mem s) (upa (mem s) root ?va0 + (srcva - ?va0)) dst i (unat ?n)"
    have step: "copyin_loop root dst i srcva len s = copyin_loop root ?dst (i + unat ?n) (?va0 + 4096) (len - ?n) s"
      using False len walkaddr_upa [OF wf] by (subst copyin_loop.simps) (simp add: Let_def)
    have "unat ?n \<le> j"
    proof (rule ccontr)
      assume "\<not> unat ?n \<le> j"
      then have "PGROUNDDOWN (srcva + of_nat j) = ?va0" using c(5) by (intro offset_in_page) linarith
      then show False using less.prems(2) False by (simp add: umapped_def)
    qed
    then have j: "j - unat ?n < unat (len - ?n)" "unat ?n + (j - unat ?n) = j" using less.prems(1) c(7) by linarith+
    then have "\<not> umapped (mem s) root (?va0 + 4096 + of_nat (j - unat ?n))"
      using chunk_later(1) [OF len j(1)] less.prems(2) by (simp only: j(2)) simp
    then show ?thesis using less.hyps [OF c(1) j(1)] step by simp
  qed
qed

section \<open>\<^verbatim>\<open>copyout\<close>\<close>

text \<open>The \<open>len\<close> bytes from \<open>va\<close> on are mapped for the user, to pages that are not part of the page
  table and are mapped once.\<close>

definition user_range :: "memory \<Rightarrow> pagetable_t \<Rightarrow> u64 \<Rightarrow> nat \<Rightarrow> bool" where
  "user_range m root va len \<longleftrightarrow>
     (\<forall>j<len. umapped m root (va + of_nat j) \<and> upa m root (PGROUNDDOWN (va + of_nat j)) \<notin> pt_pages m root) \<and>
     (\<forall>j<len. \<forall>k<len. upa m root (PGROUNDDOWN (va + of_nat j)) = upa m root (PGROUNDDOWN (va + of_nat k)) \<longrightarrow>
        PGROUNDDOWN (va + of_nat j) = PGROUNDDOWN (va + of_nat k))"

lemma uaddr_inj:
  assumes "user_range m root va len" "j < len" "k < len" "len \<le> 2 ^ 64"
    and "uaddr m root (va + of_nat j) = uaddr m root (va + of_nat k)"
  shows "j = k"
proof -
  have "upa m root (PGROUNDDOWN (va + of_nat j)) = upa m root (PGROUNDDOWN (va + of_nat k))"
    using assms(5) PGROUNDDOWN_upa_offset by metis
  then have "PGROUNDDOWN (va + of_nat j) = PGROUNDDOWN (va + of_nat k)" using assms(1-3) by (simp add: user_range_def)
  then have "(of_nat j :: u64) = of_nat k" using assms(5) by (simp add: uaddr_def)
  then have "unat (of_nat j :: u64) = unat (of_nat k :: u64)" by simp
  then show ?thesis using assms(2-4) by (simp add: unat_of_nat)
qed

text \<open>Memory that agrees on the table pages translates alike.\<close>

lemma translation_frame:
  assumes wf: "pt_wf e m root" and fr: "\<And>a. PGROUNDDOWN a \<in> pt_pages m root \<Longrightarrow> m' a = m a"
  shows "pt_wf e m' root" "upa m' root = upa m root" "uaddr m' root = uaddr m root"
    "umapped m' root = umapped m root" "pt_pages m' root = pt_pages m root"
proof -
  have al: "aligned p" if "p \<in> pt_pages m root" for p using wf that by (simp add: pt_wf_def page_ok_def)
  have tree: "tbl m' root is = tbl m root is" if "path is" for "is" using tbl_frame [of m root m' "is"] al fr that by blast
  show "pt_wf e m' root" using wf pt_wf_cong [of m' root m, OF tree] by simp
  show "pt_pages m' root = pt_pages m root" using pt_pages_cong [of m' root m, OF tree] by simp
  have "pte_of m' root va = pte_of m root va" for va using pte_of_frame [of m root m'] al fr by blast
  then show upa: "upa m' root = upa m root" by (simp add: upa_def fun_eq_iff)
  then show "uaddr m' root = uaddr m root" "umapped m' root = umapped m root"
    by (simp_all add: uaddr_def umapped_def fun_eq_iff)
qed

lemma chunk_bytes:
  assumes "unat va mod 4096 + n \<le> 4096"
  shows "PGROUNDDOWN a \<noteq> upa m root (PGROUNDDOWN va) \<Longrightarrow> put_bytes m (uaddr m root va) src i n a = m a"
    "j < n \<Longrightarrow> put_bytes m (uaddr m root va) src i n (uaddr m root (va + of_nat j)) = src (i + j)"
    "(\<And>j. j < n \<Longrightarrow> a \<noteq> uaddr m root (va + of_nat j)) \<Longrightarrow> put_bytes m (uaddr m root va) src i n a = m a"
proof -
  have at: "a = uaddr m root (va + of_nat (unat (a - uaddr m root va)))" if "unat (a - uaddr m root va) < n" for a
    using that assms by (subst uaddr_chunk) simp_all
  show "PGROUNDDOWN a \<noteq> upa m root (PGROUNDDOWN va) \<Longrightarrow> put_bytes m (uaddr m root va) src i n a = m a"
  proof (rule ccontr)
    assume ne: "PGROUNDDOWN a \<noteq> upa m root (PGROUNDDOWN va)" "put_bytes m (uaddr m root va) src i n a \<noteq> m a"
    then have lt: "unat (a - uaddr m root va) < n" by (simp add: put_bytes_def split: if_splits)
    then have "PGROUNDDOWN (va + of_nat (unat (a - uaddr m root va))) = PGROUNDDOWN va"
      using assms by (intro offset_in_page) linarith
    then show False using ne(1) PGROUNDDOWN_upa_offset at [OF lt] by metis
  qed
  show "put_bytes m (uaddr m root va) src i n (uaddr m root (va + of_nat j)) = src (i + j)" if "j < n"
  proof -
    have "uaddr m root (va + of_nat j) = uaddr m root va + of_nat j" using that assms by (intro uaddr_chunk) linarith
    moreover have "unat (of_nat j :: u64) = j" using that assms by (simp add: unat_of_nat)
    ultimately show ?thesis using that by (simp add: put_bytes_def)
  qed
  show "put_bytes m (uaddr m root va) src i n a = m a" if "\<And>j. j < n \<Longrightarrow> a \<noteq> uaddr m root (va + of_nat j)"
    using at that by (cases "unat (a - uaddr m root va) < n") (blast, simp add: put_bytes_def)
qed

lemma copyout_loop_spec:
  assumes "pt_wf e (mem s) root" "user_range (mem s) root dstva (unat len)"
  shows "\<exists>m. copyout_loop root dstva src i len s = Ok (0, s\<lparr>mem := m\<rparr>) \<and>
    (\<forall>j < unat len. m (uaddr (mem s) root (dstva + of_nat j)) = src (i + j)) \<and>
    (\<forall>a. (\<forall>j < unat len. a \<noteq> uaddr (mem s) root (dstva + of_nat j)) \<longrightarrow> m a = mem s a)"
  using assms
proof (induction "unat len" arbitrary: dstva i len s rule: less_induct)
  case less
  show ?case
  proof (cases "len = 0")
    case True
    then show ?thesis by (intro exI [of _ "mem s"]) (subst copyout_loop.simps, simp)
  next
    case False
    let ?va0 = "PGROUNDDOWN dstva" let ?n = "min (4096 - (dstva - ?va0)) len"
    note c = chunk_positive [OF False, of dstva] chunk_next [OF False, of dstva]
    note later = chunk_later [OF False, of _ dstva]
    let ?m = "put_bytes (mem s) (uaddr (mem s) root dstva) src i (unat ?n)"
    have first: "umapped (mem s) root dstva" "upa (mem s) root ?va0 \<notin> pt_pages (mem s) root"
      using less.prems(2) [unfolded user_range_def, THEN conjunct1, rule_format, of 0] c(2,3) by simp_all
    have step: "copyout_loop root dstva src i len s =
        copyout_loop root (?va0 + 4096) src (i + unat ?n) (len - ?n) (s\<lparr>mem := ?m\<rparr>)"
      using False first(1) walkaddr_upa [OF less.prems(1)]
      by (subst copyout_loop.simps) (simp add: Let_def umapped_def uaddr_def)
    have fr: "?m a = mem s a" if "PGROUNDDOWN a \<in> pt_pages (mem s) root" for a
      using chunk_bytes(1) [OF c(5)] that first(2) by metis
    note tf = translation_frame [OF less.prems(1), of ?m]
    have same: "pt_wf e ?m root" "upa ?m root = upa (mem s) root" "uaddr ?m root = uaddr (mem s) root"
      "umapped ?m root = umapped (mem s) root" "pt_pages ?m root = pt_pages (mem s) root" using tf fr by blast+
    have "user_range ?m root (?va0 + 4096) (unat (len - ?n))"
      unfolding user_range_def same using less.prems(2) later unfolding user_range_def by metis
    then obtain m where m: "copyout_loop root (?va0 + 4096) src (i + unat ?n) (len - ?n) (s\<lparr>mem := ?m\<rparr>) = Ok (0, s\<lparr>mem := m\<rparr>)"
      "\<forall>j < unat (len - ?n). m (uaddr (mem s) root (?va0 + 4096 + of_nat j)) = src (i + unat ?n + j)"
      "\<forall>a. (\<forall>j < unat (len - ?n). a \<noteq> uaddr (mem s) root (?va0 + 4096 + of_nat j)) \<longrightarrow> m a = ?m a"
      using less.hyps [OF c(1), of "s\<lparr>mem := ?m\<rparr>" "?va0 + 4096" "i + unat ?n"] same by auto
    have "m (uaddr (mem s) root (dstva + of_nat j)) = src (i + j)" if "j < unat len" for j
    proof (cases "j < unat ?n")
      case True
      have "uaddr (mem s) root (dstva + of_nat j) \<noteq> uaddr (mem s) root (?va0 + 4096 + of_nat k)"
        if k: "k < unat (len - ?n)" for k
      proof
        assume "uaddr (mem s) root (dstva + of_nat j) = uaddr (mem s) root (?va0 + 4096 + of_nat k)"
        then have "j = unat ?n + k"
          using uaddr_inj [OF less.prems(2) \<open>j < unat len\<close> later(2) [OF k]] later(1) [OF k] u64_bound [of len] by simp
        then show False using True by simp
      qed
      then show ?thesis using m(3) chunk_bytes(2) [OF c(5) True] by simp
    next
      case False
      then have j: "j - unat ?n < unat (len - ?n)" "unat ?n + (j - unat ?n) = j" using \<open>j < unat len\<close> c(7) by linarith+
      have "?va0 + 4096 + of_nat (j - unat ?n) = dstva + of_nat j" using later(1) [OF j(1)] by (simp only: j(2))
      moreover have "i + unat ?n + (j - unat ?n) = i + j" using j(2) by linarith
      ultimately show ?thesis using m(2) [rule_format, OF j(1)] by (simp only:)
    qed
    moreover have "m a = mem s a" if a: "\<forall>j < unat len. a \<noteq> uaddr (mem s) root (dstva + of_nat j)" for a
    proof -
      have "a \<noteq> uaddr (mem s) root (?va0 + 4096 + of_nat j)" if "j < unat (len - ?n)" for j
        using a later(2) [OF that] unfolding later(1) [OF that] by blast
      then have "m a = ?m a" using m(3) by blast
      also have "\<dots> = mem s a" by (rule chunk_bytes(3) [OF c(5)], rule a [rule_format], rule less_le_trans [OF _ c(3)])
      finally show ?thesis .
    qed
    ultimately show ?thesis using step m(1) by auto
  qed
qed

section \<open>\<^verbatim>\<open>copyinstr\<close>\<close>

lemma next_byte: "(p :: u64) + 1 + of_nat j = p + of_nat (Suc j)"
  by (simp add: algebra_simps)

lemma next_byte_diff: "Suc i \<le> k \<Longrightarrow> (p :: u64) + 1 + of_nat (k - Suc i) = p + of_nat (k - i)"
  unfolding next_byte by (simp only: Suc_diff_le Suc_diff_Suc Suc_le_eq)

lemma copyinstr_chunk_nul:
  assumes "l < n" "m (p + of_nat l) = 0" "\<forall>j<l. m (p + of_nat j) \<noteq> 0"
  shows "copyinstr_chunk m p dst i n = (True, \<lambda>k. if i \<le> k \<and> k \<le> i + l then m (p + of_nat (k - i)) else dst k)"
  using assms
proof (induction n arbitrary: p dst i l)
  case (Suc n)
  show ?case
  proof (cases l)
    case 0
    then show ?thesis using Suc.prems by (auto simp: fun_eq_iff)
  next
    case l: (Suc l')
    have "m p \<noteq> 0" using Suc.prems(3) [rule_format, of 0] l by simp
    moreover have "copyinstr_chunk m (p + 1) (dst(i := m p)) (Suc i) n =
        (True, \<lambda>k. if Suc i \<le> k \<and> k \<le> Suc i + l' then m (p + 1 + of_nat (k - Suc i)) else (dst(i := m p)) k)"
    proof (rule Suc.IH)
      show "l' < n" using Suc.prems(1) l by simp
      show "m (p + 1 + of_nat l') = 0" "\<forall>j<l'. m (p + 1 + of_nat j) \<noteq> 0"
        unfolding next_byte using Suc.prems(2,3) l by blast+
    qed
    moreover have "(\<lambda>k. if Suc i \<le> k \<and> k \<le> Suc i + l' then m (p + 1 + of_nat (k - Suc i)) else (dst(i := m p)) k) =
        (\<lambda>k. if i \<le> k \<and> k \<le> i + l then m (p + of_nat (k - i)) else dst k)"
    proof
      fix k
      consider "Suc i \<le> k" | "k = i" | "k < i" by linarith
      then show "(if Suc i \<le> k \<and> k \<le> Suc i + l' then m (p + 1 + of_nat (k - Suc i)) else (dst(i := m p)) k) =
          (if i \<le> k \<and> k \<le> i + l then m (p + of_nat (k - i)) else dst k)"
        by cases (simp_all add: next_byte_diff l del: of_nat_diff)
    qed
    ultimately show ?thesis by simp
  qed
qed simp

lemma copyinstr_chunk_none:
  assumes "\<forall>j<n. m (p + of_nat j) \<noteq> 0"
  shows "copyinstr_chunk m p dst i n = (False, get_bytes m p dst i n)"
  using assms
proof (induction n arbitrary: p dst i)
  case 0
  then show ?case by (auto simp: get_bytes_def fun_eq_iff)
next
  case (Suc n)
  have "m p \<noteq> 0" using Suc.prems [rule_format, of 0] by simp
  moreover have "copyinstr_chunk m (p + 1) (dst(i := m p)) (Suc i) n = (False, get_bytes m (p + 1) (dst(i := m p)) (Suc i) n)"
    by (rule Suc.IH; unfold next_byte) (use Suc.prems in blast)
  moreover have "get_bytes m (p + 1) (dst(i := m p)) (Suc i) n k = get_bytes m p dst i (Suc n) k" for k
  proof -
    consider "Suc i \<le> k" | "k = i" | "k < i" by linarith
    then show ?thesis by cases (simp_all add: get_bytes_def next_byte_diff del: of_nat_diff)
  qed
  ultimately show ?case by (simp add: fun_eq_iff)
qed

lemma copyinstr_loop_found:
  assumes wf: "pt_wf e (mem s) root" and "l < unat maxn"
    and "\<forall>j\<le>l. umapped (mem s) root (srcva + of_nat j)"
    and "mem s (uaddr (mem s) root (srcva + of_nat l)) = 0"
    and "\<forall>j<l. mem s (uaddr (mem s) root (srcva + of_nat j)) \<noteq> 0"
  shows "copyinstr_loop root dst i srcva maxn s =
    Ok (0, \<lambda>k. if i \<le> k \<and> k \<le> i + l then mem s (uaddr (mem s) root (srcva + of_nat (k - i))) else dst k)"
  using assms(2-)
proof (induction "unat maxn" arbitrary: dst i srcva maxn l rule: less_induct)
  case less
  then have len: "maxn \<noteq> 0" by auto
  let ?va0 = "PGROUNDDOWN srcva" let ?n = "min (4096 - (srcva - ?va0)) maxn"
  let ?p = "uaddr (mem s) root srcva"
  note c = chunk_positive [OF len, of srcva] chunk_next [OF len, of srcva]
  have at: "uaddr (mem s) root (srcva + of_nat j) = ?p + of_nat j" if "j < unat ?n" for j
    using that c(5) by (intro uaddr_chunk) linarith
  have "umapped (mem s) root (srcva + of_nat 0)" using less.prems(2) by blast
  then have pa: "walkaddr root ?va0 s = Ok (upa (mem s) root ?va0)" "upa (mem s) root ?va0 \<noteq> 0"
    using walkaddr_upa [OF wf] by (simp_all add: umapped_def)
  show ?case
  proof (cases "l < unat ?n")
    case True
    then have "copyinstr_chunk (mem s) ?p dst i (unat ?n) =
        (True, \<lambda>k. if i \<le> k \<and> k \<le> i + l then mem s (?p + of_nat (k - i)) else dst k)"
      using less.prems(3,4) at by (intro copyinstr_chunk_nul) auto
    moreover have "?p + of_nat (k - i) = uaddr (mem s) root (srcva + of_nat (k - i))" if "k \<le> i + l" for k
      using at [of "k - i"] that True by simp
    then have "(\<lambda>k. if i \<le> k \<and> k \<le> i + l then mem s (?p + of_nat (k - i)) else dst k) =
        (\<lambda>k. if i \<le> k \<and> k \<le> i + l then mem s (uaddr (mem s) root (srcva + of_nat (k - i))) else dst k)"
      by (intro ext if_cong) (auto simp del: of_nat_diff)
    ultimately have "copyinstr_chunk (mem s) (upa (mem s) root ?va0 + (srcva - ?va0)) dst i (unat ?n) =
        (True, \<lambda>k. if i \<le> k \<and> k \<le> i + l then mem s (uaddr (mem s) root (srcva + of_nat (k - i))) else dst k)"
      by (simp only: uaddr_def [of "mem s" root srcva])
    then show ?thesis
      using len pa by (subst copyinstr_loop.simps) (simp only: Let_def rbind.simps if_False if_True case_prod_conv simp_thms)
  next
    case False
    let ?dst = "get_bytes (mem s) ?p dst i (unat ?n)"
    have "\<forall>j < unat ?n. mem s (?p + of_nat j) \<noteq> 0"
    proof (intro allI impI)
      fix j assume j: "j < unat ?n"
      then have "j < l" using False by linarith
      then show "mem s (?p + of_nat j) \<noteq> 0" using less.prems(4) at [OF j] by metis
    qed
    then have "copyinstr_chunk (mem s) ?p dst i (unat ?n) = (False, ?dst)" by (rule copyinstr_chunk_none)
    then have step: "copyinstr_loop root dst i srcva maxn s =
        copyinstr_loop root ?dst (i + unat ?n) (?va0 + 4096) (maxn - ?n) s"
      using len pa by (subst copyinstr_loop.simps) (simp add: Let_def uaddr_def)
    have l: "l - unat ?n < unat (maxn - ?n)" "unat ?n + (l - unat ?n) = l" using False less.prems(1) c(7) by linarith+
    have later: "?va0 + 4096 + of_nat j = srcva + of_nat (unat ?n + j)" if "j \<le> l - unat ?n" for j
      using chunk_later(1) [OF len, of j srcva] that l(1) by linarith
    have run: "copyinstr_loop root ?dst (i + unat ?n) (?va0 + 4096) (maxn - ?n) s =
        Ok (0, \<lambda>k. if i + unat ?n \<le> k \<and> k \<le> i + unat ?n + (l - unat ?n)
          then mem s (uaddr (mem s) root (?va0 + 4096 + of_nat (k - (i + unat ?n)))) else ?dst k)"
    proof (rule less.hyps [OF c(1) l(1)])
      show "\<forall>j\<le>l - unat ?n. umapped (mem s) root (?va0 + 4096 + of_nat j)"
        using less.prems(2) later l(2) by (metis nat_add_left_cancel_le)
      show "mem s (uaddr (mem s) root (?va0 + 4096 + of_nat (l - unat ?n))) = 0"
        unfolding later [OF order_refl] l(2) by (rule less.prems(3))
      show "\<forall>j<l - unat ?n. mem s (uaddr (mem s) root (?va0 + 4096 + of_nat j)) \<noteq> 0"
        using less.prems(4) later l(2) by (metis less_imp_le nat_add_left_cancel_less)
    qed
    have "(if i + unat ?n \<le> k \<and> k \<le> i + unat ?n + (l - unat ?n)
          then mem s (uaddr (mem s) root (?va0 + 4096 + of_nat (k - (i + unat ?n)))) else ?dst k) =
        (if i \<le> k \<and> k \<le> i + l then mem s (uaddr (mem s) root (srcva + of_nat (k - i))) else dst k)" for k
    proof (cases "i + unat ?n \<le> k")
      case True
      show ?thesis
      proof (cases "k \<le> i + l")
        case below: True
        have e: "?va0 + 4096 + of_nat (k - (i + unat ?n)) = srcva + of_nat (k - i)"
        proof -
          have "k - (i + unat ?n) \<le> l - unat ?n" "unat ?n + (k - (i + unat ?n)) = k - i" using True below by linarith+
          then show ?thesis using later by metis
        qed
        have "k \<le> i + unat ?n + (l - unat ?n)" "i \<le> k" using below True l(2) by linarith+
        then show ?thesis unfolding e using True below by simp
      qed (use True l(2) in \<open>auto simp: get_bytes_def\<close>)
    next
      case lt: False
      show ?thesis
      proof (cases "i \<le> k")
        case True
        then have "k - i < unat ?n" "k < i + unat ?n" "k \<le> i + l" using lt False by linarith+
        then show ?thesis
          using at [of "k - i"] lt True unfolding get_bytes_def by (simp only: if_True if_False simp_thms)
      qed (use lt in \<open>simp add: get_bytes_def\<close>)
    qed
    then show ?thesis using step run by presburger
  qed
qed

end
