(* ===== verification/Vm_Props.thy ===== *)
theory Vm_Props
  imports Copy_User
begin

text \<open>
  The properties of \<^verbatim>\<open>kernel/vm.c\<close>, with an example address space for the inputs they are applied to:
  one user page mapped at address 0.
\<close>

section \<open>An address space with one page\<close>

definition pool :: kmem where
  "pool = fold pushed [0x80034000, 0x80033000, 0x80032000, 0x80031000, 0x80030000]
     \<lparr>held = [], mem = (\<lambda>_. 0), freelist = 0, kend = 0x80026018\<rparr>"

lemma pool_pages: "\<forall>p \<in> {0x80030000, 0x80031000, 0x80032000, 0x80033000, 0x80034000}. page_ok 0x80026018 p"
  by (simp add: page_ok_def aligned_def PHYSTOP_value)

lemma pool:
  "free_pages pool [0x80030000, 0x80031000, 0x80032000, 0x80033000, 0x80034000]"
  "kmem_ready pool" "kend pool = 0x80026018" "held pool = []"
proof -
  have "free_pages \<lparr>held = [], mem = (\<lambda>_. 0), freelist = (0 :: u64), kend = 0x80026018\<rparr> []"
    by (simp add: free_pages_def)
  then show "free_pages pool [0x80030000, 0x80031000, 0x80032000, 0x80033000, 0x80034000]"
    using pool_pages by (simp add: pool_def pushed_free_pages)
  show "kmem_ready pool" "kend pool = 0x80026018" "held pool = []" by (simp_all add: pool_def kmem_ready_def)
qed

definition rwu :: u64 where "rwu = PTE_R OR PTE_W OR PTE_U"

definition one_page :: "kmem \<Rightarrow> pagetable_t \<Rightarrow> u64 list \<Rightarrow> bool" where
  "one_page s root ps \<longleftrightarrow> as_inv s root ps \<and> held s = [] \<and> kend s = 0x80026018 \<and>
     (\<forall>va. va < SV39 \<longrightarrow> pte_of (mem s) root va = (if PGROUNDDOWN va = 0 then PA2PTE 0x80030000 OR rwu OR PTE_V else 0)) \<and>
     0x80030000 \<notin> set ps \<and> 0x80030000 \<notin> pt_pages (mem s) root"

lemma one_page_exists: "\<exists>s root ps. one_page s root ps"
proof -
  let ?s1 = "popped 0x80030000 pool"
  let ?s2 = "(popped 0x80031000 ?s1)\<lparr>mem := memset (mem (popped 0x80031000 ?s1)) 0x80031000 0 PGSIZE\<rparr>"
  let ?ps = "[0x80032000, 0x80033000, 0x80034000] :: u64 list"
  have "free_pages ?s1 (0x80031000 # ?ps)" using pool(1) by (rule popped_free_pages)
  moreover have "kmem_ready ?s1" using pool by (simp add: kmem_ready_def)
  ultimately have s2: "as_inv ?s2 0x80031000 ?ps" "pt_pages (mem ?s2) 0x80031000 = {0x80031000}"
    "\<And>va. pte_of (mem ?s2) 0x80031000 va = 0" by (rule fresh_table)+
  have keep: "held ?s2 = []" "kend ?s2 = 0x80026018" using pool by simp_all
  have a0: "aligned 0" "unat (0 :: u64) + 4096 * Suc 0 \<le> 2 ^ 38" by (simp_all add: aligned_def)
  have free: "\<forall>va. in_pages 0 (Suc 0) va \<longrightarrow> pte_of (mem ?s2) 0x80031000 va AND PTE_V = 0" unfolding s2(3) by simp
  obtain r s3 ps where s3: "table_frame 0x80031000 ?s2 ?ps s3 ps"
    "r = 0 \<and> mapped 0x80031000 0 (Suc 0) 0x80030000 rwu ?s2 s3 \<or> r = -1 \<and> ps = [] \<and> length ?ps \<le> 2 * Suc 0"
    using mappages_loop_spec [OF s2(1) a0 free, of "0x80030000" rwu] by blast
  then have m: "mapped 0x80031000 0 (Suc 0) 0x80030000 rwu ?s2 s3" by auto
  have in0: "in_pages 0 (Suc 0) va \<longleftrightarrow> PGROUNDDOWN va = 0" for va
    using in_pages_Suc [OF a0, of va] by (simp only: in_pages_0 simp_thms)
  obtain us where us: "?ps = us @ ps" "pt_pages (mem s3) 0x80031000 = {0x80031000} \<union> set us"
    "as_inv s3 0x80031000 ps" "held s3 = []" "kend s3 = 0x80026018"
    using s3(1) s2(2) keep unfolding table_frame_def by metis
  have "set us \<union> set ps = set ?ps" using arg_cong [OF us(1), of set] by simp
  then have "0x80030000 \<notin> set us \<union> set ps" by simp
  then have "0x80030000 \<notin> set ps" "0x80030000 \<notin> pt_pages (mem s3) 0x80031000" unfolding us(2) by auto
  moreover have "pte_of (mem s3) 0x80031000 va = (if PGROUNDDOWN va = 0 then PA2PTE 0x80030000 OR rwu OR PTE_V else 0)"
    if "va < SV39" for va
    using m [unfolded mapped_def, rule_format, OF that] unfolding s2(3) in0 by auto
  ultimately show ?thesis unfolding one_page_def using us(3-5) by blast
qed

section \<open>Properties\<close>

lemma unat_add_small: "unat (x :: u64) + unat y < 2 ^ 64 \<Longrightarrow> unat (x + y) = unat x + unat y"
  by (simp add: unat_plus_if')

lemma mappages_last:
  assumes "0 < sz" "unat va + unat sz \<le> 2 ^ 38"
  defines "n \<equiv> (unat va mod 4096 + unat sz - 1) div 4096"
  shows "PGROUNDDOWN (va + sz - 1) = PGROUNDDOWN va + of_nat (4096 * n)"
    "unat (PGROUNDDOWN va) + 4096 * Suc n \<le> 2 ^ 38"
proof -
  have sz: "0 < unat sz" using assms(1) by (simp add: word_less_nat_alt)
  have "unat (va + sz) = unat va + unat sz" using assms(2) by (subst unat_plus_if') simp
  moreover from this have "va + sz \<noteq> 0" using sz by auto
  ultimately have last: "unat (va + sz - 1) = unat va + unat sz - 1" by (simp add: unat_minus_one)
  let ?b = "unat va - unat va mod 4096"
  have b: "unat (PGROUNDDOWN va) = ?b" by (rule unat_PGROUNDDOWN)
  have split: "unat va + unat sz - 1 = ?b + (unat va mod 4096 + unat sz - 1)" using sz by simp
  have "4096 dvd ?b" by (rule dvd_minus_mod)
  then obtain k where k: "?b = 4096 * k" by (elim dvdE)
  have div: "(?b + x) div 4096 * 4096 = ?b + x div 4096 * 4096" for x unfolding k by simp
  have fin: "unat (PGROUNDDOWN (va + sz - 1)) = ?b + 4096 * n"
    unfolding unat_PGROUNDDOWN last split minus_mod_eq_div_mult div n_def by simp
  have le: "?b + 4096 * n \<le> unat va + unat sz - 1"
    unfolding split n_def by simp
  then have "unat (of_nat (4096 * n) :: u64) = 4096 * n" using assms(2) by (subst unat_of_nat) simp
  moreover have "(2 :: nat) ^ 38 < 2 ^ 64" by simp
  then have "?b + 4096 * n < 2 ^ 64" using le assms(2) by linarith
  ultimately have "unat (PGROUNDDOWN va + of_nat (4096 * n)) = ?b + 4096 * n"
    using b by (metis unat_add_small)
  then show "PGROUNDDOWN (va + sz - 1) = PGROUNDDOWN va + of_nat (4096 * n)"
    using fin by (simp only: word_unat_eq_iff)
  have q: "?b + 4096 * n = 4096 * (k + n)" unfolding k by simp
  have "4096 * (k + n) < 2 ^ 38" using le assms(2) sz unfolding q [symmetric] by linarith
  then have "k + n < 67108864" by simp
  then have "4096 * (k + n) + 4096 \<le> 2 ^ 38" by simp
  then show "unat (PGROUNDDOWN va) + 4096 * Suc n \<le> 2 ^ 38" unfolding q [symmetric] b mult_Suc_right by (simp only: ac_simps)
qed

text \<open>
  C16: \<^verbatim>\<open>mappages\<close> installs exactly the mappings it was asked for. On a well-formed table whose pages
  are not on the free list and that has no mapping yet in the range, it returns 0 or -1 without
  panic. After 0, the entry of every address in the pages touched by \<^verbatim>\<open>[va, va+size)\<close> leads to the
  corresponding physical page with the given permissions, and every other address has the
  entry it had; -1 only happens when no free page is left. In both cases the table is well
  formed, made of its old pages and of pages taken off the free list, and no memory outside
  them has changed.
\<close>

theorem mappages_maps_range:
  assumes inv: "as_inv s root ps" and sz: "0 < sz" "unat va + unat sz \<le> 2 ^ 38"
  defines "n \<equiv> Suc ((unat va mod 4096 + unat sz - 1) div 4096)"
  assumes free: "\<forall>v. in_pages (PGROUNDDOWN va) n v \<longrightarrow> pte_of (mem s) root v AND PTE_V = 0"
  shows "\<exists>r t ps'. mappages root va sz pa perm s = Ok (r, t) \<and> table_frame root s ps t ps' \<and>
    (r = 0 \<and> (\<forall>v. v < SV39 \<longrightarrow> pte_of (mem t) root v =
        (if in_pages (PGROUNDDOWN va) n v then PA2PTE (pa + (PGROUNDDOWN v - PGROUNDDOWN va)) OR perm OR PTE_V
         else pte_of (mem s) root v))
     \<or> r = -1 \<and> ps' = [])"
proof -
  note l = mappages_last [OF sz]
  show ?thesis
    using mappages_loop_spec [OF inv aligned_PGROUNDDOWN l(2), of pa perm] free l(1)
    unfolding mappages_def mapped_def n_def by auto
qed

theorem mappages_maps_range_witness:
  "\<exists>(s :: kmem) root r t. mappages root 0x1ffe 4 0x80040000 rwu s = Ok (r, t) \<and>
     (r = 0 \<and> pte_of (mem t) root 0x2001 = PA2PTE 0x80041000 OR rwu OR PTE_V \<or> r = -1)"
proof -
  obtain s :: kmem and root ps where s: "as_inv s root ps"
    "\<And>va. va < SV39 \<Longrightarrow> pte_of (mem s) root va = (if PGROUNDDOWN va = 0 then PA2PTE 0x80030000 OR rwu OR PTE_V else 0)"
    using one_page_exists unfolding one_page_def by blast
  have pg: "PGROUNDDOWN 0x1ffe = 0x1000" "PGROUNDDOWN 0x2001 = 0x2000" by (simp_all add: PGROUNDDOWN_def)
  have n: "Suc ((unat (0x1ffe :: u64) mod 4096 + unat (4 :: u64) - 1) div 4096) = 2" by simp
  have "pte_of (mem s) root v AND PTE_V = 0" if v: "in_pages 0x1000 2 v" for v
  proof -
    have "v < SV39" "0x1000 \<le> unat v" using v by (simp_all add: in_pages_def SV39_def word_less_nat_alt)
    moreover from this have "PGROUNDDOWN v \<noteq> 0"
      using PGROUNDDOWN_eq_iff [of 0 v] by (simp add: aligned_def)
    ultimately show ?thesis using s(2) by simp
  qed
  then have free: "\<forall>v. in_pages (PGROUNDDOWN 0x1ffe) (Suc ((unat (0x1ffe :: u64) mod 4096 + unat (4 :: u64) - 1) div 4096)) v
      \<longrightarrow> pte_of (mem s) root v AND PTE_V = 0" unfolding pg n by blast
  have small: "(0 :: u64) < 4" "unat (0x1ffe :: u64) + unat (4 :: u64) \<le> 2 ^ 38" by simp_all
  obtain r t where rt: "mappages root 0x1ffe 4 0x80040000 rwu s = Ok (r, t)"
    "r = 0 \<and> (\<forall>v. v < SV39 \<longrightarrow> pte_of (mem t) root v =
        (if in_pages 0x1000 2 v then PA2PTE (0x80040000 + (PGROUNDDOWN v - 0x1000)) OR rwu OR PTE_V
         else pte_of (mem s) root v)) \<or> r = -1"
    using mappages_maps_range [OF s(1) small free, of "0x80040000" rwu] unfolding pg n by blast
  have "r = 0 \<Longrightarrow> pte_of (mem t) root 0x2001 = PA2PTE 0x80041000 OR rwu OR PTE_V"
    using rt(2) by (auto dest!: spec [of _ "0x2001"] simp: SV39_def in_pages_def pg)
  then show ?thesis using rt by blast
qed

text \<open>
  C17: \<^verbatim>\<open>uvmfree\<close> gives every page of an address space back. If the user pages below \<^verbatim>\<open>sz\<close> are mapped
  once each, to pages that are neither free nor part of the table, and nothing else is mapped,
  then \<^verbatim>\<open>uvmfree\<close> returns without panic, three levels of recursion being enough, and the free list
  afterwards holds exactly the pages it held before, all pages of the page table and all user
  pages, without repetition.
\<close>

theorem uvmfree_returns_every_page:
  assumes "as_inv s root ps" "owned s root ps 0 n" "4096 * n \<le> 2 ^ 38"
    and "unat (PGROUNDUP sz) = 4096 * n" "sz = 0 \<longrightarrow> n = 0"
    and "\<And>va. va < SV39 \<Longrightarrow> \<not> in_pages 0 n va \<Longrightarrow> pte_of (mem s) root va AND PTE_V = 0"
  shows "\<exists>t ps'. uvmfree 3 root sz s = Some (Ok t) \<and> free_pages t ps' \<and> distinct ps' \<and>
    set ps' = set ps \<union> pt_pages (mem s) root \<union> set (upages (mem s) root 0 n) \<and> held t = held s"
  using uvmfree_spec [OF assms] unfolding free_pages_def by blast

theorem uvmfree_returns_every_page_witness:
  "\<exists>(s :: kmem) root ps t ps'. one_page s root ps \<and> uvmfree 3 root 100 s = Some (Ok t) \<and>
     free_pages t ps' \<and> distinct ps' \<and> set ps' = set ps \<union> pt_pages (mem s) root \<union> {0x80030000} \<and> held t = held s"
proof -
  obtain s root ps where op: "one_page s root ps" using one_page_exists by blast
  then have s: "as_inv s root ps" "kend s = 0x80026018"
    "\<And>va. va < SV39 \<Longrightarrow> pte_of (mem s) root va = (if PGROUNDDOWN va = 0 then PA2PTE 0x80030000 OR rwu OR PTE_V else 0)"
    "0x80030000 \<notin> set ps" "0x80030000 \<notin> pt_pages (mem s) root" unfolding one_page_def by blast+
  have rv: "rwu OR PTE_V = 23"
    by (simp add: rwu_def PTE_R_def PTE_W_def PTE_U_def PTE_V_def push_bit_eq_mult)
  have in1: "in_pages 0 1 va \<longleftrightarrow> PGROUNDDOWN va = 0" for va
    using in_pages_Suc [of 0 0 va] by (simp add: aligned_def in_pages_0 [of "4096"])
  have lt: "va < SV39" if "PGROUNDDOWN va = 0" for va
    using that PGROUNDDOWN_eq_iff [of 0 va] by (simp add: aligned_def SV39_def word_less_nat_alt)
  have e: "pte_of (mem s) root 0 = PA2PTE 0x80030000 OR 23"
    using s(3) [of 0] by (simp add: SV39_def PGROUNDDOWN_def rv)
  have pa: "PTE2PA (PA2PTE 0x80030000 OR 23) = 0x80030000" by (rule PTE2PA_PA2PTE) (simp_all add: aligned_def)
  have flags: "PTE_FLAGS (PA2PTE 0x80030000 OR 23) = 23" "(PA2PTE 0x80030000 OR 23) AND PTE_V = 1"
    by (simp_all add: PTE_FLAGS_def PA2PTE_def PTE_V_def push_bit_eq_mult drop_bit_eq_div)
  have ups: "upages (mem s) root 0 1 = [0x80030000]" using e pa by simp
  have "owned s root ps 0 1"
    unfolding owned_def ups using s flags pool_pages in1 lt rv by (auto simp: PTE_V_value)
  moreover have "unat (PGROUNDUP 100) = 4096 * 1" by (simp add: PGROUNDUP_def)
  moreover have "pte_of (mem s) root va AND PTE_V = 0" if "va < SV39" "\<not> in_pages 0 1 va" for va
    using s(3) [OF that(1)] that(2) in1 by simp
  moreover have "4096 * 1 \<le> (2 :: nat) ^ 38" "(100 :: u64) = 0 \<longrightarrow> (1 :: nat) = 0" by simp_all
  ultimately have "\<exists>t ps'. uvmfree 3 root 100 s = Some (Ok t) \<and> free_pages t ps' \<and> distinct ps' \<and>
      set ps' = set ps \<union> pt_pages (mem s) root \<union> set (upages (mem s) root 0 1) \<and> held t = held s"
    by (intro uvmfree_returns_every_page [OF s(1)]) auto
  then show ?thesis using op unfolding ups list.set by blast
qed

lemma one_page_wf: "one_page s root ps \<Longrightarrow> pt_wf 0x80026018 (mem s) root"
  unfolding one_page_def as_inv_def by metis

lemma one_page_upa:
  assumes "one_page s root ps"
  shows "upa (mem s) root 0 = 0x80030000"
proof -
  have "\<And>va. va < SV39 \<Longrightarrow> pte_of (mem s) root va = (if PGROUNDDOWN va = 0 then PA2PTE 0x80030000 OR rwu OR PTE_V else 0)"
    using assms unfolding one_page_def as_inv_def by metis
  then show ?thesis
    using PTE2PA_PA2PTE [of "0x80030000" 23]
    by (simp add: upa_def SV39_def MAXVA_value PGROUNDDOWN_def aligned_def rwu_def PA2PTE_def PTE_R_def PTE_W_def
        PTE_U_def PTE_V_def push_bit_eq_mult drop_bit_eq_div)
qed

lemma one_page_low:
  assumes "unat va + n \<le> 4096" "j < n"
  shows "PGROUNDDOWN (va + of_nat j) = 0"
  using assms by (subst PGROUNDDOWN_eq_iff) (simp_all add: aligned_def unat_word_ariths unat_of_nat)

lemma one_page_range:
  assumes op: "one_page s root ps" and n: "unat va + n \<le> 4096"
  shows "user_range (mem s) root va n"
proof -
  have "0x80030000 \<notin> pt_pages (mem s) root" using op unfolding one_page_def by metis
  then show ?thesis using one_page_upa [OF op] one_page_low [OF n] by (simp add: user_range_def umapped_def)
qed

text \<open>
  C18: what \<^verbatim>\<open>copyout\<close> writes to user memory, \<^verbatim>\<open>copyin\<close> reads back. If the \<^verbatim>\<open>len\<close> bytes at the user address
  are mapped for the user, each page once and none of them to a page of the table, \<^verbatim>\<open>copyout\<close>
  returns 0, byte \<open>j\<close> of the buffer is in the physical byte that user address \<open>va + j\<close> stands for,
  no other byte of memory has changed, and a \<^verbatim>\<open>copyin\<close> from the same address then returns 0 and
  delivers the same bytes, also across page boundaries.
\<close>

theorem copyout_copyin_roundtrip:
  assumes "pt_wf e (mem s) root" "user_range (mem s) root va (unat len)"
  shows "\<exists>t. copyout root va src len s = Ok (0, t) \<and> t = s\<lparr>mem := mem t\<rparr> \<and>
    (\<forall>a. (\<forall>j < unat len. a \<noteq> uaddr (mem s) root (va + of_nat j)) \<longrightarrow> mem t a = mem s a) \<and>
    copyin root dst va len t = Ok (0, \<lambda>k. if k < unat len then src k else dst k)"
proof -
  obtain m where m: "copyout root va src len s = Ok (0, s\<lparr>mem := m\<rparr>)"
    "\<forall>j < unat len. m (uaddr (mem s) root (va + of_nat j)) = src j"
    "\<forall>a. (\<forall>j < unat len. a \<noteq> uaddr (mem s) root (va + of_nat j)) \<longrightarrow> m a = mem s a"
    using copyout_loop_spec [OF assms, of src 0] by (auto simp: copyout_def)
  have "m a = mem s a" if a: "PGROUNDDOWN a \<in> pt_pages (mem s) root" for a
  proof -
    have "a \<noteq> uaddr (mem s) root (va + of_nat j)" if "j < unat len" for j
      using a assms(2) that PGROUNDDOWN_upa_offset by (auto simp: user_range_def)
    then show ?thesis using m(3) by blast
  qed
  then have same: "pt_wf e m root" "uaddr m root = uaddr (mem s) root" "umapped m root = umapped (mem s) root"
    using translation_frame [OF assms(1), of m] by blast+
  define t where "t = s\<lparr>mem := m\<rparr>"
  have mt: "mem t = m" by (simp add: t_def)
  have "copyin root dst va len t =
      Ok (0, \<lambda>k. if 0 \<le> k \<and> k < 0 + unat len then mem t (uaddr (mem t) root (va + of_nat (k - 0))) else dst k)"
    unfolding copyin_def
    by (rule copyin_loop_mapped [of e]) (use same assms(2) in \<open>auto simp: user_range_def mt\<close>)
  also have "\<dots> = Ok (0, \<lambda>k. if k < unat len then src k else dst k)"
    unfolding mt same(2) using m(2) by (auto simp: fun_eq_iff)
  finally show ?thesis using m mt by (intro exI [of _ t]) (auto simp: t_def)
qed

theorem copyout_copyin_roundtrip_witness:
  "\<exists>(s :: kmem) root t. copyout root 4000 (\<lambda>k. of_nat k) 90 s = Ok (0, t) \<and>
     copyin root (\<lambda>_. 7) 4000 90 t = Ok (0, \<lambda>k. if k < 90 then of_nat k else 7)"
proof -
  obtain s root ps where op: "one_page s root ps" using one_page_exists by blast
  then have s: "pt_wf 0x80026018 (mem s) root" "user_range (mem s) root 4000 (unat (90 :: u64))"
    using one_page_wf one_page_range [OF op, of 4000 90] by simp_all
  from copyout_copyin_roundtrip [OF s, of "\<lambda>k. of_nat k" "\<lambda>_. 7"] show ?thesis by auto
qed

text \<open>
  C19: \<^verbatim>\<open>copyin\<close> reads user memory or fails, and never panics: if all \<^verbatim>\<open>len\<close> bytes are mapped for the user
  it returns 0 with exactly those bytes in the buffer; if any of them is not mapped, lies beyond
  \<^verbatim>\<open>MAXVA\<close> or is not accessible to the user, it returns -1.
\<close>

theorem copyin_reads_or_fails:
  assumes "pt_wf e (mem s) root"
  shows "if \<forall>j < unat len. umapped (mem s) root (va + of_nat j)
    then copyin root dst va len s =
      Ok (0, \<lambda>k. if k < unat len then mem s (uaddr (mem s) root (va + of_nat k)) else dst k)
    else \<exists>dst'. copyin root dst va len s = Ok (-1, dst')"
  using copyin_loop_mapped [OF assms, of len va dst 0] copyin_loop_unmapped [OF assms, of _ len va dst 0]
  by (auto simp: copyin_def)

theorem copyin_reads_or_fails_witness:
  "\<exists>(s :: kmem) root dst'. copyin root (\<lambda>_. 7) 4090 10 s = Ok (-1, dst')"
proof -
  obtain s root ps where op: "one_page s root ps" using one_page_exists by blast
  then have s: "pt_wf 0x80026018 (mem s) root" "pte_of (mem s) root 4096 = 0"
    unfolding one_page_def as_inv_def by (auto simp: SV39_def PGROUNDDOWN_def)
  then have "\<not> umapped (mem s) root (4090 + of_nat 6)"
    by (simp add: umapped_def upa_def PGROUNDDOWN_def)
  then have "\<not> (\<forall>j < unat (10 :: u64). umapped (mem s) root (4090 + of_nat j))" by (auto intro!: exI [of _ 6])
  then show ?thesis using copyin_reads_or_fails [OF s(1), of 10 4090 "\<lambda>_. 7"] by metis
qed

text \<open>
  C20: \<^verbatim>\<open>copyinstr\<close> fetches a NUL-terminated user string of fewer than \<^verbatim>\<open>max\<close> bytes: if the first NUL is at
  offset \<open>l < max\<close> and the bytes up to it are mapped, it returns 0 and the buffer holds the
  string with its NUL and is unchanged beyond it.
\<close>

theorem copyinstr_fetches_string:
  assumes "pt_wf e (mem s) root" "l < unat maxn" "\<forall>j\<le>l. umapped (mem s) root (va + of_nat j)"
    and "mem s (uaddr (mem s) root (va + of_nat l)) = 0"
    and "\<forall>j<l. mem s (uaddr (mem s) root (va + of_nat j)) \<noteq> 0"
  shows "\<exists>buf. copyinstr root dst va maxn s = Ok (0, buf) \<and> strlen buf = Some l \<and>
    (\<forall>k\<le>l. buf k = mem s (uaddr (mem s) root (va + of_nat k))) \<and> (\<forall>k>l. buf k = dst k)"
proof -
  let ?buf = "\<lambda>k. if 0 \<le> k \<and> k \<le> 0 + l then mem s (uaddr (mem s) root (va + of_nat (k - 0))) else dst k"
  have "copyinstr root dst va maxn s = Ok (0, ?buf)"
    unfolding copyinstr_def by (rule copyinstr_loop_found [OF assms])
  moreover have "strlen ?buf = Some l" by (rule strlen_Some) (use assms(4,5) in auto)
  ultimately show ?thesis by auto
qed

theorem copyinstr_fetches_string_witness:
  "\<exists>(s :: kmem) root buf. copyinstr root (\<lambda>_. 7) 100 16 s = Ok (0, buf) \<and> strlen buf = Some 0 \<and> buf 1 = 7"
proof -
  obtain s root ps where op: "one_page s root ps" using one_page_exists by blast
  then have s: "pt_wf 0x80026018 (mem s) root" "0x80030000 \<notin> pt_pages (mem s) root"
    "\<And>va. va < SV39 \<Longrightarrow> pte_of (mem s) root va = (if PGROUNDDOWN va = 0 then PA2PTE 0x80030000 OR rwu OR PTE_V else 0)"
    unfolding one_page_def as_inv_def by metis+
  let ?m = "(mem s)(0x80030064 := 0)"
  let ?t = "s\<lparr>mem := ?m\<rparr>"
  have "?m a = mem s a" if "PGROUNDDOWN a \<in> pt_pages (mem s) root" for a
    using that s(2) by (auto simp: PGROUNDDOWN_def)
  then have t: "pt_wf 0x80026018 (mem ?t) root" "upa (mem ?t) root = upa (mem s) root"
    using translation_frame [OF s(1), of ?m] by auto
  have u: "upa (mem s) root 0 = 0x80030000"
    using s(3) [of 0] PTE2PA_PA2PTE [of "0x80030000" 23]
    by (simp add: upa_def SV39_def MAXVA_value PGROUNDDOWN_def aligned_def rwu_def PA2PTE_def PTE_R_def PTE_W_def
        PTE_U_def PTE_V_def push_bit_eq_mult drop_bit_eq_div)
  then have "umapped (mem ?t) root 100" "uaddr (mem ?t) root 100 = 0x80030064"
    unfolding umapped_def uaddr_def t(2) by (simp_all add: PGROUNDDOWN_def)
  then show ?thesis
    using copyinstr_fetches_string [OF t(1), of 0 16 100 "\<lambda>_. 7"] by fastforce
qed

end
