(* ===== verification/Net_Props.thy ===== *)
theory Net_Props
  imports Net Vm_Props Proc_Props
begin

text \<open>
  Packets: the header checksum that the receiver verifies is the one the sender puts in, a datagram is
  recognised by the stack that built it, packet queues are first-in first-out, and a datagram goes to its
  socket.
\<close>

section \<open>The Internet checksum\<close>

text \<open>The words of a header of even length, as natural numbers.\<close>

fun words_sum :: "cstr \<Rightarrow> nat \<Rightarrow> nat \<Rightarrow> nat" where
  "words_sum w i 0 = 0"
| "words_sum w i (Suc n) = unat (get_le 2 w i :: u16) + words_sum w (i + 2) n"

lemma words_sum_less: "words_sum w i n \<le> n * 65535"
proof (induction n arbitrary: i)
  case (Suc n)
  have "unat (get_le 2 w i :: u16) < 2 ^ LENGTH(16)" by (rule unsigned_less)
  then show ?case using Suc [of "i + 2"] by simp
qed simp

lemma cksum_loop_sum: "cksum_loop w i (2 * n) acc = acc + of_nat (words_sum w i n)"
proof (induction n arbitrary: i acc)
  case (Suc n)
  have "(ucast (get_le 2 w i :: u16) :: u32) = of_nat (unat (get_le 2 w i :: u16))" by (simp add: unsigned_of_nat)
  then show ?case using Suc [of "i + 2"] by (simp add: add.assoc)
qed simp

definition fold16 :: "nat \<Rightarrow> nat" where
  "fold16 x = (let a = x mod 65536 + x div 65536 in (a + a div 65536) mod 65536)"

lemma unat_not16: "unat (NOT (y :: u16)) = 65535 - unat y"
proof -
  have "unat y < 2 ^ LENGTH(16)" by (rule unsigned_less)
  then have "y \<le> 0xFFFF" by (simp add: word_le_nat_alt)
  then have "unat (0xFFFF - y) = 65535 - unat y" by (simp add: unat_sub)
  moreover have "NOT y = 0xFFFF - y" by (simp add: not_eq_complement)
  ultimately show ?thesis by simp
qed

lemma ucast_not: "(ucast (NOT (x :: u32)) :: u16) = NOT (ucast x)"
  by (rule bit_word_eqI) (auto simp: bit_simps)

lemma in_cksum_fold:
  assumes "n \<le> 1000"
  shows "unat (in_cksum w i (2 * n)) = 65535 - fold16 (words_sum w i n)"
proof -
  define S where "S = words_sum w i n"
  have S: "S \<le> 65535000" using words_sum_less [of w i n] assms by (simp add: S_def)
  define acc :: u32 where "acc = of_nat S"
  define a where "a = (acc AND 0xffff) + drop_bit 16 acc"
  have acc: "unat acc = S" using S by (simp add: acc_def unat_of_nat)
  have "acc AND 0xffff = take_bit 16 acc" by (simp add: take_bit_eq_mask mask_eq_exp_minus_1)
  then have lo: "unat (acc AND 0xffff) = S mod 65536" by (simp add: acc take_bit_eq_mod unat_mod_distrib)
  have hi: "unat (drop_bit 16 acc) = S div 65536" unfolding unat_drop_bit_eq acc by (simp add: drop_bit_eq_div)
  have ua: "unat a = S mod 65536 + S div 65536"
    using S unfolding a_def by (subst unat_plus_if') (simp add: lo hi)
  have "unat (a + drop_bit 16 a) = unat a + unat a div 65536"
    using S by (subst unat_plus_if', unfold unat_drop_bit_eq) (simp add: drop_bit_eq_div ua)
  moreover have "in_cksum w i (2 * n) = NOT (ucast (a + drop_bit 16 a))"
    unfolding in_cksum_def cksum_loop_sum Let_def by (simp add: acc_def S_def a_def ucast_not)
  ultimately show ?thesis
    by (simp add: unat_not16 unsigned_ucast_eq ua fold16_def S_def [symmetric] Let_def take_bit_eq_mod)
qed

text \<open>One's-complement arithmetic: folding keeps the value modulo 65535 and gives 0 only for 0.\<close>

lemma fold16_mod:
  assumes "x < 2 ^ 32"
  shows "fold16 x mod 65535 = x mod 65535" "fold16 x \<le> 65535" "fold16 x = 0 \<longleftrightarrow> x = 0"
proof -
  define a where "a = x mod 65536 + x div 65536"
  have x: "x = 65536 * (x div 65536) + x mod 65536" "x div 65536 < 65536" "x mod 65536 < 65536"
    using assms by simp_all
  then have "x = a + 65535 * (x div 65536)" by (simp add: a_def)
  then have xa: "x mod 65535 = a mod 65535" by (metis mod_mult_self2)
  have a: "a \<le> 2 * 65535" "a = 0 \<longleftrightarrow> x = 0" using x by (auto simp: a_def)
  have f: "fold16 x = (if a < 65536 then a else a - 65535)"
  proof (cases "a < 65536")
    case False
    then have "a div 65536 = 1" "(a + 1) mod 65536 = a - 65535" using a(1) by (simp_all add: div_nat_eqI le_mod_geq)
    then show ?thesis using False by (simp add: fold16_def a_def [symmetric])
  qed (simp add: fold16_def a_def [symmetric])
  then show "fold16 x mod 65535 = x mod 65535" using xa by (simp add: le_mod_geq)
  show "fold16 x \<le> 65535" "fold16 x = 0 \<longleftrightarrow> x = 0" using f a by auto
qed

lemma fold16_complement:
  assumes "x < 2 ^ 31"
  shows "fold16 (x + (65535 - fold16 x)) = 65535"
proof -
  let ?y = "x + (65535 - fold16 x)"
  have y: "?y < 2 ^ 32" using assms by simp
  have "?y \<noteq> 0"
    using fold16_mod(2,3) [of x] assms by (cases "x = 0") auto
  moreover have "?y mod 65535 = 0"
  proof -
    have "(x + (65535 - fold16 x)) mod 65535 = (fold16 x + (65535 - fold16 x)) mod 65535"
      using fold16_mod(1) [of x] assms by (intro mod_add_cong) auto
    then show ?thesis using fold16_mod(2) [of x] assms by simp
  qed
  ultimately have "fold16 ?y \<noteq> 0" "fold16 ?y mod 65535 = 0" "fold16 ?y \<le> 65535" using fold16_mod [OF y] by auto
  then show ?thesis by (metis le_neq_implies_less mod_less)
qed

lemma words_sum_other:
  "off + 2 \<le> i \<or> i + 2 * n \<le> off \<Longrightarrow> words_sum (put_le 2 b off v) i n = words_sum b i n"
  by (induction n arbitrary: i) (auto simp: get_le_put_le_other)

lemma words_sum_split: "words_sum w i (j + k) = words_sum w i j + words_sum w (i + 2 * j) k"
  by (induction j arbitrary: i) (auto simp: algebra_simps)

lemma words_sum_field:
  assumes "(get_le 2 b (i + 2 * j) :: u16) = 0"
  shows "words_sum (put_le 2 b (i + 2 * j) (v :: u16)) i (j + Suc k) = words_sum b i (j + Suc k) + unat v"
  unfolding words_sum_split using assms by (simp add: words_sum_other get_le_put_le)

lemma in_cksum_verifies:
  assumes "(get_le 2 b (i + 2 * j) :: u16) = 0" "j + Suc k \<le> 1000"
  shows "in_cksum (put_le 2 b (i + 2 * j) (in_cksum b i (2 * (j + Suc k)))) i (2 * (j + Suc k)) = 0"
proof -
  let ?x = "words_sum b i (j + Suc k)"
  have x: "?x < 2 ^ 31" using words_sum_less [of b i "j + Suc k"] assms(2) by simp
  have "unat (in_cksum (put_le 2 b (i + 2 * j) (in_cksum b i (2 * (j + Suc k)))) i (2 * (j + Suc k))) = 65535 - fold16 (?x + (65535 - fold16 ?x))"
    unfolding in_cksum_fold [OF assms(2)] words_sum_field [OF assms(1)] ..
  then show ?thesis unfolding fold16_complement [OF x] by (simp add: unat_eq_zero)
qed

lemma put_array_at: "put_array b p xs (p + k) = (if k < length xs then xs ! k else b (p + k))"
  by (simp add: put_array_def)

lemma put_ip_cksum: "in_cksum (put_ip proto dip len p b) p 20 = 0"
proof -
  define c where "c = (put_le 2 (put_le 4 (put_le 4 ((put_array b p (replicate 20 0))(p := push_bit 4 4 OR drop_bit 2 20, p + 9 := proto))
    (p + 12) (bswapl local_ip)) (p + 16) (bswapl dip)) (p + 2) (bswaps len))(p + 8 := 100)"
  have e: "put_ip proto dip len p b = put_le 2 c (p + 2 * 5) (in_cksum c p (2 * (5 + Suc 4)))"
    by (simp add: put_ip_def c_def Let_def)
  have "c (p + 10) = 0" "c (p + 11) = 0"
    by (simp_all add: c_def put_le_def put_array_at)
  then have "(get_le 2 c (p + 2 * 5) :: u16) = 0" by (simp add: get_le_def upt_rec add.assoc)
  from in_cksum_verifies [OF this, of 4] show ?thesis unfolding e by simp
qed

text \<open>
  C29: The IP header that \<^verbatim>\<open>net_tx_ip\<close> builds passes the checksum test of \<^verbatim>\<open>net_rx_ip\<close>, for every protocol, address
  and length and wherever in the buffer it is.
\<close>

theorem ip_checksum_verifies: "in_cksum (put_ip proto dip len p b) p 20 = 0"
  by (rule put_ip_cksum)

section \<open>Headers\<close>

lemma byte_masks:
  "(0x00ff :: u16) = mask 8" "(0xff00 :: u16) = push_bit 8 (mask 8)" "(0x000000ff :: u32) = mask 8"
  "(0x0000ff00 :: u32) = push_bit 8 (mask 8)" "(0x00ff0000 :: u32) = push_bit 16 (mask 8)" "(0xff000000 :: u32) = push_bit 24 (mask 8)"
  by (simp_all add: mask_eq_exp_minus_1 push_bit_eq_mult)

lemma bswaps_bit: "bit (bswaps x) n \<longleftrightarrow> n < 16 \<and> bit x (if n < 8 then n + 8 else n - 8)"
  unfolding bswaps_def byte_masks by (auto simp: bit_simps add.commute)

lemma bswaps_bswaps: "bswaps (bswaps x) = x"
  by (rule bit_word_eqI) (auto simp: bswaps_bit)

lemma bswapl_bit: "bit (bswapl x) n \<longleftrightarrow> n < 32 \<and> bit x (8 * (3 - n div 8) + n mod 8)"
proof (cases "n < 32")
  case True
  then consider "n < 8" | "8 \<le> n" "n < 16" | "16 \<le> n" "n < 24" | "24 \<le> n" "n < 32" by linarith
  then show ?thesis
    by cases (auto simp: bswapl_def byte_masks bit_simps le_div_geq le_mod_geq)
qed (auto dest: bit_imp_le_length)

lemma bswapl_bswapl: "bswapl (bswapl x) = x"
proof (rule bit_word_eqI)
  fix n assume "n < LENGTH(32)"
  then have n: "n < 32" "n div 8 \<le> 3" by auto
  let ?m = "8 * (3 - n div 8) + n mod 8"
  have "?m div 8 = 3 - n div 8" "?m mod 8 = n mod 8" "?m < 32" using n by auto
  moreover have "8 * (3 - (3 - n div 8)) + n mod 8 = n" using n by simp
  ultimately show "bit (bswapl (bswapl x)) n = bit x n" using n(1) by (simp only: bswapl_bit simp_thms)
qed

lemma get_le_upd_other: "i < off \<or> off + n \<le> i \<Longrightarrow> get_le n (d(i := v)) off = get_le n d off"
  by (rule get_le_cong) auto

lemma get_le_put_array_other:
  "off + n \<le> p \<or> p + length xs \<le> off \<Longrightarrow> get_le n (put_array d p xs) off = get_le n d off"
  by (rule get_le_cong) (auto simp: put_array_def)

lemma get_le_zeros:
  "p \<le> off \<Longrightarrow> off + n \<le> p + k \<Longrightarrow> (get_le n (put_array d p (replicate k 0)) off :: 'a::len word) = 0"
proof -
  assume *: "p \<le> off" "off + n \<le> p + k"
  have "(get_le n (put_array d p (replicate k 0)) off :: 'a word) = get_le n (\<lambda>_. 0) off"
    using * by (intro get_le_cong) (auto simp: put_array_def)
  also have "\<dots> = le_join (replicate n 0)" by (simp add: get_le_def map_replicate_const)
  also have "\<dots> = 0" by (induction n) auto
  finally show ?thesis .
qed

lemmas header_simps = get_le_put_le get_le_put_le_other get_le_upd_other get_le_put_array_other get_le_zeros

lemma put_eth_fields:
  "get_le 2 (put_eth ty p b) (p + 12) = bswaps ty" "p + 14 \<le> i \<Longrightarrow> put_eth ty p b i = b i"
  by (simp_all add: put_eth_def Let_def header_simps)
     (simp add: put_le_def put_array_def local_mac_def broadcast_mac_def)

lemma put_ip_fields:
  "put_ip proto dip len p b p = 0x45" "put_ip proto dip len p b (p + 9) = proto"
  "get_le 2 (put_ip proto dip len p b) (p + 2) = bswaps len" "(get_le 2 (put_ip proto dip len p b) (p + 6) :: u16) = 0"
  "get_le 4 (put_ip proto dip len p b) (p + 12) = bswapl local_ip" "get_le 4 (put_ip proto dip len p b) (p + 16) = bswapl dip"
  "p + 20 \<le> i \<Longrightarrow> put_ip proto dip len p b i = b i"
  unfolding put_ip_def Let_def
  by (simp add: put_le_def, simp add: put_le_def, simp_all add: header_simps)
     (simp add: put_le_def put_array_def)

lemma put_udp_fields:
  "get_le 2 (put_udp sport dport len p b) p = bswaps sport" "get_le 2 (put_udp sport dport len p b) (p + 2) = bswaps dport"
  "get_le 2 (put_udp sport dport len p b) (p + 4) = bswaps len" "p + 8 \<le> i \<Longrightarrow> put_udp sport dport len p b i = b i"
  by (simp_all add: put_udp_def Let_def header_simps) (simp add: put_le_def)

section \<open>A datagram on the wire\<close>

text \<open>The frame around \<open>n\<close> bytes of payload, from position \<open>p\<close> of the buffer on.\<close>

definition datagram :: "u32 \<Rightarrow> u16 \<Rightarrow> u16 \<Rightarrow> nat \<Rightarrow> nat \<Rightarrow> cstr \<Rightarrow> cstr" where
  "datagram dip sport dport n p b =
     put_eth ETHTYPE_IP p (put_ip IPPROTO_UDP dip (of_nat (n + 28)) (p + 14) (put_udp sport dport (of_nat (n + 8)) (p + 34) b))"

lemma get_le_shift: "(\<And>k. k < n \<Longrightarrow> d (off + k) = d' (off' + k)) \<Longrightarrow> get_le n d off = get_le n d' off'"
  by (auto simp: get_le_def intro!: arg_cong [where f = le_join])

lemma words_sum_shift: "(\<And>k. k < 2 * n \<Longrightarrow> w (i + k) = w' (i' + k)) \<Longrightarrow> words_sum w i n = words_sum w' i' n"
proof (induction n arbitrary: i i')
  case (Suc n)
  have "w (i + 2 + k) = w' (i' + 2 + k)" if "k < 2 * n" for k using Suc.prems [of "2 + k"] that by (simp add: add.assoc)
  then have "words_sum w (i + 2) n = words_sum w' (i' + 2) n" by (rule Suc.IH)
  moreover have "(get_le 2 w i :: u16) = get_le 2 w' i'" using Suc.prems by (intro get_le_shift) simp
  ultimately show ?case by simp
qed simp

lemma in_cksum_shift:
  "(\<And>k. k < 2 * n \<Longrightarrow> w (i + k) = w' (i' + k)) \<Longrightarrow> in_cksum w i (2 * n) = in_cksum w' i' (2 * n)"
  using words_sum_shift [of n w i w' i'] unfolding in_cksum_def cksum_loop_sum by simp

text \<open>The fields the receiver looks at, in a buffer that holds the frame from position \<open>q\<close> on.\<close>

lemma datagram_fields:
  assumes "\<And>k. k < 42 \<Longrightarrow> w (q + k) = datagram dip sport dport n p b (p + k)"
  shows "get_le 2 w (q + 12) = bswaps ETHTYPE_IP" "w (q + 14) = 0x45" "in_cksum w (q + 14) 20 = 0"
    "(get_le 2 w (q + 14 + 6) :: u16) = 0" "get_le 4 w (q + 14 + 16) = bswapl dip" "w (q + 14 + 9) = IPPROTO_UDP"
    "get_le 2 w (q + 14 + 2) = (bswaps (of_nat (n + 28)) :: u16)" "get_le 4 w (q + 14 + 12) = bswapl local_ip"
    "get_le 2 w (q + 34) = bswaps sport" "get_le 2 w (q + 34 + 2) = bswaps dport"
    "get_le 2 w (q + 34 + 4) = (bswaps (of_nat (n + 8)) :: u16)"
proof -
  let ?u = "put_udp sport dport (of_nat (n + 8)) (p + 34) b" let ?i = "put_ip IPPROTO_UDP dip (of_nat (n + 28)) (p + 14) ?u"
  have i: "w (q + 14 + k) = ?i (p + 14 + k)" if "k < 28" for k
    using assms [of "14 + k"] that put_eth_fields(2) [of p "p + 14 + k" ETHTYPE_IP ?i] by (simp add: datagram_def add.assoc)
  have u: "w (q + 34 + k) = ?u (p + 34 + k)" if "k < 8" for k
    using i [of "20 + k"] that put_ip_fields(7) [of "p + 14" "p + 34 + k" IPPROTO_UDP dip "of_nat (n + 28)" ?u] by (simp add: add.assoc)
  have "(get_le 2 w (q + 12) :: u16) = get_le 2 (datagram dip sport dport n p b) (p + 12)"
    using assms by (intro get_le_shift) (simp add: add.assoc)
  then show "get_le 2 w (q + 12) = bswaps ETHTYPE_IP" by (simp add: datagram_def put_eth_fields)
  have il: "(get_le j w (q + 14 + off) :: 'a::len word) = get_le j ?i (p + 14 + off)" if "off + j \<le> 28" for j off
    using i that by (intro get_le_shift) (simp add: add.assoc)
  show "(get_le 2 w (q + 14 + 6) :: u16) = 0" "get_le 4 w (q + 14 + 16) = bswapl dip"
    "get_le 2 w (q + 14 + 2) = (bswaps (of_nat (n + 28)) :: u16)" "get_le 4 w (q + 14 + 12) = bswapl local_ip"
    by (subst il, simp, rule put_ip_fields)+
  have ul: "(get_le j w (q + 34 + off) :: 'a::len word) = get_le j ?u (p + 34 + off)" if "off + j \<le> 8" for j off
    using u that by (intro get_le_shift) (simp add: add.assoc)
  have "get_le 2 w (q + 34 + 0) = bswaps sport" by (subst ul) (simp_all add: put_udp_fields)
  then show "get_le 2 w (q + 34) = bswaps sport" by simp
  show "get_le 2 w (q + 34 + 2) = bswaps dport" "get_le 2 w (q + 34 + 4) = (bswaps (of_nat (n + 8)) :: u16)"
    by (subst ul, simp, rule put_udp_fields)+
  show "w (q + 14) = 0x45" using i [of 0] by (simp add: put_ip_fields)
  show "w (q + 14 + 9) = IPPROTO_UDP" by (subst i, simp, rule put_ip_fields)
  have "in_cksum w (q + 14) (2 * 10) = in_cksum ?i (p + 14) (2 * 10)" using i by (intro in_cksum_shift) simp
  then show "in_cksum w (q + 14) 20 = 0" using put_ip_cksum by simp
qed

text \<open>The buffer with another window on its bytes, as \<^verbatim>\<open>mbufpull\<close> and the other window functions leave it.\<close>

definition window :: "u64 \<Rightarrow> nat \<Rightarrow> u32 \<Rightarrow> 'a netst_scheme \<Rightarrow> 'a netst_scheme" where
  "window m h l s = upd_mbuf m (\<lambda>y. y\<lparr>m_len := l, m_head := h\<rparr>) s"

lemma window_fields [simp]:
  "m_head (mbufs (window m h l s) m) = h" "m_len (mbufs (window m h l s) m) = l" "m_buf (mbufs (window m h l s) m) = m_buf (mbufs s m)"
  by (simp_all add: window_def upd_mbuf_def)

lemma window_self: "window m (m_head (mbufs s m)) (m_len (mbufs s m)) s = s"
  by (simp add: window_def upd_mbuf_def)

lemma window_window [simp]: "window m h l (window m h' l' s) = window m h l s"
  by (simp add: window_def upd_mbuf_def)

lemma mbufpull_window: "\<not> l < len \<Longrightarrow> mbufpull m len (window m h l s) = (Some h, window m (h + unat len) (l - len) s)"
  by (simp add: mbufpull_def) (simp add: window_def upd_mbuf_def)

lemma mbuf_order:
  "(y :: mbuf)\<lparr>m_head := h, m_len := l\<rparr> = y\<lparr>m_len := l, m_head := h\<rparr>"
  "y\<lparr>m_len := l, m_head := h, m_buf := b\<rparr> = y\<lparr>m_buf := b, m_len := l, m_head := h\<rparr>"
  by (cases y; simp)+

lemma mbuftrim_window: "snd (mbuftrim m len (window m h l s)) = window m h (if len > l then l else l - len) s"
  by (simp add: mbuftrim_def) (simp add: window_def upd_mbuf_def mbuf_order)

lemma bswaps_0: "bswaps 0 = 0"
  by (simp add: bswaps_def)

lemma net_rx_datagram:
  assumes "\<And>k. k < 42 \<Longrightarrow> m_buf (mbufs r m) (m_head (mbufs r m) + k) = datagram local_ip sport dport n p b (p + k)"
    and "n + 42 \<le> unat (m_len (mbufs r m))" "n + 28 < 2 ^ 16"
  shows "net_rx m r = sockrecvudp m local_ip dport sport (window m (m_head (mbufs r m) + 42) (of_nat n) r)"
proof -
  define q where "q = m_head (mbufs r m)"
  define L where "L = m_len (mbufs r m)"
  have r: "r = window m q L r" by (simp add: q_def L_def window_self)
  note f = datagram_fields [of "m_buf (mbufs r m)" q, OF assms(1) [folded q_def]]
  have n: "unat (of_nat n :: u32) = n" "(of_nat (n + 28) - 20 :: u16) = of_nat (n + 8)" "(of_nat (n + 8) - 8 :: u16) = of_nat n"
    "(ucast (of_nat n :: u16) :: u32) = of_nat n"
    using assms(3) by (simp_all add: unat_of_nat unsigned_of_nat take_bit_nat_eq_self)
  have u: "unat L \<ge> n + 42" using assms(2) by (simp add: L_def)
  then have l: "unat (L - 14) = unat L - 14" "unat (L - 14 - 20) = unat L - 34" "unat (L - 14 - 20 - 8) = unat L - 42"
    by (simp_all add: unat_sub word_le_nat_alt)
  then have L: "\<not> L < 14" "\<not> L - 14 < 20" "\<not> L - 14 - 20 < 8" "\<not> of_nat n > L - 14 - 20 - 8"
    using u n(1) by (simp_all add: word_less_nat_alt)
  then have L': "\<not> L - 42 < L - 42 - of_nat n" using word_sub_le [of "of_nat n" "L - 42"] by (simp add: not_less)
  have "net_rx m r = net_rx_ip m (window m (q + 14) (L - 14) r)"
    by (subst r) (simp add: net_rx_def mbufpull_window L sizeof_eth_def f bswaps_bswaps)
  also have "\<dots> = net_rx_udp m (of_nat (n + 8)) (q + 14) (window m (q + 34) (L - 14 - 20) r)"
    using f n(2) L(2) by (simp add: net_rx_ip_def mbufpull_window sizeof_ip_def Let_def bswaps_bswaps bswapl_bswapl bswaps_0)
      (simp add: add.commute)
  also have "\<dots> = sockrecvudp m local_ip dport sport (window m (q + 42) (of_nat n) r)"
    using f n(3,4) L(3,4) L'
    by (simp add: net_rx_udp_def mbufpull_window sizeof_udp_def Let_def bswaps_bswaps bswapl_bswapl mbuftrim_window split_def)
      (simp add: add.commute)
  finally show ?thesis by (simp add: q_def)
qed

lemma mbufpush_window:
  "unat len \<le> h \<Longrightarrow> mbufpush m len (window m h l s) = Ok (h - unat len, window m (h - unat len) (l + len) s)"
  by (simp add: mbufpush_def) (simp add: window_def upd_mbuf_def mbuf_order)

text \<open>The buffer with other bytes.\<close>

definition fill :: "u64 \<Rightarrow> cstr \<Rightarrow> 'a netst_scheme \<Rightarrow> 'a netst_scheme" where
  "fill m b s = upd_mbuf m (\<lambda>x. x\<lparr>m_buf := b\<rparr>) s"

lemma fill_fields [simp]:
  "m_head (mbufs (fill m b s) m) = m_head (mbufs s m)" "m_len (mbufs (fill m b s) m) = m_len (mbufs s m)"
  "m_buf (mbufs (fill m b s) m) = b" "fill m b (fill m c s) = fill m b s" "fill m b (window m h l s) = window m h l (fill m b s)"
  by (simp_all add: fill_def window_def upd_mbuf_def mbuf_order)

lemma upd_mbuf_buf: "upd_mbuf m (\<lambda>x. x\<lparr>m_buf := f x\<rparr>) s = fill m (f (mbufs s m)) s"
  by (simp add: fill_def upd_mbuf_def)

lemma ucast_of_nat16: "(ucast (of_nat k :: u32) :: u16) = of_nat k"
  by transfer simp

lemma net_tx_datagram:
  assumes "42 \<le> m_head (mbufs s m)" "m_len (mbufs s m) = of_nat n" "n < 2 ^ 31"
  shows "net_tx_udp m dip sport dport s =
    rbind (e1000_transmit m (window m (m_head (mbufs s m) - 42) (of_nat (n + 42))
      (fill m (datagram dip sport dport n (m_head (mbufs s m) - 42) (m_buf (mbufs s m))) s)))
    (\<lambda>(r, s). if r \<noteq> 0 then mbuffree m s else Ok s)"
proof -
  define h where "h = m_head (mbufs s m)"
  define b where "b = m_buf (mbufs s m)"
  define u where "u = put_udp sport dport (of_nat (n + 8)) (h - 8) b"
  define i where "i = put_ip IPPROTO_UDP dip (of_nat (n + 28)) (h - 28) u"
  have s: "s = window m h (of_nat n) s" using window_self [of m s] assms(2) by (simp add: h_def)
  have h: "8 \<le> h" "20 \<le> h - 8" "14 \<le> h - 28" "h - 8 = (h - 42) + 34" "h - 28 = (h - 42) + 14" using assms(1) by (auto simp: h_def)
  have l: "(of_nat n + 8 :: u32) = of_nat (n + 8)" "(of_nat (n + 8) + 20 :: u32) = of_nat (n + 28)" "(of_nat (n + 28) + 14 :: u32) = of_nat (n + 42)"
    by simp_all
  have "net_tx_udp m dip sport dport s = net_tx_ip m IPPROTO_UDP dip (window m (h - 8) (of_nat (n + 8)) (fill m u s))"
    using h(1) by (subst s) (simp add: net_tx_udp_def sizeof_udp_def mbufpush_window upd_mbuf_buf l ucast_of_nat16 u_def b_def del: of_nat_add)
  also have "\<dots> = net_tx_eth m ETHTYPE_IP (window m (h - 28) (of_nat (n + 28)) (fill m i s))"
    using h(2) by (simp add: net_tx_ip_def sizeof_ip_def mbufpush_window upd_mbuf_buf l ucast_of_nat16 i_def del: of_nat_add)
  also have "\<dots> = rbind (e1000_transmit m (window m (h - 42) (of_nat (n + 42)) (fill m (put_eth ETHTYPE_IP (h - 42) i) s)))
    (\<lambda>(r, s). if r \<noteq> 0 then mbuffree m s else Ok s)"
    using h(3) by (simp add: net_tx_eth_def sizeof_eth_def mbufpush_window upd_mbuf_buf l del: of_nat_add)
  finally show ?thesis unfolding datagram_def h_def [symmetric] b_def [symmetric] i_def u_def h(4,5) .
qed

lemma datagram_payload: "p + 42 \<le> i \<Longrightarrow> datagram dip sport dport n p b i = b i"
  by (simp add: datagram_def put_eth_fields put_ip_fields put_udp_fields)

text \<open>
  C7: What \<^verbatim>\<open>net_tx_udp\<close> hands to the driver is a frame that \<^verbatim>\<open>net_rx\<close> accepts: a buffer that starts with the same
  bytes, at any position and with any padding behind, goes to the socket of the sender's address and
  ports, with exactly the payload left between its head and its length.
\<close>

theorem udp_datagram_roundtrip:
  assumes "42 \<le> m_head (mbufs s m)" "m_len (mbufs s m) = of_nat n" "n + 28 < 2 ^ 16"
  shows "\<exists>x. net_tx_udp m local_ip sport dport s =
      rbind (e1000_transmit m (upd_mbuf m (\<lambda>_. x) s)) (\<lambda>(r, s). if r \<noteq> 0 then mbuffree m s else Ok s) \<and>
    m_len x = of_nat (n + 42) \<and> (\<forall>k < n. m_buf x (m_head x + 42 + k) = m_buf (mbufs s m) (m_head (mbufs s m) + k)) \<and>
    (\<forall>(r :: 'b netst_scheme) m'. (\<forall>k < n + 42. m_buf (mbufs r m') (m_head (mbufs r m') + k) = m_buf x (m_head x + k)) \<longrightarrow>
       n + 42 \<le> unat (m_len (mbufs r m')) \<longrightarrow>
       net_rx m' r = sockrecvudp m' local_ip dport sport (window m' (m_head (mbufs r m') + 42) (of_nat n) r))"
proof -
  define h where "h = m_head (mbufs s m)"
  define x where "x = (mbufs s m)\<lparr>m_len := of_nat (n + 42), m_head := h - 42, m_buf := datagram local_ip sport dport n (h - 42) (m_buf (mbufs s m))\<rparr>"
  have h: "42 \<le> h" using assms(1) by (simp add: h_def)
  have "window m (h - 42) (of_nat (n + 42)) (fill m (datagram local_ip sport dport n (h - 42) (m_buf (mbufs s m))) s) = upd_mbuf m (\<lambda>_. x) s"
    by (simp add: x_def window_def fill_def upd_mbuf_def mbuf_order del: of_nat_add)
  then have tx: "net_tx_udp m local_ip sport dport s =
      rbind (e1000_transmit m (upd_mbuf m (\<lambda>_. x) s)) (\<lambda>(r, s). if r \<noteq> 0 then mbuffree m s else Ok s)"
    using net_tx_datagram [OF assms(1,2), of local_ip sport dport] assms(3) by (simp add: h_def)
  have pay: "m_buf x (m_head x + 42 + k) = m_buf (mbufs s m) (h + k)" for k
    using h datagram_payload [of "h - 42" "h + k"] by (simp add: x_def)
  have rx: "net_rx m' r = sockrecvudp m' local_ip dport sport (window m' (m_head (mbufs r m') + 42) (of_nat n) r)"
    if "\<forall>k < n + 42. m_buf (mbufs r m') (m_head (mbufs r m') + k) = m_buf x (m_head x + k)" "n + 42 \<le> unat (m_len (mbufs r m'))"
    for r :: "'b netst_scheme" and m'
    by (rule net_rx_datagram [OF _ that(2) assms(3), of sport dport "h - 42" "m_buf (mbufs s m)"]) (use that(1) in \<open>simp add: x_def\<close>)
  show ?thesis using tx pay rx by (intro exI [of _ x]) (auto simp: x_def h_def)
qed

theorem udp_datagram_roundtrip_witness:
  "\<exists>(s :: netst) (r :: netst). net_rx 8 r = sockrecvudp 8 local_ip 7 5 (window 8 128 4 r) \<and>
     m_buf (mbufs s 8) = (\<lambda>_. 9) \<and> m_buf (mbufs r 8) 128 = 9 \<and> m_buf (mbufs r 8) 131 = 9"
proof -
  define s where "s = (undefined :: netst)\<lparr>mbufs := (\<lambda>_. \<lparr>m_next = 0, m_head = 128, m_len = 4, m_buf = (\<lambda>_. 9)\<rparr>)\<rparr>"
  have s: "42 \<le> m_head (mbufs s 8)" "m_len (mbufs s 8) = of_nat 4" "4 + 28 < (2 :: nat) ^ 16" by (simp_all add: s_def)
  obtain x :: mbuf where x: "m_len x = of_nat (4 + 42)" "\<forall>k < 4. m_buf x (m_head x + 42 + k) = m_buf (mbufs s 8) (m_head (mbufs s 8) + k)"
    "\<forall>(r :: netst) m'. (\<forall>k < 4 + 42. m_buf (mbufs r m') (m_head (mbufs r m') + k) = m_buf x (m_head x + k)) \<longrightarrow>
       4 + 42 \<le> unat (m_len (mbufs r m')) \<longrightarrow> net_rx m' r = sockrecvudp m' local_ip 7 5 (window m' (m_head (mbufs r m') + 42) (of_nat 4) r)"
    using udp_datagram_roundtrip [OF s, of 5 7] by blast
  define r where "r = upd_mbuf 8 (\<lambda>_. x\<lparr>m_head := 86, m_buf := (\<lambda>i. m_buf x (m_head x + (i - 86)))\<rparr>) s"
  have r: "m_head (mbufs r 8) = 86" "m_len (mbufs r 8) = 46" "\<And>k. m_buf (mbufs r 8) (86 + k) = m_buf x (m_head x + k)"
    using x(1) by (simp_all add: r_def upd_mbuf_def)
  have "net_rx 8 r = sockrecvudp 8 local_ip 7 5 (window 8 128 4 r)" using x(3) [rule_format, of r 8] r by simp
  moreover have "m_buf (mbufs r 8) 128 = 9" "m_buf (mbufs r 8) 131 = 9"
    using r(3) [of 42] r(3) [of 45] x(2) [rule_format, of 0] x(2) [rule_format, of 3] by (simp_all add: s_def add.commute)
  moreover have "m_buf (mbufs s 8) = (\<lambda>_. 9)" by (simp add: s_def)
  ultimately show ?thesis by blast
qed

section \<open>Packet queues\<close>

text \<open>The chain of \<^verbatim>\<open>next\<close> pointers from \<open>a\<close> on is the list of packets, and ends in 0.\<close>

fun mlist :: "(u64 \<Rightarrow> mbuf) \<Rightarrow> u64 list \<Rightarrow> u64 \<Rightarrow> bool" where
  "mlist h [] a \<longleftrightarrow> a = 0"
| "mlist h (x # xs) a \<longleftrightarrow> a = x \<and> x \<noteq> 0 \<and> mlist h xs (m_next (h x))"

definition queue_of :: "mbufq \<Rightarrow> 'a netst_scheme \<Rightarrow> u64 list \<Rightarrow> bool" where
  "queue_of q s xs \<longleftrightarrow> mlist (mbufs s) xs (q_head q) \<and> distinct xs \<and> (xs \<noteq> [] \<longrightarrow> q_tail q = last xs)"

lemma mlist_frame: "mlist h xs a \<Longrightarrow> (\<And>x. x \<in> set xs \<Longrightarrow> m_next (h' x) = m_next (h x)) \<Longrightarrow> mlist h' xs a"
  by (induction xs arbitrary: a) auto

lemma mlist_append:
  "mlist h xs a \<Longrightarrow> xs \<noteq> [] \<Longrightarrow> distinct xs \<Longrightarrow> m \<noteq> 0 \<Longrightarrow> m_next (h m) = 0 \<Longrightarrow> m \<notin> set xs \<Longrightarrow>
    mlist (h(last xs := (h (last xs))\<lparr>m_next := m\<rparr>)) (xs @ [m]) a"
proof (induction xs arbitrary: a)
  case (Cons x xs)
  show ?case
  proof (cases "xs = []")
    case False
    then have "last xs \<noteq> x" using Cons.prems(3) last_in_set by fastforce
    then show ?thesis using Cons False by auto
  qed (use Cons.prems in auto)
qed simp

lemma mbufq_init_queue: "queue_of (mbufq_init q) s []"
  by (simp add: queue_of_def mbufq_init_def)

lemma mbufq_empty_queue: "queue_of q s xs \<Longrightarrow> mbufq_empty q \<longleftrightarrow> xs = []"
  by (cases xs) (auto simp: queue_of_def mbufq_empty_def)

lemma pushtail_queue:
  assumes "queue_of q s xs" "m \<noteq> 0" "m \<notin> set xs" "mbufq_pushtail q m s = (q', t)"
  shows "queue_of q' t (xs @ [m])" "\<forall>a. m_buf (mbufs t a) = m_buf (mbufs s a) \<and> m_head (mbufs t a) = m_head (mbufs s a) \<and> m_len (mbufs t a) = m_len (mbufs s a)"
    "t = s\<lparr>mbufs := mbufs t\<rparr>"
proof -
  define h where "h = (mbufs s)(m := (mbufs s m)\<lparr>m_next := 0\<rparr>)"
  have l: "mlist h xs (q_head q)" "distinct xs" "xs \<noteq> [] \<Longrightarrow> q_tail q = last xs" "m_next (h m) = 0"
    using assms(1,3) by (auto simp: queue_of_def h_def elim!: mlist_frame)
  show "queue_of q' t (xs @ [m])"
  proof (cases "xs = []")
    case True
    then show ?thesis using l assms by (auto simp: mbufq_pushtail_def queue_of_def upd_mbuf_def)
  next
    case False
    then have "q_head q \<noteq> 0" using l(1) by (cases xs) auto
    then have "q' = q\<lparr>q_tail := m\<rparr>" "mbufs t = h(last xs := (h (last xs))\<lparr>m_next := m\<rparr>)"
      using assms(4) l(3) [OF False] by (auto simp: mbufq_pushtail_def upd_mbuf_def h_def)
    then show ?thesis using mlist_append [OF l(1) False l(2) assms(2) l(4) assms(3)] l(2) assms(3)
      unfolding queue_of_def by simp
  qed
  show "\<forall>a. m_buf (mbufs t a) = m_buf (mbufs s a) \<and> m_head (mbufs t a) = m_head (mbufs s a) \<and> m_len (mbufs t a) = m_len (mbufs s a)"
    "t = s\<lparr>mbufs := mbufs t\<rparr>"
    using assms(4) by (auto simp: mbufq_pushtail_def upd_mbuf_def Let_def split: if_splits)
qed

lemma pophead_queue:
  assumes "queue_of q s (m # xs)" "mbufq_pophead q s = (m', q')"
  shows "m' = m" "queue_of q' s xs"
  using assms by (auto simp: mbufq_pophead_def queue_of_def split: if_splits)

end
