(* ===== verification/Sock_Props.thy ===== *)
theory Sock_Props
  imports Sock Net_Props
begin

text \<open>
  Delivery of datagrams, \<^verbatim>\<open>kernel/sysnet.c\<close>: \<^verbatim>\<open>sockrecvudp\<close> appends to the receive queue of the right
  socket, \<^verbatim>\<open>sockread\<close> takes the oldest datagram from it, and what \<^verbatim>\<open>sockwrite\<close> does with a length that no
  packet can have.
\<close>

section \<open>The list of sockets and their queues\<close>

fun slist :: "(u64 \<Rightarrow> sock) \<Rightarrow> u64 list \<Rightarrow> u64 \<Rightarrow> bool" where
  "slist h [] a \<longleftrightarrow> a = 0"
| "slist h (x # xs) a \<longleftrightarrow> a = x \<and> x \<noteq> 0 \<and> slist h xs (so_next (h x))"

definition sock_for :: "u32 \<Rightarrow> u16 \<Rightarrow> u16 \<Rightarrow> sock \<Rightarrow> bool" where
  "sock_for raddr lport rport x \<longleftrightarrow> so_raddr x = raddr \<and> so_lport x = lport \<and> so_rport x = rport"

text \<open>The queue of each socket \<open>x\<close> of the list holds the packets \<open>rx x\<close>, and no packet is in two queues.\<close>

definition rx_queues :: "u64 list \<Rightarrow> (u64 \<Rightarrow> u64 list) \<Rightarrow> 'a netst_scheme \<Rightarrow> bool" where
  "rx_queues sl rx s \<longleftrightarrow> slist (socks s) sl (sockets s) \<and> (\<forall>x \<in> set sl. queue_of (so_rxq (socks s x)) s (rx x)) \<and>
     (\<forall>x \<in> set sl. \<forall>y \<in> set sl. x \<noteq> y \<longrightarrow> set (rx x) \<inter> set (rx y) = {})"

definition same_packets :: "'a netst_scheme \<Rightarrow> 'b netst_scheme \<Rightarrow> bool" where
  "same_packets s t \<longleftrightarrow> (\<forall>a. m_buf (mbufs t a) = m_buf (mbufs s a) \<and> m_head (mbufs t a) = m_head (mbufs s a) \<and>
     m_len (mbufs t a) = m_len (mbufs s a))"

lemma slist_frame: "slist h xs a \<Longrightarrow> (\<And>x. x \<in> set xs \<Longrightarrow> so_next (h' x) = so_next (h x)) \<Longrightarrow> slist h' xs a"
  by (induction xs arbitrary: a) auto

lemma slist_nonzero: "slist h xs a \<Longrightarrow> x \<in> set xs \<Longrightarrow> x \<noteq> 0"
  by (induction xs arbitrary: a) auto

lemma find_sock_list:
  "slist h xs a \<Longrightarrow> length xs \<le> n \<Longrightarrow> find_sock n raddr lport rport a h =
     Ok (case find (\<lambda>x. sock_for raddr lport rport (h x)) xs of None \<Rightarrow> 0 | Some x \<Rightarrow> x)"
proof (induction xs arbitrary: a n)
  case Nil
  then show ?case by (cases n) auto
next
  case (Cons x xs)
  then obtain k where "n = Suc k" by (cases n) auto
  then show ?case using Cons by (auto simp: sock_for_def)
qed

lemma queue_frame:
  "queue_of q s xs \<Longrightarrow> (\<And>x. x \<in> set xs \<Longrightarrow> m_next (mbufs t x) = m_next (mbufs s x)) \<Longrightarrow> queue_of q t xs"
  unfolding queue_of_def by (auto elim!: mlist_frame)

lemma pushtail_others:
  assumes "queue_of q s xs" "mbufq_pushtail q m s = (q', t)" "a \<notin> set xs" "a \<noteq> m"
  shows "m_next (mbufs t a) = m_next (mbufs s a)"
proof (cases "xs = []")
  case True
  then show ?thesis using assms by (auto simp: mbufq_pushtail_def upd_mbuf_def queue_of_def)
next
  case False
  then have "q_tail q \<in> set xs" using assms(1) by (simp add: queue_of_def)
  then show ?thesis using assms by (auto simp: mbufq_pushtail_def upd_mbuf_def Let_def split: if_splits)
qed

lemma pushtail_rx_queues:
  assumes rx: "rx_queues sl rx s" and si: "si \<in> set sl" and m: "m \<noteq> 0" "\<forall>x \<in> set sl. m \<notin> set (rx x)"
    and push: "mbufq_pushtail (so_rxq (socks s si)) m s = (q, t)"
  shows "rx_queues sl (rx(si := rx si @ [m])) (upd_sock si (\<lambda>x. x\<lparr>so_rxq := q\<rparr>) t)"
proof -
  have q: "queue_of (so_rxq (socks s si)) s (rx si)" using rx si by (simp add: rx_queues_def)
  have t: "t = s\<lparr>mbufs := mbufs t\<rparr>" "queue_of q t (rx si @ [m])" using pushtail_queue [OF q m(1) _ push] m(2) si by blast+
  obtain mb where mb: "t = s\<lparr>mbufs := mb\<rparr>" using t(1) by blast
  then have ts: "socks t = socks s" "sockets t = sockets s" by simp_all
  have "queue_of (so_rxq (socks s x)) t (rx x)" if x: "x \<in> set sl" "x \<noteq> si" for x
  proof (rule queue_frame)
    show "queue_of (so_rxq (socks s x)) s (rx x)" using rx x(1) by (simp add: rx_queues_def)
    fix a assume "a \<in> set (rx x)"
    moreover have "set (rx x) \<inter> set (rx si) = {}" using rx x si by (simp add: rx_queues_def)
    ultimately have "a \<notin> set (rx si)" "a \<noteq> m" using x m(2) by auto
    then show "m_next (mbufs t a) = m_next (mbufs s a)" by (rule pushtail_others [OF q push])
  qed
  then show ?thesis using t(2) rx m(2) si ts
    by (auto simp: rx_queues_def upd_sock_def queue_of_def elim!: slist_frame)
qed

text \<open>
  C8: a datagram goes to the end of the receive queue of the first socket of the list with its remote
  address and its two ports, the readers asleep there become runnable, and every other queue and the
  contents of every packet stay as they are; without such a socket the buffer is freed.
\<close>

theorem sockrecvudp_delivers:
  assumes "rx_queues sl rx s" "length sl \<le> NSOCK" "no_proc_lock s" "L_socktbl \<notin> set (held s)"
    and "\<forall>x \<in> set sl. L_sock x \<notin> set (held s) \<and> m \<notin> set (rx x)" "m \<noteq> 0"
  shows "case find (\<lambda>x. sock_for raddr lport rport (socks s x)) sl of
      None \<Rightarrow> sockrecvudp m raddr lport rport s = mbuffree m s
    | Some si \<Rightarrow> \<exists>t. sockrecvudp m raddr lport rport s = Ok t \<and> rx_queues sl (rx(si := rx si @ [m])) t \<and>
        same_packets s t \<and> t = (woken (Chan_sock_rxq si) s)\<lparr>mbufs := mbufs t, socks := socks t\<rparr>"
proof (cases "find (\<lambda>x. sock_for raddr lport rport (socks s x)) sl")
  case None
  then have "find_sock NSOCK raddr lport rport (sockets s) (socks s) = Ok 0"
    using find_sock_list [OF _ assms(2)] assms(1) by (simp add: rx_queues_def)
  then show ?thesis using None assms(4) by (simp add: sockrecvudp_def)
next
  case (Some si)
  have fs: "find_sock NSOCK raddr lport rport (sockets s) (socks s) = Ok si"
    using find_sock_list [OF _ assms(2)] Some assms(1) by (simp add: rx_queues_def)
  have si: "si \<in> set sl" using Some by (auto simp: find_Some_iff)
  then have "si \<noteq> 0" using assms(1) slist_nonzero by (auto simp: rx_queues_def)
  let ?s = "s\<lparr>held := L_sock si # L_socktbl # held s\<rparr>"
  obtain q t where qt: "mbufq_pushtail (so_rxq (socks ?s si)) m ?s = (q, t)" by fastforce
  have q: "queue_of (so_rxq (socks ?s si)) ?s (rx si)" using assms(1) si by (simp add: rx_queues_def queue_of_def)
  have t: "t = ?s\<lparr>mbufs := mbufs t\<rparr>" "same_packets s t"
    using pushtail_queue(2,3) [OF q assms(6) _ qt] assms(5) si by (auto simp: same_packets_def)
  have "rx_queues sl rx ?s" using assms(1) by (simp add: rx_queues_def queue_of_def)
  then have "rx_queues sl (rx(si := rx si @ [m])) (upd_sock si (\<lambda>x. x\<lparr>so_rxq := q\<rparr>) t)"
    using pushtail_rx_queues si assms(5,6) qt by blast
  moreover obtain mb where mb: "t = ?s\<lparr>mbufs := mb\<rparr>" using t(1) by blast
  moreover have "no_proc_lock (upd_sock si (\<lambda>x. x\<lparr>so_rxq := q\<rparr>) t)"
    using assms(3) by (simp add: mb no_proc_lock_def upd_sock_def)
  ultimately show ?thesis
    using Some fs \<open>si \<noteq> 0\<close> assms(4,5) si t(2) qt
    by (auto simp: sockrecvudp_def wakeup_Ok upd_sock_def woken_def rx_queues_def queue_of_def same_packets_def)
qed

text \<open>A machine for the witnesses: one socket with one packet of five bytes in its queue.\<close>

definition sock_machine :: "memory \<Rightarrow> pagetable_t \<Rightarrow> netst \<Rightarrow> bool" where
  "sock_machine m root s \<longleftrightarrow> held s = [] \<and> mem s = m \<and> kend s = 0x80026018 \<and> curproc s = Some 1 \<and>
     proc s = (\<lambda>i. (sample_proc i)\<lparr>p_pagetable := root\<rparr>) \<and> sockets s = 0x80040000 \<and>
     socks s = (\<lambda>_. \<lparr>so_next = 0, so_raddr = 7, so_lport = 8, so_rport = 9, so_rxq = \<lparr>q_head = 0x80041000, q_tail = 0x80041000\<rparr>\<rparr>) \<and>
     mbufs s = (\<lambda>_. \<lparr>m_next = 0, m_head = 10, m_len = 5, m_buf = of_nat\<rparr>)"

lemma sock_machine_exists: "\<exists>s. sock_machine m root s"
proof -
  have "sock_machine m root ((undefined :: netst)\<lparr>held := [], mem := m, kend := 0x80026018, curproc := Some 1,
      proc := (\<lambda>i. (sample_proc i)\<lparr>p_pagetable := root\<rparr>), sockets := 0x80040000,
      socks := (\<lambda>_. \<lparr>so_next = 0, so_raddr = 7, so_lport = 8, so_rport = 9, so_rxq = \<lparr>q_head = 0x80041000, q_tail = 0x80041000\<rparr>\<rparr>),
      mbufs := (\<lambda>_. \<lparr>m_next = 0, m_head = 10, m_len = 5, m_buf = of_nat\<rparr>)\<rparr>)" by (simp add: sock_machine_def)
  then show ?thesis by blast
qed

lemma sock_machine_facts:
  assumes "sock_machine m root s"
  shows "rx_queues [0x80040000] (\<lambda>_. [0x80041000]) s" "held s = []" "no_proc_lock s" "mem s = m"
    "p_killed (proc s (this_proc s)) = 0" "p_pagetable (proc s (this_proc s)) = root" "sock_for 7 8 9 (socks s a)"
    "m_len (mbufs s a) = 5" "m_head (mbufs s a) = 10" "m_buf (mbufs s a) = of_nat" "kend s = 0x80026018"
  using assms by (simp_all add: sock_machine_def rx_queues_def queue_of_def no_proc_lock_def this_proc_def myproc_def
      sample_proc_def sock_for_def)

theorem sockrecvudp_delivers_witness:
  "\<exists>(s :: netst) t. sockrecvudp 0x80042000 7 8 9 s = Ok t \<and>
     queue_of (so_rxq (socks t 0x80040000)) t [0x80041000, 0x80042000] \<and> m_len (mbufs t 0x80042000) = 5"
proof -
  obtain s where s: "sock_machine undefined undefined s" using sock_machine_exists by blast
  note f = sock_machine_facts [OF s]
  have "\<exists>t. sockrecvudp 0x80042000 7 8 9 s = Ok t \<and> rx_queues [0x80040000] ((\<lambda>_. [0x80041000])(0x80040000 := [0x80041000] @ [0x80042000])) t \<and>
      same_packets s t \<and> t = (woken (Chan_sock_rxq 0x80040000) s)\<lparr>mbufs := mbufs t, socks := socks t\<rparr>"
    using sockrecvudp_delivers [OF f(1) _ f(3), where m = "0x80042000" and raddr = 7 and lport = 8 and rport = 9] f(2,7)
    by (simp add: NSOCK_def)
  then obtain t where "sockrecvudp 0x80042000 7 8 9 s = Ok t" "rx_queues [0x80040000] ((\<lambda>_. [0x80041000])(0x80040000 := [0x80041000] @ [0x80042000])) t"
    "same_packets s t" by blast
  then show ?thesis using f(8) by (intro exI [of _ s] exI [of _ t]) (simp add: rx_queues_def same_packets_def)
qed

section \<open>Reading\<close>

lemma sint_small:
  fixes x :: u32
  assumes "unat x < 2 ^ 31"
  shows "sint x = int (unat x)"
proof -
  have u: "uint x = int (unat x)" by simp
  have "uint x < 2 ^ 31" using assms unfolding u by (simp del: of_nat_unat)
  then have "signed_take_bit 31 (uint x) = uint x"
    by (intro signed_take_bit_int_eq_self) (auto intro: order_trans [OF _ uint_ge_0])
  then show ?thesis unfolding u [symmetric] by (simp add: sint_uint)
qed

lemma pophead_rx_queues:
  assumes "rx_queues sl rx s" "si \<in> set sl" "rx si = m # ms" "mbufq_pophead (so_rxq (socks s si)) s = (m', q)"
  shows "m' = m" "rx_queues sl (rx(si := ms)) (upd_sock si (\<lambda>x. x\<lparr>so_rxq := q\<rparr>) s)"
proof -
  have "queue_of (so_rxq (socks s si)) s (m # ms)" using assms(1-3) by (auto simp: rx_queues_def)
  note q = pophead_queue [OF this assms(4)]
  show "m' = m" by (rule q)
  have "set (rx y) \<inter> set ms = {}" if "y \<in> set sl" "y \<noteq> si" for y
  proof -
    have "set (rx y) \<inter> set (rx si) = {}" using assms(1,2) that by (simp add: rx_queues_def)
    then show ?thesis using assms(3) by auto
  qed
  then have "\<forall>x \<in> set sl. \<forall>y \<in> set sl. x \<noteq> y \<longrightarrow> set ((rx(si := ms)) x) \<inter> set ((rx(si := ms)) y) = {}"
    using assms(1) by (auto simp: rx_queues_def Int_commute)
  moreover have "slist ((socks s)(si := (socks s si)\<lparr>so_rxq := q\<rparr>)) sl (sockets s)"
    using assms(1) by (auto simp: rx_queues_def elim!: slist_frame)
  moreover have "\<forall>x \<in> set sl. queue_of (so_rxq (((socks s)(si := (socks s si)\<lparr>so_rxq := q\<rparr>)) x)) s ((rx(si := ms)) x)"
    using assms(1) q(2) by (simp add: rx_queues_def)
  ultimately show "rx_queues sl (rx(si := ms)) (upd_sock si (\<lambda>x. x\<lparr>so_rxq := q\<rparr>) s)"
    by (simp add: rx_queues_def upd_sock_def queue_of_def)
qed

lemma rx_queues_frame:
  "rx_queues sl rx s \<Longrightarrow> socks t = socks s \<Longrightarrow> sockets t = sockets s \<Longrightarrow> mbufs t = mbufs s \<Longrightarrow> rx_queues sl rx t"
  by (simp add: rx_queues_def queue_of_def)

lemma rx_queues_keep:
  assumes "rx_queues sl rx s" "socks t = socks s" "sockets t = sockets s"
    and "\<And>x a. x \<in> set sl \<Longrightarrow> a \<in> set (rx x) \<Longrightarrow> m_next (mbufs t a) = m_next (mbufs s a)"
  shows "rx_queues sl rx t"
proof -
  have "queue_of (so_rxq (socks s x)) t (rx x)" if x: "x \<in> set sl" for x
  proof (rule queue_frame)
    show "queue_of (so_rxq (socks s x)) s (rx x)" using assms(1) x by (simp add: rx_queues_def)
  qed (use assms(4) x in auto)
  then show ?thesis using assms(1-3) by (simp add: rx_queues_def)
qed

text \<open>A packet that is taken from its queue is in no queue any more.\<close>

lemma rx_queues_popped:
  assumes "rx_queues sl rx s" "si \<in> set sl" "rx si = m # ms" "x \<in> set sl"
  shows "m \<notin> set ((rx(si := ms)) x)"
proof (cases "x = si")
  case True
  have "queue_of (so_rxq (socks s si)) s (m # ms)" using assms(1-3) by (auto simp: rx_queues_def)
  then show ?thesis using True by (simp add: queue_of_def)
next
  case False
  then have "set (rx x) \<inter> set (rx si) = {}" using assms(1,2,4) by (simp add: rx_queues_def)
  then show ?thesis using False assms(3) by auto
qed

text \<open>
  C12: \<^verbatim>\<open>sockread\<close> on a socket with packets waiting takes the oldest one from its queue, stores as much of its payload
  as was asked for in user memory, in order, returns that number and frees the packet; no other
  byte of memory, no other packet and no other queue changes.
\<close>

theorem sockread_takes:
  assumes "rx_queues sl rx s" "si \<in> set sl" "rx si = m # ms" "L_sock si \<notin> set (held s)" "L_kmem \<notin> set (held s)"
    and "p_killed (proc s (this_proc s)) = 0" "p_pagetable (proc s (this_proc s)) = root" "pt_wf e (mem s) root"
    and "0 \<le> n" "unat (m_len (mbufs s m)) \<le> MBUF_SIZE" "k = min (nat n) (unat (m_len (mbufs s m)))"
    and "user_range (mem s) root addr k" "page_ok (kend s) m" "\<forall>j < k. PGROUNDDOWN (uaddr (mem s) root (addr + of_nat j)) \<noteq> m"
  shows "\<exists>t. sockread si addr n env s = Ok (int k, t) \<and> rx_queues sl (rx(si := ms)) t \<and>
    held t = held s \<and> mbufs t = (mbufs s)(m := freed_mbuf (freelist s) m) \<and> freelist t = m \<and>
    (\<forall>j < k. mem t (uaddr (mem s) root (addr + of_nat j)) = m_buf (mbufs s m) (m_head (mbufs s m) + j)) \<and>
    (\<forall>a. PGROUNDDOWN a \<noteq> m \<longrightarrow> (\<forall>j < k. a \<noteq> uaddr (mem s) root (addr + of_nat j)) \<longrightarrow> mem t a = mem s a)"
proof -
  define u where "u = s\<lparr>held := L_sock si # held s\<rparr>"
  have rxu: "rx_queues sl rx u" using assms(1) by (rule rx_queues_frame) (simp_all add: u_def)
  have "queue_of (so_rxq (socks u si)) u (m # ms)" using rxu assms(2,3) by (auto simp: rx_queues_def)
  then have ne: "\<not> mbufq_empty (so_rxq (socks u si))" by (simp add: mbufq_empty_queue)
  obtain m' q where pop: "mbufq_pophead (so_rxq (socks u si)) u = (m', q)" by fastforce
  note q = pophead_rx_queues [OF rxu assms(2,3) pop]
  define v where "v = s\<lparr>socks := (socks s)(si := (socks s si)\<lparr>so_rxq := q\<rparr>)\<rparr>"
  have rxv: "rx_queues sl (rx(si := ms)) v" using q(2) by (rule rx_queues_frame) (simp_all add: v_def u_def upd_sock_def)
  have v: "mem v = mem s" "kend v = kend s" "held v = held s" "mbufs v = mbufs s" "proc v = proc s" "v\<lparr>held := held s\<rparr> = v"
    by (simp_all add: v_def)
  have len: "sint (m_len (mbufs s m)) = int (unat (m_len (mbufs s m)))"
    using assms(10) by (intro sint_small) (simp add: MBUF_SIZE_def)
  have k: "(if sint (m_len (mbufs s m)) > n then n else sint (m_len (mbufs s m))) = int k"
    unfolding len using assms(9,11) by (simp del: of_nat_unat)
  have k64: "unat (of_int (int k) :: u64) = k" using assms(10,11) by (simp add: MBUF_SIZE_def unat_of_nat)
  obtain m1 where m1: "copyout_loop root addr (m_buf (mbufs s m)) (m_head (mbufs s m)) (of_int (int k)) v = Ok (0, v\<lparr>mem := m1\<rparr>)"
    "\<forall>j < k. m1 (uaddr (mem s) root (addr + of_nat j)) = m_buf (mbufs s m) (m_head (mbufs s m) + j)"
    "\<forall>a. (\<forall>j < k. a \<noteq> uaddr (mem s) root (addr + of_nat j)) \<longrightarrow> m1 a = mem s a"
    using copyout_loop_spec [of e v root addr "of_int (int k)" "m_buf (mbufs s m)" "m_head (mbufs s m)"] assms(8,12)
    unfolding k64 v by blast
  let ?t = "upd_mbuf m (\<lambda>_. freed_mbuf (freelist s) m) (pushed m (v\<lparr>mem := m1\<rparr>))"
  have "kfree m (v\<lparr>mem := m1\<rparr>) = Ok (pushed m (v\<lparr>mem := m1\<rparr>))" using assms(5,13) v by (intro kfree_Ok) simp_all
  then have free: "mbuffree m (v\<lparr>mem := m1\<rparr>) = Ok ?t" by (simp add: mbuffree_def v_def)
  have "sleep_loop (\<lambda>s. Ok (if mbufq_empty (so_rxq (socks s si)) \<and> p_killed (proc s p) = 0 then None else Some (), s))
      (Chan_sock_rxq si) (L_sock si) env u = Ok ((), env, u)" for p
    using ne by (intro sleep_loop_now) simp
  moreover have "upd_sock si (\<lambda>x. x\<lparr>so_rxq := q\<rparr>) u = v\<lparr>held := L_sock si # held s\<rparr>" by (simp add: u_def v_def upd_sock_def)
  ultimately have "sockread si addr n env s = (let b = mbufs v m; len = sint (m_len b); len = (if len > n then n else len) in
      rbind (copyout_loop root addr (m_buf b) (m_head b) (of_int len) v) (\<lambda>(r, s).
      if r = -1 then rbind (mbuffree m s) (\<lambda>s. Ok (-1, s)) else rbind (mbuffree m s) (\<lambda>s. Ok (len, s))))"
    using assms(4,6,7) pop q(1) by (simp add: sockread_def u_def [symmetric]) (simp add: u_def v(3-6) cong: if_cong)
  also have "\<dots> = Ok (int k, ?t)"
    unfolding Let_def v(4) k m1(1) using free by simp
  finally have "sockread si addr n env s = Ok (int k, ?t)" .
  moreover have "aligned m" using assms(13) by (simp add: page_ok_def)
  then have "\<And>a. PGROUNDDOWN a \<noteq> m \<Longrightarrow> mem ?t a = m1 a" by (simp add: pushed_mem upd_mbuf_def)
  moreover have "rx_queues sl (rx(si := ms)) ?t" using rxv
    by (rule rx_queues_keep) (use rx_queues_popped [OF assms(1-3)] in \<open>auto simp: pushed_def upd_mbuf_def\<close>)
  ultimately show ?thesis using m1(2,3) assms(14) v by (intro exI [of _ ?t]) (simp add: pushed_def upd_mbuf_def v_def)
qed

theorem sockread_takes_witness:
  "\<exists>(s :: netst) root t. sockread 0x80040000 100 4 [] s = Ok (4, t) \<and> freelist t = 0x80041000 \<and>
     queue_of (so_rxq (socks t 0x80040000)) t [] \<and> mem t (uaddr (mem s) root 102) = 12"
proof -
  obtain k root ps where op: "one_page k root ps" using one_page_exists by blast
  obtain s where s: "sock_machine (mem k) root s" using sock_machine_exists by blast
  note f = sock_machine_facts [OF s]
  have r: "user_range (mem s) root 100 4" using one_page_range [OF op, of 100 4] unfolding f(4) by simp
  have p: "\<forall>j < 4. PGROUNDDOWN (uaddr (mem s) root (100 + of_nat j)) \<noteq> 0x80041000"
    using one_page_upa [OF op] one_page_low [of 100 4] by (simp add: PGROUNDDOWN_upa_offset f(4))
  have h: "page_ok (kend s) 0x80041000" "4 = min (nat 4) (unat (m_len (mbufs s 0x80041000)))" "unat (m_len (mbufs s 0x80041000)) \<le> MBUF_SIZE"
    by (simp_all add: f MBUF_SIZE_def page_ok_def aligned_def PHYSTOP_def KERNBASE_def)
  have "pt_wf 0x80026018 (mem s) root" using one_page_wf [OF op] f(4) by simp
  then obtain t where t: "sockread 0x80040000 100 4 [] s = Ok (int 4, t)" "freelist t = 0x80041000"
    "rx_queues [0x80040000] ((\<lambda>_. [0x80041000])(0x80040000 := [])) t"
    "\<forall>j < 4. mem t (uaddr (mem s) root (100 + of_nat j)) = of_nat (10 + j)"
    using sockread_takes [OF f(1) _ _ _ _ f(5,6) _ _ h(3,2) r h(1) p, of "0x80040000" "[]" "0x80026018" "[]"] by (auto simp: f)
  show ?thesis using t(1-3) t(4) [rule_format, of 2] by (intro exI [of _ s] exI [of _ root] exI [of _ t]) (simp add: rx_queues_def)
qed

section \<open>Writing\<close>

text \<open>
  C31: \<^verbatim>\<open>sockwrite\<close> with a negative length or one above 2048 bytes stops the whole kernel: the length that a user program
  passes to \<^verbatim>\<open>write\<close> reaches the check of \<^verbatim>\<open>mbufput\<close>, which panics, before any test of the argument.
\<close>

theorem sockwrite_bad_length_panics:
  assumes "freelist s \<noteq> 0" "L_kmem \<notin> set (held s)" "- (2 ^ 31) \<le> n" "n < 2 ^ 31" "n < 0 \<or> 2048 < n"
  shows "sockwrite si addr n s = Panic ''mbufput''"
proof -
  have "2048 < n mod 2 ^ 32"
  proof (cases "n < 0")
    case True
    then have "(n + 2 ^ 32) mod 2 ^ 32 = n + 2 ^ 32" using assms(3) by (intro mod_pos_pos_trivial) simp_all
    then show ?thesis using assms(3) by simp
  qed (use assms(4,5) in simp)
  then have "2048 < unat (of_int n :: u32)" by (simp add: unsigned_of_int take_bit_eq_mod)
  then show ?thesis
    using assms(1,2)
    by (simp add: sockwrite_def mbufalloc_def kalloc_def mbufput_def upd_mbuf_def Let_def MBUF_SIZE_def MBUF_DEFAULT_HEADROOM_def)
qed

theorem sockwrite_bad_length_panics_witness:
  "\<exists>s :: netst. sockwrite 0x80040000 0 2049 s = Panic ''mbufput'' \<and> sockwrite 0x80040000 0 (-1) s = Panic ''mbufput''"
proof -
  let ?s = "(undefined :: netst)\<lparr>held := [], freelist := 0x80030000\<rparr>"
  show ?thesis using sockwrite_bad_length_panics [of ?s 2049] sockwrite_bad_length_panics [of ?s "-1"]
    by (intro exI [of _ ?s]) simp
qed

end
