(* ===== verification/File_Props.thy ===== *)
theory File_Props
  imports File Sock_Props
begin

text \<open>
  Properties of the file table, \<^verbatim>\<open>kernel/file.c\<close>, and of \<^verbatim>\<open>sockalloc\<close>, which makes a file for a new socket.
\<close>

lemma filealloc_scan_find: "filealloc_scan f k fs = find (\<lambda>i. f_ref (fs i) = 0) [f..<f + k]"
  by (induction k arbitrary: f) (simp_all add: find_upt_step del: add_Suc_right)

lemma filealloc_find:
  assumes "L_ftable \<notin> set (held s)"
  shows "filealloc s = (case find (\<lambda>i. f_ref (ftable s i) = 0) [0..<NFILE] of
      Some f \<Rightarrow> Ok (Some f, upd_file f (\<lambda>x. x\<lparr>f_ref := 1\<rparr>) s) | None \<Rightarrow> Ok (None, s))"
  using assms by (simp add: filealloc_def filealloc_scan_find upd_file_def split: option.split)

text \<open>A socket that is not in the list is not unlinked.\<close>

lemma sock_unlink_absent:
  assumes "slist (socks s) sl (if pos = 0 then sockets s else so_next (socks s pos))" "si \<notin> set sl" "length sl \<le> n"
  shows "sock_unlink n si pos s = Ok s"
  using assms
proof (induction sl arbitrary: pos n)
  case Nil
  then show ?case by (cases n) (auto split: if_splits)
next
  case (Cons x sl)
  then obtain k where k: "n = Suc k" by (cases n) auto
  have x: "x \<noteq> 0" "x \<noteq> si" "(if pos = 0 then sockets s else so_next (socks s pos)) = x" "slist (socks s) sl (so_next (socks s x))"
    using Cons.prems by auto
  have "sock_unlink k si x s = Ok s" using Cons.IH [of x k] Cons.prems k x by simp
  then show ?case using k x by (simp add: Let_def)
qed

text \<open>What \<^verbatim>\<open>sockalloc\<close> has done when it takes the lock of the list.\<close>

definition new_sock :: "nat \<Rightarrow> u64 \<Rightarrow> u32 \<Rightarrow> u16 \<Rightarrow> u16 \<Rightarrow> 'a filest_scheme \<Rightarrow> 'a filest_scheme" where
  "new_sock f si raddr lport rport s =
     upd_file f (\<lambda>x. x\<lparr>f_type := FD_SOCK, f_readable := True, f_writable := True, f_sock := si\<rparr>)
      (upd_sock si (\<lambda>x. x\<lparr>so_raddr := raddr, so_lport := lport, so_rport := rport, so_rxq := mbufq_init (so_rxq x)\<rparr>)
        (popped si (upd_file f (\<lambda>x. x\<lparr>f_ref := 1\<rparr>) s)))"

lemma sockalloc_steps:
  assumes "slist (socks s) sl (sockets s)" "length sl \<le> NSOCK" "si \<notin> set sl" "freelist s = si" "si \<noteq> 0"
    and "L_ftable \<notin> set (held s)" "L_kmem \<notin> set (held s)" "L_socktbl \<notin> set (held s)"
    and "find (\<lambda>i. f_ref (ftable s i) = 0) [0..<NFILE] = Some f"
  shows "sockalloc raddr lport rport s =
    (case find (\<lambda>x. sock_for raddr lport rport (socks s x)) sl of
       None \<Rightarrow> Ok (Some f, (upd_sock si (\<lambda>x. x\<lparr>so_next := sockets s\<rparr>) (new_sock f si raddr lport rport s))\<lparr>sockets := si\<rparr>)
     | Some _ \<Rightarrow> sockalloc_bad si (Some f) (new_sock f si raddr lport rport s))"
proof -
  let ?n = "new_sock f si raddr lport rport s"
  have ka: "kalloc (upd_file f (\<lambda>x. x\<lparr>f_ref := 1\<rparr>) s) = Ok (si, popped si (upd_file f (\<lambda>x. x\<lparr>f_ref := 1\<rparr>) s))"
    using assms(4,5,7) by (simp add: kalloc_def popped_def Let_def upd_file_def)
  have n: "sockets ?n = sockets s" "held ?n = held s" "\<And>x. x \<noteq> si \<Longrightarrow> socks ?n x = socks s x"
    by (simp_all add: new_sock_def upd_file_def upd_sock_def popped_def)
  have unheld: "?n\<lparr>held := held s\<rparr> = ?n" by (simp flip: n(2))
  have same: "socks ?n x = socks s x" if "x \<in> set sl" for x using that assms(3) n(3) by metis
  have "slist (socks ?n) sl (sockets s)" using assms(1) by (rule slist_frame) (simp add: same)
  moreover have "find (\<lambda>x. sock_for raddr lport rport (socks ?n x)) sl = find (\<lambda>x. sock_for raddr lport rport (socks s x)) sl"
    by (intro find_cong) (simp_all add: same)
  ultimately have fs: "find_sock NSOCK raddr lport rport (sockets s) (socks ?n) =
      Ok (case find (\<lambda>x. sock_for raddr lport rport (socks s x)) sl of None \<Rightarrow> 0 | Some x \<Rightarrow> x)"
    using find_sock_list assms(2) by metis
  have nz: "x \<noteq> 0" if "find (\<lambda>x. sock_for raddr lport rport (socks s x)) sl = Some x" for x
    using that slist_nonzero [OF assms(1)] by (auto simp: find_Some_iff)
  have "sockalloc raddr lport rport s = rbind (acquire L_socktbl ?n) (\<lambda>s.
      rbind (find_sock NSOCK raddr lport rport (sockets s) (socks s)) (\<lambda>pos.
      if pos \<noteq> 0 then rbind (release L_socktbl s) (\<lambda>s. sockalloc_bad si (Some f) s)
      else
        (let s = upd_sock si (\<lambda>x. x\<lparr>so_next := sockets s\<rparr>) s;
             s = s\<lparr>sockets := si\<rparr> in
         rbind (release L_socktbl s) (\<lambda>s. Ok (Some f, s)))))"
    using assms(5,9) filealloc_find [OF assms(6)] ka by (simp add: sockalloc_def new_sock_def Let_def)
  also have "\<dots> = (case find (\<lambda>x. sock_for raddr lport rport (socks s x)) sl of
       None \<Rightarrow> Ok (Some f, (upd_sock si (\<lambda>x. x\<lparr>so_next := sockets s\<rparr>) ?n)\<lparr>sockets := si\<rparr>)
     | Some _ \<Rightarrow> sockalloc_bad si (Some f) ?n)"
    using assms(8) fs nz by (simp add: Let_def upd_sock_def n(1,2) unheld split: option.split)
  finally show ?thesis .
qed

text \<open>
  C23: \<^verbatim>\<open>sockalloc\<close> for an address and ports that no socket has returns the first free entry of the file table,
  now open for reading and writing on a new socket at the head of the list, with those
  ports and an empty queue; the other queues, files and sockets stay as they are.
\<close>

theorem sockalloc_registers:
  assumes "rx_queues sl rx s" "length sl \<le> NSOCK" "freelist s = si" "si \<noteq> 0" "si \<notin> set sl"
    and "L_ftable \<notin> set (held s)" "L_kmem \<notin> set (held s)" "L_socktbl \<notin> set (held s)"
    and "find (\<lambda>i. f_ref (ftable s i) = 0) [0..<NFILE] = Some f" "find (\<lambda>x. sock_for raddr lport rport (socks s x)) sl = None"
  shows "\<exists>t. sockalloc raddr lport rport s = Ok (Some f, t) \<and> rx_queues (si # sl) (rx(si := [])) t \<and>
    sock_for raddr lport rport (socks t si) \<and> (\<forall>x. x \<noteq> si \<longrightarrow> socks t x = socks s x) \<and>
    f_type (ftable t f) = FD_SOCK \<and> f_sock (ftable t f) = si \<and> f_ref (ftable t f) = 1 \<and>
    f_readable (ftable t f) \<and> f_writable (ftable t f) \<and> (\<forall>i. i \<noteq> f \<longrightarrow> ftable t i = ftable s i) \<and>
    held t = held s \<and> mbufs t = mbufs s"
proof -
  define t where "t = (upd_sock si (\<lambda>x. x\<lparr>so_next := sockets s\<rparr>) (new_sock f si raddr lport rport s))\<lparr>sockets := si\<rparr>"
  have sl: "slist (socks s) sl (sockets s)" using assms(1) by (simp add: rx_queues_def)
  have run: "sockalloc raddr lport rport s = Ok (Some f, t)"
    using sockalloc_steps [OF sl assms(2,5,3,4,6-9)] assms(10) by (simp add: t_def)
  have t: "sockets t = si" "so_next (socks t si) = sockets s" "\<And>x. x \<noteq> si \<Longrightarrow> socks t x = socks s x" "mbufs t = mbufs s" "held t = held s"
    "queue_of (so_rxq (socks t si)) t []" "sock_for raddr lport rport (socks t si)"
    by (simp_all add: t_def new_sock_def upd_sock_def upd_file_def popped_def mbufq_init_queue sock_for_def)
  have ft: "ftable t = (ftable s)(f := (ftable s f)\<lparr>f_ref := 1, f_type := FD_SOCK, f_readable := True, f_writable := True, f_sock := si\<rparr>)"
    by (simp add: t_def new_sock_def upd_sock_def upd_file_def popped_def)
  have same: "socks t x = socks s x" if "x \<in> set sl" for x using that assms(5) t(3) by metis
  have "slist (socks t) sl (sockets s)" using sl by (rule slist_frame) (simp add: same)
  moreover have "\<forall>x \<in> set sl. queue_of (so_rxq (socks t x)) t (rx x)"
    using assms(1) t(4) by (simp add: rx_queues_def queue_of_def same)
  moreover have "\<forall>x \<in> set (si # sl). \<forall>y \<in> set (si # sl). x \<noteq> y \<longrightarrow> set ((rx(si := [])) x) \<inter> set ((rx(si := [])) y) = {}"
    using assms(1,5) by (simp add: rx_queues_def)
  ultimately have "rx_queues (si # sl) (rx(si := [])) t"
    using t(1,2,6) assms(4,5) unfolding rx_queues_def by auto
  then show ?thesis using run t ft by simp
qed

text \<open>
  C32: \<^verbatim>\<open>sockalloc\<close> for an address and ports that a socket already has does not return -1, as its error path means to, but
  stops the kernel. The path frees the new socket and then closes the file, which is of type \<^verbatim>\<open>FD_SOCK\<close> by
  then, so that \<^verbatim>\<open>sockclose\<close> takes the filling pattern of the freed page for its queue.
\<close>

theorem sockalloc_duplicate_panics:
  assumes "slist (socks s) sl (sockets s)" "length sl \<le> NSOCK" "freelist s = si" "page_ok (kend s) si" "si \<notin> set sl"
    and "L_ftable \<notin> set (held s)" "L_kmem \<notin> set (held s)" "L_socktbl \<notin> set (held s)"
    and "find (\<lambda>i. f_ref (ftable s i) = 0) [0..<NFILE] = Some f"
    and "d \<in> set sl" "sock_for raddr lport rport (socks s d)"
  shows "\<exists>msg. sockalloc raddr lport rport s = Panic msg"
proof -
  let ?n = "new_sock f si raddr lport rport s"
  have si: "si \<noteq> 0" using assms(4) by (simp add: page_ok_def)
  have "find (\<lambda>x. sock_for raddr lport rport (socks s x)) sl \<noteq> None" using assms(10,11) by (auto simp: find_None_iff)
  then have run: "sockalloc raddr lport rport s = sockalloc_bad si (Some f) ?n"
    using sockalloc_steps [OF assms(1,2,5,3) si assms(6-9), of raddr lport rport] by auto
  have n: "kend ?n = kend s" "held ?n = held s" by (simp_all add: new_sock_def upd_sock_def upd_file_def popped_def)
  define t where "t = upd_sock si (\<lambda>_. \<lparr>so_next = freelist ?n, so_raddr = 0x01010101, so_lport = 0x0101, so_rport = 0x0101,
       so_rxq = \<lparr>q_head = 0x0101010101010101, q_tail = 0x0101010101010101\<rparr>\<rparr>) (pushed si ?n)"
  have "kfree_sock si ?n = Ok t" using kfree_Ok [of ?n si] assms(4,7) n by (simp add: kfree_sock_def t_def)
  define u where "u = (upd_file f (\<lambda>x. x\<lparr>f_ref := 0, f_type := FD_NONE\<rparr>) t)\<lparr>held := held s\<rparr>"
  have t: "held t = held s" "ftable t f = (ftable s f)\<lparr>f_ref := 1, f_type := FD_SOCK, f_readable := True, f_writable := True, f_sock := si\<rparr>"
    by (simp_all add: t_def new_sock_def upd_sock_def upd_file_def popped_def pushed_def)
  have u: "held u = held s" "sockets u = sockets s" "\<And>x. x \<noteq> si \<Longrightarrow> socks u x = socks s x"
    "q_head (so_rxq (socks u si)) = 0x0101010101010101" "u\<lparr>held := held s\<rparr> = u"
    by (simp_all add: u_def t_def new_sock_def upd_sock_def upd_file_def popped_def pushed_def)
  have close: "fileclose f t = sockclose si u"
    using assms(6) t by (simp add: fileclose_def u_def upd_file_def Let_def)
  have "slist (socks u) sl (sockets s)" using assms(1) by (rule slist_frame) (use assms(5) u(3) in metis)
  then have "sock_unlink NSOCK si 0 (u\<lparr>held := L_socktbl # held s\<rparr>) = Ok (u\<lparr>held := L_socktbl # held s\<rparr>)"
    using assms(2,5) u(2) by (intro sock_unlink_absent) simp_all
  moreover have "sock_drain NSOCK si u = Panic ''kfree''"
  proof -
    obtain k where k: "NSOCK = Suc k" by (cases NSOCK) (simp_all add: NSOCK_def)
    show ?thesis unfolding k sock_drain.simps using u(4)
      by (simp only: mbufq_empty_def mbufq_pophead_def Let_def) (simp add: mbuffree_def kfree_def)
  qed
  ultimately have "sockclose si u = Panic ''kfree''"
    using assms(8) by (simp add: sockclose_def u(1,5))
  then show ?thesis using run close si \<open>kfree_sock si ?n = Ok t\<close> by (simp add: sockalloc_bad_def)
qed

text \<open>A machine with one socket, a free page and a free file table for the witnesses.\<close>

definition file_machine :: filest where
  "file_machine = undefined\<lparr>held := [], kend := 0x80026018, freelist := 0x80041000, sockets := 0x80040000,
     socks := (\<lambda>_. \<lparr>so_next = 0, so_raddr = 7, so_lport = 8, so_rport = 9, so_rxq = \<lparr>q_head = 0, q_tail = 0\<rparr>\<rparr>),
     ftable := (\<lambda>_. undefined\<lparr>f_ref := 0\<rparr>)\<rparr>"

lemma file_machine:
  "rx_queues [0x80040000] (\<lambda>_. []) file_machine" "freelist file_machine = 0x80041000" "kend file_machine = 0x80026018"
  "held file_machine = []" "find (\<lambda>i. f_ref (ftable file_machine i) = 0) [0..<NFILE] = Some 0"
  "sock_for a b c (socks file_machine x) \<longleftrightarrow> a = 7 \<and> b = 8 \<and> c = 9"
  by (auto simp: file_machine_def rx_queues_def queue_of_def NFILE_def upt_rec sock_for_def)

theorem sockalloc_registers_witness:
  "\<exists>t. sockalloc 7 8 10 file_machine = Ok (Some 0, t) \<and> rx_queues [0x80041000, 0x80040000] (\<lambda>_. []) t \<and>
     sock_for 7 8 10 (socks t 0x80041000)"
proof -
  have "(\<lambda>_. [])(0x80041000 := []) = (\<lambda>_ :: u64. [] :: u64 list)" by auto
  moreover have "length [0x80040000 :: u64] \<le> NSOCK" by (simp add: NSOCK_def)
  ultimately show ?thesis
    using sockalloc_registers [OF file_machine(1) _ file_machine(2) _ _ _ _ _ file_machine(5), of 7 8 10] file_machine(4,6) by force
qed

theorem sockalloc_duplicate_panics_witness: "\<exists>msg. sockalloc 7 8 9 file_machine = Panic msg"
  using sockalloc_duplicate_panics [of file_machine "[0x80040000]" "0x80041000" 0 "0x80040000" 7 8 9] file_machine
  by (simp add: rx_queues_def NSOCK_def page_ok_def aligned_def PHYSTOP_def KERNBASE_def)

end
