(* ===== verification/Grep.thy ===== *)
theory Grep
  imports CString
begin

text \<open>
  The user program \<^verbatim>\<open>user/grep.c\<close>. A C string is the list of its bytes before the NUL, so \<^verbatim>\<open>re[0] == 0\<close> is
  the test for the empty list. The file is what the successive calls of \<^verbatim>\<open>read\<close> give.
\<close>

section \<open>The matcher\<close>

text \<open>The bytes \<^verbatim>\<open>^\<close>, \<^verbatim>\<open>.\<close>, \<^verbatim>\<open>*\<close>, \<^verbatim>\<open>$\<close> and newline.\<close>

definition CARET :: byte where "CARET = 94"
definition DOT :: byte where "DOT = 46"
definition STAR :: byte where "STAR = 42"
definition DOLLAR :: byte where "DOLLAR = 36"
definition NL :: byte where "NL = 10"

text \<open>The loop of \<^verbatim>\<open>matchstar\<close> over the text, for a matcher of the rest of the expression.\<close>

fun matchstar :: "byte \<Rightarrow> (byte list \<Rightarrow> bool) \<Rightarrow> byte list \<Rightarrow> bool" where
  "matchstar c rest [] = rest []"
| "matchstar c rest (t # u) = (rest (t # u) \<or> ((t = c \<or> c = DOT) \<and> matchstar c rest u))"

lemma matchstar_cong [fundef_cong]:
  assumes "c = c'" "u = u'" "\<And>t. f t = f' t"
  shows "matchstar c f u = matchstar c' f' u'"
proof -
  have "f = f'" using assms(3) by (rule ext)
  then show ?thesis using assms(1,2) by simp
qed

fun matchhere :: "byte list \<Rightarrow> byte list \<Rightarrow> bool" where
  "matchhere [] u = True"
| "matchhere [c] u =
     (if c = DOLLAR then u = []
      else case u of [] \<Rightarrow> False | t # u' \<Rightarrow> (c = DOT \<or> c = t) \<and> matchhere [] u')"
| "matchhere (c # d # re) u =
     (if d = STAR then matchstar c (matchhere re) u
      else case u of [] \<Rightarrow> False | t # u' \<Rightarrow> (c = DOT \<or> c = t) \<and> matchhere (d # re) u')"

text \<open>The loop of \<^verbatim>\<open>match\<close> over the positions of the text, the end included.\<close>

fun match_from :: "byte list \<Rightarrow> byte list \<Rightarrow> bool" where
  "match_from re [] = matchhere re []"
| "match_from re (t # u) = (matchhere re (t # u) \<or> match_from re u)"

definition match :: "byte list \<Rightarrow> byte list \<Rightarrow> bool" where
  "match re u =
     (if re \<noteq> [] \<and> hd re = CARET then matchhere (tl re) u else match_from re u)"

section \<open>The main loop\<close>

text \<open>
  The lines that are complete in the buffer from \<^verbatim>\<open>p\<close> on: what is written for them, and what is left.
  \<^verbatim>\<open>strchr\<close> looks for a newline before the first NUL only.
\<close>

function grep_lines :: "byte list \<Rightarrow> byte list \<Rightarrow> byte list \<times> byte list" where
  "grep_lines pattern p =
     (if NL \<in> set (takeWhile (\<lambda>c. c \<noteq> 0) p) then
        (let line = takeWhile (\<lambda>c. c \<noteq> NL) p;
             (out, left) = grep_lines pattern (drop (length line + 1) p) in
         ((if match pattern line then line @ [NL] else []) @ out, left))
      else ([], p))"
  by pat_completeness auto
termination
proof (relation "measure (\<lambda>(pattern, p). length p)", goal_cases)
  case (2 pattern p x)
  then have "p \<noteq> []" by auto
  then show ?case using 2 by simp
qed simp

declare grep_lines.simps [simp del]

text \<open>
  The calls of \<^verbatim>\<open>read\<close> ask for what fits into the rest of the buffer; the list says how much of it each
  call gives at most. Reading nothing ends the loop.
\<close>

fun grep_loop :: "byte list \<Rightarrow> nat list \<Rightarrow> byte list \<Rightarrow> byte list \<Rightarrow> byte list" where
  "grep_loop pattern [] buf input = []"
| "grep_loop pattern (n # ns) buf input =
     (let got = take (min n (1024 - length buf - 1)) input in
      if got = [] then []
      else
        (let (out, buf) = grep_lines pattern (buf @ got) in
         out @ grep_loop pattern ns buf (drop (length got) input)))"

definition grep :: "byte list \<Rightarrow> nat list \<Rightarrow> byte list \<Rightarrow> byte list" where
  "grep pattern ns input = grep_loop pattern ns [] input"

section \<open>The language of a pattern\<close>

text \<open>
  A pattern as the reader means it: a sequence of items, each a class of bytes taken once or any
  number of times, perhaps tied to the start or the end of the line.
\<close>

datatype item = One byte | Many byte

definition accepts :: "byte \<Rightarrow> byte \<Rightarrow> bool" where
  "accepts c t \<longleftrightarrow> c = DOT \<or> c = t"

fun items :: "byte list \<Rightarrow> item list \<times> bool" where
  "items [] = ([], False)"
| "items [c] = (if c = DOLLAR then ([], True) else ([One c], False))"
| "items (c # d # re) =
     (if d = STAR then (let (is, e) = items re in (Many c # is, e))
      else (let (is, e) = items (d # re) in (One c # is, e)))"

text \<open>The words of a sequence of items.\<close>

inductive matches :: "item list \<Rightarrow> byte list \<Rightarrow> bool" where
  nil: "matches [] []"
| one: "accepts c t \<Longrightarrow> matches is w \<Longrightarrow> matches (One c # is) (t # w)"
| skip: "matches is w \<Longrightarrow> matches (Many c # is) w"
| more: "accepts c t \<Longrightarrow> matches (Many c # is) w \<Longrightarrow> matches (Many c # is) (t # w)"

inductive_simps matches_Nil: "matches [] w"
inductive_simps matches_One: "matches (One c # is) w"
inductive_cases matches_ManyE: "matches (Many c # is) w"

lemma matches_Many:
  "matches (Many c # is) w \<longleftrightarrow> (\<exists>a b. w = a @ b \<and> (\<forall>t \<in> set a. accepts c t) \<and> matches is b)"
proof
  show "matches (Many c # is) w \<Longrightarrow> \<exists>a b. w = a @ b \<and> (\<forall>t \<in> set a. accepts c t) \<and> matches is b"
  proof (induction w)
    case Nil
    then show ?case by (auto elim: matches_ManyE)
  next
    case (Cons t w)
    from Cons.prems show ?case
    proof (rule matches_ManyE)
      assume "matches is (t # w)"
      then have "t # w = [] @ (t # w) \<and> (\<forall>x \<in> set []. accepts c x) \<and> matches is (t # w)" by simp
      then show ?thesis by blast
    next
      fix t' w' assume "t # w = t' # w'" "accepts c t'" "matches (Many c # is) w'"
      then have acc: "accepts c t" "matches (Many c # is) w" by simp_all
      obtain a b where "w = a @ b" "\<forall>t \<in> set a. accepts c t" "matches is b" using Cons.IH [OF acc(2)] by blast
      then have "t # w = (t # a) @ b \<and> (\<forall>x \<in> set (t # a). accepts c x) \<and> matches is b" using acc(1) by simp
      then show ?thesis by blast
    qed
  qed
next
  assume "\<exists>a b. w = a @ b \<and> (\<forall>t \<in> set a. accepts c t) \<and> matches is b"
  then obtain a b where "w = a @ b" "\<forall>t \<in> set a. accepts c t" "matches is b" by blast
  then show "matches (Many c # is) w"
    by (induction a arbitrary: w) (auto intro: matches.intros)
qed

text \<open>A prefix of the text is a word of the pattern, the whole text if the pattern ends in \<^verbatim>\<open>$\<close>.\<close>

definition prefix_match :: "item list \<times> bool \<Rightarrow> byte list \<Rightarrow> bool" where
  "prefix_match p u \<longleftrightarrow> (\<exists>w v. u = w @ v \<and> matches (fst p) w \<and> (snd p \<longrightarrow> v = []))"

lemma ex_split_Cons:
  "(\<exists>a b. t # u = a @ b \<and> P a b) \<longleftrightarrow> P [] (t # u) \<or> (\<exists>a b. u = a @ b \<and> P (t # a) b)"
  unfolding Cons_eq_append_conv by blast

lemma ex_split_Nil: "(\<exists>a b. [] = a @ b \<and> P a b) \<longleftrightarrow> P [] []"
  by simp

lemma matchstar_iff:
  "matchstar c f u \<longleftrightarrow> (\<exists>a b. u = a @ b \<and> (\<forall>t \<in> set a. accepts c t) \<and> f b)"
proof (induction u)
  case (Cons t u)
  then show ?case unfolding ex_split_Cons by (auto simp: accepts_def)
qed (simp add: ex_split_Nil)

lemma prefix_match_Many:
  "prefix_match (Many c # is, e) u \<longleftrightarrow>
   (\<exists>a b. u = a @ b \<and> (\<forall>t \<in> set a. accepts c t) \<and> prefix_match (is, e) b)"
proof
  assume "prefix_match (Many c # is, e) u"
  then obtain w v a b where "u = w @ v" "e \<longrightarrow> v = []" "w = a @ b" "\<forall>t \<in> set a. accepts c t" "matches is b"
    unfolding prefix_match_def fst_conv snd_conv matches_Many by blast
  then have "u = a @ (b @ v)" "prefix_match (is, e) (b @ v)" "\<forall>t \<in> set a. accepts c t"
    by (auto simp: prefix_match_def)
  then show "\<exists>a b. u = a @ b \<and> (\<forall>t \<in> set a. accepts c t) \<and> prefix_match (is, e) b" by blast
next
  assume "\<exists>a b. u = a @ b \<and> (\<forall>t \<in> set a. accepts c t) \<and> prefix_match (is, e) b"
  then obtain a w v where "u = a @ w @ v" "\<forall>t \<in> set a. accepts c t" "matches is w" "e \<longrightarrow> v = []"
    by (auto simp: prefix_match_def)
  then have "u = (a @ w) @ v" "matches (Many c # is) (a @ w)" by (auto simp: matches_Many)
  then show "prefix_match (Many c # is, e) u"
    using \<open>e \<longrightarrow> v = []\<close> unfolding prefix_match_def fst_conv snd_conv by blast
qed

lemma prefix_match_One:
  "prefix_match (One c # is, e) u \<longleftrightarrow> (case u of [] \<Rightarrow> False | t # u \<Rightarrow> accepts c t \<and> prefix_match (is, e) u)"
proof (cases u)
  case Nil
  then show ?thesis by (simp add: prefix_match_def matches_One)
next
  case (Cons t v)
  show ?thesis unfolding Cons prefix_match_def fst_conv snd_conv ex_split_Cons list.case matches_One by blast
qed

lemma prefix_match_Nil: "prefix_match ([], e) u \<longleftrightarrow> e \<longrightarrow> u = []"
  by (auto simp: prefix_match_def matches_Nil)

lemma matchhere_iff: "matchhere re u \<longleftrightarrow> prefix_match (items re) u"
proof (induction re u rule: matchhere.induct)
  case (2 c u)
  then show ?case
    by (simp add: prefix_match_One prefix_match_Nil accepts_def split: list.split)
next
  case (3 c d re u)
  show ?case
  proof (cases "d = STAR")
    case True
    then show ?thesis using 3(1)
      by (simp add: matchstar_iff prefix_match_Many case_prod_beta)
  next
    case False
    then show ?thesis using 3(2)
      by (simp add: prefix_match_One accepts_def case_prod_beta split: list.split)
  qed
qed (simp add: prefix_match_Nil)

lemma match_from_iff: "match_from re u \<longleftrightarrow> (\<exists>a b. u = a @ b \<and> matchhere re b)"
proof (induction u)
  case (Cons t u)
  then show ?case unfolding ex_split_Cons by simp
qed simp

text \<open>
  C33: \<^verbatim>\<open>match\<close> decides the language of the pattern: some part of the line is a word of its items, a part at
  the start of the line if the pattern begins with \<^verbatim>\<open>^\<close>, and at the end of the line if it ends in \<^verbatim>\<open>$\<close>.
\<close>

theorem match_decides_pattern:
  "match re u \<longleftrightarrow>
   (if re \<noteq> [] \<and> hd re = CARET then prefix_match (items (tl re)) u
    else \<exists>a b. u = a @ b \<and> prefix_match (items re) b)"
  by (simp add: match_def matchhere_iff match_from_iff)

section \<open>Reading in pieces\<close>

definition unlines :: "byte list list \<Rightarrow> byte list" where
  "unlines ls = concat (map (\<lambda>l. l @ [NL]) ls)"

definition line_ok :: "byte list \<Rightarrow> bool" where
  "line_ok l \<longleftrightarrow> NL \<notin> set l \<and> 0 \<notin> set l \<and> length l < 1023"

lemma unlines_simps [simp]: "unlines [] = []" "unlines (l # ls) = l @ NL # unlines ls"
  by (simp_all add: unlines_def)

lemma unlines_append [simp]: "unlines (a @ b) = unlines a @ unlines b"
  by (simp add: unlines_def)

lemma unlines_no_NL: "unlines ls = xs \<Longrightarrow> NL \<notin> set xs \<Longrightarrow> ls = []"
  by (cases ls) auto

lemma grep_lines_done: "NL \<notin> set p \<Longrightarrow> grep_lines pattern p = ([], p)"
  by (subst grep_lines.simps) (auto dest: set_takeWhileD)

lemma grep_lines_unlines:
  "(\<forall>l \<in> set ls. line_ok l) \<Longrightarrow> NL \<notin> set r \<Longrightarrow>
   grep_lines pattern (unlines ls @ r) = (unlines (filter (match pattern) ls), r)"
proof (induction ls)
  case (Cons l ls)
  then have l: "NL \<notin> set l" "0 \<notin> set l" by (auto simp: line_ok_def)
  have "takeWhile (\<lambda>c. c \<noteq> NL) (l @ NL # unlines ls @ r) = l"
    using l by (subst takeWhile_append2) auto
  moreover have "NL \<in> set (takeWhile (\<lambda>c. c \<noteq> 0) (l @ NL # unlines ls @ r))"
    using l by (subst takeWhile_append2) (auto simp: NL_def)
  ultimately show ?case using Cons by (subst grep_lines.simps) simp
qed (simp add: grep_lines_done)

text \<open>Where a piece of the file ends: after some whole lines and the start \<open>r\<close> of the next one.\<close>

lemma split_unlines:
  "xs @ ys = unlines ls \<Longrightarrow>
   \<exists>ls1 ls2 r. ls = ls1 @ ls2 \<and> xs = unlines ls1 @ r \<and> NL \<notin> set r \<and> r @ ys = unlines ls2"
  if "\<forall>l \<in> set ls. line_ok l"
  using that
proof (induction ls arbitrary: xs)
  case (Cons l ls)
  show ?case
  proof (cases "length xs \<le> length l")
    case True
    then have "xs = take (length xs) l" using Cons.prems by (auto simp: append_eq_append_conv_if)
    then have "NL \<notin> set xs" using Cons.prems by (metis in_set_takeD line_ok_def list.set_intros(1))
    then have "l # ls = [] @ (l # ls) \<and> xs = unlines [] @ xs \<and> NL \<notin> set xs \<and> xs @ ys = unlines (l # ls)"
      using Cons.prems by simp
    then show ?thesis by blast
  next
    case False
    then obtain zs where zs: "xs = l @ NL # zs" "zs @ ys = unlines ls"
      using Cons.prems by (auto simp: append_eq_append_conv2 append_eq_Cons_conv)
    then obtain ls1 ls2 r where "ls = ls1 @ ls2" "zs = unlines ls1 @ r" "NL \<notin> set r" "r @ ys = unlines ls2"
      using Cons by (metis list.set_intros(2))
    then have "l # ls = (l # ls1) @ ls2 \<and> xs = unlines (l # ls1) @ r \<and> NL \<notin> set r \<and> r @ ys = unlines ls2"
      using zs by simp
    then show ?thesis by blast
  qed
qed auto

lemma grep_loop_lines:
  "\<lbrakk>\<forall>l \<in> set ls. line_ok l; buf @ input = unlines ls; NL \<notin> set buf; \<forall>n \<in> set ns. 0 < n; length input \<le> length ns\<rbrakk>
   \<Longrightarrow> grep_loop pattern ns buf input = unlines (filter (match pattern) ls)"
proof (induction ns arbitrary: buf input ls)
  case Nil
  then show ?case using unlines_no_NL [of ls buf] by simp
next
  case (Cons n ns)
  show ?case
  proof (cases "input = []")
    case True
    then show ?thesis using Cons.prems unlines_no_NL [of ls buf] by simp
  next
    case False
    then obtain l ls' where ls: "ls = l # ls'" using Cons.prems(2) by (cases ls) auto
    have "length buf \<le> length l"
      using Cons.prems(2,3) ls by (auto simp: append_eq_append_conv2 append_eq_Cons_conv)
    then have "length buf < 1023" using Cons.prems(1) ls by (auto simp: line_ok_def)
    moreover define got where "got = take (min n (1024 - length buf - 1)) input"
    ultimately have got: "got \<noteq> []" "input = got @ drop (length got) input"
      using False Cons.prems(4) by (auto simp: min_def)
    then have "(buf @ got) @ drop (length got) input = unlines ls" using Cons.prems(2) by simp
    then obtain ls1 ls2 r where r: "ls = ls1 @ ls2" "buf @ got = unlines ls1 @ r" "NL \<notin> set r"
        "r @ drop (length got) input = unlines ls2"
      using split_unlines [OF Cons.prems(1)] by blast
    have "length (drop (length got) input) \<le> length ns" using Cons.prems(5) got(1) by (cases got) auto
    then have "grep_loop pattern ns r (drop (length got) input) = unlines (filter (match pattern) ls2)"
      using Cons.IH [of ls2 r] Cons.prems(1,4) r by auto
    moreover have "grep_lines pattern (buf @ got) = (unlines (filter (match pattern) ls1), r)"
      using grep_lines_unlines [of ls1 r] Cons.prems(1) r by auto
    ultimately show ?thesis using got(1) r(1) unfolding grep_loop.simps got_def [symmetric] by (simp add: Let_def)
  qed
qed

text \<open>
  C34: On a file of whole lines that fit into the buffer and hold no NUL, \<^verbatim>\<open>grep\<close> writes the lines that
  match, in order, however the file is cut into pieces by \<^verbatim>\<open>read\<close>.
\<close>

theorem grep_prints_matching_lines:
  assumes "\<forall>l \<in> set ls. line_ok l" "\<forall>n \<in> set ns. 0 < n" "length (unlines ls) \<le> length ns"
  shows "grep pattern ns (unlines ls) = unlines (filter (match pattern) ls)"
  using assms by (simp add: grep_def grep_loop_lines)

theorem grep_prints_matching_lines_witness:
  "grep [97] (replicate 7 2) (unlines [[98, 97], [99], [97]]) = unlines [[98, 97], [97]]"
proof -
  have "grep [97] (replicate 7 2) (unlines [[98, 97], [99], [97]]) =
      unlines (filter (match [97]) [[98, 97], [99], [97]])"
    by (rule grep_prints_matching_lines) (auto simp: line_ok_def NL_def)
  then show ?thesis by (simp add: match_def CARET_def DOLLAR_def DOT_def)
qed

end
