(* ===== verification/Log_Crash.thy ===== *)
theory Log_Crash
  imports Log
begin

text \<open>
  Crash safety of the log. A crash keeps the disk as it was after some prefix of the block writes;
  the machine then boots with an empty cache and \<^verbatim>\<open>initlog\<close> recovers. The lemmas give the exact sequence
  of writes of \<^verbatim>\<open>commit\<close> and of recovery, on top of the contract of the buffer cache.
\<close>

section \<open>Sequences of block writes\<close>

definition apply_writes :: "(u32 \<times> cstr) list \<Rightarrow> (u32 \<Rightarrow> cstr) \<Rightarrow> u32 \<Rightarrow> cstr" where
  "apply_writes ws d = fold (\<lambda>(n, x) d. d(n := x)) ws d"

lemma apply_writes_simps [simp]:
  "apply_writes [] d = d"
  "apply_writes ((n, x) # ws) d = apply_writes ws (d(n := x))"
  "apply_writes (ws @ vs) d = apply_writes vs (apply_writes ws d)"
  by (simp_all add: apply_writes_def)

lemma apply_writes_notin: "n \<notin> fst ` set ws \<Longrightarrow> apply_writes ws d n = d n"
  by (induction ws arbitrary: d) auto

lemma apply_writes_map:
  assumes "t \<in> set ts" "\<And>u. u \<in> set ts \<Longrightarrow> f u = f t \<Longrightarrow> g u = g t"
  shows "apply_writes (map (\<lambda>t. (f t, g t)) ts) d (f t) = g t"
proof -
  have "apply_writes (map (\<lambda>t. (f t, g t)) ts) d (f t) = (if f t \<in> f ` set ts then g t else d (f t))"
    using assms(2)
  proof (induction ts arbitrary: d)
    case (Cons u ts)
    then show ?case by (auto simp: image_iff)
  qed simp
  then show ?thesis using assms(1) by simp
qed

text \<open>What recovery makes of a disk whose log starts at block \<open>start\<close>.\<close>

definition home_writes :: "u32 \<Rightarrow> (u32 \<Rightarrow> cstr) \<Rightarrow> (u32 \<times> cstr) list" where
  "home_writes start d =
     map (\<lambda>t. (get_block (d start) t, d (start + of_nat t + 1))) [0..<nat (get_n (d start))]"

definition recovered :: "u32 \<Rightarrow> (u32 \<Rightarrow> cstr) \<Rightarrow> u32 \<Rightarrow> cstr" where
  "recovered start d = apply_writes (home_writes start d) d"

section \<open>The header block\<close>

definition header :: "nat \<Rightarrow> (nat \<Rightarrow> u32) \<Rightarrow> cstr \<Rightarrow> cstr" where
  "header n bl d = write_blocks bl 0 n (put_n d (int n))"

lemma write_blocks_other:
  "get_n (write_blocks bl i k d) = get_n d"
  "j < i \<or> i + k \<le> j \<Longrightarrow> get_block (write_blocks bl i k d) j = get_block d j"
  by (induction k arbitrary: i d)
     (auto simp: get_n_def get_block_def put_block_def get_le_put_le_other)

lemma get_block_write_blocks: "i \<le> j \<Longrightarrow> j < i + k \<Longrightarrow> get_block (write_blocks bl i k d) j = bl j"
proof (induction k arbitrary: i d)
  case (Suc k)
  show ?case
  proof (cases "j = i")
    case True
    then show ?thesis
      by (simp add: write_blocks_other(2)) (simp add: get_block_def put_block_def get_le_put_le)
  next
    case False
    then show ?thesis using Suc by simp
  qed
qed simp

lemma header_fields:
  "n < 2 ^ 31 \<Longrightarrow> get_n (header n bl d) = int n" "j < n \<Longrightarrow> get_block (header n bl d) j = bl j"
proof -
  show "j < n \<Longrightarrow> get_block (header n bl d) j = bl j" by (simp add: header_def get_block_write_blocks)
  assume "n < 2 ^ 31"
  then have "signed_take_bit 31 (int n) = int n" by (simp add: signed_take_bit_int_eq_self)
  then show "get_n (header n bl d) = int n"
    unfolding header_def write_blocks_other
    by (simp add: get_n_def put_n_def get_le_put_le signed_of_int del: of_int_of_nat_eq)
qed

lemma read_blocks_apply:
  "read_blocks d i k bl j = (if i \<le> j \<and> j < i + k then get_block d j else bl j)"
  by (induction k arbitrary: i bl) auto

section \<open>The operations of the log\<close>

lemma bframe_log:
  assumes "bframe s t"
  shows "log_dev t = log_dev s" "log_start t = log_start s" "log_size t = log_size s" "log_lh t = log_lh s"
    "log_outstanding t = log_outstanding s" "log_committing t = log_committing s"
proof -
  let ?u = "s\<lparr>proc := proc t, slocks := slocks t, bufs := bufs t, disk := disk t, dwrites := dwrites t\<rparr>"
  have "t = ?u" using assms by (simp add: bframe_def)
  show "log_dev t = log_dev s" "log_start t = log_start s" "log_size t = log_size s" "log_lh t = log_lh s"
    "log_outstanding t = log_outstanding s" "log_committing t = log_committing s"
    by (subst \<open>t = ?u\<close>, simp)+
qed

lemma cache_log_upd [simp]:
  "inuse dev rc H (s\<lparr>log_lh := x\<rparr>) = inuse dev rc H s" "bview dev (s\<lparr>log_lh := x\<rparr>) = bview dev s"
  "pin_at dev rc (s\<lparr>log_lh := x\<rparr>) = pin_at dev rc s"
proof -
  show "bview dev (s\<lparr>log_lh := x\<rparr>) = bview dev s" by (rule bview_same) (simp_all add: same_content_refl)
qed (simp_all add: inuse_def mypid_def this_proc_def myproc_def fun_eq_iff pin_at_def)

lemma bframe_log_upd: "bframe s t \<Longrightarrow> bframe (s\<lparr>log_lh := x\<rparr>) (t\<lparr>log_lh := x\<rparr>)"
proof -
  assume a: "bframe s t"
  let ?u = "s\<lparr>proc := proc t, slocks := slocks t, bufs := bufs t, disk := disk t, dwrites := dwrites t\<rparr>"
  have "t = ?u" using a by (simp add: bframe_def)
  then have e: "t\<lparr>log_lh := x\<rparr> = ?u\<lparr>log_lh := x\<rparr>" by (rule arg_cong)
  have "\<forall>i. proc t i = (proc s i)\<lparr>p_state := p_state (proc t i)\<rparr>" "\<forall>i. slocks t (SL_inode i) = slocks s (SL_inode i)"
    using a unfolding bframe_def by blast+
  then show ?thesis unfolding bframe_def using e by (intro conjI) simp_all
qed

abbreviation logblk :: "u32 \<Rightarrow> nat \<Rightarrow> u32" where
  "logblk start t \<equiv> start + of_nat t + 1"

lemma write_head_law:
  assumes "inuse (log_dev s) rc {} s" "0 < spare rc {}" "lh_n (log_lh s) = int n"
  defines "h \<equiv> header n (lh_block (log_lh s)) (bview (log_dev s) s (log_start s))"
  shows "\<exists>t. write_head s = Ok t \<and> inuse (log_dev s) rc {} t \<and>
    bview (log_dev s) t = (bview (log_dev s) s)(log_start s := h) \<and> disk t = (disk s)(log_start s := h) \<and>
    dwrites t = dwrites s @ [(log_start s, h)] \<and> bframe s t \<and> pin_at (log_dev s) rc t = pin_at (log_dev s) rc s"
proof -
  obtain i t u v where t: "bread (log_dev s) (log_start s) s = Ok (i, t)" "b_data (bufs t i) = bview (log_dev s) s (log_start s)"
    "bframe s t" "bwrite i (set_data i h t) = Ok u" "brelse i u = Ok v" "inuse (log_dev s) rc {} v"
    "bview (log_dev s) v = (bview (log_dev s) s)(log_start s := h)" "disk v = (disk s)(log_start s := h)"
    "dwrites v = dwrites s @ [(log_start s, h)]" "bframe s v" "pin_at (log_dev s) rc v = pin_at (log_dev s) rc s"
    using bc.write_through [OF assms(1), of "log_start s" h] assms(2) by blast
  have "write_blocks (lh_block (log_lh t)) 0 (logged t) (put_n (b_data (bufs t i)) (lh_n (log_lh t))) = h"
    using assms(3) t(2) bframe_log [OF t(3)] by (simp add: h_def header_def)
  then have "write_head s = Ok v" using t by (simp add: write_head_def Let_def)
  then show ?thesis using t by blast
qed

lemma read_head_law:
  assumes "inuse (log_dev s) rc {} s" "0 < spare rc {}" "get_n (bview (log_dev s) s (log_start s)) \<le> LOGSIZE"
  defines "h \<equiv> bview (log_dev s) s (log_start s)"
  shows "\<exists>t. read_head s = Ok (t\<lparr>log_lh := \<lparr>lh_n = get_n h,
       lh_block = (\<lambda>j. if j < nat (get_n h) then get_block h j else lh_block (log_lh s) j)\<rparr>\<rparr>) \<and>
    inuse (log_dev s) rc {} t \<and> bview (log_dev s) t = bview (log_dev s) s \<and> disk t = disk s \<and>
    dwrites t = dwrites s \<and> bframe s t \<and> pin_at (log_dev s) rc t = pin_at (log_dev s) rc s"
proof -
  let ?d = "log_dev s"
  obtain i t where t: "bread ?d (log_start s) s = Ok (i, t)" "inuse ?d rc {i} t" "b_blockno (bufs t i) = log_start s"
    "b_data (bufs t i) = h" "rc i = 0 \<longrightarrow> h = disk s (log_start s)" "bview ?d t = bview ?d s" "disk t = disk s"
    "dwrites t = dwrites s" "bframe s t" "pin_at ?d rc t = pin_at ?d rc s"
    using bc.bread [OF assms(1), of "log_start s"] assms(2) by (auto simp: h_def)
  define lh where "lh = \<lparr>lh_n = get_n h, lh_block = (\<lambda>j. if j < nat (get_n h) then get_block h j else lh_block (log_lh s) j)\<rparr>"
  let ?t = "t\<lparr>log_lh := lh\<rparr>"
  have i: "inuse ?d rc {i} ?t" using t(2) by simp
  have "rc i = 0 \<Longrightarrow> b_data (bufs ?t i) = disk ?t (b_blockno (bufs ?t i))" using t by simp
  from bc.brelse [OF i singletonI this] obtain u where u: "brelse i ?t = Ok u" "inuse ?d rc {} u" "bview ?d u = bview ?d t"
    "disk u = disk t" "dwrites u = dwrites t" "bframe ?t u" "pin_at ?d rc u = pin_at ?d rc t" by auto
  have lh_u: "log_lh u = lh" using bframe_log(4) [OF u(6)] by simp
  have e: "u\<lparr>log_lh := lh\<rparr> = u" using lh_u by simp
  have "(log_lh t)\<lparr>lh_n := get_n h, lh_block := read_blocks h 0 (nat (get_n h)) (lh_block (log_lh t))\<rparr> = lh"
    using bframe_log(4) [OF t(9)] by (intro logheader.equality) (auto simp: lh_def read_blocks_apply)
  then have "read_head s = brelse i ?t" unfolding read_head_def using assms(3) by (simp add: t(1,4) Let_def flip: h_def)
  then have "read_head s = Ok ((u\<lparr>log_lh := log_lh s\<rparr>)\<lparr>log_lh := lh\<rparr>)" using u(1) lh_u by simp
  moreover have "t\<lparr>log_lh := log_lh s\<rparr> = t" using bframe_log(4) [OF t(9)] by (metis logst.surjective logst.update_convs(6))
  then have "bframe s (u\<lparr>log_lh := log_lh s\<rparr>)"
    using bframe_log_upd [OF u(6), of "log_lh s"] t(9) bframe_trans by simp
  ultimately show ?thesis using u t unfolding lh_def by (intro exI [of _ "u\<lparr>log_lh := log_lh s\<rparr>"]) simp
qed

lemma write_log_loop_law:
  assumes "inuse (log_dev s) rc {} s" "0 < spare rc {}"
    and "\<forall>t\<in>{tail..<tail + k}. (\<exists>i. pin_at (log_dev s) rc s (lh_block (log_lh s) t) i) \<and>
           (\<forall>u<tail + k. logblk (log_start s) u \<noteq> lh_block (log_lh s) t)"
  defines "ws \<equiv> map (\<lambda>t. (logblk (log_start s) t, bview (log_dev s) s (lh_block (log_lh s) t))) [tail..<tail + k]"
  shows "\<exists>t. write_log_loop tail k s = Ok t \<and> inuse (log_dev s) rc {} t \<and>
    bview (log_dev s) t = apply_writes ws (bview (log_dev s) s) \<and> disk t = apply_writes ws (disk s) \<and>
    dwrites t = dwrites s @ ws \<and> bframe s t \<and> pin_at (log_dev s) rc t = pin_at (log_dev s) rc s"
  using assms(1-3) unfolding ws_def
proof (induction k arbitrary: tail s)
  case 0
  then show ?case by (simp add: bframe_refl)
next
  case (Suc k)
  let ?d = "log_dev s" and ?a = "logblk (log_start s) tail" and ?b = "lh_block (log_lh s) tail"
  let ?V = "bview ?d s"
  have b: "\<exists>i. pin_at ?d rc s ?b i" "?a \<noteq> ?b" using Suc.prems(3) by auto
  obtain i t j u v w x where c: "bread ?d ?a s = Ok (i, t)" "bread ?d ?b t = Ok (j, u)"
    "bwrite i (set_data i (b_data (bufs u j)) u) = Ok v" "brelse j v = Ok w" "brelse i w = Ok x" "bframe s t" "bframe s x"
    "inuse ?d rc {} x" "bview ?d x = ?V(?a := ?V ?b)" "disk x = (disk s)(?a := ?V ?b)"
    "dwrites x = dwrites s @ [(?a, ?V ?b)]" "pin_at ?d rc x = pin_at ?d rc s"
    using bc.copy_to [OF Suc.prems(1) b(2) Suc.prems(2)] b(1) by blast
  note t = bframe_log [OF c(6)] and x = bframe_log [OF c(7)]
  have step: "write_log_loop tail (Suc k) s = write_log_loop (Suc tail) k x"
    using c(1-5) t by (simp add: Let_def)
  have keep: "bview ?d x (lh_block (log_lh s) m) = ?V (lh_block (log_lh s) m)" if "m \<in> {tail..<tail + Suc k}" for m
  proof -
    have "\<forall>u<tail + Suc k. logblk (log_start s) u \<noteq> lh_block (log_lh s) m" using bspec [OF Suc.prems(3) that] by blast
    then have "lh_block (log_lh s) m \<noteq> ?a" by (metis less_add_same_cancel1 zero_less_Suc)
    then show ?thesis by (simp add: c(9))
  qed
  obtain z where z: "write_log_loop (Suc tail) k x = Ok z" "inuse ?d rc {} z" "bframe x z" "pin_at ?d rc z = pin_at ?d rc x"
    "bview ?d z = apply_writes (map (\<lambda>t. (logblk (log_start s) t, bview ?d x (lh_block (log_lh s) t))) [Suc tail..<Suc tail + k]) (bview ?d x)"
    "disk z = apply_writes (map (\<lambda>t. (logblk (log_start s) t, bview ?d x (lh_block (log_lh s) t))) [Suc tail..<Suc tail + k]) (disk x)"
    "dwrites z = dwrites x @ map (\<lambda>t. (logblk (log_start s) t, bview ?d x (lh_block (log_lh s) t))) [Suc tail..<Suc tail + k]"
    using Suc.IH [of x "Suc tail"] Suc.prems(2,3) c(8,12) x by auto
  have m: "map (\<lambda>t. (logblk (log_start s) t, bview ?d x (lh_block (log_lh s) t))) [Suc tail..<Suc tail + k] =
      map (\<lambda>t. (logblk (log_start s) t, ?V (lh_block (log_lh s) t))) [Suc tail..<tail + Suc k]"
    using keep by auto
  have e: "[tail..<tail + Suc k] = tail # [Suc tail..<tail + Suc k]" by (simp add: upt_conv_Cons)
  note z = z [unfolded m]
  show ?case
    unfolding step z(1) e using z(2-7) c(9-12) bframe_trans [OF c(7) z(3)] by (simp del: upt_Suc)
qed

lemma spare_mono: "(\<And>i. rc i = 0 \<Longrightarrow> rc' i = 0) \<Longrightarrow> spare rc H \<le> spare rc' H"
  unfolding spare_def by (intro card_mono) auto

definition unpinned :: "(nat \<Rightarrow> bool) \<Rightarrow> (nat \<Rightarrow> u32) \<Rightarrow> nat \<Rightarrow> u32" where
  "unpinned P rc = (\<lambda>i. if P i then rc i - 1 else rc i)"

lemma install_trans_loop_law:
  assumes "inuse (log_dev s) rc {} s" "0 < spare rc {}"
    and "\<forall>t\<in>{tail..<tail + k}. (recovering \<and> 1 < spare rc {} \<or> (\<exists>i. pin_at (log_dev s) rc s (lh_block (log_lh s) t) i)) \<and>
           (\<forall>u<tail + k. logblk (log_start s) u \<noteq> lh_block (log_lh s) t)"
    and "\<not> recovering \<Longrightarrow> (\<forall>t\<in>{tail..<tail + k}. \<exists>i. pin_at (log_dev s) rc s (lh_block (log_lh s) t) i) \<and>
           inj_on (lh_block (log_lh s)) {tail..<tail + k}"
  defines "ws \<equiv> map (\<lambda>t. (lh_block (log_lh s) t, bview (log_dev s) s (logblk (log_start s) t))) [tail..<tail + k]"
    and "P \<equiv> \<lambda>i. \<not> recovering \<and> (\<exists>t\<in>{tail..<tail + k}. pin_at (log_dev s) rc s (lh_block (log_lh s) t) i)"
  shows "\<exists>t. install_trans_loop recovering tail k s = Ok t \<and> inuse (log_dev s) (unpinned P rc) {} t \<and>
    bview (log_dev s) t = apply_writes ws (bview (log_dev s) s) \<and> disk t = apply_writes ws (disk s) \<and>
    dwrites t = dwrites s @ ws \<and> bframe s t"
  using assms(1-4) unfolding ws_def P_def
proof (induction k arbitrary: tail s rc)
  case 0
  then show ?case by (simp add: bframe_refl unpinned_def)
next
  case (Suc k)
  let ?d = "log_dev s" and ?L = "logblk (log_start s)" and ?B = "lh_block (log_lh s)"
  let ?V = "bview ?d s" and ?U = "\<not> recovering"
  have b: "\<And>t u. t \<in> {tail..<tail + Suc k} \<Longrightarrow> u < tail + Suc k \<Longrightarrow> ?L u \<noteq> ?B t" using Suc.prems(3) by blast
  have p: "(\<exists>i. pin_at ?d rc s (?B tail) i) \<or> 1 < spare rc {}" using Suc.prems(3) by fastforce
  have q: "\<not> recovering \<Longrightarrow> \<exists>i. pin_at ?d rc s (?B tail) i" using Suc.prems(4) by auto
  have ab: "?L tail \<noteq> ?B tail" using b by simp
  obtain i t j u v v' w x where c: "bread ?d (?L tail) s = Ok (i, t)" "bread ?d (?B tail) t = Ok (j, u)"
    "bwrite j (set_data j (b_data (bufs u i)) u) = Ok v" "(if ?U then bunpin j v else Ok v) = Ok v'"
    "brelse i v' = Ok w" "brelse j w = Ok x" "bframe s t" "bframe s x"
    "inuse ?d (if ?U then rc(j := rc j - 1) else rc) {} x" "bview ?d x = ?V(?B tail := ?V (?L tail))"
    "disk x = (disk s)(?B tail := ?V (?L tail))" "dwrites x = dwrites s @ [(?B tail, ?V (?L tail))]"
    "?U \<longrightarrow> pin_at ?d rc s (?B tail) j"
    "\<forall>m k. pin_at ?d (if ?U then rc(j := rc j - 1) else rc) x m k \<longleftrightarrow>
       pin_at ?d rc s m k \<and> (if ?U then rc(j := rc j - 1) else rc) k \<noteq> 0"
    using bc.copy_from [OF Suc.prems(1) ab Suc.prems(2) p, of ?U] q by blast
  define rc' where "rc' = (if ?U then rc(j := rc j - 1) else rc)"
  note c' = c [folded rc'_def]
  note t = bframe_log [OF c(7)] and x = bframe_log [OF c(8)]
  have step: "install_trans_loop recovering tail (Suc k) s = install_trans_loop recovering (Suc tail) k x"
    using c(1-6) t by (simp add: Let_def)
  have j: "?U \<Longrightarrow> rc j \<noteq> 0" using c(13) bc.pin_at_rc by blast
  have other: "?B t \<noteq> ?B tail" if "?U" "t \<in> {Suc tail..<Suc tail + k}" for t
  proof -
    have "t \<in> {tail..<tail + Suc k}" "tail \<in> {tail..<tail + Suc k}" "t \<noteq> tail" using that(2) by auto
    then show ?thesis using Suc.prems(4) [OF that(1)] inj_onD by metis
  qed
  have "spare rc {} \<le> spare rc' {}" using j by (intro spare_mono) (auto simp: rc'_def)
  moreover have pins: "\<exists>i. pin_at ?d rc' x (?B t) i" if U: "?U" "t \<in> {Suc tail..<Suc tail + k}" for t
  proof -
    have "t \<in> {tail..<tail + Suc k}" using U(2) by simp
    then obtain i where i: "pin_at ?d rc s (?B t) i" using Suc.prems(4) U(1) by blast
    have "i \<noteq> j" using i c(13) U(1) bc.pin_at_one other [OF U] by blast
    then show ?thesis using i c'(14) bc.pin_at_rc [OF i] by (auto simp: rc'_def)
  qed
  moreover have "recovering \<Longrightarrow> (\<exists>i. pin_at ?d rc s m i) = (\<exists>i. pin_at ?d rc' x m i)" for m
    using c'(14) bc.pin_at_rc [of ?d rc s m] by (auto simp: rc'_def)
  ultimately have "\<forall>t\<in>{Suc tail..<Suc tail + k}. (recovering \<and> 1 < spare rc' {} \<or> (\<exists>i. pin_at ?d rc' x (?B t) i)) \<and>
      (\<forall>u<Suc tail + k. ?L u \<noteq> ?B t)" "0 < spare rc' {}"
    using Suc.prems(2,3) b by (cases recovering; fastforce)+
  moreover have "inj_on ?B {Suc tail..<Suc tail + k}" if ?U
    using Suc.prems(4) that by (auto intro: inj_on_subset)
  moreover have keep: "bview ?d x (?L m) = ?V (?L m)" if "m \<in> {tail..<tail + Suc k}" for m
    using b [of tail m] that by (auto simp: c(10))
  ultimately obtain z where z: "install_trans_loop recovering (Suc tail) k x = Ok z"
    "inuse ?d (unpinned (\<lambda>i. ?U \<and> (\<exists>t\<in>{Suc tail..<Suc tail + k}. pin_at ?d rc' x (?B t) i)) rc') {} z" "bframe x z"
    "bview ?d z = apply_writes (map (\<lambda>t. (?B t, bview ?d x (?L t))) [Suc tail..<Suc tail + k]) (bview ?d x)"
    "disk z = apply_writes (map (\<lambda>t. (?B t, bview ?d x (?L t))) [Suc tail..<Suc tail + k]) (disk x)"
    "dwrites z = dwrites x @ map (\<lambda>t. (?B t, bview ?d x (?L t))) [Suc tail..<Suc tail + k]"
    using Suc.IH [of x rc' "Suc tail"] c'(9) x pins by auto
  have m: "map (\<lambda>t. (?B t, bview ?d x (?L t))) [Suc tail..<Suc tail + k] =
      map (\<lambda>t. (?B t, ?V (?L t))) [Suc tail..<tail + Suc k]"
    by (rule map_cong) (use keep in \<open>simp_all del: upt_Suc\<close>)
  have e: "[tail..<tail + Suc k] = tail # [Suc tail..<tail + Suc k]" by (simp add: upt_conv_Cons)
  have "unpinned (\<lambda>i. ?U \<and> (\<exists>t\<in>{Suc tail..<Suc tail + k}. pin_at ?d rc' x (?B t) i)) rc' =
      unpinned (\<lambda>i. ?U \<and> (\<exists>t\<in>{tail..<tail + Suc k}. pin_at ?d rc s (?B t) i)) rc"
  proof (cases recovering)
    case False
    have split: "{tail..<tail + Suc k} = insert tail {Suc tail..<Suc tail + k}" by auto
    have "uniq ?d (bufs s)" using inuseD(2) [OF Suc.prems(1)] .
    then have "pin_at ?d rc s (?B tail) i \<longleftrightarrow> i = j" for i using c(13) False unfolding pin_at_def uniq_def by blast
    moreover have "\<not> pin_at ?d rc s (?B t) j" if "t \<in> {Suc tail..<Suc tail + k}" for t
      using other [OF False that] c(13) False bc.pin_at_one by blast
    ultimately show ?thesis
      using c'(14) bc.pin_at_rc [of ?d rc s] False unfolding split unpinned_def rc'_def by (intro ext) auto
  qed (simp add: unpinned_def rc'_def)
  note z = z [unfolded m this]
  show ?case
    unfolding step z(1) e using z(2-6) c(10-12) bframe_trans [OF c(8) z(3)] by (simp del: upt_Suc)
qed

section \<open>Commit\<close>

text \<open>
  The state in which \<^verbatim>\<open>commit\<close> runs: the blocks of the transaction are distinct, outside the log and
  pinned in the cache, every other block is on the disk, and the log on the disk is empty.
\<close>

definition in_log :: "u32 \<Rightarrow> int \<Rightarrow> u32 \<Rightarrow> bool" where
  "in_log start sz n \<longleftrightarrow> int (unat (n - start)) < sz"

definition pins :: "'a logst_scheme \<Rightarrow> nat \<Rightarrow> u32" where
  "pins s = (\<lambda>i. if \<exists>t<logged s. caches (bufs s) (log_dev s) (lh_block (log_lh s) t) i then 1 else 0)"

definition tx_ready :: "'a logst_scheme \<Rightarrow> bool" where
  "tx_ready s \<longleftrightarrow> inuse (log_dev s) (pins s) {} s \<and> log_dev s \<noteq> 0 \<and>
     0 \<le> lh_n (log_lh s) \<and> lh_n (log_lh s) < log_size s \<and> log_size s \<le> LOGSIZE \<and>
     (\<forall>t<logged s. (\<exists>i. caches (bufs s) (log_dev s) (lh_block (log_lh s) t) i) \<and>
        \<not> in_log (log_start s) (log_size s) (lh_block (log_lh s) t)) \<and>
     inj_on (lh_block (log_lh s)) {..<logged s} \<and>
     (\<forall>n. \<not> in_log (log_start s) (log_size s) n \<longrightarrow> n \<notin> lh_block (log_lh s) ` {..<logged s} \<longrightarrow>
        bview (log_dev s) s n = disk s n) \<and>
     get_n (disk s (log_start s)) = 0"

lemma pin_at_pins:
  "pin_at (log_dev s) (pins s) s n i \<longleftrightarrow> caches (bufs s) (log_dev s) n i \<and> (\<exists>t<logged s. lh_block (log_lh s) t = n)"
  by (auto simp: pin_at_def pins_def caches_def)

text \<open>Each block of the transaction takes one buffer.\<close>

lemma spare_pins:
  assumes "uniq (log_dev s) (bufs s)"
  shows "NBUF \<le> spare (pins s) {} + logged s"
proof -
  let ?P = "{i. i < NBUF \<and> pins s i \<noteq> 0}" and ?F = "{i. i < NBUF \<and> pins s i = 0}"
  define f where "f i = (SOME t. t < logged s \<and> caches (bufs s) (log_dev s) (lh_block (log_lh s) t) i)" for i
  have f: "f i < logged s \<and> caches (bufs s) (log_dev s) (lh_block (log_lh s) (f i)) i" if "i \<in> ?P" for i
  proof -
    have "\<exists>t. t < logged s \<and> caches (bufs s) (log_dev s) (lh_block (log_lh s) t) i"
      using that by (auto simp: pins_def split: if_splits)
    from someI_ex [OF this] show ?thesis unfolding f_def .
  qed
  have "inj_on f ?P" using f assms unfolding inj_on_def uniq_def by metis
  moreover have "f ` ?P \<subseteq> {..<logged s}" using f by auto
  ultimately have "card ?P \<le> logged s" using card_inj_on_le [of f ?P "{..<logged s}"] by simp
  moreover have "{..<NBUF} = ?P \<union> ?F" by auto
  then have "NBUF \<le> card ?P + card ?F" using card_Un_le [of ?P ?F] by (metis card_lessThan)
  ultimately show ?thesis by (simp add: spare_def)
qed

lemma unat_of_small: "t < 2 ^ 31 \<Longrightarrow> unat (of_nat t :: u32) = t"
  by (simp add: unat_of_nat)

lemma logblk_facts:
  assumes "int t + 1 < sz" "sz < 2 ^ 31"
  shows "in_log start sz (logblk start t)" "logblk start t \<noteq> start" "in_log start sz start"
proof -
  have "unat (of_nat (Suc t) :: u32) = Suc t" using assms by (intro unat_of_small) auto
  then have u: "unat (logblk start t - start) = Suc t" by (simp add: add.commute)
  then show "in_log start sz (logblk start t)" "in_log start sz start" using assms by (auto simp: in_log_def)
  show "logblk start t \<noteq> start" using u by auto
qed

lemma logblk_inj:
  assumes "int t + 1 < sz" "int u + 1 < sz" "sz < 2 ^ 31" "logblk start t = logblk start u"
  shows "t = u"
proof -
  have "(of_nat t :: u32) = of_nat u" using assms(4) by simp
  moreover have "unat (of_nat t :: u32) = t" "unat (of_nat u :: u32) = u"
    using assms(1-3) by (auto intro!: unat_of_small)
  ultimately show ?thesis by metis
qed

text \<open>The blocks \<^verbatim>\<open>commit\<close> writes, in order.\<close>

definition log_writes :: "'a logst_scheme \<Rightarrow> (u32 \<times> cstr) list" where
  "log_writes s = map (\<lambda>t. (logblk (log_start s) t, bview (log_dev s) s (lh_block (log_lh s) t))) [0..<logged s]"

definition install_writes :: "'a logst_scheme \<Rightarrow> (u32 \<times> cstr) list" where
  "install_writes s = map (\<lambda>t. (lh_block (log_lh s) t, bview (log_dev s) s (lh_block (log_lh s) t))) [0..<logged s]"

definition commit_header :: "'a logst_scheme \<Rightarrow> cstr" where
  "commit_header s = header (logged s) (lh_block (log_lh s)) (bview (log_dev s) s (log_start s))"

definition commit_writes :: "'a logst_scheme \<Rightarrow> (u32 \<times> cstr) list" where
  "commit_writes s = log_writes s @ [(log_start s, commit_header s)] @ install_writes s @
     [(log_start s, header 0 (lh_block (log_lh s)) (commit_header s))]"

lemma tx_readyD:
  assumes "tx_ready s"
  shows "inuse (log_dev s) (pins s) {} s" "0 < spare (pins s) {}" "lh_n (log_lh s) = int (logged s)"
    "int (logged s) < log_size s" "log_size s < 2 ^ 31" "get_n (disk s (log_start s)) = 0"
    "inj_on (lh_block (log_lh s)) {..<logged s}"
    "t < logged s \<Longrightarrow> \<exists>i. pin_at (log_dev s) (pins s) s (lh_block (log_lh s) t) i"
    "t < logged s \<Longrightarrow> \<not> in_log (log_start s) (log_size s) (lh_block (log_lh s) t)"
    "\<not> in_log (log_start s) (log_size s) n \<Longrightarrow> n \<notin> lh_block (log_lh s) ` {..<logged s} \<Longrightarrow>
       bview (log_dev s) s n = disk s n"
    "log_dev s \<noteq> 0" "log_size s \<le> 30"
proof -
  show u: "inuse (log_dev s) (pins s) {} s" and "lh_n (log_lh s) = int (logged s)"
    and n: "int (logged s) < log_size s" and z: "log_size s \<le> 30"
    using assms by (auto simp: tx_ready_def LOGSIZE_def MAXOPBLOCKS_def)
  then show "log_size s < 2 ^ 31" by simp
  have "30 \<le> spare (pins s) {} + logged s" using spare_pins [OF inuseD(2) [OF u]] by (simp only: NBUF_def)
  then show "0 < spare (pins s) {}" using n z by linarith
  show "t < logged s \<Longrightarrow> \<exists>i. pin_at (log_dev s) (pins s) s (lh_block (log_lh s) t) i"
    using assms unfolding pin_at_pins tx_ready_def by blast
qed (use assms in \<open>auto simp: tx_ready_def\<close>)

lemma tx_logblk:
  assumes "tx_ready s" "t < logged s"
  shows "in_log (log_start s) (log_size s) (logblk (log_start s) t)" "logblk (log_start s) t \<noteq> log_start s"
    "in_log (log_start s) (log_size s) (log_start s)"
    "u < logged s \<Longrightarrow> logblk (log_start s) t \<noteq> lh_block (log_lh s) u" "lh_block (log_lh s) t \<noteq> log_start s"
    "u < logged s \<Longrightarrow> logblk (log_start s) t = logblk (log_start s) u \<Longrightarrow> t = u"
proof -
  have t: "int t + 1 < log_size s" "log_size s < 2 ^ 31" "u < logged s \<Longrightarrow> int u + 1 < log_size s"
    using tx_readyD(4,5) [OF assms(1)] assms(2) by linarith+
  show l: "in_log (log_start s) (log_size s) (logblk (log_start s) t)" "logblk (log_start s) t \<noteq> log_start s"
    "in_log (log_start s) (log_size s) (log_start s)" using logblk_facts [OF t(1,2)] by auto
  show "u < logged s \<Longrightarrow> logblk (log_start s) t \<noteq> lh_block (log_lh s) u" using l(1) tx_readyD(9) [OF assms(1)] by metis
  show "lh_block (log_lh s) t \<noteq> log_start s" using l(3) tx_readyD(9) [OF assms] by metis
  show "u < logged s \<Longrightarrow> logblk (log_start s) t = logblk (log_start s) u \<Longrightarrow> t = u"
    using logblk_inj [OF t(1) _ t(2)] t(3) by blast
qed

lemma commit_law:
  assumes "tx_ready s" "0 < logged s"
  shows "\<exists>t. commit s = Ok t \<and> inuse (log_dev s) (\<lambda>_. 0) {} t \<and>
    bview (log_dev s) t = apply_writes (commit_writes s) (bview (log_dev s) s) \<and>
    disk t = apply_writes (commit_writes s) (disk s) \<and> dwrites t = dwrites s @ commit_writes s \<and>
    bframe (s\<lparr>log_lh := (log_lh s)\<lparr>lh_n := 0\<rparr>\<rparr>) t"
proof -
  let ?d = "log_dev s" and ?n = "logged s" and ?B = "lh_block (log_lh s)" and ?L = "logblk (log_start s)"
  let ?V = "bview ?d s"
  define rc where "rc = pins s"
  note r = tx_readyD [OF assms(1), folded rc_def] and l = tx_logblk [OF assms(1)]
  have "\<forall>t\<in>{0..<0 + ?n}. (\<exists>i. pin_at ?d rc s (?B t) i) \<and> (\<forall>u<0 + ?n. ?L u \<noteq> ?B t)" using r(8) l(4) by auto
  from write_log_loop_law [OF r(1,2) this] obtain s1 where s1: "write_log s = Ok s1" "inuse ?d rc {} s1"
    "bview ?d s1 = apply_writes (log_writes s) ?V" "disk s1 = apply_writes (log_writes s) (disk s)"
    "dwrites s1 = dwrites s @ log_writes s" "bframe s s1" "pin_at ?d rc s1 = pin_at ?d rc s"
    unfolding log_writes_def write_log_def by auto
  note k1 = bframe_log [OF s1(6)]
  have v1: "bview ?d s1 (log_start s) = ?V (log_start s)"
    unfolding s1(3) using l(2) by (intro apply_writes_notin) (auto simp: log_writes_def)
  obtain s2 where s2: "write_head s1 = Ok s2" "inuse ?d rc {} s2" "bview ?d s2 = (bview ?d s1)(log_start s := commit_header s)"
    "disk s2 = (disk s1)(log_start s := commit_header s)" "dwrites s2 = dwrites s1 @ [(log_start s, commit_header s)]"
    "bframe s1 s2" "pin_at ?d rc s2 = pin_at ?d rc s"
    using write_head_law [of s1 rc ?n] s1(2,7) r(2,3) k1 v1 by (auto simp: commit_header_def)
  note k2 = bframe_log [OF s2(6)]
  have v2: "bview ?d s2 (?L t) = ?V (?B t)" if "t < ?n" for t
  proof -
    have "apply_writes (log_writes s) ?V (?L t) = ?V (?B t)"
      unfolding log_writes_def by (rule apply_writes_map) (use that l(6) in auto)
    then show ?thesis using l(2) [OF that] by (simp add: s2(3) s1(3))
  qed
  have w3: "map (\<lambda>t. (?B t, bview ?d s2 (?L t))) [0..<?n] = install_writes s" using v2 by (simp add: install_writes_def)
  obtain s3 where s3: "install_trans False s2 = Ok s3" "bview ?d s3 = apply_writes (install_writes s) (bview ?d s2)"
    "inuse ?d (unpinned (\<lambda>i. \<exists>t\<in>{0..<?n}. pin_at ?d rc s (?B t) i) rc) {} s3"
    "disk s3 = apply_writes (install_writes s) (disk s2)" "dwrites s3 = dwrites s2 @ install_writes s" "bframe s2 s3"
    using install_trans_loop_law [of s2 rc 0 ?n False] s2(2,7) k1 k2 r(2,7,8) l(4) w3
    by (auto simp: install_trans_def lessThan_atLeast0)
  note k3 = bframe_log [OF s3(6)]
  define rc' where "rc' = unpinned (\<lambda>i. \<exists>t\<in>{0..<?n}. pin_at ?d rc s (?B t) i) rc"
  define s3' where "s3' = s3\<lparr>log_lh := (log_lh s)\<lparr>lh_n := 0\<rparr>\<rparr>"
  have "spare rc {} \<le> spare rc' {}" using bc.pin_at_rc [of ?d rc s] by (intro spare_mono) (auto simp: rc'_def unpinned_def)
  moreover have "log_start s \<notin> fst ` set (install_writes s)"
    using l(5) by (auto simp: install_writes_def image_image) metis
  then have "bview ?d s3 (log_start s) = commit_header s" by (simp add: s3(2) s2(3) apply_writes_notin)
  ultimately obtain s4 where s4: "write_head s3' = Ok s4" "inuse ?d rc' {} s4"
    "bview ?d s4 = (bview ?d s3)(log_start s := header 0 ?B (commit_header s))"
    "disk s4 = (disk s3)(log_start s := header 0 ?B (commit_header s))"
    "dwrites s4 = dwrites s3 @ [(log_start s, header 0 ?B (commit_header s))]" "bframe s3' s4"
    using write_head_law [of s3' rc' 0] s3(3) r(2) k1 k2 k3 by (auto simp: s3'_def rc'_def)
  have "bframe s s3" using s1(6) s2(6) s3(6) bframe_trans by blast
  then have fr: "bframe (s\<lparr>log_lh := (log_lh s)\<lparr>lh_n := 0\<rparr>\<rparr>) s4"
    using bframe_log_upd s4(6) bframe_trans unfolding s3'_def by blast
  have "rc' = (\<lambda>_. 0)"
    by (auto simp: rc'_def unpinned_def rc_def pin_at_pins fun_eq_iff) (auto simp: pins_def)
  note s4 = s4 [unfolded this]
  have "commit s = Ok s4" using s1(1) s2(1) s3(1) s4(1) k1 k2 k3 assms(2) by (simp add: commit_def s3'_def)
  then show ?thesis
    using s4 s3 s2 s1 fr by (intro exI [of _ s4]) (simp add: commit_writes_def)
qed

section \<open>Recovery\<close>

lemma recover_law:
  assumes "inuse (log_dev r) (\<lambda>_. 0) {} r" "bview (log_dev r) r = disk r" "get_n (disk r (log_start r)) \<le> LOGSIZE"
  defines "n \<equiv> nat (get_n (disk r (log_start r)))" and "B \<equiv> get_block (disk r (log_start r))"
  assumes "\<forall>t<n. B t \<noteq> log_start r \<and> (\<forall>u<n. logblk (log_start r) u \<noteq> B t)"
  shows "\<exists>t bl. recover_from_log r = Ok t \<and> inuse (log_dev r) (\<lambda>_. 0) {} t \<and> bview (log_dev r) t = disk t \<and>
    bframe (r\<lparr>log_lh := \<lparr>lh_n = 0, lh_block = bl\<rparr>\<rparr>) t \<and>
    dwrites t = dwrites r @ home_writes (log_start r) (disk r) @ [(log_start r, header 0 bl (disk r (log_start r)))] \<and>
    disk t = (recovered (log_start r) (disk r))(log_start r := header 0 bl (disk r (log_start r)))"
proof -
  let ?d = "log_dev r" and ?h = "disk r (log_start r)" and ?z = "\<lambda>_::nat. 0 :: u32"
  have sp: "spare ?z {} = NBUF" by (simp add: spare_def)
  then have sp: "0 < spare ?z {}" "1 < spare ?z {}" by (simp_all add: NBUF_def)
  define lh where "lh = \<lparr>lh_n = get_n ?h, lh_block = (\<lambda>j. if j < n then B j else lh_block (log_lh r) j)\<rparr>"
  obtain s1 where s1: "read_head r = Ok (s1\<lparr>log_lh := lh\<rparr>)" "inuse ?d ?z {} s1" "bview ?d s1 = disk r" "disk s1 = disk r"
    "dwrites s1 = dwrites r" "bframe r s1"
    using read_head_law [OF assms(1) sp(1)] assms(3) unfolding assms(2) n_def B_def lh_def by blast
  define s2 where "s2 = s1\<lparr>log_lh := lh\<rparr>"
  have k2: "log_dev s2 = ?d" "log_start s2 = log_start r" "log_lh s2 = lh" "logged s2 = n" "inuse ?d ?z {} s2"
    "bview ?d s2 = disk r" "disk s2 = disk r" "dwrites s2 = dwrites r"
    using bframe_log [OF s1(6)] s1(2-5) by (simp_all add: s2_def lh_def n_def)
  have B: "lh_block lh t = B t" if "t < n" for t using that by (simp add: lh_def)
  then have w: "map (\<lambda>t. (lh_block lh t, disk r (logblk (log_start r) t))) [0..<n] = home_writes (log_start r) (disk r)"
    by (simp add: home_writes_def n_def B_def)
  obtain s3 where s3: "install_trans True s2 = Ok s3" "bview ?d s3 = recovered (log_start r) (disk r)"
    "inuse ?d (unpinned (\<lambda>i. False) ?z) {} s3" "disk s3 = recovered (log_start r) (disk r)"
    "dwrites s3 = dwrites r @ home_writes (log_start r) (disk r)" "bframe s2 s3"
    using install_trans_loop_law [of s2 ?z 0 n True] k2 sp assms(6) B w
    by (auto simp: install_trans_def recovered_def)
  define s3' where "s3' = s3\<lparr>log_lh := lh\<lparr>lh_n := 0\<rparr>\<rparr>"
  have hd: "log_start r \<notin> fst ` set (home_writes (log_start r) (disk r))"
    using assms(6) by (auto simp: home_writes_def n_def B_def)
  have v: "bview ?d s3 (log_start r) = ?h" unfolding s3(2) recovered_def by (rule apply_writes_notin [OF hd])
  have "unpinned (\<lambda>i. False) ?z = ?z" by (simp add: unpinned_def)
  then obtain t where t: "write_head s3' = Ok t" "disk t = (disk s3)(log_start r := header 0 (lh_block lh) ?h)"
    "dwrites t = dwrites s3 @ [(log_start r, header 0 (lh_block lh) ?h)]" "inuse ?d ?z {} t"
    "bview ?d t = (bview ?d s3)(log_start r := header 0 (lh_block lh) ?h)" "bframe s3' t"
    using write_head_law [of s3' ?z 0] s3(3) sp k2 v bframe_log [OF s3(6)] by (auto simp: s3'_def)
  have "recover_from_log r = Ok t"
    unfolding recover_from_log_def using s1(1) s3(1) t(1) bframe_log(4) [OF s3(6)] k2(3) by (simp add: s2_def s3'_def)
  moreover have "bframe (r\<lparr>log_lh := \<lparr>lh_n = 0, lh_block = lh_block lh\<rparr>\<rparr>) t"
  proof -
    let ?n = "lh\<lparr>lh_n := 0\<rparr>"
    have "bframe (r\<lparr>log_lh := ?n\<rparr>) (s1\<lparr>log_lh := ?n\<rparr>)" "bframe (s2\<lparr>log_lh := ?n\<rparr>) (s3\<lparr>log_lh := ?n\<rparr>)"
      using s1(6) s3(6) by (simp_all add: bframe_log_upd)
    moreover have "s2\<lparr>log_lh := ?n\<rparr> = s1\<lparr>log_lh := ?n\<rparr>" by (simp add: s2_def)
    ultimately have "bframe (r\<lparr>log_lh := ?n\<rparr>) t" using t(6) bframe_trans unfolding s3'_def by metis
    moreover have "?n = \<lparr>lh_n = 0, lh_block = lh_block lh\<rparr>" by (simp add: lh_def)
    ultimately show ?thesis by simp
  qed
  ultimately show ?thesis using t s3(2,4,5) by (intro exI [of _ t] exI [of _ "lh_block lh"]) simp
qed

end
