(* ===== verification/Log_Props.thy ===== *)
theory Log_Props
  imports Log_Crash
begin

text \<open>
  The properties of the log: a transaction is atomic under crashes, recovery can itself be
  interrupted, and an update inside a transaction keeps the invariant under which \<^verbatim>\<open>commit\<close> runs.
\<close>

section \<open>The disk after a crash\<close>

lemma tx_sizes:
  assumes "tx_ready s" shows "0 < log_size s" "logged s < 30" "logged s < 2 ^ 31"
proof -
  show "0 < log_size s" "logged s < 30" using tx_readyD(4,12) [OF assms] by linarith+
  then show "logged s < 2 ^ 31" by simp
qed

lemma three_phases: "(k :: nat) \<le> n \<or> (\<exists>j. k = n + Suc j \<and> j \<le> n) \<or> n + n + 1 < k"
  by presburger

lemma install_at:
  "apply_writes (install_writes s) d n =
     (if n \<in> lh_block (log_lh s) ` {..<logged s} then bview (log_dev s) s n else d n)"
proof (cases "n \<in> lh_block (log_lh s) ` {..<logged s}")
  case True
  then obtain t where t: "t < logged s" "n = lh_block (log_lh s) t" by auto
  have "apply_writes (install_writes s) d (lh_block (log_lh s) t) = bview (log_dev s) s (lh_block (log_lh s) t)"
    unfolding install_writes_def by (rule apply_writes_map) (use t in auto)
  then show ?thesis using True t by simp
next
  case False
  then have "n \<notin> fst ` set (install_writes s)" by (auto simp: install_writes_def)
  then show ?thesis using False by (simp add: apply_writes_notin)
qed

lemma LOGSIZE_30: "LOGSIZE = 30"
  by (simp add: LOGSIZE_def MAXOPBLOCKS_def)

lemma recovered_empty: "get_n (d start) \<le> 0 \<Longrightarrow> recovered start d = d"
  by (simp add: recovered_def home_writes_def)

text \<open>
  A log that recovery can work on: the count of its header fits \<^verbatim>\<open>log.lh.block\<close> and the log, and no home block is a
  block of the log.
\<close>

definition log_ok :: "u32 \<Rightarrow> int \<Rightarrow> (u32 \<Rightarrow> cstr) \<Rightarrow> bool" where
  "log_ok start sz d \<longleftrightarrow> get_n (d start) \<le> LOGSIZE \<and> get_n (d start) < sz \<and> 0 < sz \<and> sz < 2 ^ 31 \<and>
     (\<forall>t<nat (get_n (d start)). \<not> in_log start sz (get_block (d start) t))"

text \<open>Before the header is written, recovery finds an empty log; from then on, the transaction.\<close>

lemma crash_early:
  assumes "tx_ready s" "d = apply_writes (take k (log_writes s)) (disk s)"
  shows "log_ok (log_start s) (log_size s) d"
    "\<not> in_log (log_start s) (log_size s) n \<Longrightarrow> recovered (log_start s) d n = disk s n"
proof -
  note r = tx_readyD [OF assms(1)] and l = tx_logblk [OF assms(1)]
  have keys: "fst ` set (take k (log_writes s)) \<subseteq> logblk (log_start s) ` {..<logged s}"
    using set_take_subset [of k "log_writes s"] by (auto simp: log_writes_def)
  have keep: "d m = disk s m" if "m \<notin> logblk (log_start s) ` {..<logged s}" for m
    unfolding assms(2) using keys that by (intro apply_writes_notin) blast
  have hd: "d (log_start s) = disk s (log_start s)" using l(2) by (intro keep) auto
  show "log_ok (log_start s) (log_size s) d" using tx_sizes(1) [OF assms(1)] r(5,6) hd by (simp add: log_ok_def LOGSIZE_30)
  show "recovered (log_start s) d n = disk s n" if n: "\<not> in_log (log_start s) (log_size s) n"
  proof -
    have "n \<notin> logblk (log_start s) ` {..<logged s}" using n l(1) by blast
    then show ?thesis using keep r(6) hd by (simp add: recovered_empty)
  qed
qed

lemma crash_committed:
  assumes "tx_ready s" "0 < logged s"
    and "d = apply_writes (log_writes s @ [(log_start s, commit_header s)] @ take k (install_writes s)) (disk s)"
  shows "log_ok (log_start s) (log_size s) d"
    "\<not> in_log (log_start s) (log_size s) n \<Longrightarrow> recovered (log_start s) d n = bview (log_dev s) s n"
proof -
  let ?B = "lh_block (log_lh s)" and ?L = "logblk (log_start s)" and ?V = "bview (log_dev s) s"
  note r = tx_readyD [OF assms(1)] and l = tx_logblk [OF assms(1)]
  have keys: "fst ` set (take k (install_writes s)) \<subseteq> ?B ` {..<logged s}"
    using set_take_subset [of k "install_writes s"] by (auto simp: install_writes_def)
  define d1 where "d1 = (apply_writes (log_writes s) (disk s))(log_start s := commit_header s)"
  have d: "d = apply_writes (take k (install_writes s)) d1" by (simp add: assms(3) d1_def)
  have keep: "d m = d1 m" if "m \<notin> ?B ` {..<logged s}" for m
    unfolding d using keys that by (intro apply_writes_notin) blast
  have "log_start s \<notin> ?B ` {..<logged s}" using l(5) by fastforce
  then have "d (log_start s) = commit_header s" using keep by (simp add: d1_def)
  moreover note tx_sizes(3) [OF assms(1)]
  ultimately have hd: "get_n (d (log_start s)) = int (logged s)" "\<And>t. t < logged s \<Longrightarrow> get_block (d (log_start s)) t = ?B t"
    by (simp_all only: commit_header_def header_fields)
  have dl: "d (?L t) = ?V (?B t)" if t: "t < logged s" for t
  proof -
    have "?L t \<notin> ?B ` {..<logged s}" using l(4) [OF t] by auto
    then have "d (?L t) = apply_writes (log_writes s) (disk s) (?L t)" using keep l(2) [OF t] by (simp add: d1_def)
    also have "\<dots> = ?V (?B t)" unfolding log_writes_def by (rule apply_writes_map) (use t l(6) in auto)
    finally show ?thesis .
  qed
  have "home_writes (log_start s) d = install_writes s"
    using hd dl by (simp add: home_writes_def install_writes_def)
  then have rec: "recovered (log_start s) d n = (if n \<in> ?B ` {..<logged s} then ?V n else d n)"
    by (simp add: recovered_def install_at)
  show "log_ok (log_start s) (log_size s) d" using hd r(4,5,9,12) tx_sizes(1) [OF assms(1)] by (simp add: log_ok_def LOGSIZE_30)
  show "recovered (log_start s) d n = ?V n" if n: "\<not> in_log (log_start s) (log_size s) n"
  proof (cases "n \<in> ?B ` {..<logged s}")
    case False
    have "n \<noteq> log_start s" using n l(3) [OF assms(2)] by auto
    moreover have "n \<notin> fst ` set (log_writes s)" using n l(1) by (auto simp: log_writes_def)
    ultimately have "d n = disk s n" using keep [OF False] by (simp add: d1_def apply_writes_notin)
    then show ?thesis using False rec r(10) [OF n False] by simp
  qed (simp add: rec)
qed

lemma crash_done:
  assumes "tx_ready s" "0 < logged s" "d = apply_writes (commit_writes s) (disk s)"
  shows "log_ok (log_start s) (log_size s) d" "recovered (log_start s) d = d" "get_n (d (log_start s)) = 0"
    "\<not> in_log (log_start s) (log_size s) n \<Longrightarrow> d n = bview (log_dev s) s n"
proof -
  note r = tx_readyD [OF assms(1)] and l = tx_logblk [OF assms(1,2)]
  let ?h = "header 0 (lh_block (log_lh s)) (commit_header s)"
  have d: "d = (apply_writes (install_writes s) ((apply_writes (log_writes s) (disk s))(log_start s := commit_header s)))(log_start s := ?h)"
    by (simp add: assms(3) commit_writes_def)
  have "get_n ?h = 0" using header_fields(1) [of 0] by simp
  then show z: "get_n (d (log_start s)) = 0" by (simp add: d)
  then show "recovered (log_start s) d = d" by (simp add: recovered_empty)
  show "log_ok (log_start s) (log_size s) d" using z r(5) tx_sizes(1) [OF assms(1)] by (simp add: log_ok_def LOGSIZE_30)
  show "d n = bview (log_dev s) s n" if n: "\<not> in_log (log_start s) (log_size s) n"
  proof -
    have "n \<noteq> log_start s" "n \<notin> fst ` set (log_writes s)"
      using n l(3) tx_logblk(1) [OF assms(1)] by (auto simp: log_writes_def)
    then show ?thesis using r(10) [OF n] by (simp add: d install_at apply_writes_notin)
  qed
qed

lemma crash_cases:
  assumes "tx_ready s" "0 < logged s" "d = apply_writes (take k (commit_writes s)) (disk s)"
  shows "log_ok (log_start s) (log_size s) d \<and>
    ((\<forall>n. \<not> in_log (log_start s) (log_size s) n \<longrightarrow> recovered (log_start s) d n = disk s n) \<or>
     (\<forall>n. \<not> in_log (log_start s) (log_size s) n \<longrightarrow> recovered (log_start s) d n = bview (log_dev s) s n))"
proof -
  let ?n = "logged s"
  have len: "length (log_writes s) = ?n" "length (install_writes s) = ?n"
    by (simp_all add: log_writes_def install_writes_def)
  consider (early) "k \<le> ?n" | (mid) j where "k = ?n + Suc j" "j \<le> ?n" | (late) "?n + ?n + 1 < k"
    using three_phases [of k ?n] by blast
  then show ?thesis
  proof cases
    case early
    then have "d = apply_writes (take k (log_writes s)) (disk s)" by (simp add: assms(3) commit_writes_def len)
    from crash_early [OF assms(1) this] show ?thesis by blast
  next
    case mid
    then have "d = apply_writes (log_writes s @ [(log_start s, commit_header s)] @ take j (install_writes s)) (disk s)"
      by (simp add: assms(3) commit_writes_def len)
    from crash_committed [OF assms(1,2) this] show ?thesis by blast
  next
    case late
    then have "take k (commit_writes s) = commit_writes s" by (intro take_all) (simp add: commit_writes_def len)
    then have "d = apply_writes (commit_writes s) (disk s)" by (simp only: assms(3))
    from crash_done [OF assms(1,2) this] show ?thesis by simp
  qed
qed

text \<open>Repeating a sequence of writes after a part of it.\<close>

lemma apply_writes_in: "n \<in> fst ` set ws \<Longrightarrow> apply_writes ws d n = apply_writes ws e n"
proof (induction ws arbitrary: d e)
  case (Cons w ws)
  obtain m x where w: "w = (m, x)" by fastforce
  show ?case
  proof (cases "n \<in> fst ` set ws")
    case True
    then show ?thesis using Cons.IH by (simp add: w)
  next
    case False
    then show ?thesis using Cons.prems by (simp add: w apply_writes_notin)
  qed
qed simp

lemma apply_writes_prefix: "apply_writes ws (apply_writes (take j ws) d) = apply_writes ws d"
proof
  fix n
  show "apply_writes ws (apply_writes (take j ws) d) n = apply_writes ws d n"
  proof (cases "n \<in> fst ` set ws")
    case True
    then show ?thesis by (rule apply_writes_in)
  next
    case False
    then have "n \<notin> fst ` set (take j ws)" using set_take_subset [of j ws] by (auto dest: subsetD)
    then show ?thesis using False by (simp add: apply_writes_notin)
  qed
qed

lemma recovered_again:
  assumes "log_ok start sz d" "e = apply_writes (take j (home_writes start d)) d"
  shows "log_ok start sz e" "recovered start e = recovered start d"
proof -
  let ?n = "nat (get_n (d start))"
  have keep: "e m = d m" if "in_log start sz m" for m
  proof -
    have "m \<notin> fst ` set (home_writes start d)" using assms(1) that by (auto simp: home_writes_def log_ok_def)
    then have "m \<notin> fst ` set (take j (home_writes start d))" using set_take_subset [of j "home_writes start d"] by (auto dest: subsetD)
    then show ?thesis by (simp add: assms(2) apply_writes_notin)
  qed
  have start: "in_log start sz start" using assms(1) by (simp add: log_ok_def in_log_def)
  have "in_log start sz (logblk start t)" if "t < ?n" for t
    using that assms(1) logblk_facts(1) [of t sz start] by (auto simp: log_ok_def)
  then have "home_writes start e = home_writes start d" using keep start by (simp add: home_writes_def)
  then show "recovered start e = recovered start d" by (simp add: recovered_def assms(2) apply_writes_prefix)
  show "log_ok start sz e" using assms(1) keep [OF start] by (simp add: log_ok_def)
qed

section \<open>Booting\<close>

text \<open>A machine that has just started: the buffers are static storage, which is zero.\<close>

definition booted :: "'a logst_scheme \<Rightarrow> bool" where
  "booted r \<longleftrightarrow> held r = [] \<and> (\<forall>i<NBUF. \<not> b_valid (bufs r i) \<and> b_refcnt (bufs r i) = 0 \<and> b_dev (bufs r i) = 0)"

lemma initlog_step:
  assumes "inuse dev (\<lambda>_. 0) {} s" "bview dev s = disk s" "log_ok start sz (disk s)"
  shows "\<exists>t bl. initlog dev start (word_of_int sz) s = Ok t \<and> inuse dev (\<lambda>_. 0) {} t \<and> bview dev t = disk t \<and>
    bframe (s\<lparr>log_start := start, log_size := sz, log_dev := dev, log_lh := \<lparr>lh_n = 0, lh_block = bl\<rparr>\<rparr>) t \<and>
    dwrites t = dwrites s @ home_writes start (disk s) @ [(start, header 0 bl (disk s start))] \<and>
    disk t = (recovered start (disk s))(start := header 0 bl (disk s start))"
proof -
  have "signed_take_bit 31 sz = sz" using assms(3) by (intro signed_take_bit_int_eq_self) (auto simp: log_ok_def)
  then have sz: "sint (word_of_int sz :: u32) = sz" by (simp add: signed_of_int)
  define q where "q = s\<lparr>log_start := start, log_size := sz, log_dev := dev\<rparr>"
  have same: "same_content (bufs s) (bufs q)" by (simp add: q_def same_content_refl)
  have q: "inuse (log_dev q) (\<lambda>_. 0) {} q" "bview (log_dev q) q = disk q" "disk q = disk s" "dwrites q = dwrites s"
    "log_start q = start" "log_dev q = dev"
    using assms(1,2) bview_same [OF same, of dev] by (simp_all add: q_def inuse_def mypid_def this_proc_def myproc_def)
  let ?n = "nat (get_n (disk s start))" and ?B = "get_block (disk s start)"
  have "?B t \<noteq> start \<and> (\<forall>u<?n. logblk start u \<noteq> ?B t)" if t: "t < ?n" for t
  proof -
    have "\<not> in_log start sz (?B t)" "in_log start sz start" "\<And>u. u < ?n \<Longrightarrow> in_log start sz (logblk start u)"
      using assms(3) t logblk_facts(1,3) [of _ sz start] by (auto simp: log_ok_def in_log_def)
    then show ?thesis by metis
  qed
  moreover have "get_n (disk q (log_start q)) \<le> LOGSIZE" using assms(3) q(3,5) by (simp add: log_ok_def)
  ultimately obtain t bl where "recover_from_log q = Ok t" "inuse dev (\<lambda>_. 0) {} t" "bview dev t = disk t"
    "bframe (q\<lparr>log_lh := \<lparr>lh_n = 0, lh_block = bl\<rparr>\<rparr>) t"
    "dwrites t = dwrites s @ home_writes start (disk s) @ [(start, header 0 bl (disk s start))]"
    "disk t = (recovered start (disk s))(start := header 0 bl (disk s start))"
    using recover_law [OF q(1,2)] unfolding q(3-6) by blast
  moreover have "initlog dev start (word_of_int sz) s = recover_from_log q"
    by (simp add: initlog_def q_def sz LOGSIZE_30 BSIZE_def)
  ultimately show ?thesis unfolding q_def by auto
qed

lemma initlog_law:
  assumes "booted r" "dev \<noteq> 0" "log_ok start sz (disk r)"
  shows "\<exists>t bl. initlog dev start (word_of_int sz) (binit r) = Ok t \<and>
    dwrites t = dwrites r @ home_writes start (disk r) @ [(start, header 0 bl (disk r start))] \<and>
    disk t = (recovered start (disk r))(start := header 0 bl (disk r start))"
proof -
  have "inuse dev (\<lambda>_. 0) {} (binit r)" "bview dev (binit r) = disk r" "disk (binit r) = disk r"
    "dwrites (binit r) = dwrites r" using binit_inuse [of r dev] assms(1,2) by (auto simp: booted_def)
  then show ?thesis using initlog_step [of dev "binit r" start sz] assms(3) by auto
qed

section \<open>Updates inside a transaction\<close>

lemma log_find_hit:
  "i \<le> j \<Longrightarrow> j < i + k \<Longrightarrow> bl j = n \<Longrightarrow> log_find n bl i k < i + k \<and> bl (log_find n bl i k) = n"
proof (induction k arbitrary: i)
  case (Suc k)
  show ?case
  proof (cases "bl i = n")
    case False
    then have "Suc i \<le> j" using Suc.prems by (metis Suc_leI le_neq_implies_less)
    then show ?thesis using Suc.IH [of "Suc i"] Suc.prems False by simp
  qed simp
qed simp

lemma log_find_miss: "(\<And>j. i \<le> j \<Longrightarrow> j < i + k \<Longrightarrow> bl j \<noteq> n) \<Longrightarrow> log_find n bl i k = i + k"
proof (induction k arbitrary: i)
  case (Suc k)
  have "bl i \<noteq> n" using Suc.prems by simp
  moreover have "log_find n bl (Suc i) k = Suc i + k" by (rule Suc.IH) (use Suc.prems in auto)
  ultimately show ?case by simp
qed simp

text \<open>What \<^verbatim>\<open>log_write(b)\<close> does for a block that is already in the transaction, and for a new one.\<close>

lemma log_write_absorbs:
  assumes "held s = []" "lh_n (log_lh s) = int (logged s)" "int (logged s) < LOGSIZE" "int (logged s) < log_size s - 1"
    and "1 \<le> log_outstanding s" "b_blockno (bufs s b) \<in> lh_block (log_lh s) ` {..<logged s}"
  shows "log_write b s = Ok s"
proof -
  let ?i = "log_find (b_blockno (bufs s b)) (lh_block (log_lh s)) 0 (logged s)"
  have i: "?i < logged s" "lh_block (log_lh s) ?i = b_blockno (bufs s b)"
    using log_find_hit [of 0 _ "logged s" "lh_block (log_lh s)" "b_blockno (bufs s b)"] assms(6) by auto
  have "(lh_block (log_lh s))(?i := b_blockno (bufs s b)) = lh_block (log_lh s)" using i(2) by (simp add: fun_upd_idem_iff)
  then have "(log_lh s)\<lparr>lh_block := (lh_block (log_lh s))(?i := b_blockno (bufs s b))\<rparr> = log_lh s" by simp
  moreover have "int ?i \<noteq> lh_n (log_lh s)" using i(1) assms(2) by simp
  ultimately show ?thesis using assms by (simp add: log_write_def Let_def)
qed

lemma log_write_new:
  assumes "held s = []" "lh_n (log_lh s) = int (logged s)" "int (logged s) < LOGSIZE" "int (logged s) < log_size s - 1"
    and "1 \<le> log_outstanding s" "b_blockno (bufs s b) \<notin> lh_block (log_lh s) ` {..<logged s}"
  shows "log_write b s = Ok ((upd_buf b (\<lambda>x. x\<lparr>b_refcnt := b_refcnt x + 1\<rparr>) s)
    \<lparr>log_lh := \<lparr>lh_n = int (Suc (logged s)), lh_block = (lh_block (log_lh s))(logged s := b_blockno (bufs s b))\<rparr>\<rparr>)"
proof -
  let ?i = "log_find (b_blockno (bufs s b)) (lh_block (log_lh s)) 0 (logged s)"
  have "?i = 0 + logged s" by (rule log_find_miss) (use assms(6) in force)
  then have i: "?i = logged s" by simp
  have "(log_lh s)\<lparr>lh_block := f, lh_n := m\<rparr> = \<lparr>lh_n = m, lh_block = f\<rparr>" for f m by simp
  then show ?thesis using assms(1-5) by (simp add: log_write_def Let_def i bpin_def upd_buf_def)
qed

lemma caches_logged:
  assumes "tx_ready s" "pin_at (log_dev s) (pins s) t = pin_at (log_dev s) (pins s) s" "uniq (log_dev s) (bufs t)"
    and "m < logged s"
  shows "caches (bufs t) (log_dev s) (lh_block (log_lh s) m) i \<longleftrightarrow> caches (bufs s) (log_dev s) (lh_block (log_lh s) m) i"
proof -
  obtain j where j: "pin_at (log_dev s) (pins s) s (lh_block (log_lh s) m) j" using tx_readyD(8) [OF assms(1,4)] by blast
  then have "caches (bufs s) (log_dev s) (lh_block (log_lh s) m) j" "caches (bufs t) (log_dev s) (lh_block (log_lh s) m) j"
    using assms(2) by (metis pin_at_def)+
  then show ?thesis using assms(3) inuseD(2) [OF tx_readyD(1) [OF assms(1)]] unfolding uniq_def by blast
qed

definition can_log :: "'a logst_scheme \<Rightarrow> bool" where
  "can_log s \<longleftrightarrow> tx_ready s \<and> lh_n (log_lh s) < log_size s - 1 \<and> 1 \<le> log_outstanding s"

lemma can_logD:
  assumes "can_log s"
  shows "tx_ready s" "lh_n (log_lh s) = int (logged s)" "int (logged s) < log_size s - 1" "1 \<le> log_outstanding s"
proof -
  show t: "tx_ready s" and "1 \<le> log_outstanding s" using assms by (simp_all add: can_log_def)
  show "lh_n (log_lh s) = int (logged s)" using tx_readyD(3) [OF t] .
  then show "int (logged s) < log_size s - 1" using assms unfolding can_log_def by linarith
qed

text \<open>A buffer that holds block \<open>n\<close>, with the transaction as it was before.\<close>

definition editing :: "'a logst_scheme \<Rightarrow> u32 \<Rightarrow> nat \<Rightarrow> 'a logst_scheme \<Rightarrow> bool" where
  "editing s n b t \<longleftrightarrow> inuse (log_dev s) (pins s) {b} t \<and> b_blockno (bufs t b) = n \<and>
     pin_at (log_dev s) (pins s) t = pin_at (log_dev s) (pins s) s \<and>
     (\<forall>j. pin_at (log_dev s) (pins s) s n j \<longrightarrow> j = b) \<and> disk t = disk s \<and> dwrites t = dwrites s \<and> bframe s t"

lemma tx_bread:
  assumes "tx_ready s"
  shows "\<exists>b t. bread (log_dev s) n s = Ok (b, t) \<and> b_data (bufs t b) = bview (log_dev s) s n \<and> editing s n b t \<and>
    bview (log_dev s) t = bview (log_dev s) s \<and>
    (pins s b = 0 \<longrightarrow> bview (log_dev s) s n = disk s n)"
  using bc.bread [OF tx_readyD(1) [OF assms], of n] tx_readyD(2) [OF assms] unfolding editing_def by auto

lemma editing_set_data:
  assumes "editing s n b t"
  shows "editing s n b (set_data b d t)" "bview (log_dev s) (set_data b d t) = (bview (log_dev s) t)(n := d)"
    "b_data (bufs (set_data b d t) b) = d"
proof -
  have "inuse (log_dev s) (pins s) {b} t" using assms by (simp add: editing_def)
  note l = bc.setd [OF this singletonI, of d]
  show "editing s n b (set_data b d t)" "bview (log_dev s) (set_data b d t) = (bview (log_dev s) t)(n := d)"
    "b_data (bufs (set_data b d t) b) = d"
    using assms l bframe_trans by (auto simp: editing_def)
qed

text \<open>After \<^verbatim>\<open>log_write\<close>, a buffer of the extended transaction.\<close>

definition add_block :: "u32 \<Rightarrow> logheader \<Rightarrow> logheader" where
  "add_block n lh = (if n \<in> lh_block lh ` {..<nat (lh_n lh)} then lh
     else \<lparr>lh_n = lh_n lh + 1, lh_block = (lh_block lh)(nat (lh_n lh) := n)\<rparr>)"

lemma add_block_fields:
  assumes "lh_n lh = int k"
  shows "lh_block (add_block n lh) ` {..<nat (lh_n (add_block n lh))} = insert n (lh_block lh ` {..<k})"
    "inj_on (lh_block lh) {..<k} \<Longrightarrow> inj_on (lh_block (add_block n lh)) {..<nat (lh_n (add_block n lh))}"
    "0 \<le> lh_n (add_block n lh)" "lh_n (add_block n lh) \<le> int k + 1"
    "P n \<Longrightarrow> (\<forall>m<k. P (lh_block lh m)) \<Longrightarrow> \<forall>m<nat (lh_n (add_block n lh)). P (lh_block (add_block n lh) m)"
proof -
  have "nat (int k + 1) = Suc k" by simp
  note s = this assms
  have img: "((lh_block lh)(k := n)) ` {..<Suc k} = insert n (lh_block lh ` {..<k})"
    by (auto simp: lessThan_Suc image_iff)
  show "lh_block (add_block n lh) ` {..<nat (lh_n (add_block n lh))} = insert n (lh_block lh ` {..<k})"
    using img by (auto simp: add_block_def s)
  have "inj_on ((lh_block lh)(k := n)) {..<Suc k}" if "inj_on (lh_block lh) {..<k}" "n \<notin> lh_block lh ` {..<k}"
    using that by (auto simp: lessThan_Suc inj_on_def image_iff)
  then show "inj_on (lh_block lh) {..<k} \<Longrightarrow> inj_on (lh_block (add_block n lh)) {..<nat (lh_n (add_block n lh))}"
    by (auto simp: add_block_def s)
  show "0 \<le> lh_n (add_block n lh)" "lh_n (add_block n lh) \<le> int k + 1" by (auto simp: add_block_def s)
  show "P n \<Longrightarrow> (\<forall>m<k. P (lh_block lh m)) \<Longrightarrow> \<forall>m<nat (lh_n (add_block n lh)). P (lh_block (add_block n lh) m)"
    by (auto simp: add_block_def s less_Suc_eq)
qed

lemma tx_extend:
  assumes "can_log s" "\<not> in_log (log_start s) (log_size s) n"
    and "log_dev v = log_dev s" "log_start v = log_start s" "log_size v = log_size s" "log_lh v = add_block n (log_lh s)"
    and "inuse (log_dev s) (pins v) {} v" "disk v = disk s" "\<And>k. k \<noteq> n \<Longrightarrow> bview (log_dev s) v k = bview (log_dev s) s k"
    and "\<exists>i. caches (bufs v) (log_dev s) n i"
    and "\<And>m i. m < logged s \<Longrightarrow> caches (bufs v) (log_dev s) (lh_block (log_lh s) m) i \<longleftrightarrow>
           caches (bufs s) (log_dev s) (lh_block (log_lh s) m) i"
  shows "tx_ready v"
proof -
  note c = can_logD [OF assms(1)]
  note r = tx_readyD [OF c(1)] and a = add_block_fields [OF c(2)]
  have "\<forall>m<logged s. (\<exists>i. caches (bufs v) (log_dev s) (lh_block (log_lh s) m) i) \<and>
      \<not> in_log (log_start s) (log_size s) (lh_block (log_lh s) m)"
    using assms(11) c(1) by (auto simp: tx_ready_def)
  then have "\<forall>m<logged v. (\<exists>i. caches (bufs v) (log_dev s) (lh_block (log_lh v) m) i) \<and>
      \<not> in_log (log_start s) (log_size s) (lh_block (log_lh v) m)"
    unfolding assms(6) using assms(2,10)
    by (intro a(5) [of "\<lambda>x. (\<exists>i. caches (bufs v) (log_dev s) x i) \<and> \<not> in_log (log_start s) (log_size s) x"]) auto
  moreover have "bview (log_dev s) v k = disk s k"
    if "\<not> in_log (log_start s) (log_size s) k" "k \<notin> lh_block (log_lh v) ` {..<logged v}" for k
    using that assms(9) [of k] r(10) [of k] unfolding assms(6) a(1) by simp
  ultimately show ?thesis
    unfolding tx_ready_def assms(3-5,8) LOGSIZE_def MAXOPBLOCKS_def
    using assms(7) r(6,11,12) a(2) [OF r(7), of n] a(3,4) [of n] c(3) by (simp add: assms(6))
qed

lemma tx_log_write:
  assumes "can_log s" "\<not> in_log (log_start s) (log_size s) n" "editing s n b t"
    and "\<And>k. k \<noteq> n \<Longrightarrow> bview (log_dev s) t k = bview (log_dev s) s k"
  shows "\<exists>u v. log_write b t = Ok u \<and> brelse b u = Ok v \<and> tx_ready v \<and> log_lh v = add_block n (log_lh s) \<and>
    bview (log_dev s) v = bview (log_dev s) t \<and> disk v = disk s \<and> dwrites v = dwrites s \<and>
    bframe (s\<lparr>log_lh := log_lh v\<rparr>) v"
proof -
  let ?d = "log_dev s" and ?B = "lh_block (log_lh s)" and ?rc = "pins s"
  note tx = can_logD(1) [OF assms(1)] and room = can_logD(3,4) [OF assms(1)]
  note r = tx_readyD [OF tx]
  have e: "inuse ?d ?rc {b} t" "b_blockno (bufs t b) = n" "pin_at ?d ?rc t = pin_at ?d ?rc s"
    "\<And>j. pin_at ?d ?rc s n j \<Longrightarrow> j = b" "disk t = disk s" "dwrites t = dwrites s" "bframe s t"
    using assms(3) by (auto simp: editing_def)
  note k = bframe_log [OF e(7)]
  have uq: "uniq ?d (bufs t)" using inuseD(2) [OF e(1)] .
  note cl = caches_logged [OF tx e(3) uq]
  have cb: "caches (bufs t) ?d n b" using inuse_locked(8) [OF e(1), of b] e(2) by simp
  have pb: "?rc b \<noteq> 0 \<longleftrightarrow> n \<in> ?B ` {..<logged s}"
  proof
    assume "?rc b \<noteq> 0"
    then obtain m where m: "m < logged s" "caches (bufs s) ?d (?B m) b" by (auto simp: pins_def split: if_splits)
    then have "caches (bufs t) ?d (?B m) b" using cl by simp
    then show "n \<in> ?B ` {..<logged s}" using m(1) cb by (auto simp: caches_def)
  next
    assume "n \<in> ?B ` {..<logged s}"
    then obtain j where "pin_at ?d ?rc s n j" using r(8) by blast
    then show "?rc b \<noteq> 0" using e(4) bc.pin_at_rc by blast
  qed
  have pre: "held t = []" "lh_n (log_lh t) = int (logged t)" "int (logged t) < LOGSIZE" "int (logged t) < log_size t - 1"
    "1 \<le> log_outstanding t" using inuseD(1) [OF e(1)] r(3,12) room k by (auto simp: LOGSIZE_def MAXOPBLOCKS_def)
  define lh where "lh = add_block n (log_lh s)"
  define rc' where "rc' = ?rc(b := 1)"
  have "\<exists>u. log_write b t = Ok u \<and> inuse ?d rc' {b} u \<and> same_content (bufs t) (bufs u) \<and> bview ?d u = bview ?d t \<and>
      disk u = disk t \<and> dwrites u = dwrites t \<and> bframe (t\<lparr>log_lh := lh\<rparr>) u \<and> log_lh u = lh"
  proof (cases "n \<in> ?B ` {..<logged s}")
    case True
    then have "rc' = ?rc" using pb by (auto simp: rc'_def pins_def fun_eq_iff split: if_splits)
    moreover have "log_write b t = Ok t" using log_write_absorbs [OF pre, of b] True e(2) k(4) by simp
    moreover have "lh = log_lh t" using True k(4) by (simp add: lh_def add_block_def)
    ultimately show ?thesis using e(1) by (intro exI [of _ t]) (auto simp: same_content_refl bframe_refl)
  next
    case False
    let ?u = "(upd_buf b (\<lambda>x. x\<lparr>b_refcnt := 1 + 1\<rparr>) t)\<lparr>log_lh := lh\<rparr>"
    have "b_refcnt (bufs t b) = 1" using inuse_locked(5) [OF e(1), of b] pb False by simp
    then have "upd_buf b (\<lambda>x. x\<lparr>b_refcnt := b_refcnt x + 1\<rparr>) t = upd_buf b (\<lambda>x. x\<lparr>b_refcnt := 1 + 1\<rparr>) t"
      by (intro upd_buf_cong) simp
    moreover have "lh = \<lparr>lh_n = int (Suc (logged t)), lh_block = (lh_block (log_lh t))(logged t := n)\<rparr>"
      using False k(4) r(3) by (simp add: lh_def add_block_def)
    ultimately have "log_write b t = Ok ?u" using log_write_new [OF pre, of b] False e(2) k(4) by simp
    moreover note refcnt_law [OF e(1) singletonI, of 1]
    moreover have "bframe (t\<lparr>log_lh := lh\<rparr>) ?u" by (intro bframe_log_upd bframe_intros)
    ultimately show ?thesis
      by (intro exI [of _ ?u]) (simp add: rc'_def upd_buf_slock same_content_def, simp add: upd_buf_def)
  qed
  then obtain u where u: "log_write b t = Ok u" "inuse ?d rc' {b} u" "same_content (bufs t) (bufs u)"
    "bview ?d u = bview ?d t" "disk u = disk t" "dwrites u = dwrites t" "bframe (t\<lparr>log_lh := lh\<rparr>) u" "log_lh u = lh" by blast
  obtain v where v: "brelse b u = Ok v" "inuse ?d rc' {} v" "same_content (bufs u) (bufs v)" "bview ?d v = bview ?d u"
    "disk v = disk u" "dwrites v = dwrites u" "bframe u v" using brelse_law [OF u(2), of b] by (auto simp: rc'_def)
  have fr: "bframe (s\<lparr>log_lh := lh\<rparr>) v" using bframe_log_upd [OF e(7)] u(7) v(7) bframe_trans by blast
  note kv = bframe_log [OF fr]
  have cv: "caches (bufs v) ?d m i = caches (bufs t) ?d m i" for m i
    using u(3) v(3) by (simp add: same_content_def caches_def)
  have "pins v = rc'"
  proof
    fix i
    have "(\<exists>m<logged v. caches (bufs v) ?d (lh_block (log_lh v) m) i) \<longleftrightarrow> (\<exists>x \<in> lh_block lh ` {..<nat (lh_n lh)}. caches (bufs t) ?d x i)"
      using kv(4) cv by auto
    also have "\<dots> \<longleftrightarrow> caches (bufs t) ?d n i \<or> (\<exists>m<logged s. caches (bufs s) ?d (?B m) i)"
      unfolding lh_def add_block_fields(1) [OF r(3)] using cl by auto
    also have "caches (bufs t) ?d n i \<longleftrightarrow> i = b" using cb uq by (auto simp: uniq_def)
    finally show "pins v i = rc' i" using kv(1) by (auto simp: pins_def rc'_def)
  qed
  then have "tx_ready v"
    using assms(2,4) kv v u e cb cl by (intro tx_extend [OF assms(1,2)]) (auto simp: lh_def cv)
  then show ?thesis using u v e fr kv(4) by (intro exI [of _ u] exI [of _ v]) (simp add: lh_def)
qed

lemma tx_update:
  assumes "can_log s" "\<not> in_log (log_start s) (log_size s) n"
  shows "\<exists>b t u v. bread (log_dev s) n s = Ok (b, t) \<and> b_data (bufs t b) = bview (log_dev s) s n \<and> bframe s t \<and>
    log_write b (set_data b d t) = Ok u \<and> brelse b u = Ok v \<and> tx_ready v \<and>
    bview (log_dev s) v = (bview (log_dev s) s)(n := d) \<and> disk v = disk s \<and> dwrites v = dwrites s \<and>
    log_lh v = add_block n (log_lh s) \<and> bframe (s\<lparr>log_lh := log_lh v\<rparr>) v"
proof -
  obtain b t where t: "bread (log_dev s) n s = Ok (b, t)" "b_data (bufs t b) = bview (log_dev s) s n" "editing s n b t"
    "bview (log_dev s) t = bview (log_dev s) s" using tx_bread [OF can_logD(1) [OF assms(1)]] by blast
  note e = editing_set_data [OF t(3), of d]
  obtain u v where "log_write b (set_data b d t) = Ok u" "brelse b u = Ok v" "tx_ready v" "log_lh v = add_block n (log_lh s)"
    "bview (log_dev s) v = bview (log_dev s) (set_data b d t)" "disk v = disk s" "dwrites v = dwrites s"
    "bframe (s\<lparr>log_lh := log_lh v\<rparr>) v"
    using tx_log_write [OF assms e(1)] e(2) t(4) by auto
  then show ?thesis using t e(2) unfolding editing_def by auto
qed

section \<open>An example\<close>

definition blank :: logst where
  "blank = \<lparr>held = [], mem = (\<lambda>_. 0), freelist = 0, kend = 0x80026018,
     proc = (\<lambda>_. \<lparr>p_state = UNUSED, p_parent = None, p_chan = Chan_none, p_killed = 0, p_xstate = 0, p_pid = 0,
       p_kstack = 0, p_sz = 0, p_pagetable = 0, p_trapframe = 0,
       p_context = \<lparr>ctx_ra = 0, ctx_sp = 0, ctx_s = (\<lambda>_. 0)\<rparr>, p_ofile = (\<lambda>_. None), p_cwd = None, p_name = (\<lambda>_. 0)\<rparr>),
     curproc = Some 0, initproc = None, nextpid = 1, forkret_addr = 0, trampoline_addr = 0, klocal = (\<lambda>_. 0),
     slocks = (\<lambda>_. \<lparr>sl_locked = 0, sl_name = [], sl_pid = 0\<rparr>),
     bufs = (\<lambda>_. \<lparr>b_valid = False, b_disk = False, b_dev = 0, b_blockno = 0, b_refcnt = 0, b_prev = 0, b_next = 0, b_data = (\<lambda>_. 0)\<rparr>),
     disk = (\<lambda>_ _. 0), dwrites = [],
     log_start = 2, log_size = 30, log_outstanding = 1, log_committing = False, log_dev = 1,
     log_lh = \<lparr>lh_n = 0, lh_block = (\<lambda>_. 0)\<rparr>\<rparr>"

lemma le_join_zero: "le_join (map (\<lambda>_. 0) xs) = 0"
  by (induction xs) auto

lemma get_n_zero: "get_n (\<lambda>_. 0) = 0"
  by (simp add: get_n_def get_le_def le_join_zero)

lemma blank_booted: "booted blank"
  by (simp add: booted_def blank_def)

lemma blank_fields:
  "bframe blank (binit blank)" "log_dev (binit blank) = 1" "log_start (binit blank) = 2" "log_size (binit blank) = 30"
  "log_lh (binit blank) = \<lparr>lh_n = 0, lh_block = (\<lambda>_. 0)\<rparr>" "log_outstanding (binit blank) = 1"
  "inuse 1 (\<lambda>_. 0) {} (binit blank)" "bview 1 (binit blank) = disk (binit blank)" "disk (binit blank) = (\<lambda>_ _. 0)"
proof -
  have b: "inuse 1 (\<lambda>_. 0) {} (binit blank) \<and> bview 1 (binit blank) = disk blank \<and> disk (binit blank) = disk blank \<and>
    dwrites (binit blank) = dwrites blank \<and> bframe blank (binit blank)"
    by (rule binit_inuse) (simp_all add: blank_def)
  then show f: "bframe blank (binit blank)" by blast
  show "log_dev (binit blank) = 1" "log_start (binit blank) = 2" "log_size (binit blank) = 30"
    "log_lh (binit blank) = \<lparr>lh_n = 0, lh_block = (\<lambda>_. 0)\<rparr>" "log_outstanding (binit blank) = 1"
    unfolding bframe_log [OF f] by (simp_all add: blank_def)
  show "inuse 1 (\<lambda>_. 0) {} (binit blank)" "bview 1 (binit blank) = disk (binit blank)" using b by simp_all
  show "disk (binit blank) = (\<lambda>_ _. 0)" using b by (simp add: blank_def)
qed

lemma blank_can_log: "can_log (binit blank)"
proof -
  have "pins (binit blank) = (\<lambda>_. 0)" by (simp add: pins_def blank_fields)
  then show ?thesis
    unfolding can_log_def tx_ready_def using blank_fields(7,8) by (simp add: blank_fields(2-6,9) get_n_zero LOGSIZE_def MAXOPBLOCKS_def)
qed

lemma home_50: "\<not> in_log 2 30 50"
  by (simp add: in_log_def)

section \<open>Properties\<close>

text \<open>
  C2: inside a transaction that has room, reading a block outside the log with \<^verbatim>\<open>bread\<close>, changing the buffer,
  \<^verbatim>\<open>log_write\<close> and \<^verbatim>\<open>brelse\<close> never panic or block. They change the contents of exactly this block, leave the
  disk alone, record the block in the log header once, and keep the invariant that \<^verbatim>\<open>commit\<close> relies on:
  every block that differs from the disk is logged, and every logged block is pinned in the cache.
\<close>

theorem transaction_update:
  assumes "can_log s" "\<not> in_log (log_start s) (log_size s) n"
  shows "\<exists>b t u v. bread (log_dev s) n s = Ok (b, t) \<and> b_data (bufs t b) = bview (log_dev s) s n \<and>
    log_write b (set_data b d t) = Ok u \<and> brelse b u = Ok v \<and> tx_ready v \<and>
    bview (log_dev s) v = (bview (log_dev s) s)(n := d) \<and> disk v = disk s \<and> log_lh v = add_block n (log_lh s)"
  using tx_update [OF assms, of d] by blast

theorem transaction_update_witness:
  "\<exists>b t u v. bread 1 50 (binit blank) = Ok (b, t) \<and> b_data (bufs t b) = (\<lambda>_. 0) \<and>
    log_write b (set_data b (\<lambda>_. 7) t) = Ok u \<and> brelse b u = Ok v \<and> tx_ready v \<and> bview 1 v 50 = (\<lambda>_. 7) \<and> bview 1 v 51 = (\<lambda>_. 0)"
proof -
  have "\<not> in_log (log_start (binit blank)) (log_size (binit blank)) 50" by (simp add: blank_fields home_50)
  from transaction_update [OF blank_can_log this, of "\<lambda>_. 7"] show ?thesis
    unfolding blank_fields(2,8,9) by fastforce
qed

text \<open>
  C3: \<^verbatim>\<open>commit\<close> returns, with every block outside the log on the disk as the cache showed it, the cache showing
  the same contents, the log empty, nothing pinned, and the invariant kept. The thirty buffers are
  enough for the largest transaction that fits a log of thirty blocks.
\<close>

theorem commit_installs:
  assumes "tx_ready s"
  shows "\<exists>t. commit s = Ok t \<and> tx_ready t \<and> lh_n (log_lh t) = 0 \<and>
    (\<forall>n. \<not> in_log (log_start s) (log_size s) n \<longrightarrow>
       disk t n = bview (log_dev s) s n \<and> bview (log_dev s) t n = bview (log_dev s) s n)"
proof (cases "0 < logged s")
  case False
  then have "lh_n (log_lh s) = 0" "commit s = Ok s" using tx_readyD(3) [OF assms] by (auto simp: commit_def)
  then show ?thesis using assms False tx_readyD(10) [OF assms] by auto
next
  case True
  let ?lh = "(log_lh s)\<lparr>lh_n := 0\<rparr>"
  obtain t where t: "commit s = Ok t" "inuse (log_dev s) (\<lambda>_. 0) {} t" "bview (log_dev s) t = apply_writes (commit_writes s) (bview (log_dev s) s)"
    "disk t = apply_writes (commit_writes s) (disk s)" "bframe (s\<lparr>log_lh := ?lh\<rparr>) t"
    using commit_law [OF assms True] by blast
  note k = bframe_log [OF t(5)] and d = crash_done [OF assms True t(4)] and r = tx_readyD [OF assms]
  have v: "\<not> in_log (log_start s) (log_size s) n \<Longrightarrow> bview (log_dev s) t n = bview (log_dev s) s n" for n
  proof -
    assume n: "\<not> in_log (log_start s) (log_size s) n"
    have "n \<noteq> log_start s" "n \<notin> fst ` set (log_writes s)"
      using n tx_logblk(1) [OF assms] tx_logblk(3) [OF assms True] by (auto simp: log_writes_def)
    then show ?thesis unfolding t(3) commit_writes_def by (simp add: install_at apply_writes_notin)
  qed
  have "pins t = (\<lambda>_. 0)" using k(4) by (simp add: pins_def)
  then have "tx_ready t" unfolding tx_ready_def
    using v t(2) k d(3,4) r(11,12) tx_sizes(1) [OF assms] by (simp add: LOGSIZE_def MAXOPBLOCKS_def)
  then show ?thesis using t(1) k(4) d(4) v by (intro exI [of _ t]) simp
qed

lemma one_block_transaction:
  "\<exists>s :: logst. tx_ready s \<and> lh_n (log_lh s) = 1 \<and> log_dev s = 1 \<and> log_start s = 2 \<and> log_size s = 30 \<and>
     bview 1 s 50 = (\<lambda>_. 7) \<and> disk s 50 = (\<lambda>_. 0)"
proof -
  have "\<not> in_log (log_start (binit blank)) (log_size (binit blank)) 50" by (simp add: blank_fields home_50)
  from tx_update [OF blank_can_log this, of "\<lambda>_. 7"] obtain v where v: "tx_ready v"
    "bview 1 v = (bview 1 (binit blank))(50 := (\<lambda>_. 7))" "disk v = disk (binit blank)"
    "log_lh v = add_block 50 (log_lh (binit blank))" "bframe ((binit blank)\<lparr>log_lh := log_lh v\<rparr>) v"
    unfolding blank_fields(2) by blast
  then show ?thesis using bframe_log [OF v(5)] by (intro exI [of _ v]) (simp add: blank_fields add_block_def)
qed

theorem commit_installs_witness:
  "\<exists>(s :: logst) t. lh_n (log_lh s) = 1 \<and> disk s 50 = (\<lambda>_. 0) \<and> commit s = Ok t \<and> tx_ready t \<and> lh_n (log_lh t) = 0 \<and> disk t 50 = (\<lambda>_. 7)"
proof -
  obtain s :: logst where s: "tx_ready s" "lh_n (log_lh s) = 1" "log_dev s = 1" "log_start s = 2" "log_size s = 30"
    "bview 1 s 50 = (\<lambda>_. 7)" "disk s 50 = (\<lambda>_. 0)" using one_block_transaction by blast
  from commit_installs [OF s(1)] show ?thesis using s home_50 by metis
qed

text \<open>
  C1: a transaction is atomic under crashes. Let the machine stop at any moment of \<^verbatim>\<open>commit\<close>, so that
  the disk is what the first \<open>k\<close> of its block writes left, and let it boot with an empty cache:
  \<^verbatim>\<open>binit\<close> and \<^verbatim>\<open>initlog\<close> return, and outside the log the disk then holds either everything as before the
  transaction or everything the transaction wrote.
\<close>

theorem commit_crash_atomic:
  assumes "tx_ready s" "0 < lh_n (log_lh s)" "commit s = Ok t" "dwrites t = dwrites s @ ws"
    and "booted r" "disk r = apply_writes (take k ws) (disk s)"
  shows "\<exists>r'. initlog (log_dev s) (log_start s) (word_of_int (log_size s)) (binit r) = Ok r' \<and>
    ((\<forall>n. \<not> in_log (log_start s) (log_size s) n \<longrightarrow> disk r' n = disk s n) \<or>
     (\<forall>n. \<not> in_log (log_start s) (log_size s) n \<longrightarrow> disk r' n = bview (log_dev s) s n))"
proof -
  have n: "0 < logged s" using assms(2) by simp
  have "ws = commit_writes s" using commit_law [OF assms(1) n] assms(3,4) by auto
  then have d: "disk r = apply_writes (take k (commit_writes s)) (disk s)" using assms(6) by simp
  note c = crash_cases [OF assms(1) n d]
  then obtain r' bl where r': "initlog (log_dev s) (log_start s) (word_of_int (log_size s)) (binit r) = Ok r'"
    "disk r' = (recovered (log_start s) (disk r))(log_start s := header 0 bl (disk r (log_start s)))"
    using initlog_law [OF assms(5) tx_readyD(11) [OF assms(1)]] by blast
  have "in_log (log_start s) (log_size s) (log_start s)" using tx_logblk(3) [OF assms(1) n] .
  then have "\<not> in_log (log_start s) (log_size s) m \<Longrightarrow> disk r' m = recovered (log_start s) (disk r) m" for m
    using r'(2) by auto
  then show ?thesis using c r'(1) by auto
qed

theorem commit_crash_atomic_witness:
  "\<exists>(s :: logst) t ws (r :: logst) r'. commit s = Ok t \<and> dwrites t = dwrites s @ ws \<and> disk r = apply_writes (take 2 ws) (disk s) \<and>
     initlog 1 2 30 (binit r) = Ok r' \<and> disk s 50 = (\<lambda>_. 0) \<and> bview 1 s 50 = (\<lambda>_. 7) \<and>
     (disk r' 50 = (\<lambda>_. 0) \<or> disk r' 50 = (\<lambda>_. 7))"
proof -
  obtain s :: logst where s: "tx_ready s" "lh_n (log_lh s) = 1" "log_dev s = 1" "log_start s = 2" "log_size s = 30"
    "bview 1 s 50 = (\<lambda>_. 7)" "disk s 50 = (\<lambda>_. 0)" using one_block_transaction by blast
  have n: "0 < lh_n (log_lh s)" "0 < logged s" using s(2) by simp_all
  obtain t where t: "commit s = Ok t" "dwrites t = dwrites s @ commit_writes s" using commit_law [OF s(1) n(2)] by blast
  define r where "r = blank\<lparr>disk := apply_writes (take 2 (commit_writes s)) (disk s)\<rparr>"
  have r: "booted r" "disk r = apply_writes (take 2 (commit_writes s)) (disk s)"
    using blank_booted by (simp_all add: r_def booted_def)
  have "(word_of_int 30 :: u32) = 30" by simp
  then have "\<exists>r'. initlog 1 2 30 (binit r) = Ok r' \<and>
    ((\<forall>n. \<not> in_log 2 30 n \<longrightarrow> disk r' n = disk s n) \<or> (\<forall>n. \<not> in_log 2 30 n \<longrightarrow> disk r' n = bview 1 s n))"
    using commit_crash_atomic [OF s(1) n(1) t r] unfolding s(3-5) by metis
  then show ?thesis using t r s home_50 by metis
qed

text \<open>
  C4: recovery can be interrupted. Take a disk with a log whose header counts at most \<open>LOGSIZE\<close> blocks, all in the log, with
  homes outside it. If the machine stops at any moment of \<^verbatim>\<open>initlog\<close>, after any number of its block writes, and boots
  once more, the second recovery returns and leaves every block outside the log as the first would have.
\<close>

theorem recovery_restartable:
  assumes "booted r" "dev \<noteq> 0" "log_ok start sz (disk r)"
    and "initlog dev start (word_of_int sz) (binit r) = Ok t" "dwrites t = dwrites r @ ws"
    and "booted q" "disk q = apply_writes (take j ws) (disk r)"
  shows "\<exists>u. initlog dev start (word_of_int sz) (binit q) = Ok u \<and>
    (\<forall>n. \<not> in_log start sz n \<longrightarrow> disk u n = disk t n)"
proof -
  let ?hw = "home_writes start (disk r)"
  obtain bl where t: "dwrites t = dwrites r @ ?hw @ [(start, header 0 bl (disk r start))]"
    "disk t = (recovered start (disk r))(start := header 0 bl (disk r start))"
    using initlog_law [OF assms(1-3)] assms(4) by auto
  have ws: "ws = ?hw @ [(start, header 0 bl (disk r start))]" using t(1) assms(5) by simp
  have start: "in_log start sz start" using assms(3) by (simp add: log_ok_def in_log_def)
  have "log_ok start sz (disk q) \<and> (\<forall>n. \<not> in_log start sz n \<longrightarrow> recovered start (disk q) n = recovered start (disk r) n)"
  proof (cases "j \<le> length ?hw")
    case True
    then have "disk q = apply_writes (take j ?hw) (disk r)" by (simp add: assms(7) ws)
    from recovered_again [OF assms(3) this] show ?thesis by simp
  next
    case False
    then have q: "disk q = (recovered start (disk r))(start := header 0 bl (disk r start))"
      by (simp add: assms(7) ws recovered_def)
    then have "get_n (disk q start) = 0" using header_fields(1) [of 0] by simp
    then show ?thesis using q start assms(3) by (auto simp: recovered_empty log_ok_def LOGSIZE_30)
  qed
  moreover obtain u bl' where "initlog dev start (word_of_int sz) (binit q) = Ok u"
    "disk u = (recovered start (disk q))(start := header 0 bl' (disk q start))"
    using initlog_law [OF assms(6,2)] calculation by blast
  ultimately show ?thesis using t(2) start by (intro exI [of _ u]) auto
qed

text \<open>
  A disk with a committed transaction that was not installed: the log from block 2 on holds the new contents of
  the blocks 50 and 51.
\<close>

definition crashed_disk :: "u32 \<Rightarrow> cstr" where
  "crashed_disk = (\<lambda>_ _. 0)(2 := header 2 (\<lambda>t. 50 + of_nat t) (\<lambda>_. 0), 3 := (\<lambda>_. 7), 4 := (\<lambda>_. 8))"

lemma crashed_disk_log:
  "get_n (crashed_disk 2) = 2" "home_writes 2 crashed_disk = [(50, \<lambda>_. 7), (51, \<lambda>_. 8)]" "log_ok 2 30 crashed_disk"
proof -
  show n: "get_n (crashed_disk 2) = 2" using header_fields(1) [of 2] by (simp add: crashed_disk_def)
  have b: "get_block (crashed_disk 2) t = 50 + of_nat t" if "t < 2" for t
    using header_fields(2) [OF that] by (simp add: crashed_disk_def)
  have two: "[0..<nat 2] = [0, 1]" by (simp add: upt_rec)
  show "home_writes 2 crashed_disk = [(50, \<lambda>_. 7), (51, \<lambda>_. 8)]"
    unfolding home_writes_def n two by (simp add: b) (simp add: crashed_disk_def)
  have "\<not> in_log 2 30 (50 + of_nat t)" if "t < 2" for t
    using that by (auto simp: in_log_def less_2_cases_iff)
  then show "log_ok 2 30 crashed_disk" using n b by (simp add: log_ok_def LOGSIZE_30)
qed

theorem recovery_restartable_witness:
  "\<exists>(r :: logst) t ws (q :: logst) u. get_n (disk r 2) = 2 \<and> disk r 50 = (\<lambda>_. 0) \<and> disk r 51 = (\<lambda>_. 0) \<and>
     initlog 1 2 30 (binit r) = Ok t \<and> dwrites t = dwrites r @ ws \<and> disk q = apply_writes (take 1 ws) (disk r) \<and>
     disk q 50 = (\<lambda>_. 7) \<and> disk q 51 = (\<lambda>_. 0) \<and>
     initlog 1 2 30 (binit q) = Ok u \<and> disk u 50 = (\<lambda>_. 7) \<and> disk u 51 = (\<lambda>_. 8)"
proof -
  define r where "r = blank\<lparr>disk := crashed_disk\<rparr>"
  define q where "q = blank\<lparr>disk := apply_writes [(50, \<lambda>_. 7)] crashed_disk\<rparr>"
  have b: "booted r" "booted q" using blank_booted by (simp_all add: r_def q_def booted_def)
  have w: "(word_of_int 30 :: u32) = 30" "(1 :: u32) \<noteq> 0" by simp_all
  have ok: "log_ok 2 30 (disk r)" using crashed_disk_log(3) by (simp add: r_def)
  obtain t bl where t: "initlog 1 2 (word_of_int 30) (binit r) = Ok t"
    "dwrites t = dwrites r @ [(50, \<lambda>_. 7), (51, \<lambda>_. 8), (2, header 0 bl (crashed_disk 2))]"
    "disk t = (recovered 2 crashed_disk)(2 := header 0 bl (crashed_disk 2))"
    using initlog_law [OF b(1) w(2) ok] crashed_disk_log(2) by (auto simp: r_def)
  have d: "disk t 50 = (\<lambda>_. 7)" "disk t 51 = (\<lambda>_. 8)" by (simp_all add: t(3) recovered_def crashed_disk_log(2))
  have q: "disk q = apply_writes (take 1 [(50, \<lambda>_. 7), (51, \<lambda>_. 8), (2, header 0 bl (crashed_disk 2))]) (disk r)"
    by (simp add: q_def r_def)
  obtain u where "initlog 1 2 (word_of_int 30) (binit q) = Ok u" "\<forall>n. \<not> in_log 2 30 n \<longrightarrow> disk u n = disk t n"
    using recovery_restartable [OF b(1) w(2) ok t(1,2) b(2) q] by blast
  moreover have "\<not> in_log 2 30 50" "\<not> in_log 2 30 51" by (simp_all add: in_log_def)
  moreover have "disk r = crashed_disk" "crashed_disk 50 = (\<lambda>_. 0)" "crashed_disk 51 = (\<lambda>_. 0)"
    "disk q 50 = (\<lambda>_. 7)" "disk q 51 = (\<lambda>_. 0)" by (simp_all add: r_def q_def crashed_disk_def)
  ultimately show ?thesis
    using t(1,2) d q crashed_disk_log(1) unfolding w(1)
    by (intro exI [of _ r] exI [of _ t] exI [of _ "[(50, \<lambda>_. 7), (51, \<lambda>_. 8), (2, header 0 bl (crashed_disk 2))]"] exI [of _ q] exI [of _ u]) simp
qed

end
