(* ===== verification/Fs_Alloc.thy ===== *)
theory Fs_Alloc
  imports Fs Log_Props
begin

text \<open>
  The block allocator of \<^verbatim>\<open>kernel/fs.c\<close> on the transactions of the log: \<^verbatim>\<open>balloc\<close> and \<^verbatim>\<open>bfree\<close> as operations on
  the set of blocks in use, which the bitmap on the disk stands for.
\<close>

section \<open>Reading inside a transaction\<close>

lemma bframe_fs:
  assumes "bframe s t"
  shows "sb t = sb s" "inodes t = inodes s"
proof -
  let ?u = "s\<lparr>proc := proc t, slocks := slocks t, bufs := bufs t, disk := disk t, dwrites := dwrites t\<rparr>"
  have "t = ?u" using assms by (simp add: bframe_def)
  show "sb t = sb s" "inodes t = inodes s" by (subst \<open>t = ?u\<close>, simp)+
qed

lemma tx_read:
  assumes "tx_ready s"
  shows "\<exists>b t u. bread (log_dev s) n s = Ok (b, t) \<and> b_data (bufs t b) = bview (log_dev s) s n \<and> bframe s t \<and>
    brelse b t = Ok u \<and> tx_ready u \<and> bview (log_dev s) u = bview (log_dev s) s \<and> disk u = disk s \<and> bframe s u"
proof -
  note r = tx_readyD [OF assms]
  obtain b t u where u: "bread (log_dev s) n s = Ok (b, t)" "b_data (bufs t b) = bview (log_dev s) s n" "brelse b t = Ok u" "bframe s t"
    "inuse (log_dev s) (pins s) {} u" "bview (log_dev s) u = bview (log_dev s) s" "disk u = disk s" "bframe s u"
    "pin_at (log_dev s) (pins s) u = pin_at (log_dev s) (pins s) s"
    using bc.read_back [OF r(1), of n] r(2) by auto
  note k = bframe_log [OF u(8)]
  note cl = caches_logged [OF assms u(9) inuseD(2) [OF u(5)]]
  have "pins u = pins s" unfolding pins_def k by (simp add: cl cong: conj_cong)
  moreover have "\<forall>m < logged s. \<exists>i. caches (bufs u) (log_dev s) (lh_block (log_lh s) m) i"
    using cl assms by (simp add: tx_ready_def)
  ultimately have "tx_ready u" using assms u(5-7) unfolding tx_ready_def k by auto
  then show ?thesis using u by blast
qed

section \<open>The bitmap\<close>

lemma bit_of_iff: "bit_of d i \<noteq> 0 \<longleftrightarrow> bit (d (i div 8)) (i mod 8)"
  by (simp add: bit_of_def push_bit_eq_mult and_exp_eq_0_iff_not_bit)

lemma bit_of_set: "bit_of (set_bit_of d i) j \<noteq> 0 \<longleftrightarrow> bit_of d j \<noteq> 0 \<or> j = i"
proof -
  have "j = i \<longleftrightarrow> j div 8 = i div 8 \<and> j mod 8 = i mod 8" by (metis div_mult_mod_eq)
  moreover have "i mod 8 < 8" by simp
  ultimately show ?thesis
    unfolding bit_of_iff set_bit_of_def by (auto simp: bit_or_iff bit_exp_iff)
qed

lemma bit_of_clear: "bit_of (clear_bit_of d i) j \<noteq> 0 \<longleftrightarrow> bit_of d j \<noteq> 0 \<and> j \<noteq> i"
proof -
  have "j = i \<longleftrightarrow> j div 8 = i div 8 \<and> j mod 8 = i mod 8" by (metis div_mult_mod_eq)
  moreover have "j mod 8 < 8" by simp
  ultimately show ?thesis
    unfolding bit_of_iff clear_bit_of_def by (auto simp: bit_and_iff bit_not_iff bit_exp_iff)
qed

lemma balloc_scan_find: "balloc_scan d i k = find (\<lambda>j. bit_of d j = 0) [i..<i + k]"
  by (induction k arbitrary: i) (simp_all add: find_upt_step del: add_Suc_right)

lemma find_append_case: "find P (xs @ ys) = (case find P xs of None \<Rightarrow> find P ys | Some x \<Rightarrow> Some x)"
  by (induction xs) auto

lemma find_map_option: "find P (map f xs) = map_option f (find (\<lambda>x. P (f x)) xs)"
  by (induction xs) auto

lemma find_shift: "find P [b..<b + m] = map_option (\<lambda>i. b + i) (find (\<lambda>i. P (b + i)) [0..<m])"
proof -
  have "[b..<b + m] = map (\<lambda>i. b + i) [0..<m]" by (simp add: map_add_upt add.commute)
  then show ?thesis by (simp add: find_map_option)
qed

lemma BBLOCK_of_nat:
  assumes "k < 2 ^ 32"
  shows "BBLOCK (of_nat k) sbk = of_nat (k div BPB) + sb_bmapstart sbk"
proof -
  have "k div BPB < 2 ^ 32" using assms by (simp add: BPB_def BSIZE_def)
  then have "unat ((of_nat k :: u32) div of_nat BPB) = unat (of_nat (k div BPB) :: u32)"
    using assms by (simp add: unat_div_distrib unat_of_nat) (simp add: BPB_def BSIZE_def)
  then have "(of_nat k :: u32) div of_nat BPB = of_nat (k div BPB)" by (simp only: word_unat_eq_iff)
  then show ?thesis by (simp add: BBLOCK_def)
qed

lemma BBLOCK_eq_iff:
  assumes "j < 2 ^ 32" "k < 2 ^ 32"
  shows "BBLOCK (of_nat j) sbk = BBLOCK (of_nat k) sbk \<longleftrightarrow> j div BPB = k div BPB"
proof -
  have "j div BPB < 2 ^ 32" "k div BPB < 2 ^ 32" using assms by (simp_all add: BPB_def BSIZE_def)
  then have "(of_nat (j div BPB) :: u32) = of_nat (k div BPB) \<longleftrightarrow> j div BPB = k div BPB" by (simp add: of_nat_inverse word_unat_eq_iff unat_of_nat)
  then show ?thesis using assms by (simp add: BBLOCK_of_nat)
qed

definition bm_used :: "'a fsst_scheme \<Rightarrow> nat \<Rightarrow> bool" where
  "bm_used s k \<longleftrightarrow> bit_of (bview (log_dev s) s (BBLOCK (of_nat k) (sb s))) (k mod BPB) \<noteq> 0"

text \<open>
  The layout that \<^verbatim>\<open>mkfs\<close> gives the disk: the bitmap is outside the log, and no block that is free belongs to
  the log or to the bitmap.
\<close>

definition bitmap_ok :: "'a fsst_scheme \<Rightarrow> bool" where
  "bitmap_ok s \<longleftrightarrow> (\<forall>k < unat (sb_size (sb s)). \<not> in_log (log_start s) (log_size s) (BBLOCK (of_nat k) (sb s)) \<and>
     (\<not> bm_used s k \<longrightarrow> \<not> in_log (log_start s) (log_size s) (of_nat k) \<and>
        (\<forall>j < unat (sb_size (sb s)). BBLOCK (of_nat j) (sb s) \<noteq> of_nat k)))"

lemma size_lt: "k < unat (sb_size (sb s)) \<Longrightarrow> k < 2 ^ 32"
  using unsigned_less [of "sb_size (sb s)", where 'a = nat] by simp

text \<open>One block of the bitmap, looked through.\<close>

lemma balloc_scan_used:
  assumes "b mod BPB = 0" "m \<le> BPB" "b + m \<le> unat (sb_size (sb s))"
  shows "map_option (\<lambda>i. b + i) (balloc_scan (bview (log_dev s) s (BBLOCK (of_nat b) (sb s))) 0 m) =
    find (\<lambda>k. \<not> bm_used s k) [b..<b + m]"
proof -
  have "\<not> bm_used s (b + i) \<longleftrightarrow> bit_of (bview (log_dev s) s (BBLOCK (of_nat b) (sb s))) i = 0" if "i < m" for i
  proof -
    have i: "b + i < 2 ^ 32" "b < 2 ^ 32" using that assms(3) size_lt [of "b + i" s] by simp_all
    have "i < BPB" using that assms(2) by simp
    then have "(b + i) mod BPB = i" "(b + i) div BPB = b div BPB" using assms(1) by (auto simp: div_add1_eq mod_add_eq [symmetric])
    moreover from this have "BBLOCK (of_nat (b + i)) (sb s) = BBLOCK (of_nat b) (sb s)" using BBLOCK_eq_iff [OF i] by blast
    ultimately show ?thesis unfolding bm_used_def by simp
  qed
  then show ?thesis unfolding find_shift [of _ b] balloc_scan_find add_0
    by (intro arg_cong [of _ _ "map_option _"] find_cong) auto
qed

definition zero_block :: "cstr \<Rightarrow> cstr" where
  "zero_block d = (\<lambda>i. if i < BSIZE then 0 else d i)"

text \<open>What \<^verbatim>\<open>balloc\<close> does to the contents of the blocks when it takes block \<open>k\<close>.\<close>

definition taken :: "superblock \<Rightarrow> nat \<Rightarrow> (u32 \<Rightarrow> cstr) \<Rightarrow> u32 \<Rightarrow> cstr" where
  "taken sbk k v = (let v = v(BBLOCK (of_nat k) sbk := set_bit_of (v (BBLOCK (of_nat k) sbk)) (k mod BPB)) in
     v(of_nat k := zero_block (v (of_nat k))))"

definition can_log2 :: "'a logst_scheme \<Rightarrow> bool" where
  "can_log2 s \<longleftrightarrow> tx_ready s \<and> 1 \<le> log_outstanding s \<and> lh_n (log_lh s) + 2 < log_size s"

lemma add_block_n: "lh_n (add_block n lh) \<le> lh_n lh + 1"
  by (simp add: add_block_def)

lemma bzero_law:
  assumes "can_log s" "\<not> in_log (log_start s) (log_size s) n"
  shows "\<exists>t. bzero (log_dev s) n s = Ok t \<and> tx_ready t \<and>
    bview (log_dev s) t = (bview (log_dev s) s)(n := zero_block (bview (log_dev s) s n)) \<and> disk t = disk s \<and> bframe (s\<lparr>log_lh := log_lh t\<rparr>) t"
proof -
  obtain b t u v where "bread (log_dev s) n s = Ok (b, t)" "b_data (bufs t b) = bview (log_dev s) s n"
    "log_write b (set_data b (zero_block (bview (log_dev s) s n)) t) = Ok u" "brelse b u = Ok v" "tx_ready v"
    "bview (log_dev s) v = (bview (log_dev s) s)(n := zero_block (bview (log_dev s) s n))" "disk v = disk s"
    "bframe (s\<lparr>log_lh := log_lh v\<rparr>) v" using tx_update [OF assms, of "zero_block (bview (log_dev s) s n)"] by blast
  then show ?thesis unfolding bzero_def zero_block_def [symmetric] by (intro exI [of _ v]) simp
qed

lemma balloc_found:
  assumes "can_log2 s" "k = b + i" "b mod BPB = 0" "i < BPB" "k < unat (sb_size (sb s))"
    and "\<not> in_log (log_start s) (log_size s) (BBLOCK (of_nat k) (sb s))" "\<not> in_log (log_start s) (log_size s) (of_nat k)"
    and "balloc_scan (bview (log_dev s) s (BBLOCK (of_nat b) (sb s))) 0 (min BPB (unat (sb_size (sb s)) - b)) = Some i"
  shows "\<exists>t. balloc_loop (log_dev s) (unat (sb_size (sb s))) b s = Ok (of_nat k, t) \<and> tx_ready t \<and>
    bview (log_dev s) t = taken (sb s) k (bview (log_dev s) s) \<and> bframe (s\<lparr>log_lh := log_lh t\<rparr>) t"
proof -
  let ?B = "BBLOCK (of_nat b) (sb s)" let ?v = "bview (log_dev s) s"
  have "b < 2 ^ 32" "k < 2 ^ 32" using size_lt [OF assms(5)] assms(2) by simp_all
  moreover have k: "k div BPB = b div BPB" "k mod BPB = i"
    using assms(2-4) by (auto simp: div_add1_eq mod_add_eq [symmetric])
  ultimately have B: "BBLOCK (of_nat k) (sb s) = ?B" using BBLOCK_eq_iff by blast
  have cl: "can_log s" using assms(1) by (simp add: can_log2_def can_log_def)
  have nl: "\<not> in_log (log_start s) (log_size s) ?B" using assms(6) B by simp
  obtain p t u v where u: "bread (log_dev s) ?B s = Ok (p, t)" "b_data (bufs t p) = ?v ?B"
    "log_write p (set_data p (set_bit_of (?v ?B) i) t) = Ok u" "brelse p u = Ok v" "tx_ready v"
    "bview (log_dev s) v = ?v(?B := set_bit_of (?v ?B) i)" "log_lh v = add_block ?B (log_lh s)"
    "bframe (s\<lparr>log_lh := log_lh v\<rparr>) v" using tx_update [OF cl nl, of "set_bit_of (?v ?B) i"] by blast
  note f = bframe_log [OF u(8)]
  have cv: "can_log v" using u(5) assms(1) f u(7) add_block_n [of ?B "log_lh s"] by (auto simp: can_log2_def can_log_def)
  have "\<not> in_log (log_start v) (log_size v) (of_nat k)" using assms(7) f by simp
  from bzero_law [OF cv this] f obtain w where w: "bzero (log_dev s) (of_nat k) v = Ok w" "tx_ready w"
    "bview (log_dev s) w = (bview (log_dev s) v)(of_nat k := zero_block (bview (log_dev s) v (of_nat k)))"
    "bframe (v\<lparr>log_lh := log_lh w\<rparr>) w" by auto
  have "bframe (s\<lparr>log_lh := log_lh w\<rparr>) (v\<lparr>log_lh := log_lh w\<rparr>)" using bframe_log_upd [OF u(8), of "log_lh w"] by simp
  then have "bframe (s\<lparr>log_lh := log_lh w\<rparr>) w" using w(4) bframe_trans by blast
  moreover have "balloc_loop (log_dev s) (unat (sb_size (sb s))) b s = Ok (of_nat k, w)"
    using assms(2,5,8) u(1-4) w(1) by (subst balloc_loop.simps) (simp add: Let_def)
  moreover have "bview (log_dev s) w = taken (sb s) k ?v" using w(3) u(6) by (simp add: taken_def B k Let_def)
  ultimately show ?thesis using w(2) by blast
qed

lemma balloc_loop_law:
  assumes "can_log2 s" "bitmap_ok s" "b mod BPB = 0"
  shows "case find (\<lambda>k. \<not> bm_used s k) [b..<unat (sb_size (sb s))] of
      None \<Rightarrow> balloc_loop (log_dev s) (unat (sb_size (sb s))) b s = Panic ''balloc: out of blocks''
    | Some k \<Rightarrow> \<exists>t. balloc_loop (log_dev s) (unat (sb_size (sb s))) b s = Ok (of_nat k, t) \<and> tx_ready t \<and>
        bview (log_dev s) t = taken (sb s) k (bview (log_dev s) s) \<and> sb t = sb s \<and> log_dev t = log_dev s \<and>
        log_start t = log_start s \<and> log_size t = log_size s \<and> log_outstanding t = log_outstanding s"
  using assms
proof (induction "unat (sb_size (sb s)) - b" arbitrary: b s rule: less_induct)
  case less
  let ?sz = "unat (sb_size (sb s))" let ?m = "min BPB (?sz - b)" let ?P = "\<lambda>k. \<not> bm_used s k"
  show ?case
  proof (cases "b < ?sz")
    case False
    then show ?thesis by (subst balloc_loop.simps) simp
  next
    case True
    let ?scan = "balloc_scan (bview (log_dev s) s (BBLOCK (of_nat b) (sb s))) 0 ?m"
    have sc: "map_option (\<lambda>i. b + i) ?scan = find ?P [b..<b + ?m]" using less.prems(3) True by (intro balloc_scan_used) auto
    have split: "[b..<?sz] = [b..<b + ?m] @ [b + ?m..<?sz]" using True upt_add_eq_append [of b "b + ?m" "?sz - (b + ?m)"] by simp
    show ?thesis
    proof (cases ?scan)
      case (Some i)
      then have fd: "find ?P [b..<b + ?m] = Some (b + i)" using sc by simp
      then have k: "b + i < b + ?m" "\<not> bm_used s (b + i)" by (auto simp: find_Some_iff)
      then have "i < BPB" "b + i < ?sz" by linarith+
      moreover from this have "\<not> in_log (log_start s) (log_size s) (BBLOCK (of_nat (b + i)) (sb s))" "\<not> in_log (log_start s) (log_size s) (of_nat (b + i))"
        using less.prems(2) k(2) unfolding bitmap_ok_def by blast+
      ultimately obtain t where "balloc_loop (log_dev s) ?sz b s = Ok (of_nat (b + i), t)" "tx_ready t"
        "bview (log_dev s) t = taken (sb s) (b + i) (bview (log_dev s) s)" "bframe (s\<lparr>log_lh := log_lh t\<rparr>) t"
        using balloc_found [OF less.prems(1) refl less.prems(3) _ _ _ _ Some] by blast
      moreover note bframe_log [OF this(4)] bframe_fs [OF this(4)]
      ultimately show ?thesis unfolding split find_append_case fd by simp
    next
      case None
      then have fd: "find ?P [b..<b + ?m] = None" using sc by simp
      obtain p t u where u: "bread (log_dev s) (BBLOCK (of_nat b) (sb s)) s = Ok (p, t)"
        "b_data (bufs t p) = bview (log_dev s) s (BBLOCK (of_nat b) (sb s))" "brelse p t = Ok u" "tx_ready u"
        "bview (log_dev s) u = bview (log_dev s) s" "bframe s u"
        using tx_read less.prems(1) unfolding can_log2_def by blast
      note f = bframe_log [OF u(6)] bframe_fs(1) [OF u(6)]
      have used: "bm_used u = bm_used s" by (auto simp: fun_eq_iff bm_used_def f u(5))
      then have "bitmap_ok u" "can_log2 u" using less.prems(1,2) u(4) f by (simp_all add: bitmap_ok_def can_log2_def)
      moreover have "unat (sb_size (sb u)) - (b + BPB) < ?sz - b" using True f(7) by (simp add: BPB_def BSIZE_def)
      moreover have "(b + BPB) mod BPB = 0" using less.prems(3) by simp
      ultimately have IH: "case find (\<lambda>k. \<not> bm_used u k) [b + BPB..<unat (sb_size (sb u))] of
            None \<Rightarrow> balloc_loop (log_dev u) (unat (sb_size (sb u))) (b + BPB) u = Panic ''balloc: out of blocks''
          | Some k \<Rightarrow> \<exists>t. balloc_loop (log_dev u) (unat (sb_size (sb u))) (b + BPB) u = Ok (of_nat k, t) \<and> tx_ready t \<and>
              bview (log_dev u) t = taken (sb u) k (bview (log_dev u) u) \<and> sb t = sb u \<and> log_dev t = log_dev u \<and>
              log_start t = log_start u \<and> log_size t = log_size u \<and> log_outstanding t = log_outstanding u"
        by (intro less.hyps)
      have step: "balloc_loop (log_dev s) ?sz b s = balloc_loop (log_dev s) ?sz (b + BPB) u"
        using True None u(1-3) by (subst balloc_loop.simps) simp
      have "[b + ?m..<?sz] = [b + BPB..<?sz]" by (cases "BPB \<le> ?sz - b") auto
      then show ?thesis using IH unfolding split find_append_case fd used f u(5) step by simp
    qed
  qed
qed

section \<open>An example\<close>

text \<open>A file system of 48 blocks, the bitmap in block 45, of which the blocks 0 to 45 are in use.\<close>

definition small_disk :: "u32 \<Rightarrow> cstr" where
  "small_disk n i = (if n = 45 then if i < 5 then 255 else if i = 5 then 63 else 0 else if n < 46 then 0 else 9)"

definition small_sb :: superblock where
  "small_sb = undefined\<lparr>sb_size := 48, sb_nlog := 30, sb_logstart := 2, sb_bmapstart := 45\<rparr>"

text \<open>A system that has just started on a disk, inside its first transaction.\<close>

definition fresh_fs :: "(u32 \<Rightarrow> cstr) \<Rightarrow> superblock \<Rightarrow> fsst" where
  "fresh_fs d x = undefined\<lparr>held := [], bufs := (\<lambda>_. undefined\<lparr>b_valid := False, b_dev := 0, b_refcnt := 0\<rparr>), disk := d,
     log_start := sb_logstart x, log_size := sint (sb_nlog x), log_outstanding := 1, log_dev := 1,
     log_lh := \<lparr>lh_n = 0, lh_block = (\<lambda>_. 0)\<rparr>, sb := x\<rparr>"

lemma fresh_fs_fields:
  "log_dev (binit (fresh_fs d x)) = 1" "log_start (binit (fresh_fs d x)) = sb_logstart x" "log_size (binit (fresh_fs d x)) = sint (sb_nlog x)"
  "log_outstanding (binit (fresh_fs d x)) = 1" "log_lh (binit (fresh_fs d x)) = \<lparr>lh_n = 0, lh_block = (\<lambda>_. 0)\<rparr>"
  "sb (binit (fresh_fs d x)) = x" "inuse 1 (\<lambda>_. 0) {} (binit (fresh_fs d x))"
  "bview 1 (binit (fresh_fs d x)) = d" "disk (binit (fresh_fs d x)) = d"
proof -
  have b: "inuse 1 (\<lambda>_. 0) {} (binit (fresh_fs d x)) \<and> bview 1 (binit (fresh_fs d x)) = disk (fresh_fs d x) \<and>
    disk (binit (fresh_fs d x)) = disk (fresh_fs d x) \<and> dwrites (binit (fresh_fs d x)) = dwrites (fresh_fs d x) \<and>
    bframe (fresh_fs d x) (binit (fresh_fs d x))"
    by (rule binit_inuse) (simp_all add: fresh_fs_def)
  then have f: "bframe (fresh_fs d x) (binit (fresh_fs d x))" by blast
  show "log_dev (binit (fresh_fs d x)) = 1" "log_start (binit (fresh_fs d x)) = sb_logstart x" "log_size (binit (fresh_fs d x)) = sint (sb_nlog x)"
    "log_outstanding (binit (fresh_fs d x)) = 1" "log_lh (binit (fresh_fs d x)) = \<lparr>lh_n = 0, lh_block = (\<lambda>_. 0)\<rparr>" "sb (binit (fresh_fs d x)) = x"
    unfolding bframe_log [OF f] bframe_fs [OF f] by (simp_all add: fresh_fs_def)
  show "inuse 1 (\<lambda>_. 0) {} (binit (fresh_fs d x))" "bview 1 (binit (fresh_fs d x)) = d" "disk (binit (fresh_fs d x)) = d"
    using b by (simp_all add: fresh_fs_def)
qed

abbreviation small_fs :: fsst where
  "small_fs \<equiv> fresh_fs small_disk small_sb"

lemma small_sb_fields: "sb_size small_sb = 48" "sint (sb_nlog small_sb) = 30" "sb_logstart small_sb = 2" "sb_bmapstart small_sb = 45"
  by (simp_all add: small_sb_def)

lemmas small_fs_fields = fresh_fs_fields [of small_disk small_sb] small_sb_fields

lemma small_fs_ready: "tx_ready (binit small_fs)"
proof -
  have "pins (binit small_fs) = (\<lambda>_. 0)" by (simp add: pins_def small_fs_fields)
  moreover have "get_n (small_disk 2) = 0" by (simp add: get_n_def get_le_def le_join_zero small_disk_def [abs_def])
  ultimately show ?thesis unfolding tx_ready_def
    using small_fs_fields(7) by (simp add: small_fs_fields LOGSIZE_def MAXOPBLOCKS_def)
qed

lemma small_fs_used: "k < 48 \<Longrightarrow> bm_used (binit small_fs) k \<longleftrightarrow> k < 46"
proof -
  assume k: "k < 48"
  have m: "(255 :: byte) = mask 8" "(63 :: byte) = mask 6" by (simp_all add: mask_eq_exp_minus_1)
  have B: "BBLOCK (of_nat k) small_sb = 45" using k by (simp add: BBLOCK_of_nat BPB_def BSIZE_def small_sb_fields)
  have "k mod BPB = k" using k by (simp add: BPB_def BSIZE_def)
  then have "bm_used (binit small_fs) k \<longleftrightarrow> k div 8 < 5 \<and> k mod 8 < 8 \<or> k div 8 = 5 \<and> k mod 8 < 6"
    unfolding bm_used_def small_fs_fields B bit_of_iff by (auto simp: small_disk_def m bit_mask_iff)
  also have "\<dots> \<longleftrightarrow> k < 46" using k by presburger
  finally show ?thesis .
qed

lemma small_fs_bitmap: "bitmap_ok (binit small_fs)"
proof -
  have B: "BBLOCK (of_nat k) small_sb = 45" if "k < 48" for k
    using that by (simp add: BBLOCK_of_nat BPB_def BSIZE_def small_sb_fields)
  have "\<not> in_log 2 30 (of_nat k) \<and> of_nat k \<noteq> (45 :: u32)" if "k < 48" "\<not> bm_used (binit small_fs) k" for k :: nat
  proof -
    have "k = 46 \<or> k = 47" using that small_fs_used by auto
    then show ?thesis by (auto simp: in_log_def)
  qed
  moreover have "\<not> in_log 2 30 45" by (simp add: in_log_def)
  ultimately show ?thesis unfolding bitmap_ok_def small_fs_fields by (auto simp: B)
qed

section \<open>Properties\<close>

lemma taken_used:
  assumes "bview (log_dev s) t = taken (sb s) k (bview (log_dev s) s)" "sb t = sb s" "log_dev t = log_dev s"
    and "j < unat (sb_size (sb s))" "k < unat (sb_size (sb s))" "BBLOCK (of_nat j) (sb s) \<noteq> of_nat k"
  shows "bm_used t j \<longleftrightarrow> bm_used s j \<or> j = k"
proof (cases "j div BPB = k div BPB")
  case True
  then have B: "BBLOCK (of_nat k) (sb s) = BBLOCK (of_nat j) (sb s)" using BBLOCK_eq_iff [OF size_lt size_lt] assms(4,5) by metis
  have "j = k \<longleftrightarrow> j mod BPB = k mod BPB" using True by (metis div_mult_mod_eq)
  then show ?thesis using assms(6) by (auto simp: bm_used_def assms(1-3) taken_def Let_def B bit_of_set)
next
  case False
  then have "BBLOCK (of_nat j) (sb s) \<noteq> BBLOCK (of_nat k) (sb s)" using BBLOCK_eq_iff [OF size_lt size_lt] assms(4,5) by metis
  then show ?thesis using False assms(6) by (auto simp: bm_used_def assms(1-3) taken_def Let_def)
qed

text \<open>
  C5: inside a transaction with room for two more blocks \<^verbatim>\<open>balloc\<close> returns the first block that the bitmap has as
  free, marked as used and filled with zeros, and changes no other block; the invariants of the log
  and of the bitmap are kept. It panics only when every block is in use.
\<close>

theorem balloc_allocates:
  assumes "can_log2 s" "bitmap_ok s"
  shows "case find (\<lambda>k. \<not> bm_used s k) [0..<unat (sb_size (sb s))] of
      None \<Rightarrow> balloc (log_dev s) s = Panic ''balloc: out of blocks''
    | Some k \<Rightarrow> \<exists>t. balloc (log_dev s) s = Ok (of_nat k, t) \<and> tx_ready t \<and> bitmap_ok t \<and> sb t = sb s \<and>
        (\<forall>j < unat (sb_size (sb s)). bm_used t j \<longleftrightarrow> bm_used s j \<or> j = k) \<and>
        (\<forall>i < BSIZE. bview (log_dev s) t (of_nat k) i = 0) \<and>
        (\<forall>n. n \<noteq> of_nat k \<longrightarrow> n \<noteq> BBLOCK (of_nat k) (sb s) \<longrightarrow> bview (log_dev s) t n = bview (log_dev s) s n)"
proof (cases "find (\<lambda>k. \<not> bm_used s k) [0..<unat (sb_size (sb s))]")
  case None
  then show ?thesis using balloc_loop_law [OF assms, of 0] by (simp add: balloc_def)
next
  case (Some k)
  let ?sz = "unat (sb_size (sb s))"
  obtain t where t: "balloc (log_dev s) s = Ok (of_nat k, t)" "tx_ready t" "bview (log_dev s) t = taken (sb s) k (bview (log_dev s) s)"
    "sb t = sb s" "log_dev t = log_dev s" "log_start t = log_start s" "log_size t = log_size s"
    using balloc_loop_law [OF assms, of 0] Some by (auto simp: balloc_def)
  have k: "k < ?sz" "\<not> bm_used s k" using Some by (auto simp: find_Some_iff)
  then have nb: "\<forall>j < ?sz. BBLOCK (of_nat j) (sb s) \<noteq> of_nat k" using assms(2) unfolding bitmap_ok_def by blast
  then have used: "\<forall>j < ?sz. bm_used t j \<longleftrightarrow> bm_used s j \<or> j = k" using taken_used [OF t(3-5) _ k(1)] by blast
  have "bitmap_ok t" using assms(2) used unfolding bitmap_ok_def t(4-7) by blast
  moreover have "\<forall>i < BSIZE. bview (log_dev s) t (of_nat k) i = 0" by (simp add: t(3) taken_def Let_def zero_block_def)
  moreover have "\<forall>n. n \<noteq> of_nat k \<longrightarrow> n \<noteq> BBLOCK (of_nat k) (sb s) \<longrightarrow> bview (log_dev s) t n = bview (log_dev s) s n"
    by (simp add: t(3) taken_def Let_def)
  ultimately show ?thesis using Some t used by simp
qed

theorem balloc_allocates_witness:
  "\<exists>t. balloc 1 (binit small_fs) = Ok (46, t) \<and> bm_used t 46 \<and> \<not> bm_used t 47 \<and> bview 1 (binit small_fs) 46 = (\<lambda>_. 9) \<and> bview 1 t 46 0 = 0"
proof -
  have "find (\<lambda>k. \<not> bm_used (binit small_fs) k) [0..<48] = Some 46"
    unfolding find_Some_iff by (intro exI [of _ 46]) (auto simp: small_fs_used)
  moreover have "can_log2 (binit small_fs)" using small_fs_ready by (simp add: can_log2_def small_fs_fields)
  ultimately obtain t where "balloc 1 (binit small_fs) = Ok (of_nat 46, t)" "\<forall>j < 48. bm_used t j \<longleftrightarrow> bm_used (binit small_fs) j \<or> j = 46"
    "\<forall>i < BSIZE. bview 1 t (of_nat 46) i = 0"
    using balloc_allocates [OF _ small_fs_bitmap] by (auto simp: small_fs_fields)
  moreover have "small_disk 46 = (\<lambda>_. 9)" by (auto simp: small_disk_def)
  ultimately show ?thesis using small_fs_used [of 47] by (intro exI [of _ t]) (simp add: small_fs_fields BSIZE_def)
qed

text \<open>
  C21: inside a transaction \<^verbatim>\<open>bfree\<close> of a data block in use clears its bit in the bitmap and nothing else, so that the set of
  used blocks loses exactly this block; freeing a block that is free already panics.
\<close>

theorem bfree_releases:
  assumes "can_log s" "bitmap_ok s" "k < unat (sb_size (sb s))"
    and "\<not> in_log (log_start s) (log_size s) (of_nat k)" "\<forall>j < unat (sb_size (sb s)). BBLOCK (of_nat j) (sb s) \<noteq> of_nat k"
  shows "if bm_used s k then \<exists>t. bfree (log_dev s) (of_nat k) s = Ok t \<and> tx_ready t \<and> bitmap_ok t \<and> sb t = sb s \<and>
        (\<forall>j < unat (sb_size (sb s)). bm_used t j \<longleftrightarrow> bm_used s j \<and> j \<noteq> k) \<and>
        (\<forall>n. n \<noteq> BBLOCK (of_nat k) (sb s) \<longrightarrow> bview (log_dev s) t n = bview (log_dev s) s n)
    else bfree (log_dev s) (of_nat k) s = Panic ''freeing free block''"
proof -
  let ?B = "BBLOCK (of_nat k) (sb s)" let ?v = "bview (log_dev s) s" let ?sz = "unat (sb_size (sb s))"
  let ?d = "clear_bit_of (?v ?B) (k mod BPB)"
  have nl: "\<not> in_log (log_start s) (log_size s) ?B" using assms(2,3) by (simp add: bitmap_ok_def)
  have uk: "unat (of_nat k :: u32) = k" using size_lt [OF assms(3)] by (simp add: unat_of_nat)
  obtain p t u v where u: "bread (log_dev s) ?B s = Ok (p, t)" "b_data (bufs t p) = ?v ?B"
    "log_write p (set_data p ?d t) = Ok u" "brelse p u = Ok v" "tx_ready v" "bview (log_dev s) v = ?v(?B := ?d)"
    "bframe (s\<lparr>log_lh := log_lh v\<rparr>) v" using tx_update [OF assms(1) nl, of ?d] by blast
  note f = bframe_log [OF u(7), simplified] bframe_fs [OF u(7), simplified]
  have "bm_used v j \<longleftrightarrow> bm_used s j \<and> j \<noteq> k" if "j < ?sz" for j
  proof -
    have "BBLOCK (of_nat j) (sb s) = ?B \<longleftrightarrow> j div BPB = k div BPB" using BBLOCK_eq_iff [OF size_lt size_lt] that assms(3) by blast
    moreover have "j = k \<longleftrightarrow> j div BPB = k div BPB \<and> j mod BPB = k mod BPB" by (metis div_mult_mod_eq)
    ultimately show ?thesis by (auto simp: bm_used_def f u(6) bit_of_clear)
  qed
  moreover from this have "bitmap_ok v" using assms(2-5) unfolding bitmap_ok_def f by blast
  ultimately show ?thesis using u f uk by (auto simp: bfree_def bm_used_def Let_def)
qed

theorem bfree_releases_witness:
  "(\<exists>t. bfree 1 40 (binit small_fs) = Ok t \<and> \<not> bm_used t 40 \<and> bm_used t 39) \<and> bfree 1 47 (binit small_fs) = Panic ''freeing free block''"
proof -
  have c: "can_log (binit small_fs)" using small_fs_ready by (simp add: can_log_def small_fs_fields)
  have n: "\<not> in_log 2 30 40" "\<not> in_log 2 30 47" by (simp_all add: in_log_def)
  have B: "BBLOCK (of_nat j) small_sb = 45" if "j < 48" for j
    using that by (simp add: BBLOCK_of_nat BPB_def BSIZE_def small_sb_fields)
  have "\<exists>t. bfree 1 40 (binit small_fs) = Ok t \<and> (\<forall>j < 48. bm_used t j \<longleftrightarrow> bm_used (binit small_fs) j \<and> j \<noteq> 40)"
    using bfree_releases [OF c small_fs_bitmap, of 40] small_fs_used [of 40] n(1) B by (auto simp: small_fs_fields)
  moreover have "bfree 1 47 (binit small_fs) = Panic ''freeing free block''"
    using bfree_releases [OF c small_fs_bitmap, of 47] small_fs_used [of 47] n(2) B by (auto simp: small_fs_fields)
  ultimately show ?thesis using small_fs_used [of 39] by auto
qed

end
