(* ===== verification/Mkfs.thy ===== *)
theory Mkfs
  imports Fs_Alloc
begin

text \<open>
  The image builder, \<^verbatim>\<open>mkfs/mkfs.c\<close>. The image is a file of blocks; calls on it succeed, except for a read behind the
  end of the file, at which the program exits. An assertion that fails is a panic. The files named on the
  command line are given as their names and what the successive calls of \<^verbatim>\<open>read\<close> give.
\<close>

section \<open>Layout\<close>

definition FSSIZE :: nat where "FSSIZE = 1000"
definition NINODES :: nat where "NINODES = 200"
definition nbitmap :: nat where "nbitmap = FSSIZE div (BSIZE * 8) + 1"
definition ninodeblocks :: nat where "ninodeblocks = NINODES div IPB + 1"
definition nlog :: nat where "nlog = nat LOGSIZE"
definition nmeta :: nat where "nmeta = 2 + nlog + ninodeblocks + nbitmap"
definition nblocks :: nat where "nblocks = FSSIZE - nmeta"

text \<open>Byte order: the bytes of the result, least significant first, are those of the argument.\<close>

definition xshort :: "u16 \<Rightarrow> u16" where
  "xshort x = (x AND 0xff) OR push_bit 8 (drop_bit 8 x AND 0xff)"

definition xint :: "u32 \<Rightarrow> u32" where
  "xint x = (x AND 0xff) OR push_bit 8 (drop_bit 8 x AND 0xff) OR push_bit 16 (drop_bit 16 x AND 0xff) OR push_bit 24 (drop_bit 24 x AND 0xff)"

definition mkfs_sb :: superblock where
  "mkfs_sb = \<lparr>sb_magic = FSMAGIC, sb_size = xint (of_nat FSSIZE), sb_nblocks = xint (of_nat nblocks), sb_ninodes = xint (of_nat NINODES),
     sb_nlog = xint (of_nat nlog), sb_logstart = xint 2, sb_inodestart = xint (of_nat (2 + nlog)),
     sb_bmapstart = xint (of_nat (2 + nlog + ninodeblocks))\<rparr>"

definition put_sb :: "superblock \<Rightarrow> cstr \<Rightarrow> cstr" where
  "put_sb x d =
     (let d = put_le 4 d 0 (sb_magic x); d = put_le 4 d 4 (sb_size x); d = put_le 4 d 8 (sb_nblocks x);
          d = put_le 4 d 12 (sb_ninodes x); d = put_le 4 d 16 (sb_nlog x); d = put_le 4 d 20 (sb_logstart x);
          d = put_le 4 d 24 (sb_inodestart x) in
      put_le 4 d 28 (sb_bmapstart x))"

section \<open>The image\<close>

record mkst =
  im_blocks :: "u32 \<Rightarrow> cstr"
  im_size :: nat
  freeinode :: u32
  freeblock :: u32

text \<open>The offset \<^verbatim>\<open>sec * BSIZE\<close> wraps around.\<close>

definition sect :: "u32 \<Rightarrow> u32" where
  "sect sec = (sec * of_nat BSIZE) div of_nat BSIZE"

definition wsect :: "u32 \<Rightarrow> cstr \<Rightarrow> mkst \<Rightarrow> mkst" where
  "wsect sec buf s = s\<lparr>im_blocks := (im_blocks s)(sect sec := (\<lambda>i. if i < BSIZE then buf i else 0)),
     im_size := max (im_size s) (Suc (unat (sect sec)))\<rparr>"

definition rsect :: "u32 \<Rightarrow> mkst \<Rightarrow> cstr outcome" where
  "rsect sec s = (if unat (sect sec) < im_size s then Ok (im_blocks s (sect sec)) else Panic ''read'')"

record dinode =
  d_type :: u16
  d_major :: u16
  d_minor :: u16
  d_nlink :: u16
  d_size :: u32
  d_addrs :: "nat \<Rightarrow> u32"

definition put_din :: "dinode \<Rightarrow> nat \<Rightarrow> cstr \<Rightarrow> cstr" where
  "put_din x off d =
     (let d = put_le 2 d off (d_type x);
          d = put_le 2 d (off + 2) (d_major x);
          d = put_le 2 d (off + 4) (d_minor x);
          d = put_le 2 d (off + 6) (d_nlink x);
          d = put_le 4 d (off + 8) (d_size x) in
      put_addrs (d_addrs x) off 0 (NDIRECT + 1) d)"

definition get_din :: "cstr \<Rightarrow> nat \<Rightarrow> dinode" where
  "get_din d off = \<lparr>d_type = get_le 2 d off, d_major = get_le 2 d (off + 2), d_minor = get_le 2 d (off + 4),
     d_nlink = get_le 2 d (off + 6), d_size = get_le 4 d (off + 8),
     d_addrs = (\<lambda>j. if j < NDIRECT + 1 then get_le 4 d (off + 12 + 4 * j) else 0)\<rparr>"

definition winode :: "u32 \<Rightarrow> dinode \<Rightarrow> mkst \<Rightarrow> mkst outcome" where
  "winode inum ip s =
     (let bn = IBLOCK inum mkfs_sb in
      rbind (rsect bn s) (\<lambda>buf. Ok (wsect bn (put_din ip (dinode_off inum) buf) s)))"

definition rinode :: "u32 \<Rightarrow> mkst \<Rightarrow> dinode outcome" where
  "rinode inum s =
     (let bn = IBLOCK inum mkfs_sb in
      rbind (rsect bn s) (\<lambda>buf. Ok (get_din buf (dinode_off inum))))"

definition mkfs_ialloc :: "u16 \<Rightarrow> mkst \<Rightarrow> (u32 \<times> mkst) outcome" where
  "mkfs_ialloc type s =
     (let inum = freeinode s;
          s = s\<lparr>freeinode := freeinode s + 1\<rparr>;
          din = \<lparr>d_type = xshort type, d_major = 0, d_minor = 0, d_nlink = xshort 1, d_size = xint 0, d_addrs = (\<lambda>_. 0)\<rparr> in
      rbind (winode inum din s) (\<lambda>s. Ok (inum, s)))"

fun mark_used :: "nat \<Rightarrow> nat \<Rightarrow> cstr \<Rightarrow> cstr" where
  "mark_used i 0 buf = buf"
| "mark_used i (Suc k) buf = mark_used (Suc i) k (set_bit_of buf i)"

definition mkfs_balloc :: "int \<Rightarrow> mkst \<Rightarrow> mkst outcome" where
  "mkfs_balloc used s =
     (if \<not> used < int (BSIZE * 8) then Panic ''assert''
      else Ok (wsect (sb_bmapstart mkfs_sb) (mark_used 0 (nat used) (\<lambda>_. 0)) s))"

section \<open>Appending to a file\<close>

definition bcopy :: "byte list \<Rightarrow> nat \<Rightarrow> cstr \<Rightarrow> cstr" where
  "bcopy xs p buf = (\<lambda>i. if p \<le> i \<and> i < p + length xs then xs ! (i - p) else buf i)"

text \<open>The block of the file with index \<open>fbn\<close>, allocated if there is none.\<close>

definition append_block :: "nat \<Rightarrow> dinode \<Rightarrow> mkst \<Rightarrow> (u32 \<times> dinode \<times> mkst) outcome" where
  "append_block fbn din s =
     (if fbn < NDIRECT then
        (let (din, s) = (if xint (d_addrs din fbn) = 0
                         then (din\<lparr>d_addrs := (d_addrs din)(fbn := xint (freeblock s))\<rparr>, s\<lparr>freeblock := freeblock s + 1\<rparr>)
                         else (din, s)) in
         Ok (xint (d_addrs din fbn), din, s))
      else
        (let (din, s) = (if xint (d_addrs din NDIRECT) = 0
                         then (din\<lparr>d_addrs := (d_addrs din)(NDIRECT := xint (freeblock s))\<rparr>, s\<lparr>freeblock := freeblock s + 1\<rparr>)
                         else (din, s)) in
         rbind (rsect (xint (d_addrs din NDIRECT)) s) (\<lambda>indirect.
         let j = 4 * (fbn - NDIRECT) in
         if (get_le 4 indirect j :: u32) = 0 then
           (let indirect = put_le 4 indirect j (xint (freeblock s));
                s = s\<lparr>freeblock := freeblock s + 1\<rparr>;
                s = wsect (xint (d_addrs din NDIRECT)) indirect s in
            Ok (xint (get_le 4 indirect j), din, s))
         else Ok (xint (get_le 4 indirect j), din, s))))"

text \<open>The offset stays below \<open>MAXFILE * BSIZE\<close> because of the assertion, so it does not wrap around.\<close>

function iappend_loop :: "dinode \<Rightarrow> nat \<Rightarrow> byte list \<Rightarrow> mkst \<Rightarrow> (dinode \<times> nat \<times> mkst) outcome" where
  "iappend_loop din off xs s =
     (if xs = [] then Ok (din, off, s)
      else
        (let fbn = off div BSIZE in
         if \<not> fbn < MAXFILE then Panic ''assert''
         else
           rbind (append_block fbn din s) (\<lambda>(x, din, s).
           let n1 = min (length xs) ((fbn + 1) * BSIZE - off) in
           rbind (rsect x s) (\<lambda>buf.
           iappend_loop din (off + n1) (drop n1 xs) (wsect x (bcopy (take n1 xs) (off - fbn * BSIZE) buf) s)))))"
  by pat_completeness auto
termination
proof (relation "measure (\<lambda>(din, off, xs, s). length xs)", goal_cases)
  case (2 din off xs s fbn)
  have "off < (off div BSIZE + 1) * BSIZE" using dividend_less_div_times [of BSIZE off] by (simp add: BSIZE_def)
  then show ?case using 2 by simp
qed simp

declare iappend_loop.simps [simp del]

definition iappend :: "u32 \<Rightarrow> byte list \<Rightarrow> mkst \<Rightarrow> mkst outcome" where
  "iappend inum xs s =
     rbind (rinode inum s) (\<lambda>din.
     let off = xint (d_size din) in
     rbind (iappend_loop din (unat off) xs s) (\<lambda>(din, off, s).
     let din = din\<lparr>d_size := xint (of_nat off)\<rparr> in
     winode inum din s))"

section \<open>The program\<close>

definition dirent :: "u16 \<Rightarrow> byte list \<Rightarrow> byte list" where
  "dirent inum nm = (let n = xshort inum; nm = take DIRSIZ nm in
     [ucast n, ucast (drop_bit 8 n)] @ nm @ replicate (DIRSIZ - length nm) 0)"

fun iappend_all :: "u32 \<Rightarrow> byte list list \<Rightarrow> mkst \<Rightarrow> mkst outcome" where
  "iappend_all inum [] s = Ok s"
| "iappend_all inum (c # cs) s = rbind (iappend inum c s) (\<lambda>s. iappend_all inum cs s)"

text \<open>The bytes of \<^verbatim>\<open>user/\<close>, of \<^verbatim>\<open>/\<close> and of \<^verbatim>\<open>_\<close>.\<close>

definition short_name :: "byte list \<Rightarrow> byte list" where
  "short_name nm = (if take 5 nm = [117, 115, 101, 114, 47] then drop 5 nm else nm)"

fun add_files :: "(byte list \<times> byte list list) list \<Rightarrow> u32 \<Rightarrow> mkst \<Rightarrow> mkst outcome" where
  "add_files [] rootino s = Ok s"
| "add_files ((nm, reads) # fs) rootino s =
     (let shortname = short_name nm in
      if 47 \<in> set shortname then Panic ''assert''
      else
        (let shortname = (if shortname \<noteq> [] \<and> hd shortname = 95 then tl shortname else shortname) in
         rbind (mkfs_ialloc T_FILE s) (\<lambda>(inum, s).
         rbind (iappend rootino (dirent (ucast inum) shortname) s) (\<lambda>s.
         rbind (iappend_all inum reads s) (\<lambda>s. add_files fs rootino s)))))"

fun zero_blocks :: "nat \<Rightarrow> nat \<Rightarrow> mkst \<Rightarrow> mkst" where
  "zero_blocks i 0 s = s"
| "zero_blocks i (Suc k) s = zero_blocks (Suc i) k (wsect (of_nat i) (\<lambda>_. 0) s)"

definition mkfs :: "(byte list \<times> byte list list) list \<Rightarrow> mkst outcome" where
  "mkfs files =
     (let s = \<lparr>im_blocks = (\<lambda>_ _. 0), im_size = 0, freeinode = 1, freeblock = of_nat nmeta\<rparr>;
          s = zero_blocks 0 FSSIZE s;
          s = wsect 1 (put_sb mkfs_sb (\<lambda>_. 0)) s in
      rbind (mkfs_ialloc T_DIR s) (\<lambda>(rootino, s).
      if rootino \<noteq> ROOTINO then Panic ''assert''
      else
        rbind (iappend rootino (dirent (ucast rootino) [46]) s) (\<lambda>s.
        rbind (iappend rootino (dirent (ucast rootino) [46, 46]) s) (\<lambda>s.
        rbind (add_files files rootino s) (\<lambda>s.
        rbind (rinode rootino s) (\<lambda>din.
        let off = xint (d_size din);
            off = (off div of_nat BSIZE + 1) * of_nat BSIZE;
            din = din\<lparr>d_size := xint off\<rparr> in
        rbind (winode rootino din s) (\<lambda>s.
        mkfs_balloc (sint (freeblock s)) s)))))))"

section \<open>The values of the layout\<close>

lemma layout_values: "nlog = 30" "ninodeblocks = 13" "nbitmap = 1" "nmeta = 46" "nblocks = 954"
  by (simp_all add: nmeta_def nlog_def ninodeblocks_def nbitmap_def nblocks_def FSSIZE_def NINODES_def LOGSIZE_def MAXOPBLOCKS_def
      IPB_def BSIZE_def)

lemma xint_id [simp]: "xint x = x"
proof -
  have m: "(0xff :: u32) = mask 8" by (simp add: mask_eq_exp_minus_1)
  show ?thesis unfolding xint_def m take_bit_eq_mask [symmetric]
  proof (rule bit_word_eqI)
    fix n assume "n < LENGTH(32)"
    then consider "n < 8" | "8 \<le> n" "n < 16" | "16 \<le> n" "n < 24" | "24 \<le> n" "n < 32" by force
    then show "bit (take_bit 8 x OR push_bit 8 (take_bit 8 (drop_bit 8 x)) OR push_bit 16 (take_bit 8 (drop_bit 16 x)) OR
        push_bit 24 (take_bit 8 (drop_bit 24 x))) n = bit x n"
      by cases (simp_all add: bit_or_iff bit_take_bit_iff bit_push_bit_iff bit_drop_bit_eq less_diff_conv2)
  qed
qed

lemma xshort_id [simp]: "xshort x = x"
proof -
  have m: "(0xff :: u16) = mask 8" by (simp add: mask_eq_exp_minus_1)
  show ?thesis unfolding xshort_def m take_bit_eq_mask [symmetric]
    by (intro bit_word_eqI) (auto simp: bit_or_iff bit_take_bit_iff bit_push_bit_iff bit_drop_bit_eq)
qed

lemma mkfs_sb_fields:
  "sb_size mkfs_sb = 1000" "sb_nlog mkfs_sb = 30" "sb_logstart mkfs_sb = 2" "sb_inodestart mkfs_sb = 32" "sb_bmapstart mkfs_sb = 45"
  "sb_magic mkfs_sb = FSMAGIC"
  by (simp_all add: mkfs_sb_def layout_values FSSIZE_def)

lemma get_sb_put_sb: "get_sb (put_sb x d) = x"
  by (cases x) (simp add: get_sb_def put_sb_def Let_def get_le_put_le get_le_put_le_other)

lemma sect_small:
  assumes "unat b < 2 ^ 22"
  shows "sect b = b"
proof -
  have "unat (b * of_nat BSIZE) = unat b * 1024" using assms by (simp add: unat_word_ariths BSIZE_def)
  then have "unat (sect b) = unat b" by (simp add: sect_def unat_div_distrib BSIZE_def)
  then show ?thesis by (simp add: word_unat_eq_iff)
qed

lemma mark_used_bits: "bit_of (mark_used i k d) j \<noteq> 0 \<longleftrightarrow> bit_of d j \<noteq> 0 \<or> i \<le> j \<and> j < i + k"
proof (induction k arbitrary: i d)
  case (Suc k)
  show ?case unfolding mark_used.simps Suc.IH bit_of_set by auto
qed auto

section \<open>Inodes on the image\<close>

lemma put_addrs_below: "i + n \<le> off + 12 + 4 * j \<Longrightarrow> get_le n (put_addrs a off j k d) i = get_le n d i"
  by (induction k arbitrary: j d) (auto simp: get_le_put_le_other)

lemma put_addrs_at: "j \<le> i \<Longrightarrow> i < j + k \<Longrightarrow> get_le 4 (put_addrs a off j k d) (off + 12 + 4 * i) = a i"
proof (induction k arbitrary: j d)
  case (Suc k)
  then show ?case by (cases "i = j") (simp_all add: put_addrs_below get_le_put_le)
qed simp

lemma get_din_put_din:
  assumes "\<forall>j \<ge> NDIRECT + 1. d_addrs x j = 0"
  shows "get_din (put_din x off d) off = x"
proof -
  have "(\<lambda>j. if j < NDIRECT + 1 then get_le 4 (put_din x off d) (off + 12 + 4 * j) else 0) = d_addrs x"
    using assms by (auto simp: fun_eq_iff put_din_def Let_def put_addrs_at simp del: put_addrs.simps)
  moreover have "get_le 2 (put_din x off d) off = d_type x" "get_le 2 (put_din x off d) (off + 2) = d_major x"
    "get_le 2 (put_din x off d) (off + 4) = d_minor x" "get_le 2 (put_din x off d) (off + 6) = d_nlink x"
    "get_le 4 (put_din x off d) (off + 8) = d_size x"
    by (simp_all add: put_din_def Let_def put_addrs_below get_le_put_le get_le_put_le_other del: put_addrs.simps)
  ultimately show ?thesis by (intro dinode.equality) (simp_all add: get_din_def)
qed

lemma get_din_cong: "(\<And>i. off \<le> i \<Longrightarrow> i < off + 64 \<Longrightarrow> d i = d' i) \<Longrightarrow> get_din d off = get_din d' off"
  by (auto simp: get_din_def fun_eq_iff NDIRECT_def intro!: get_le_cong)

lemma zero_blocks_blank:
  "im_blocks s = (\<lambda>_ _. 0) \<Longrightarrow> im_size s = i \<Longrightarrow> i + k < 2 ^ 22 \<Longrightarrow> zero_blocks i k s = s\<lparr>im_size := i + k\<rparr>"
proof (induction k arbitrary: i s)
  case (Suc k)
  have i: "unat (of_nat i :: u32) = i" using Suc.prems(3) by (simp add: unat_of_nat)
  then have "sect (of_nat i) = of_nat i" using Suc.prems(3) by (intro sect_small) simp
  then have "wsect (of_nat i) (\<lambda>_. 0) s = s\<lparr>im_size := Suc i\<rparr>"
    using Suc.prems(1,2) i by (cases s) (auto simp: wsect_def fun_eq_iff)
  then show ?case using Suc by simp
qed simp

end
