(* ===== verification/Mkfs_Props.thy ===== *)
theory Mkfs_Props
  imports Mkfs
begin

text \<open>
  What \<^verbatim>\<open>mkfs\<close> puts on the image. The blocks it hands out are data blocks or indirect blocks; the invariant says that inodes and
  indirect blocks name only such blocks, so that no write reaches the superblock, the log or the inodes of other
  files. A kernel then starts on the image, and its block allocator finds the bitmap right.
\<close>

section \<open>The invariant of the image\<close>

definition din_ok :: "u32 set \<Rightarrow> u32 set \<Rightarrow> dinode \<Rightarrow> bool" where
  "din_ok D I x \<longleftrightarrow> (\<forall>j < NDIRECT. d_addrs x j \<in> insert 0 D) \<and> d_addrs x NDIRECT \<in> insert 0 I"

definition ind_ok :: "u32 set \<Rightarrow> cstr \<Rightarrow> bool" where
  "ind_ok D d \<longleftrightarrow> (\<forall>j < NINDIRECT. get_le 4 d (4 * j) \<in> insert 0 D)"

definition inodes_ok :: "u32 set \<Rightarrow> u32 set \<Rightarrow> cstr \<Rightarrow> bool" where
  "inodes_ok D I d \<longleftrightarrow> (\<forall>k < IPB. din_ok D I (get_din d (64 * k)))"

text \<open>
  \<open>n\<close> is the next inode number, \<open>D\<close> the data blocks and \<open>I\<close> the indirect blocks handed out so far. Blocks from \<^verbatim>\<open>freeblock\<close> on
  are still zero.
\<close>

definition img_ok :: "nat \<Rightarrow> u32 set \<Rightarrow> u32 set \<Rightarrow> mkst \<Rightarrow> bool" where
  "img_ok n D I s \<longleftrightarrow> im_size s = FSSIZE \<and> freeinode s = of_nat n \<and> nmeta \<le> unat (freeblock s) \<and> unat (freeblock s) \<le> FSSIZE \<and>
     D \<inter> I = {} \<and> (\<forall>a \<in> D \<union> I. nmeta \<le> unat a \<and> unat a < unat (freeblock s)) \<and>
     get_sb (im_blocks s 1) = mkfs_sb \<and> im_blocks s 2 = (\<lambda>_. 0) \<and>
     (\<forall>b. unat (freeblock s) \<le> unat b \<longrightarrow> im_blocks s b = (\<lambda>_. 0)) \<and>
     (\<forall>b. 32 \<le> unat b \<and> unat b < 45 \<longrightarrow> inodes_ok D I (im_blocks s b)) \<and> (\<forall>b \<in> I. ind_ok D (im_blocks s b))"

lemmas mkfs_values = layout_values FSSIZE_def NINODES_def

lemma img_okD:
  assumes "img_ok n D I s"
  shows "im_size s = 1000" "freeinode s = of_nat n" "46 \<le> unat (freeblock s)" "unat (freeblock s) \<le> 1000" "D \<inter> I = {}"
    "a \<in> D \<union> I \<Longrightarrow> 46 \<le> unat a \<and> unat a < unat (freeblock s)" "get_sb (im_blocks s 1) = mkfs_sb" "im_blocks s 2 = (\<lambda>_. 0)"
    "unat (freeblock s) \<le> unat b \<Longrightarrow> im_blocks s b = (\<lambda>_. 0)" "32 \<le> unat b \<Longrightarrow> unat b < 45 \<Longrightarrow> inodes_ok D I (im_blocks s b)"
    "b \<in> I \<Longrightarrow> ind_ok D (im_blocks s b)"
  using assms by (auto simp: img_ok_def mkfs_values)

lemma ok_mono:
  "D \<subseteq> D' \<Longrightarrow> I \<subseteq> I' \<Longrightarrow> din_ok D I x \<Longrightarrow> din_ok D' I' x" "D \<subseteq> D' \<Longrightarrow> ind_ok D d \<Longrightarrow> ind_ok D' d"
  "D \<subseteq> D' \<Longrightarrow> I \<subseteq> I' \<Longrightarrow> inodes_ok D I d \<Longrightarrow> inodes_ok D' I' d"
proof -
  show d: "D \<subseteq> D' \<Longrightarrow> I \<subseteq> I' \<Longrightarrow> din_ok D I x \<Longrightarrow> din_ok D' I' x" for x by (auto simp: din_ok_def)
  show "D \<subseteq> D' \<Longrightarrow> ind_ok D d \<Longrightarrow> ind_ok D' d" by (auto simp: ind_ok_def)
  show "D \<subseteq> D' \<Longrightarrow> I \<subseteq> I' \<Longrightarrow> inodes_ok D I d \<Longrightarrow> inodes_ok D' I' d" using d by (auto simp: inodes_ok_def)
qed

lemma get_le_zero: "get_le k (\<lambda>_. 0) off = 0"
  by (simp add: get_le_def le_join_zero)

lemma ind_ok_zero: "ind_ok D (\<lambda>_. 0)"
  by (simp add: ind_ok_def get_le_zero)

lemma inodes_ok_zero: "inodes_ok D I (\<lambda>_. 0)"
  by (simp add: inodes_ok_def din_ok_def get_din_def get_le_zero)

section \<open>Writes\<close>

definition cut :: "cstr \<Rightarrow> cstr" where
  "cut d = (\<lambda>i. if i < BSIZE then d i else 0)"

lemma get_le_cut: "off + n \<le> BSIZE \<Longrightarrow> get_le n (cut d) off = get_le n d off"
  by (rule get_le_cong) (simp add: cut_def)

lemma get_din_cut: "off + 64 \<le> BSIZE \<Longrightarrow> get_din (cut d) off = get_din d off"
  by (rule get_din_cong) (simp add: cut_def)

lemma ok_cut: "ind_ok D (cut d) = ind_ok D d" "inodes_ok D I (cut d) = inodes_ok D I d"
  by (auto simp: ind_ok_def inodes_ok_def get_le_cut get_din_cut NINDIRECT_def IPB_def BSIZE_def)

lemma wsect_small:
  assumes "unat x < 1000" "im_size s = 1000"
  shows "wsect x d s = s\<lparr>im_blocks := (im_blocks s)(x := cut d)\<rparr>"
proof -
  have "sect x = x" using assms(1) by (intro sect_small) simp
  then show ?thesis using assms by (simp add: wsect_def cut_def max_def)
qed

lemma rsect_small:
  assumes "unat x \<le> 1000" "im_size s = 1000"
  shows "rsect x s = (if unat x < 1000 then Ok (im_blocks s x) else Panic ''read'')"
proof -
  have "sect x = x" using assms(1) by (intro sect_small) simp
  then show ?thesis using assms by (simp add: rsect_def)
qed

text \<open>A write into a data block, an indirect block or a block of inodes.\<close>

lemma img_ok_wsect:
  assumes "img_ok n D I s" "x \<in> D \<or> x \<in> I \<and> ind_ok D d \<or> 32 \<le> unat x \<and> unat x < 45 \<and> inodes_ok D I d"
  shows "img_ok n D I (wsect x d s)"
proof -
  note k = img_okD [OF assms(1)]
  have x: "unat x < 1000" "unat x < unat (freeblock s)" "32 \<le> unat x"
    using assms(2) k(3,4) k(6) [of x] by auto
  then have ne: "x \<noteq> 1" "x \<noteq> 2" by auto
  have "x \<in> D \<Longrightarrow> x \<notin> I \<and> \<not> unat x < 45" "x \<in> I \<Longrightarrow> \<not> unat x < 45" using k(5) k(6) [of x] by auto
  moreover have "\<not> unat (freeblock s) \<le> unat x" using x(2) by simp
  ultimately show ?thesis
    unfolding wsect_small [OF x(1) k(1)] using assms ne by (auto simp: img_ok_def ok_cut)
qed

text \<open>A fresh block as a data block or as an indirect block.\<close>

lemma img_ok_alloc:
  assumes "img_ok n D I s" "unat (freeblock s) < 1000"
  defines "a \<equiv> freeblock s"
  shows "img_ok n (insert a D) I (s\<lparr>freeblock := a + 1\<rparr>)" "img_ok n D (insert a I) (s\<lparr>freeblock := a + 1\<rparr>)"
proof -
  note k = img_okD [OF assms(1)]
  have u: "unat (a + 1) = Suc (unat a)" using assms(2) by (simp add: a_def unat_word_ariths)
  have new: "a \<notin> D" "a \<notin> I" "46 \<le> unat a" using k(3,6) by (auto simp: a_def)
  have z: "im_blocks s a = (\<lambda>_. 0)" using k(9) by (simp add: a_def)
  have r: "nmeta \<le> unat b \<and> unat b < unat (a + 1)" if "b \<in> insert a (D \<union> I)" for b
    using that k(6) [of b] new(3) u by (auto simp: a_def layout_values)
  have zs: "im_blocks s b = (\<lambda>_. 0)" if "unat (a + 1) \<le> unat b" for b using that k(9) [of b] u by (simp add: a_def)
  have ns: "inodes_ok (insert a D) I (im_blocks s b)" "inodes_ok D (insert a I) (im_blocks s b)" if "32 \<le> unat b" "unat b < 45" for b
    by (rule ok_mono(3) [OF _ _ k(10) [OF that]]; blast)+
  have ds: "ind_ok (insert a D) (im_blocks s b)" if "b \<in> I" for b using ok_mono(2) [OF _ k(11) [OF that]] by auto
  have i1: "\<forall>b \<in> insert a I. ind_ok D (im_blocks s b)" using k(11) z by (auto simp: ind_ok_zero)
  have m: "nmeta \<le> unat (a + 1)" "unat (a + 1) \<le> FSSIZE" using new(3) u assms(2) by (auto simp: mkfs_values a_def)
  have base: "im_size s = FSSIZE" "freeinode s = of_nat n" "D \<inter> I = {}" "get_sb (im_blocks s 1) = mkfs_sb" "im_blocks s 2 = (\<lambda>_. 0)"
    using k by (simp_all add: FSSIZE_def)
  show "img_ok n (insert a D) I (s\<lparr>freeblock := a + 1\<rparr>)" unfolding img_ok_def
    using base m new(1,2) r zs ns(1) ds by simp
  show "img_ok n D (insert a I) (s\<lparr>freeblock := a + 1\<rparr>)" unfolding img_ok_def
    using base m new(1,2) r zs ns(2) i1 by simp
qed

section \<open>Growing a file\<close>

definition img_din :: "nat \<Rightarrow> mkst \<Rightarrow> dinode \<Rightarrow> bool" where
  "img_din n s x \<longleftrightarrow> (\<exists>D I. img_ok n D I s \<and> din_ok D I x)"

lemma append_direct:
  assumes "img_ok n D I s" "din_ok D I din" "fbn < NDIRECT" "append_block fbn din s = Ok (x, din', s')" "rsect x s' = Ok buf"
  shows "\<exists>D'. img_ok n D' I s' \<and> din_ok D' I din' \<and> x \<in> D'"
proof (cases "d_addrs din fbn = 0")
  case True
  let ?a = "freeblock s"
  have e: "x = ?a" "din' = din\<lparr>d_addrs := (d_addrs din)(fbn := ?a)\<rparr>" "s' = s\<lparr>freeblock := ?a + 1\<rparr>"
    using assms(3,4) True by (auto simp: append_block_def)
  have "unat ?a < 1000" using assms(5) rsect_small [of ?a s'] img_okD(1,4) [OF assms(1)] by (auto simp: e split: if_splits)
  from img_ok_alloc(1) [OF assms(1) this] show ?thesis using assms(2,3) unfolding e
    by (intro exI [of _ "insert ?a D"]) (auto simp: din_ok_def)
next
  case False
  then have "x = d_addrs din fbn" "din' = din" "s' = s" using assms(3,4) by (auto simp: append_block_def)
  then show ?thesis using assms(1-3) False by (intro exI [of _ D]) (auto simp: din_ok_def)
qed

text \<open>The two steps for a block behind the direct ones: the indirect block, then its entry.\<close>

definition get_ind :: "dinode \<Rightarrow> mkst \<Rightarrow> dinode \<times> mkst" where
  "get_ind din s = (if d_addrs din NDIRECT = 0
     then (din\<lparr>d_addrs := (d_addrs din)(NDIRECT := freeblock s)\<rparr>, s\<lparr>freeblock := freeblock s + 1\<rparr>) else (din, s))"

lemma get_ind_ok:
  assumes "img_ok n D I s" "din_ok D I din" "get_ind din s = (din', s')" "rsect (d_addrs din' NDIRECT) s' = Ok ind"
  shows "\<exists>I'. img_ok n D I' s' \<and> din_ok D I' din' \<and> d_addrs din' NDIRECT \<in> I' \<and> ind = im_blocks s' (d_addrs din' NDIRECT)"
proof (cases "d_addrs din NDIRECT = 0")
  case True
  let ?a = "freeblock s"
  have e: "d_addrs din' NDIRECT = ?a" "din' = din\<lparr>d_addrs := (d_addrs din)(NDIRECT := ?a)\<rparr>" "s' = s\<lparr>freeblock := ?a + 1\<rparr>"
    using assms(3) True by (auto simp: get_ind_def)
  have r: "rsect ?a s' = (if unat ?a < 1000 then Ok (im_blocks s' ?a) else Panic ''read'')"
    using rsect_small [of ?a s'] img_okD(1,4) [OF assms(1)] by (simp add: e(3))
  then have "unat ?a < 1000" "ind = im_blocks s' ?a" using assms(4) by (auto simp: e(1) split: if_splits)
  from img_ok_alloc(2) [OF assms(1) this(1)] this(2) show ?thesis using assms(2) unfolding e
    by (intro exI [of _ "insert ?a I"]) (auto simp: din_ok_def)
next
  case False
  then have e: "din' = din" "s' = s" using assms(3) by (auto simp: get_ind_def)
  have i: "d_addrs din NDIRECT \<in> I" using assms(2) False by (auto simp: din_ok_def)
  then have "unat (d_addrs din NDIRECT) < 1000" using img_okD(4) [OF assms(1)] img_okD(6) [OF assms(1), of "d_addrs din NDIRECT"] by auto
  then show ?thesis using assms(1,2,4) i rsect_small [of "d_addrs din NDIRECT" s] img_okD(1) [OF assms(1)] unfolding e
    by (intro exI [of _ I]) simp
qed

lemma ind_ok_put:
  assumes "ind_ok D d" "a \<in> D" "j < NINDIRECT"
  shows "ind_ok D (put_le 4 d (4 * j) (a :: u32))"
proof -
  have "get_le 4 (put_le 4 d (4 * j) a) (4 * i) = (if i = j then a else get_le 4 d (4 * i))" for i
    by (cases i j rule: linorder_cases) (simp_all add: get_le_put_le get_le_put_le_other)
  then show ?thesis using assms by (auto simp: ind_ok_def)
qed

lemma append_ok:
  assumes "img_din n s din" "fbn < MAXFILE" "append_block fbn din s = Ok (x, din', s')" "rsect x s' = Ok buf"
  shows "\<exists>D I. img_ok n D I s' \<and> din_ok D I din' \<and> x \<in> D"
proof -
  obtain D I where ok: "img_ok n D I s" "din_ok D I din" using assms(1) by (auto simp: img_din_def)
  show ?thesis
  proof (cases "fbn < NDIRECT")
    case True
    then show ?thesis using append_direct [OF ok] assms(3,4) by blast
  next
    case False
    obtain din1 s1 where g: "get_ind din s = (din1, s1)" by fastforce
    define ia where "ia = d_addrs din1 NDIRECT"
    define j where "j = fbn - NDIRECT"
    have j: "j < NINDIRECT" using assms(2) False by (simp add: j_def MAXFILE_def)
    have run: "append_block fbn din s = rbind (rsect ia s1) (\<lambda>ind.
        if (get_le 4 ind (4 * j) :: u32) = 0 then
          (let ind' = put_le 4 ind (4 * j) (freeblock s1) in
           Ok (get_le 4 ind' (4 * j), din1, wsect ia ind' (s1\<lparr>freeblock := freeblock s1 + 1\<rparr>)))
        else Ok (get_le 4 ind (4 * j), din1, s1))"
      using False g unfolding append_block_def get_ind_def ia_def j_def
      by (cases "d_addrs din NDIRECT = 0") (auto simp: Let_def cong: if_cong)
    then obtain ind where ind: "rsect ia s1 = Ok ind" using assms(3) by (cases "rsect ia s1") auto
    then obtain I' where I': "img_ok n D I' s1" "din_ok D I' din1" "ia \<in> I'" "ind = im_blocks s1 ia"
      using get_ind_ok [OF ok g] by (auto simp: ia_def)
    have io: "ind_ok D ind" using img_okD(11) [OF I'(1,3)] I'(4) by simp
    show ?thesis
    proof (cases "(get_le 4 ind (4 * j) :: u32) = 0")
      case True
      let ?a = "freeblock s1" and ?ind = "put_le 4 ind (4 * j) (freeblock s1)"
      have e: "x = ?a" "din' = din1" "s' = wsect ia ?ind (s1\<lparr>freeblock := ?a + 1\<rparr>)"
        using assms(3) ind True by (auto simp: run get_le_put_le)
      have ia: "unat ia < 1000" using img_okD(4) [OF I'(1)] img_okD(6) [OF I'(1), of ia] I'(3) by auto
      have "im_size s' = 1000" unfolding e using img_okD(1) [OF I'(1)] by (subst wsect_small [OF ia]) simp_all
      then have "unat ?a < 1000" using assms(4) rsect_small [of ?a s'] img_okD(4) [OF I'(1)] by (auto simp: e(1) split: if_splits)
      from img_ok_alloc(1) [OF I'(1) this] have "img_ok n (insert ?a D) I' s'" unfolding e
        using I'(3) ind_ok_put [OF ok_mono(2) [OF _ io], of "insert ?a D"] j by (intro img_ok_wsect) auto
      moreover have "din_ok (insert ?a D) I' din'" using ok_mono(1) [OF subset_insertI subset_refl I'(2)] e(2) by simp
      ultimately show ?thesis using e(1) by blast
    next
      case False
      then have "x = get_le 4 ind (4 * j)" "din' = din1" "s' = s1" using assms(3) ind by (auto simp: run)
      then show ?thesis using I'(1,2) io j False by (auto simp: ind_ok_def)
    qed
  qed
qed

lemma iappend_loop_ok:
  "iappend_loop din off xs s = Ok (din', off', s') \<Longrightarrow> img_din n s din \<Longrightarrow> img_din n s' din'"
proof (induction din off xs s rule: iappend_loop.induct)
  case (1 din off xs s)
  show ?case
  proof (cases "xs = []")
    case True
    then show ?thesis using "1.prems" by (subst (asm) iappend_loop.simps) simp
  next
    case False
    let ?f = "off div BSIZE"
    let ?n = "min (length xs) ((?f + 1) * BSIZE - off)"
    obtain x d u buf where st: "?f < MAXFILE" "append_block ?f din s = Ok (x, d, u)" "rsect x u = Ok buf"
      "iappend_loop d (off + ?n) (drop ?n xs) (wsect x (bcopy (take ?n xs) (off - ?f * BSIZE) buf) u) = Ok (din', off', s')"
      using "1.prems"(1) False by (subst (asm) iappend_loop.simps) (auto simp: rbind_Ok_iff Let_def split: if_splits)
    obtain D I where "img_ok n D I u" "din_ok D I d" "x \<in> D" using append_ok [OF "1.prems"(2) st(1-3)] by blast
    then have "img_din n (wsect x (bcopy (take ?n xs) (off - ?f * BSIZE) buf) u) d"
      unfolding img_din_def using img_ok_wsect by blast
    then show ?thesis using "1.IH" False st by auto
  qed
qed

section \<open>Inodes\<close>

lemma put_addrs_outside: "i < off + 12 + 4 * j \<or> off + 12 + 4 * (j + k) \<le> i \<Longrightarrow> put_addrs a off j k d i = d i"
  by (induction k arbitrary: j d) (auto simp: put_le_def)

lemma put_din_outside: "i < off \<or> off + 64 \<le> i \<Longrightarrow> put_din x off d i = d i"
  by (auto simp: put_din_def Let_def put_addrs_outside put_le_def NDIRECT_def simp del: put_addrs.simps)

lemma get_din_other: "off' + 64 \<le> off \<or> off + 64 \<le> off' \<Longrightarrow> get_din (put_din x off d) off' = get_din d off'"
  by (rule get_din_cong) (auto intro!: put_din_outside)

lemma get_din_same:
  assumes "j \<le> NDIRECT"
  shows "d_addrs (get_din (put_din x off d) off) j = d_addrs x j"
proof -
  have "j < NDIRECT + 1" using assms by simp
  then show ?thesis by (simp add: get_din_def put_din_def Let_def put_addrs_at del: put_addrs.simps)
qed

lemma inode_place:
  assumes "k < 208"
  shows "unat (IBLOCK (of_nat k) mkfs_sb) = k div 16 + 32" "dinode_off (of_nat k) = 64 * (k mod 16)" "k mod 16 < IPB"
proof -
  have u: "unat (of_nat k :: u32) = k" using assms by (simp add: unat_of_nat)
  have "unat ((of_nat k :: u32) div 16) = k div 16" using u by (simp add: unat_div_distrib)
  then show "unat (IBLOCK (of_nat k) mkfs_sb) = k div 16 + 32"
    using assms by (simp add: IBLOCK_def mkfs_sb_fields IPB_def BSIZE_def unat_word_ariths)
  show "dinode_off (of_nat k) = 64 * (k mod 16)" "k mod 16 < IPB" using u by (simp_all add: dinode_off_def IPB_def BSIZE_def)
qed

lemma rinode_ok:
  assumes "img_ok n D I s" "k < 208" "rinode (of_nat k) s = Ok x"
  shows "din_ok D I x"
proof -
  note p = inode_place [OF assms(2)]
  have "rsect (IBLOCK (of_nat k) mkfs_sb) s = Ok (im_blocks s (IBLOCK (of_nat k) mkfs_sb))"
    using p(1) assms(2) rsect_small img_okD(1) [OF assms(1)] by simp
  then have "x = get_din (im_blocks s (IBLOCK (of_nat k) mkfs_sb)) (64 * (k mod 16))" using assms(3) p(2) by (simp add: rinode_def Let_def)
  then show ?thesis using img_okD(10) [OF assms(1), of "IBLOCK (of_nat k) mkfs_sb"] p(1,3) assms(2) by (simp add: inodes_ok_def)
qed

lemma winode_ok:
  assumes "img_ok n D I s" "k < 208" "din_ok D I x" "winode (of_nat k) x s = Ok t"
  shows "img_ok n D I t"
proof -
  note p = inode_place [OF assms(2)] let ?b = "IBLOCK (of_nat k) mkfs_sb"
  have b: "32 \<le> unat ?b" "unat ?b < 45" using p(1) assms(2) by auto
  have "rsect ?b s = Ok (im_blocks s ?b)" using b rsect_small img_okD(1) [OF assms(1)] by simp
  then have t: "t = wsect ?b (put_din x (64 * (k mod 16)) (im_blocks s ?b)) s" using assms(4) p(2) by (simp add: winode_def Let_def)
  have "din_ok D I (get_din (put_din x (64 * (k mod 16)) (im_blocks s ?b)) (64 * i))" if "i < IPB" for i
  proof (cases "i = k mod 16")
    case True
    then show ?thesis using assms(3) by (simp add: din_ok_def get_din_same)
  next
    case False
    then have "64 * i + 64 \<le> 64 * (k mod 16) \<or> 64 * (k mod 16) + 64 \<le> 64 * i" by linarith
    then show ?thesis using img_okD(10) [OF assms(1) b] that by (simp add: get_din_other inodes_ok_def)
  qed
  then show ?thesis unfolding t using b assms(1) by (intro img_ok_wsect) (auto simp: inodes_ok_def)
qed

lemma iappend_ok:
  assumes "img_ok n D I s" "k < 208" "iappend (of_nat k) xs s = Ok t"
  shows "\<exists>D I. img_ok n D I t"
proof -
  obtain x off y u where st: "rinode (of_nat k) s = Ok x" "iappend_loop x (unat (d_size x)) xs s = Ok (y, off, u)"
    "winode (of_nat k) (y\<lparr>d_size := of_nat off\<rparr>) u = Ok t"
    using assms(3) by (auto simp: iappend_def Let_def rbind_Ok_iff)
  have "img_din n s x" using assms(1) rinode_ok [OF assms(1,2) st(1)] by (auto simp: img_din_def)
  from iappend_loop_ok [OF st(2) this] obtain D I where "img_ok n D I u" "din_ok D I y" by (auto simp: img_din_def)
  then have "img_ok n D I t" using winode_ok [OF _ assms(2) _ st(3)] by (simp add: din_ok_def)
  then show ?thesis by blast
qed

lemma ialloc_ok:
  assumes "img_ok n D I s" "n < 208" "mkfs_ialloc ty s = Ok (k, t)"
  shows "k = of_nat n \<and> img_ok (Suc n) D I t"
proof -
  have "img_ok (Suc n) D I (s\<lparr>freeinode := freeinode s + 1\<rparr>)" using assms(1) by (auto simp: img_ok_def)
  moreover have "din_ok D I \<lparr>d_type = ty, d_major = 0, d_minor = 0, d_nlink = 1, d_size = 0, d_addrs = (\<lambda>_. 0)\<rparr>" by (simp add: din_ok_def)
  ultimately show ?thesis using assms(3) img_okD(2) [OF assms(1)] winode_ok [OF _ assms(2)]
    by (auto simp: mkfs_ialloc_def Let_def rbind_Ok_iff)
qed

lemma iappend_all_ok: "img_ok n D I s \<Longrightarrow> k < 208 \<Longrightarrow> iappend_all (of_nat k) cs s = Ok t \<Longrightarrow> \<exists>D I. img_ok n D I t"
proof (induction cs arbitrary: D I s)
  case (Cons c cs)
  then obtain u where "iappend (of_nat k) c s = Ok u" "iappend_all (of_nat k) cs u = Ok t" by (auto simp: rbind_Ok_iff)
  then show ?case using Cons.IH iappend_ok [OF Cons.prems(1,2)] Cons.prems(2) by metis
qed auto

lemma add_files_ok:
  "img_ok n D I s \<Longrightarrow> n + length fs \<le> 208 \<Longrightarrow> add_files fs 1 s = Ok t \<Longrightarrow> \<exists>D I. img_ok (n + length fs) D I t"
proof (induction fs arbitrary: n D I s)
  case (Cons f fs)
  obtain nm reads where f: "f = (nm, reads)" by fastforce
  obtain k u v w x where st: "mkfs_ialloc T_FILE s = Ok (k, u)" "iappend 1 (dirent (ucast k) x) u = Ok v"
    "iappend_all k reads v = Ok w" "add_files fs 1 w = Ok t"
    using Cons.prems(3) by (auto simp: f Let_def rbind_Ok_iff split: if_splits)
  have n: "n < 208" using Cons.prems(2) by simp
  have k: "k = of_nat n" "img_ok (Suc n) D I u" using ialloc_ok [OF Cons.prems(1) n st(1)] by auto
  have "\<exists>D I. img_ok (Suc n) D I v" by (rule iappend_ok [OF k(2), of 1]) (use st(2) in simp_all)
  then obtain D1 I1 where "img_ok (Suc n) D1 I1 v" by blast
  then obtain D2 I2 where "img_ok (Suc n) D2 I2 w" using iappend_all_ok [OF _ n] st(3) k(1) by blast
  from Cons.IH [OF this _ st(4)] show ?case using Cons.prems(2) by simp
qed auto

section \<open>The whole image\<close>

lemma first_image:
  fixes s0 :: mkst
  defines "s0 \<equiv> wsect 1 (put_sb mkfs_sb (\<lambda>_. 0)) (zero_blocks 0 FSSIZE \<lparr>im_blocks = (\<lambda>_ _. 0), im_size = 0, freeinode = 1, freeblock = of_nat nmeta\<rparr>)"
  shows "img_ok 1 {} {} s0"
proof -
  define z where "z = \<lparr>im_blocks = (\<lambda>_ _. 0), im_size = FSSIZE, freeinode = 1, freeblock = of_nat nmeta\<rparr>"
  have "zero_blocks 0 FSSIZE \<lparr>im_blocks = (\<lambda>_ _. 0), im_size = 0, freeinode = 1, freeblock = of_nat nmeta\<rparr> = z"
    by (subst zero_blocks_blank) (simp_all add: z_def FSSIZE_def)
  then have s0: "s0 = z\<lparr>im_blocks := (im_blocks z)(1 := cut (put_sb mkfs_sb (\<lambda>_. 0)))\<rparr>"
    unfolding s0_def by (simp add: wsect_small z_def FSSIZE_def)
  have "get_sb (cut (put_sb mkfs_sb (\<lambda>_. 0))) = mkfs_sb"
    using get_sb_put_sb [of mkfs_sb "\<lambda>_. 0"] by (simp add: get_sb_def get_le_cut BSIZE_def)
  then show ?thesis by (auto simp: s0 z_def img_ok_def mkfs_values inodes_ok_zero)
qed

text \<open>What every image has, whatever the files: the invariant, and the bitmap written over block 45.\<close>

lemma mkfs_image:
  assumes "mkfs files = Ok t" "length files + 2 \<le> NINODES"
  shows "\<exists>n D I u. img_ok n D I u \<and> t = u\<lparr>im_blocks := (im_blocks u)(45 := cut (mark_used 0 (unat (freeblock u)) (\<lambda>_. 0)))\<rparr>"
proof -
  define s0 where "s0 = wsect 1 (put_sb mkfs_sb (\<lambda>_. 0)) (zero_blocks 0 FSSIZE \<lparr>im_blocks = (\<lambda>_ _. 0), im_size = 0, freeinode = 1, freeblock = of_nat nmeta\<rparr>)"
  obtain k a b c d x e where st: "mkfs_ialloc T_DIR s0 = Ok (k, a)" "k = ROOTINO" "iappend k (dirent (ucast k) [46]) a = Ok b"
    "iappend k (dirent (ucast k) [46, 46]) b = Ok c" "add_files files k c = Ok d" "rinode k d = Ok x"
    "winode k (x\<lparr>d_size := (d_size x div of_nat BSIZE + 1) * of_nat BSIZE\<rparr>) d = Ok e" "mkfs_balloc (sint (freeblock e)) e = Ok t"
    using assms(1) unfolding mkfs_def s0_def by (auto simp: Let_def rbind_Ok_iff split: if_splits)
  have root: "ROOTINO = of_nat 1" "1 < (208 :: nat)" by (simp_all add: ROOTINO_def)
  have "img_ok 1 {} {} s0" unfolding s0_def by (rule first_image)
  then have a: "img_ok 2 {} {} a" using ialloc_ok [OF _ root(2) st(1)] by (simp add: numeral_2_eq_2)
  then obtain D1 I1 where "img_ok 2 D1 I1 b" using iappend_ok [OF a root(2)] st(2,3) unfolding root(1) by blast
  then obtain D2 I2 where "img_ok 2 D2 I2 c" using iappend_ok [OF _ root(2)] st(2,4) unfolding root(1) by blast
  then obtain D I where d: "img_ok (2 + length files) D I d"
    using add_files_ok [of 2 D2 I2 c files d] st(2,5) assms(2) by (auto simp: ROOTINO_def NINODES_def)
  have "din_ok D I x" using rinode_ok [OF d root(2)] st(2,6) unfolding root(1) by simp
  then have "din_ok D I (x\<lparr>d_size := y\<rparr>)" for y by (simp add: din_ok_def)
  then have e: "img_ok (2 + length files) D I e" using winode_ok [OF d root(2)] st(2,7) unfolding root(1) by blast
  note k = img_okD [OF e]
  have "sint (freeblock e) = int (unat (freeblock e))"
  proof -
    have "uint (freeblock e) = int (unat (freeblock e))" by simp
    then have "uint (freeblock e) \<le> 1000" using k(4) by linarith
    then have "signed_take_bit 31 (uint (freeblock e)) = uint (freeblock e)"
      by (intro signed_take_bit_int_eq_self) (auto intro: order_trans [OF _ uint_ge_0])
    then show ?thesis by (simp add: sint_uint)
  qed
  then have "t = wsect 45 (mark_used 0 (unat (freeblock e)) (\<lambda>_. 0)) e" using st(8) by (auto simp: mkfs_balloc_def mkfs_sb_fields split: if_splits)
  then show ?thesis using e k(1) wsect_small [of 45 e] by auto
qed

section \<open>Booting on an image\<close>

lemma cache_sb_upd:
  "inuse dev rc H (s\<lparr>sb := x\<rparr>) = inuse dev rc H s" "bview dev (s\<lparr>sb := x\<rparr>) = bview dev s"
  "pin_at dev rc (s\<lparr>sb := x\<rparr>) = pin_at dev rc s"
proof -
  show "bview dev (s\<lparr>sb := x\<rparr>) = bview dev s" by (rule bview_same) (simp_all add: same_content_refl)
qed (simp_all add: inuse_def mypid_def this_proc_def myproc_def fun_eq_iff pin_at_def)

lemma readsb_law:
  assumes "inuse dev (\<lambda>_. 0) {} s" "bview dev s = disk s"
  shows "\<exists>t. readsb dev s = Ok t \<and> inuse dev (\<lambda>_. 0) {} t \<and> bview dev t = disk t \<and> disk t = disk s \<and> sb t = get_sb (disk s 1)"
proof -
  have sp: "0 < spare (\<lambda>_. 0) {}" by (simp add: spare_def NBUF_def)
  obtain i t where t: "bread dev 1 s = Ok (i, t)" "inuse dev (\<lambda>_. 0) {i} t" "b_blockno (bufs t i) = 1"
    "b_data (bufs t i) = disk s 1" "bview dev t = disk s" "disk t = disk s"
    using bc.bread [OF assms(1), of 1] sp assms(2) by auto
  let ?t = "t\<lparr>sb := get_sb (disk s 1)\<rparr>"
  have "inuse dev (\<lambda>_. 0) {i} ?t" "b_data (bufs ?t i) = disk ?t (b_blockno (bufs ?t i))" using t by (simp_all add: cache_sb_upd)
  from bc.brelse [OF this(1) singletonI this(2)] obtain u where u: "brelse i ?t = Ok u" "inuse dev (\<lambda>_. 0) {} u" "bview dev u = bview dev ?t"
    "disk u = disk ?t" "bframe ?t u" by auto
  have "readsb dev s = Ok u" using t(1,4) u(1) by (simp add: readsb_def Let_def)
  then show ?thesis using u t(5,6) bframe_fs(1) [OF u(5)] by (simp add: cache_sb_upd)
qed

text \<open>A kernel that starts on a disk with a good superblock and an empty log is ready for its first transaction.\<close>

lemma fsinit_law:
  assumes "booted r" "dev \<noteq> 0" "get_sb (disk r 1) = x" "sb_magic x = FSMAGIC" "get_n (disk r (sb_logstart x)) = 0"
    and "0 < sint (sb_nlog x)" "sint (sb_nlog x) \<le> LOGSIZE"
  shows "\<exists>s. fsinit dev (binit r) = Ok s \<and> tx_ready s \<and> sb s = x \<and> log_dev s = dev \<and> log_start s = sb_logstart x \<and>
    log_size s = sint (sb_nlog x) \<and> (\<forall>n. n \<noteq> sb_logstart x \<longrightarrow> bview dev s n = disk r n)"
proof -
  have "inuse dev (\<lambda>_. 0) {} (binit r)" "bview dev (binit r) = disk (binit r)" "disk (binit r) = disk r"
    using binit_inuse [of r dev] assms(1,2) by (auto simp: booted_def)
  then obtain t where t: "readsb dev (binit r) = Ok t" "inuse dev (\<lambda>_. 0) {} t" "bview dev t = disk t" "disk t = disk r" "sb t = x"
    using readsb_law [of dev "binit r"] assms(3) by auto
  have "log_ok (sb_logstart x) (sint (sb_nlog x)) (disk t)"
    using assms(5-7) t(4) sint_lt [of "sb_nlog x"] by (simp add: log_ok_def LOGSIZE_30)
  from initlog_step [OF t(2,3) this] obtain s bl where s: "initlog dev (sb_logstart x) (sb_nlog x) t = Ok s" "inuse dev (\<lambda>_. 0) {} s"
    "bview dev s = disk s" "disk s = (recovered (sb_logstart x) (disk t))(sb_logstart x := header 0 bl (disk t (sb_logstart x)))"
    "bframe (t\<lparr>log_start := sb_logstart x, log_size := sint (sb_nlog x), log_dev := dev, log_lh := \<lparr>lh_n = 0, lh_block = bl\<rparr>\<rparr>) s"
    by auto
  have "fsinit dev (binit r) = Ok s" using t(1,5) s(1) assms(4) by (simp add: fsinit_def)
  moreover have k: "log_dev s = dev" "log_start s = sb_logstart x" "log_size s = sint (sb_nlog x)" "logged s = 0" "lh_n (log_lh s) = 0" "sb s = x"
    using bframe_log [OF s(5)] bframe_fs(1) [OF s(5)] t(5) by simp_all
  moreover have "pins s = (\<lambda>_. 0)" using k(4) by (simp add: pins_def)
  then have "tx_ready s" using k s(2-4) assms(2,6,7) header_fields(1) [of 0] by (simp add: tx_ready_def)
  moreover have "recovered (sb_logstart x) (disk t) = disk r" using assms(5) t(4) by (simp add: recovered_empty)
  ultimately show ?thesis using s(3,4) by (intro exI [of _ s]) simp
qed

section \<open>The image and the kernel\<close>

text \<open>The blocks that belong to the file with an inode: direct ones, the indirect block, and those it names.\<close>

definition file_blocks :: "superblock \<Rightarrow> (u32 \<Rightarrow> cstr) \<Rightarrow> nat \<Rightarrow> u32 set" where
  "file_blocks x d k =
     (let a = d_addrs (get_din (d (IBLOCK (of_nat k) x)) (dinode_off (of_nat k))) in
      (a ` {..NDIRECT} \<union> (if a NDIRECT = 0 then {} else (\<lambda>j. get_le 4 (d (a NDIRECT)) (4 * j)) ` {..<NINDIRECT})) - {0})"

lemma file_blocks_owned:
  assumes "img_ok n D I s" "k < 208" "\<And>b. 32 \<le> unat b \<Longrightarrow> unat b \<noteq> 45 \<Longrightarrow> d b = im_blocks s b"
  shows "file_blocks mkfs_sb d k \<subseteq> D \<union> I"
proof -
  note p = inode_place [OF assms(2)] let ?b = "IBLOCK (of_nat k) mkfs_sb"
  let ?a = "d_addrs (get_din (d ?b) (dinode_off (of_nat k)))"
  have "d ?b = im_blocks s ?b" using assms(2) p(1) by (intro assms(3)) auto
  then have x: "din_ok D I (get_din (d ?b) (dinode_off (of_nat k)))"
    using img_okD(10) [OF assms(1), of ?b] p assms(2) by (simp add: inodes_ok_def)
  then have "?a ` {..NDIRECT} \<subseteq> insert 0 (D \<union> I)" by (auto simp: din_ok_def le_less)
  moreover have "get_le 4 (d (?a NDIRECT)) (4 * j) \<in> insert 0 D" if "?a NDIRECT \<noteq> 0" "j < NINDIRECT" for j
  proof -
    have i: "?a NDIRECT \<in> I" using x that(1) by (auto simp: din_ok_def)
    then have "46 \<le> unat (?a NDIRECT)" using img_okD(6) [OF assms(1)] by blast
    then have "d (?a NDIRECT) = im_blocks s (?a NDIRECT)" by (intro assms(3)) auto
    then show ?thesis using img_okD(11) [OF assms(1) i] that(2) by (simp add: ind_ok_def)
  qed
  ultimately show ?thesis by (auto simp: file_blocks_def Let_def)
qed

lemma bitmap_of_image:
  assumes "sb s = mkfs_sb" "bview (log_dev s) s 45 = cut (mark_used 0 m (\<lambda>_. 0))" "k < 1000"
  shows "bm_used s k \<longleftrightarrow> k < m"
proof -
  have B: "BBLOCK (of_nat k) mkfs_sb = 45" using assms(3) by (simp add: BBLOCK_of_nat BPB_def BSIZE_def mkfs_sb_fields)
  have k: "k mod BPB = k" "k div 8 < BSIZE" using assms(3) by (simp_all add: BPB_def BSIZE_def)
  have "bm_used s k \<longleftrightarrow> bit_of (mark_used 0 m (\<lambda>_. 0)) k \<noteq> 0"
    unfolding bm_used_def assms(1,2) B k(1) bit_of_def cut_def using k(2) by simp
  then show ?thesis unfolding mark_used_bits by (simp add: bit_of_def)
qed

lemma bitmap_ok_mkfs:
  assumes "sb s = mkfs_sb" "log_start s = 2" "log_size s = 30" "\<And>k. k < 1000 \<Longrightarrow> \<not> bm_used s k \<Longrightarrow> 46 \<le> k"
  shows "bitmap_ok s"
proof -
  have B: "BBLOCK (of_nat k) mkfs_sb = 45" if "k < 1000" for k using that by (simp add: BBLOCK_of_nat BPB_def BSIZE_def mkfs_sb_fields)
  have "\<not> in_log 2 30 (of_nat k) \<and> (45 :: u32) \<noteq> of_nat k" if "k < 1000" "\<not> bm_used s k" for k
  proof -
    have "46 \<le> k" using assms(4) that by blast
    then have "unat (of_nat k - 2 :: u32) = k - 2" "unat (of_nat k :: u32) = k" using that(1)
      by (simp_all add: unat_of_nat unat_sub_if_size word_size)
    then show ?thesis using \<open>46 \<le> k\<close> by (auto simp: in_log_def)
  qed
  moreover have "\<not> in_log 2 30 45" by (simp add: in_log_def)
  ultimately show ?thesis unfolding bitmap_ok_def assms(1-3) using B by (auto simp: mkfs_sb_fields)
qed

text \<open>
  C6: The kernel starts on every image that \<^verbatim>\<open>mkfs\<close> builds. If the files fit into the inodes and \<^verbatim>\<open>mkfs\<close> does not exit with
  an error, \<^verbatim>\<open>fsinit\<close> on a machine that has just booted with this disk returns: it reads back the superblock, finds
  the log empty and is ready for a transaction. The bitmap has exactly the blocks below \<^verbatim>\<open>freeblock\<close> as used, which are at
  least the boot block, the superblock, the log, the inodes and the bitmap itself, so that the invariant of \<^verbatim>\<open>balloc\<close> and \<^verbatim>\<open>bfree\<close>
  holds; and every block of every file is a data block that is marked as used.
\<close>

theorem mkfs_image_boots:
  assumes "mkfs files = Ok t" "length files + 2 \<le> NINODES" "booted r" "disk r = im_blocks t"
  shows "\<exists>s. fsinit ROOTDEV (binit r) = Ok s \<and> tx_ready s \<and> sb s = mkfs_sb \<and> bitmap_ok s \<and>
    nmeta \<le> unat (freeblock t) \<and> unat (freeblock t) \<le> FSSIZE \<and> (\<forall>k < FSSIZE. bm_used s k \<longleftrightarrow> k < unat (freeblock t)) \<and>
    (\<forall>k < NINODES. \<forall>a \<in> file_blocks (sb s) (bview ROOTDEV s) k. nmeta \<le> unat a \<and> unat a < FSSIZE \<and> bm_used s (unat a))"
proof -
  obtain n D I u where u: "img_ok n D I u" "t = u\<lparr>im_blocks := (im_blocks u)(45 := cut (mark_used 0 (unat (freeblock u)) (\<lambda>_. 0)))\<rparr>"
    using mkfs_image [OF assms(1,2)] by blast
  note k = img_okD [OF u(1)]
  have d: "disk r b = im_blocks u b" if "b \<noteq> 45" for b using that assms(4) u(2) by simp
  have "\<exists>s. fsinit ROOTDEV (binit r) = Ok s \<and> tx_ready s \<and> sb s = mkfs_sb \<and> log_dev s = ROOTDEV \<and> log_start s = sb_logstart mkfs_sb \<and>
      log_size s = sint (sb_nlog mkfs_sb) \<and> (\<forall>b. b \<noteq> sb_logstart mkfs_sb \<longrightarrow> bview ROOTDEV s b = disk r b)"
    using k(7,8) d [of 1] d [of 2] assms(3)
    by (intro fsinit_law) (simp_all add: ROOTDEV_def mkfs_sb_fields LOGSIZE_30 get_n_def get_le_zero)
  then obtain s where s: "fsinit ROOTDEV (binit r) = Ok s" "tx_ready s" "sb s = mkfs_sb" "log_dev s = ROOTDEV" "log_start s = 2" "log_size s = 30"
    "\<And>b. b \<noteq> 2 \<Longrightarrow> bview ROOTDEV s b = disk r b" by (auto simp: mkfs_sb_fields)
  have f: "freeblock t = freeblock u" by (simp add: u(2))
  have "bview (log_dev s) s 45 = cut (mark_used 0 (unat (freeblock t)) (\<lambda>_. 0))" using s(4,7) assms(4) u(2) by simp
  then have used: "bm_used s j \<longleftrightarrow> j < unat (freeblock t)" if "j < 1000" for j using bitmap_of_image [OF s(3)] that by blast
  then have "bitmap_ok s" using s(3,5,6) k(3) f by (intro bitmap_ok_mkfs) auto
  moreover have "46 \<le> unat a \<and> unat a < 1000 \<and> bm_used s (unat a)" if "j < 200" "a \<in> file_blocks mkfs_sb (bview ROOTDEV s) j" for j a
  proof -
    have "bview ROOTDEV s b = im_blocks u b" if "32 \<le> unat b" "unat b \<noteq> 45" for b
    proof -
      have "b \<noteq> 2" "b \<noteq> 45" using that by auto
      then show ?thesis using s(7) d by simp
    qed
    then have "file_blocks mkfs_sb (bview ROOTDEV s) j \<subseteq> D \<union> I" using that(1) by (intro file_blocks_owned [OF u(1)]) auto
    then have "46 \<le> unat a \<and> unat a < unat (freeblock u)" using k(6) that(2) by blast
    then show ?thesis using used k(4) f by auto
  qed
  ultimately show ?thesis using s(1-3) used k(3,4) f by (intro exI [of _ s]) (auto simp: mkfs_values)
qed

section \<open>An image with one file\<close>

lemma rinode_at:
  assumes "im_size s = 1000" "k < 208"
  shows "rinode (of_nat k) s = Ok (get_din (im_blocks s (IBLOCK (of_nat k) mkfs_sb)) (64 * (k mod 16)))"
  using inode_place [OF assms(2)] assms rsect_small [of "IBLOCK (of_nat k) mkfs_sb" s] by (simp add: rinode_def Let_def)

lemma winode_at:
  assumes "im_size s = 1000" "k < 208" "\<forall>j \<ge> NDIRECT + 1. d_addrs x j = 0"
  shows "\<exists>t. winode (of_nat k) x s = Ok t \<and> im_size t = 1000 \<and> freeblock t = freeblock s \<and> freeinode t = freeinode s \<and>
    rinode (of_nat k) t = Ok x \<and> (\<forall>i < 208. i \<noteq> k \<longrightarrow> rinode (of_nat i) t = rinode (of_nat i) s)"
proof -
  note p = inode_place [OF assms(2)] let ?b = "IBLOCK (of_nat k) mkfs_sb" let ?o = "64 * (k mod 16)"
  have b: "unat ?b < 1000" using p(1) assms(2) by simp
  let ?t = "s\<lparr>im_blocks := (im_blocks s)(?b := cut (put_din x ?o (im_blocks s ?b)))\<rparr>"
  have w: "winode (of_nat k) x s = Ok ?t"
    using rsect_small [of ?b s] wsect_small [OF b assms(1)] b assms(1) p(2) by (simp add: winode_def Let_def)
  have o: "?o + 64 \<le> BSIZE" "64 * (i mod 16) + 64 \<le> BSIZE" for i :: nat by (simp_all add: BSIZE_def)
  have "rinode (of_nat k) ?t = Ok x" using rinode_at [of ?t k] assms get_din_put_din [OF assms(3)] o by (simp add: get_din_cut)
  moreover have "rinode (of_nat i) ?t = rinode (of_nat i) s" if i: "i < 208" "i \<noteq> k" for i
  proof (cases "IBLOCK (of_nat i) mkfs_sb = ?b")
    case True
    then have "i div 16 = k div 16" using inode_place(1) [OF i(1)] p(1) by simp
    then have "i mod 16 \<noteq> k mod 16" using i(2) by (metis div_mult_mod_eq)
    then have "64 * (i mod 16) + 64 \<le> ?o \<or> ?o + 64 \<le> 64 * (i mod 16)" by linarith
    then show ?thesis using True rinode_at [OF _ i(1)] assms(1) o by (simp add: get_din_cut get_din_other)
  next
    case False
    then show ?thesis using rinode_at [OF _ i(1)] assms(1) by simp
  qed
  ultimately show ?thesis using w assms(1) by (intro exI [of _ ?t]) simp
qed

text \<open>Appending within the first block of a file, which is \<open>b\<close>.\<close>

lemma iappend_first:
  assumes "im_size s = 1000" "k < 208" "rinode (of_nat k) s = Ok d" "\<forall>j \<ge> NDIRECT + 1. d_addrs d j = 0"
    and "xs \<noteq> []" "unat (d_size d) + length xs < BSIZE" "(if d_addrs d 0 = 0 then freeblock s else d_addrs d 0) = b"
    and "45 < unat b" "unat b < 1000"
  shows "\<exists>t. iappend (of_nat k) xs s = Ok t \<and> im_size t = 1000 \<and> freeblock t = (if d_addrs d 0 = 0 then b + 1 else freeblock s) \<and>
    freeinode t = freeinode s \<and> rinode (of_nat k) t = Ok (d\<lparr>d_size := of_nat (unat (d_size d) + length xs), d_addrs := (d_addrs d)(0 := b)\<rparr>) \<and>
    (\<forall>i < 208. i \<noteq> k \<longrightarrow> rinode (of_nat i) t = rinode (of_nat i) s)"
proof -
  let ?off = "unat (d_size d)" let ?d = "d\<lparr>d_addrs := (d_addrs d)(0 := b)\<rparr>"
  have same: "?d = d" if "d_addrs d 0 = b" using that by (cases d) (simp add: fun_upd_idem)
  define u where "u = (if d_addrs d 0 = 0 then s\<lparr>freeblock := b + 1\<rparr> else s)"
  have u: "append_block 0 d s = Ok (b, ?d, u)" "im_size u = 1000" "freeblock u = (if d_addrs d 0 = 0 then b + 1 else freeblock s)"
    "freeinode u = freeinode s" "im_blocks u = im_blocks s"
    unfolding u_def using assms(1,7) same by (auto simp: append_block_def NDIRECT_def)
  define w where "w = u\<lparr>im_blocks := (im_blocks u)(b := cut (bcopy xs ?off (im_blocks u b)))\<rparr>"
  have "?off < BSIZE" "length xs \<le> BSIZE - ?off" using assms(6) by auto
  then have "iappend_loop d ?off xs s = iappend_loop ?d (?off + length xs) [] w"
    using assms(5,9) u(1,2) rsect_small [of b u] wsect_small [of b u]
    by (subst iappend_loop.simps) (simp add: MAXFILE_def NDIRECT_def w_def Let_def)
  then have loop: "iappend_loop d ?off xs s = Ok (?d, ?off + length xs, w)" by (subst (asm) (2) iappend_loop.simps) simp
  have w: "im_size w = 1000" "freeblock w = freeblock u" "freeinode w = freeinode s" by (simp_all add: w_def u)
  have keep: "rinode (of_nat i) w = rinode (of_nat i) s" if i: "i < 208" for i
  proof -
    have "IBLOCK (of_nat i) mkfs_sb \<noteq> b" using inode_place(1) [OF i] i assms(8) by auto
    then show ?thesis using rinode_at [OF _ i] w(1) assms(1) u(5) by (simp add: w_def)
  qed
  have "\<forall>j \<ge> NDIRECT + 1. d_addrs (?d\<lparr>d_size := of_nat (?off + length xs)\<rparr>) j = 0" using assms(4) by (auto simp: NDIRECT_def)
  from winode_at [OF w(1) assms(2) this] obtain t where t: "winode (of_nat k) (?d\<lparr>d_size := of_nat (?off + length xs)\<rparr>) w = Ok t" "im_size t = 1000"
    "freeblock t = freeblock w" "freeinode t = freeinode w" "rinode (of_nat k) t = Ok (?d\<lparr>d_size := of_nat (?off + length xs)\<rparr>)"
    "\<forall>i < 208. i \<noteq> k \<longrightarrow> rinode (of_nat i) t = rinode (of_nat i) w" by blast
  have "iappend (of_nat k) xs s = Ok t" using assms(3) loop t(1) by (simp add: iappend_def Let_def)
  then show ?thesis using t w u(3) keep by auto
qed

lemma ialloc_at:
  assumes "im_size s = 1000" "freeinode s = of_nat k" "k < 208"
  shows "\<exists>t. mkfs_ialloc ty s = Ok (of_nat k, t) \<and> im_size t = 1000 \<and> freeblock t = freeblock s \<and> freeinode t = of_nat (Suc k) \<and>
    rinode (of_nat k) t = Ok \<lparr>d_type = ty, d_major = 0, d_minor = 0, d_nlink = 1, d_size = 0, d_addrs = (\<lambda>_. 0)\<rparr> \<and>
    (\<forall>i < 208. i \<noteq> k \<longrightarrow> rinode (of_nat i) t = rinode (of_nat i) s)"
proof -
  let ?s = "s\<lparr>freeinode := freeinode s + 1\<rparr>" let ?x = "\<lparr>d_type = ty, d_major = 0, d_minor = 0, d_nlink = 1, d_size = 0, d_addrs = (\<lambda>_. 0)\<rparr>"
  have "im_size ?s = 1000" "\<forall>j \<ge> NDIRECT + 1. d_addrs ?x j = 0" using assms(1) by simp_all
  from winode_at [OF this(1) assms(3) this(2)] obtain t where "winode (of_nat k) ?x ?s = Ok t" "im_size t = 1000" "freeblock t = freeblock ?s"
    "freeinode t = freeinode ?s" "rinode (of_nat k) t = Ok ?x" "\<forall>i < 208. i \<noteq> k \<longrightarrow> rinode (of_nat i) t = rinode (of_nat i) ?s" by blast
  moreover have "rinode i ?s = rinode i s" for i by (simp add: rinode_def rsect_def Let_def)
  ultimately show ?thesis using assms(2) by (simp add: mkfs_ialloc_def Let_def)
qed

text \<open>The file \<^verbatim>\<open>R\<close> with the contents \<^verbatim>\<open>A\<close>: block 46 is the root directory, block 47 the file.\<close>

lemma mkfs_one_file: "\<exists>t. mkfs [([82], [[65]])] = Ok t \<and> freeblock t = 48"
proof -
  define s where "s = wsect 1 (put_sb mkfs_sb (\<lambda>_. 0)) (zero_blocks 0 FSSIZE \<lparr>im_blocks = (\<lambda>_ _. 0), im_size = 0, freeinode = 1, freeblock = of_nat nmeta\<rparr>)"
  have s: "im_size s = 1000" "freeinode s = of_nat 1" "freeblock s = 46"
    unfolding s_def by (subst zero_blocks_blank; simp add: FSSIZE_def wsect_def sect_small layout_values)+
  let ?r = "\<lambda>n a. \<lparr>d_type = T_DIR, d_major = 0, d_minor = 0, d_nlink = 1, d_size = n, d_addrs = (\<lambda>_. 0)(0 := a)\<rparr>"
  let ?f = "\<lparr>d_type = T_FILE, d_major = 0, d_minor = 0, d_nlink = 1, d_size = 0, d_addrs = (\<lambda>_. 0)\<rparr>"
  have l: "length (dirent i nm) = 16" "dirent i nm \<noteq> []" for i nm by (simp_all add: dirent_def DIRSIZ_def Let_def)
  have z: "(\<lambda>_. 0)(0 := 0) = (\<lambda>_ :: nat. 0 :: u32)" by auto
  obtain a where a: "mkfs_ialloc T_DIR s = Ok (1, a)" "im_size a = 1000" "freeblock a = 46" "freeinode a = 2" "rinode 1 a = Ok (?r 0 0)"
    using ialloc_at [OF s(1,2), of T_DIR] s(3) z by auto
  obtain b where b: "iappend 1 (dirent 1 [46]) a = Ok b" "im_size b = 1000" "freeblock b = 47" "freeinode b = 2" "rinode 1 b = Ok (?r 16 46)"
    using iappend_first [of a 1 "?r 0 0" "dirent 1 [46]" 46] a l by (auto simp: BSIZE_def)
  obtain c where c: "iappend 1 (dirent 1 [46, 46]) b = Ok c" "im_size c = 1000" "freeblock c = 47" "freeinode c = 2" "rinode 1 c = Ok (?r 32 46)"
    using iappend_first [of b 1 "?r 16 46" "dirent 1 [46, 46]" 46] b l by (auto simp: BSIZE_def NDIRECT_def)
  obtain d where d: "mkfs_ialloc T_FILE c = Ok (2, d)" "im_size d = 1000" "freeblock d = 47" "rinode 2 d = Ok ?f" "rinode 1 d = Ok (?r 32 46)"
    using ialloc_at [of c 2 T_FILE] c by (auto dest: spec [of _ 1])
  obtain e where e: "iappend 1 (dirent 2 [82]) d = Ok e" "im_size e = 1000" "freeblock e = 47" "rinode 1 e = Ok (?r 48 46)" "rinode 2 e = Ok ?f"
    using iappend_first [of d 1 "?r 32 46" "dirent 2 [82]" 46] d l by (auto simp: BSIZE_def NDIRECT_def dest: spec [of _ 2])
  obtain f where f: "iappend 2 [65] e = Ok f" "im_size f = 1000" "freeblock f = 48" "rinode 1 f = Ok (?r 48 46)"
    using iappend_first [of e 2 ?f "[65]" 47] e by (auto simp: BSIZE_def dest: spec [of _ 1])
  obtain g where g: "winode 1 (?r 1024 46) f = Ok g" "freeblock g = 48"
    using winode_at [of f 1 "?r 1024 46"] f(2,3) by (auto simp: NDIRECT_def)
  have "add_files [([82], [[65]])] 1 c = Ok f" using d(1) e(1) f(1) by (simp add: short_name_def Let_def)
  then have "mkfs [([82], [[65]])] = mkfs_balloc (sint (freeblock g)) g"
    using a(1) b(1) c(1) f(4) g(1) unfolding mkfs_def Let_def s_def [symmetric] by (simp add: ROOTINO_def BSIZE_def)
  then show ?thesis using g(2) by (simp add: mkfs_balloc_def wsect_def BSIZE_def)
qed

theorem mkfs_image_boots_witness:
  "\<exists>t s. mkfs [([82], [[65]])] = Ok t \<and> fsinit ROOTDEV (binit (fresh_fs (im_blocks t) small_sb)) = Ok s \<and> tx_ready s \<and> sb s = mkfs_sb \<and>
     bitmap_ok s \<and> bm_used s 47 \<and> \<not> bm_used s 48"
proof -
  obtain t where t: "mkfs [([82], [[65]])] = Ok t" "freeblock t = 48" using mkfs_one_file by blast
  let ?r = "fresh_fs (im_blocks t) small_sb"
  have "booted ?r" "disk ?r = im_blocks t" "length [([82 :: byte], [[65 :: byte]])] + 2 \<le> NINODES"
    by (simp_all add: booted_def fresh_fs_def NINODES_def)
  from mkfs_image_boots [OF t(1) this(3,1,2)] obtain s where "fsinit ROOTDEV (binit ?r) = Ok s" "tx_ready s" "sb s = mkfs_sb" "bitmap_ok s"
    "\<forall>k < FSSIZE. bm_used s k \<longleftrightarrow> k < unat (freeblock t)" by blast
  then show ?thesis using t by (intro exI [of _ t] exI [of _ s]) (simp add: FSSIZE_def)
qed

end
