(* ===== verification/Pipe_Fifo.thy ===== *)
theory Pipe_Fifo
  imports Pipe Queue Vm_Props Proc_Props
begin

text \<open>
  A pipe is a first-in first-out queue of at most 512 bytes: its two 32-bit counters may wrap around, as the
  size of the buffer divides 2^32. \<^verbatim>\<open>pipewrite\<close> appends the bytes of user memory and \<^verbatim>\<open>piperead\<close> removes
  the oldest ones.
\<close>

section \<open>The ring\<close>

definition pipe_bytes :: "pipe \<Rightarrow> byte list" where
  "pipe_bytes x = ring_items PIPESIZE (pi_data x) (pi_nread x) (pi_nwrite x)"

definition pipe_valid :: "pipe \<Rightarrow> bool" where
  "pipe_valid x \<longleftrightarrow> unat (pi_nwrite x - pi_nread x) \<le> PIPESIZE"

definition pipe_push :: "byte \<Rightarrow> pipe \<Rightarrow> pipe" where
  "pipe_push ch x = x\<lparr>pi_data := (pi_data x)(unat (pi_nwrite x) mod PIPESIZE := ch), pi_nwrite := pi_nwrite x + 1\<rparr>"

definition pipe_pop :: "pipe \<Rightarrow> byte \<times> pipe" where
  "pipe_pop x = (pi_data x (unat (pi_nread x) mod PIPESIZE), x\<lparr>pi_nread := pi_nread x + 1\<rparr>)"

lemma pipe_size: "PIPESIZE dvd 2 ^ LENGTH(32)" "PIPESIZE < 2 ^ LENGTH(32)"
  by (simp_all add: PIPESIZE_def)

lemma pipe_empty: "pipe_bytes x = [] \<longleftrightarrow> pi_nread x = pi_nwrite x"
  by (auto simp: pipe_bytes_def ring_items_def unat_eq_zero)

lemma pipe_full: "pi_nwrite x = pi_nread x + of_nat PIPESIZE \<longleftrightarrow> length (pipe_bytes x) = PIPESIZE"
  using ring_full [OF pipe_size(2), of "pi_nwrite x" "pi_nread x"] by (simp add: pipe_bytes_def)

interpretation pp: bounded_fifo pipe_bytes pipe_valid PIPESIZE pipe_push pipe_pop
proof unfold_locales
  fix q and x :: byte assume q: "pipe_valid q"
  show "pipe_valid (pipe_push x q) \<and> pipe_bytes (pipe_push x q) = pipe_bytes q @ [x]" if "length (pipe_bytes q) < PIPESIZE"
    using that ring_push(1) [OF pipe_size(1) _ pipe_size(2), of "pi_nwrite q" "pi_nread q"]
      ring_push(2) [OF pipe_size(1) _ pipe_size(2), of "pi_nwrite q" "pi_nread q" "pi_data q" x]
    by (simp add: pipe_valid_def pipe_bytes_def pipe_push_def)
  show "pipe_valid (snd (pipe_pop q)) \<and> pipe_bytes q = fst (pipe_pop q) # pipe_bytes (snd (pipe_pop q))" if "pipe_bytes q \<noteq> []"
  proof -
    have "pi_nread q \<noteq> pi_nwrite q" using that pipe_empty by blast
    then show ?thesis using q ring_pop(1) [OF pipe_size(1), of "pi_nread q" "pi_nwrite q"]
        ring_pop(2) [OF pipe_size(1), of "pi_nread q" "pi_nwrite q" "pi_data q"]
      by (simp add: pipe_valid_def pipe_bytes_def pipe_pop_def)
  qed
qed

lemma pipe_push_open [simp]: "pi_readopen (pipe_push c x) = pi_readopen x"
  by (simp add: pipe_push_def)

section \<open>Writing\<close>

definition user_bytes :: "memory \<Rightarrow> pagetable_t \<Rightarrow> u64 \<Rightarrow> nat \<Rightarrow> nat \<Rightarrow> byte list" where
  "user_bytes m root addr i k = map (\<lambda>j. m (uaddr m root (addr + of_nat j))) [i..<i + k]"

lemma user_bytes_Suc: "user_bytes m root addr i (Suc k) = m (uaddr m root (addr + of_nat i)) # user_bytes m root addr (Suc i) k"
  by (simp add: user_bytes_def upt_conv_Cons del: upt_Suc)

lemma copyin_byte:
  assumes "pt_wf e (mem s) root" "umapped (mem s) root va"
  shows "copyin root dst va 1 s = Ok (0, \<lambda>k. if k = 0 then mem s (uaddr (mem s) root va) else dst k)"
  using copyin_loop_mapped [OF assms(1), of 1 va dst 0] assms(2) by (simp add: copyin_def fun_eq_iff)

lemma pipewrite_loop_room:
  assumes "pt_wf e (mem s) (p_pagetable (proc s (this_proc s)))" "p_killed (proc s (this_proc s)) = 0"
    and "pipe_valid (pipes s pi)" "pi_readopen (pipes s pi)" "length (pipe_bytes (pipes s pi)) + k \<le> PIPESIZE"
    and "\<forall>j. i \<le> j \<and> j < i + k \<longrightarrow> umapped (mem s) (p_pagetable (proc s (this_proc s))) (addr + of_nat j)"
  shows "pipewrite_loop pi addr i k env s =
    Ok (Some (i + k), upd_pipe pi (fold pipe_push (user_bytes (mem s) (p_pagetable (proc s (this_proc s))) addr i k)) s)"
  using assms
proof (induction k arbitrary: i s)
  case 0
  then show ?case by (simp add: user_bytes_def upd_pipe_def)
next
  case (Suc k)
  let ?root = "p_pagetable (proc s (this_proc s))" let ?b = "mem s (uaddr (mem s) ?root (addr + of_nat i))"
  let ?t = "upd_pipe pi (pipe_push ?b) s"
  have nf: "pi_nwrite (pipes s pi) \<noteq> pi_nread (pipes s pi) + of_nat PIPESIZE"
    using Suc.prems(5) by (simp add: pipe_full)
  have c: "copyin ?root (\<lambda>_. 0) (addr + of_nat i) 1 s = Ok (0, \<lambda>k. if k = 0 then ?b else 0)"
    using copyin_byte [OF Suc.prems(1)] Suc.prems(6) by simp
  have one: "pipewrite_loop pi addr i (Suc k) env s = pipewrite_loop pi addr (Suc i) k env ?t"
    using nf Suc.prems(2,4) by (subst pipewrite_loop.simps(2)) (simp add: Let_def c pipe_push_def [abs_def])
  have t: "mem ?t = mem s" "proc ?t = proc s" "this_proc ?t = this_proc s" "pipes ?t pi = pipe_push ?b (pipes s pi)"
    by (simp_all add: upd_pipe_def this_proc_def myproc_def)
  have "pipe_valid (pipes ?t pi)" "length (pipe_bytes (pipes ?t pi)) + k \<le> PIPESIZE"
    using pp.push_law [of "pipes s pi" ?b] Suc.prems(3,5) unfolding t by auto
  then have "pipewrite_loop pi addr (Suc i) k env ?t =
      Ok (Some (Suc i + k), upd_pipe pi (fold pipe_push (user_bytes (mem s) ?root addr (Suc i) k)) ?t)"
    using Suc.IH [of ?t "Suc i"] Suc.prems by (simp only: t pipe_push_open) auto
  then show ?case unfolding one user_bytes_Suc by (simp add: upd_pipe_def)
qed

text \<open>
  C10: \<^verbatim>\<open>pipewrite\<close> with room for all bytes returns their number, appends them to the bytes in the pipe in the
  order of the user buffer, wakes the readers and changes nothing else; the pipe then still holds at
  most 512 bytes, whether or not a counter wrapped around.
\<close>

theorem pipewrite_appends:
  assumes "no_proc_lock s" "L_pipe pi \<notin> set (held s)" "p_killed (proc s (this_proc s)) = 0"
    and "pipe_valid (pipes s pi)" "pi_readopen (pipes s pi)" "length (pipe_bytes (pipes s pi)) + nat n \<le> PIPESIZE"
    and "p_pagetable (proc s (this_proc s)) = root" "pt_wf e (mem s) root" "\<forall>j < nat n. umapped (mem s) root (addr + of_nat j)"
  shows "\<exists>x. pipewrite pi addr n env s = Ok (int (nat n), (woken (Chan_pipe_nread pi) s)\<lparr>pipes := (pipes s)(pi := x)\<rparr>) \<and>
    pipe_valid x \<and> pipe_bytes x = pipe_bytes (pipes s pi) @ user_bytes (mem s) root addr 0 (nat n)"
proof -
  define x where "x = fold pipe_push (user_bytes (mem s) root addr 0 (nat n)) (pipes s pi)"
  define u where "u = s\<lparr>held := L_pipe pi # held s\<rparr>"
  have u: "mem u = mem s" "proc u = proc s" "this_proc u = this_proc s" "pipes u = pipes s"
    by (simp_all add: u_def this_proc_def myproc_def)
  have "pipewrite_loop pi addr 0 (nat n) env u = Ok (Some (nat n), upd_pipe pi (\<lambda>_. x) u)"
    using pipewrite_loop_room [of e u pi "nat n" 0 addr env] assms by (simp add: u x_def upd_pipe_def)
  moreover have "no_proc_lock (upd_pipe pi (\<lambda>_. x) u)" using assms(1) by (simp add: u_def upd_pipe_def no_proc_lock_def)
  ultimately have "pipewrite pi addr n env s = Ok (int (nat n), (woken (Chan_pipe_nread pi) s)\<lparr>pipes := (pipes s)(pi := x)\<rparr>)"
    using assms(2) by (simp add: pipewrite_def u_def [symmetric] wakeup_Ok) (simp add: u_def upd_pipe_def woken_def)
  moreover have "pipe_valid x \<and> pipe_bytes x = pipe_bytes (pipes s pi) @ user_bytes (mem s) root addr 0 (nat n)"
    using pp.pushes_items [of "pipes s pi" "user_bytes (mem s) root addr 0 (nat n)"] assms(4,6)
    by (simp add: x_def user_bytes_def)
  ultimately show ?thesis by blast
qed

text \<open>
  A machine for the witnesses: one process with a page of memory at address 0, and a pipe whose counters are about to wrap
  around.
\<close>

definition wrapping_pipe :: pipe where
  "wrapping_pipe = \<lparr>pi_data = (\<lambda>k. of_nat k), pi_nread = 0xFFFFFFFE, pi_nwrite = 0xFFFFFFFF, pi_readopen = True, pi_writeopen = True\<rparr>"

definition pipe_machine :: "memory \<Rightarrow> pagetable_t \<Rightarrow> pipest \<Rightarrow> bool" where
  "pipe_machine m root s \<longleftrightarrow> held s = [] \<and> mem s = m \<and> curproc s = Some 1 \<and> proc s = (\<lambda>i. (sample_proc i)\<lparr>p_pagetable := root\<rparr>) \<and>
     pipes s = (\<lambda>_. wrapping_pipe)"

lemma pipe_machine_exists: "\<exists>s. pipe_machine m root s"
proof -
  have "pipe_machine m root ((undefined :: pipest)\<lparr>held := [], mem := m, curproc := Some 1,
      proc := (\<lambda>i. (sample_proc i)\<lparr>p_pagetable := root\<rparr>), pipes := (\<lambda>_. wrapping_pipe)\<rparr>)" by (simp add: pipe_machine_def)
  then show ?thesis by blast
qed

lemma wrapping_pipe: "pipe_valid wrapping_pipe" "pipe_bytes wrapping_pipe = [254]" "pi_readopen wrapping_pipe"
  by (simp_all add: wrapping_pipe_def pipe_valid_def pipe_bytes_def ring_items_def PIPESIZE_def)

lemma pipe_machine_facts:
  assumes "pipe_machine m root s"
  shows "no_proc_lock s" "L_pipe a \<notin> set (held s)" "mem s = m" "p_killed (proc s (this_proc s)) = 0"
    "p_pagetable (proc s (this_proc s)) = root" "pipes s a = wrapping_pipe"
  using assms by (simp_all add: pipe_machine_def no_proc_lock_def this_proc_def myproc_def sample_proc_def)

theorem pipewrite_appends_witness:
  "\<exists>(s :: pipest) t. pipewrite 0 10 4 [] s = Ok (4, t) \<and> pipe_valid (pipes t 0) \<and>
    pipe_bytes (pipes s 0) = [254] \<and> length (pipe_bytes (pipes t 0)) = 5"
proof -
  obtain k root ps where op: "one_page k root ps" using one_page_exists by blast
  obtain s where s: "pipe_machine (mem k) root s" using pipe_machine_exists by blast
  note f = pipe_machine_facts [OF s]
  have u: "\<forall>j < nat 4. umapped (mem s) root (10 + of_nat j)"
    using one_page_range [OF op, of 10 4] unfolding f(3) user_range_def by simp
  have r: "length (pipe_bytes (pipes s 0)) + nat 4 \<le> PIPESIZE" unfolding f(6) by (simp add: wrapping_pipe PIPESIZE_def)
  from pipewrite_appends [of s 0 4 root _ 10 "[]", OF f(1,2,4) _ _ r f(5) _ u] one_page_wf [OF op] f(3)
  show ?thesis unfolding f(6) by (fastforce simp: wrapping_pipe f(6) user_bytes_def)
qed

section \<open>Reading\<close>

text \<open>One byte copied out.\<close>

lemma copyout_byte:
  assumes "pt_wf e (mem s) root" "user_range (mem s) root va 1"
  shows "copyout root va (\<lambda>_. c) 1 s = Ok (0, s\<lparr>mem := (mem s)(uaddr (mem s) root va := c)\<rparr>)"
proof -
  obtain m where m: "copyout root va (\<lambda>_. c) 1 s = Ok (0, s\<lparr>mem := m\<rparr>)" "m (uaddr (mem s) root va) = c"
    "\<forall>a. a \<noteq> uaddr (mem s) root va \<longrightarrow> m a = mem s a"
    using copyout_loop_spec [OF assms(1), of va 1 "\<lambda>_. c" 0] assms(2) by (auto simp: copyout_def)
  then have "m = (mem s)(uaddr (mem s) root va := c)" by (auto simp: fun_eq_iff)
  then show ?thesis using m(1) by simp
qed

lemma user_range_sub: "user_range m root va n \<Longrightarrow> i + k \<le> n \<Longrightarrow> user_range m root (va + of_nat i) k"
  unfolding user_range_def by (simp add: add.assoc flip: of_nat_add)

lemma store_user_byte:
  assumes "pt_wf e m root" "user_range m root va n" "j < n" "m' = m(uaddr m root (va + of_nat j) := c)"
  shows "pt_wf e m' root" "uaddr m' root = uaddr m root" "user_range m' root va n"
proof -
  have "PGROUNDDOWN (uaddr m root (va + of_nat j)) \<notin> pt_pages m root"
    using assms(2,3) by (simp add: PGROUNDDOWN_upa_offset user_range_def)
  then have fr: "m' a = m a" if "PGROUNDDOWN a \<in> pt_pages m root" for a
    using that assms(4) by auto
  note * = translation_frame [OF assms(1) fr]
  show "pt_wf e m' root" "uaddr m' root = uaddr m root" using * by blast+
  show "user_range m' root va n" using assms(2) unfolding user_range_def by (simp only: *)
qed

text \<open>User memory with the bytes stored from byte \<open>i\<close> of the buffer on.\<close>

fun store_user :: "pagetable_t \<Rightarrow> u64 \<Rightarrow> nat \<Rightarrow> byte list \<Rightarrow> memory \<Rightarrow> memory" where
  "store_user root addr i [] m = m"
| "store_user root addr i (c # cs) m = store_user root addr (Suc i) cs (m(uaddr m root (addr + of_nat i) := c))"

lemma piperead_copy_bytes:
  assumes "pt_wf e (mem s) (p_pagetable (proc s (this_proc s)))"
    and "user_range (mem s) (p_pagetable (proc s (this_proc s))) addr n" "i + k \<le> n"
    and "pipe_valid (pipes s pi)" "k = min N (length (pipe_bytes (pipes s pi)))"
  shows "piperead_copy pi addr i N s =
    Ok (i + k, s\<lparr>pipes := (pipes s)(pi := snd (pops pipe_pop k (pipes s pi))),
      mem := store_user (p_pagetable (proc s (this_proc s))) addr i (fst (pops pipe_pop k (pipes s pi))) (mem s)\<rparr>)"
  using assms
proof (induction N arbitrary: i k s)
  case (Suc N)
  show ?case
  proof (cases "pipe_bytes (pipes s pi) = []")
    case True
    then show ?thesis using Suc.prems(5) pipe_empty [of "pipes s pi"] by simp
  next
    case ne: False
    then have "0 < k" using Suc.prems(5) by simp
    then obtain l where k: "k = Suc l" by (cases k) auto
    let ?root = "p_pagetable (proc s (this_proc s))"
    let ?c = "fst (pipe_pop (pipes s pi))" let ?q = "snd (pipe_pop (pipes s pi))"
    define t where "t = s\<lparr>pipes := (pipes s)(pi := ?q), mem := (mem s)(uaddr (mem s) ?root (addr + of_nat i) := ?c)\<rparr>"
    have u: "user_range (mem s) ?root (addr + of_nat i) 1" using user_range_sub [OF Suc.prems(2), of i 1] Suc.prems(3) k by simp
    have one: "piperead_copy pi addr i (Suc N) s = piperead_copy pi addr (Suc i) N t"
      using ne copyout_byte [of e "upd_pipe pi (\<lambda>x. x\<lparr>pi_nread := pi_nread x + 1\<rparr>) s" ?root "addr + of_nat i" ?c] Suc.prems(1) u
      by (simp add: pipe_empty upd_pipe_def this_proc_def myproc_def Let_def pipe_pop_def t_def)
    have tf: "proc t = proc s" "this_proc t = this_proc s" "pipes t pi = ?q"
      "mem t = (mem s)(uaddr (mem s) ?root (addr + of_nat i) := ?c)" by (simp_all add: t_def this_proc_def myproc_def)
    have i: "i < n" using Suc.prems(3) k by simp
    note st = store_user_byte [OF Suc.prems(1,2) i tf(4)]
    have "pipe_valid ?q" "l = min N (length (pipe_bytes ?q))" using pp.pop_law [OF Suc.prems(4) ne] Suc.prems(5) k by auto
    then have "piperead_copy pi addr (Suc i) N t =
      Ok (Suc i + l, t\<lparr>pipes := (pipes t)(pi := snd (pops pipe_pop l ?q)), mem := store_user ?root addr (Suc i) (fst (pops pipe_pop l ?q)) (mem t)\<rparr>)"
      using Suc.IH [of t "Suc i" l] st Suc.prems(3) k unfolding tf(1-3) by (simp add: fun_upd_def)
    then show ?thesis unfolding one k pops_Suc by (simp add: t_def) (simp add: fun_upd_def)
  qed
qed simp

lemma store_user_effect:
  assumes "pt_wf e m root" "user_range m root addr n" "i + length cs \<le> n" "n \<le> 2 ^ 64"
  shows "(\<forall>j < length cs. store_user root addr i cs m (uaddr m root (addr + of_nat (i + j))) = cs ! j) \<and>
    (\<forall>a. (\<forall>j < length cs. a \<noteq> uaddr m root (addr + of_nat (i + j))) \<longrightarrow> store_user root addr i cs m a = m a)"
  using assms(1-3)
proof (induction cs arbitrary: i m)
  case (Cons c cs)
  define m' where m': "m' = m(uaddr m root (addr + of_nat i) := c)"
  have i: "i < n" using Cons.prems(3) by simp
  note st = store_user_byte [OF Cons.prems(1,2) i m']
  have s: "store_user root addr i (c # cs) m = store_user root addr (Suc i) cs m'" by (simp add: m')
  have IH: "\<forall>j < length cs. store_user root addr (Suc i) cs m' (uaddr m root (addr + of_nat (Suc i + j))) = cs ! j"
    "\<And>a. (\<forall>j < length cs. a \<noteq> uaddr m root (addr + of_nat (Suc i + j))) \<Longrightarrow> store_user root addr (Suc i) cs m' a = m' a"
    using Cons.IH [OF st(1,3), of "Suc i"] Cons.prems(3) unfolding st(2) by auto
  have ne: "uaddr m root (addr + of_nat (i + j)) \<noteq> uaddr m root (addr + of_nat i)" if "0 < j" "i + j < n" for j
    using uaddr_inj [OF Cons.prems(2) that(2) i assms(4)] that(1) by auto
  have "store_user root addr i (c # cs) m (uaddr m root (addr + of_nat (i + j))) = (c # cs) ! j" if "j < length (c # cs)" for j
  proof (cases j)
    case 0
    have "uaddr m root (addr + of_nat i) \<noteq> uaddr m root (addr + of_nat (Suc i + k))" if "k < length cs" for k
      using ne [of "Suc k"] that Cons.prems(3) by simp
    then have "store_user root addr (Suc i) cs m' (uaddr m root (addr + of_nat i)) = c" using IH(2) by (simp add: m')
    then show ?thesis using 0 by (simp add: s del: store_user.simps)
  next
    case (Suc k)
    then have "store_user root addr (Suc i) cs m' (uaddr m root (addr + of_nat (i + j))) = cs ! k" using IH(1) that by simp
    then show ?thesis using Suc by (simp add: s del: store_user.simps)
  qed
  moreover have "store_user root addr i (c # cs) m a = m a" if a: "\<forall>j < length (c # cs). a \<noteq> uaddr m root (addr + of_nat (i + j))" for a
  proof -
    have "\<forall>j < length cs. a \<noteq> uaddr m root (addr + of_nat (Suc i + j))" using a by fastforce
    then have "store_user root addr (Suc i) cs m' a = m' a" by (rule IH(2))
    moreover have "a \<noteq> uaddr m root (addr + of_nat i)" using a [rule_format, of 0] by simp
    ultimately show ?thesis by (simp add: s m' del: store_user.simps)
  qed
  ultimately show ?case by blast
qed simp

text \<open>
  C11: \<^verbatim>\<open>piperead\<close> on a pipe that is not empty, or whose writer is gone, returns the smaller of the number
  asked for and the number of bytes in the pipe, stores the oldest bytes in order in user memory and no
  other byte of memory, removes them from the pipe, and wakes the writers.
\<close>

theorem piperead_takes:
  assumes "no_proc_lock s" "L_pipe pi \<notin> set (held s)" "pipe_valid (pipes s pi)"
    and "pipe_bytes (pipes s pi) \<noteq> [] \<or> \<not> pi_writeopen (pipes s pi)" "k = min (nat n) (length (pipe_bytes (pipes s pi)))"
    and "p_pagetable (proc s (this_proc s)) = root" "pt_wf e (mem s) root" "user_range (mem s) root addr k"
  shows "\<exists>x m. piperead pi addr n env s = Ok (int k, (woken (Chan_pipe_nwrite pi) s)\<lparr>pipes := (pipes s)(pi := x), mem := m\<rparr>) \<and>
    pipe_valid x \<and> pipe_bytes x = drop k (pipe_bytes (pipes s pi)) \<and>
    (\<forall>j < k. m (uaddr (mem s) root (addr + of_nat j)) = pipe_bytes (pipes s pi) ! j) \<and>
    (\<forall>a. (\<forall>j < k. a \<noteq> uaddr (mem s) root (addr + of_nat j)) \<longrightarrow> m a = mem s a)"
proof -
  define u where "u = s\<lparr>held := L_pipe pi # held s\<rparr>"
  have u: "mem u = mem s" "proc u = proc s" "this_proc u = this_proc s" "pipes u = pipes s"
    by (simp_all add: u_def this_proc_def myproc_def)
  note q = pp.pops_items [OF assms(3), of k]
  have kle: "k \<le> length (pipe_bytes (pipes s pi))" "k \<le> 2 ^ 64"
    using assms(3,5) by (auto simp: pipe_valid_def pipe_bytes_def PIPESIZE_def)
  let ?m = "store_user root addr 0 (take k (pipe_bytes (pipes s pi))) (mem s)" let ?x = "snd (pops pipe_pop k (pipes s pi))"
  have c: "piperead_copy pi addr 0 (nat n) u = Ok (k, u\<lparr>pipes := (pipes s)(pi := ?x), mem := ?m\<rparr>)"
    using piperead_copy_bytes [of e u addr k 0 k pi "nat n"] assms(3,5-8) kle q by (simp add: u)
  have l: "no_proc_lock (u\<lparr>pipes := (pipes s)(pi := ?x), mem := ?m\<rparr>)" using assms(1) by (simp add: u_def no_proc_lock_def)
  have "\<not> (pi_nread (pipes u pi) = pi_nwrite (pipes u pi) \<and> pi_writeopen (pipes u pi))"
    using assms(4) pipe_empty [of "pipes s pi"] u by auto
  then have "sleep_loop (\<lambda>s. if pi_nread (pipes s pi) = pi_nwrite (pipes s pi) \<and> pi_writeopen (pipes s pi) then
        if p_killed (proc s p) \<noteq> 0 then rbind (release (L_pipe pi) s) (\<lambda>s. Ok (Some False, s)) else Ok (None, s)
      else Ok (Some True, s)) (Chan_pipe_nread pi) (L_pipe pi) env u = Ok (True, env, u)" for p
    by (intro sleep_loop_now) (simp only: if_False)
  then have "piperead pi addr n env s = Ok (int k, (woken (Chan_pipe_nwrite pi) s)\<lparr>pipes := (pipes s)(pi := ?x), mem := ?m\<rparr>)"
    using assms(2) c by (simp add: piperead_def u_def [symmetric] wakeup_Ok [OF l]) (simp add: u_def woken_def)
  then show ?thesis using q kle store_user_effect [OF assms(7,8), of 0 "take k (pipe_bytes (pipes s pi))"]
    by auto
qed

theorem piperead_takes_witness:
  "\<exists>(s :: pipest) t. piperead 0 10 4 [] s = Ok (1, t) \<and> pipe_bytes (pipes s 0) = [254] \<and> pipe_bytes (pipes t 0) = []"
proof -
  obtain k root ps where op: "one_page k root ps" using one_page_exists by blast
  obtain s where s: "pipe_machine (mem k) root s" using pipe_machine_exists by blast
  note f = pipe_machine_facts [OF s]
  have b: "pipe_bytes (pipes s 0) \<noteq> [] \<or> \<not> pi_writeopen (pipes s 0)" "1 = min (nat 4) (length (pipe_bytes (pipes s 0)))"
    "pipe_valid (pipes s 0)" unfolding f(6) by (simp_all add: wrapping_pipe)
  have u: "pt_wf 0x80026018 (mem s) root" "user_range (mem s) root 10 1"
    using one_page_wf [OF op] one_page_range [OF op, of 10 1] unfolding f(3) by simp_all
  from piperead_takes [OF f(1,2) b(3,1,2) f(5) u] show ?thesis
    unfolding f(6) by (fastforce simp: wrapping_pipe f(6))
qed

end
