(* ===== verification/Sh.thy ===== *)
theory Sh
  imports CString
begin

text \<open>
  The command parser of the shell, \<^verbatim>\<open>user/sh.c\<close>. A pointer into the line is the bytes from there to its
  end \<^verbatim>\<open>es\<close>, and the string between two pointers \<^verbatim>\<open>q\<close> and \<^verbatim>\<open>eq\<close>, which \<^verbatim>\<open>nulterminate\<close> makes a C string, is
  the list of its bytes. \<^verbatim>\<open>panic\<close> ends the shell's child with a message.
\<close>

section \<open>Commands\<close>

datatype cmd =
    EXEC "byte list list"
  | REDIR cmd "byte list" u32 nat
  | PIPE cmd cmd
  | LIST cmd cmd
  | BACK cmd

definition MAXARGS :: nat where "MAXARGS = 10"

text \<open>The modes of \<^verbatim>\<open>kernel/fcntl.h\<close> that the parser uses.\<close>

definition O_RD :: u32 where "O_RD = 0x000"
definition O_WR_TRUNC :: u32 where "O_WR_TRUNC = 0x001 OR 0x200 OR 0x400"
definition O_WR_APPEND :: u32 where "O_WR_APPEND = 0x001 OR 0x200"

section \<open>Tokens\<close>

text \<open>\<^verbatim>\<open>" \t\r\n\v"\<close> and \<^verbatim>\<open>"<|>&;()"\<close>\<close>

definition whitespace :: "byte list" where "whitespace = [32, 9, 13, 10, 11]"
definition symbols :: "byte list" where "symbols = [60, 124, 62, 38, 59, 40, 41]"

abbreviation skip_ws :: "byte list \<Rightarrow> byte list" where
  "skip_ws \<equiv> dropWhile (\<lambda>c. c \<in> set whitespace)"

text \<open>The value returned, the token, and where parsing goes on. \<^verbatim>\<open>'a'\<close> is 97 and \<^verbatim>\<open>'+'\<close> is 43.\<close>

definition gettoken :: "byte list \<Rightarrow> byte \<times> byte list \<times> byte list" where
  "gettoken s =
     (case skip_ws s of
        [] \<Rightarrow> (0, [], [])
      | c # r \<Rightarrow>
          if c \<in> {124, 40, 41, 59, 38, 60} then (c, [c], skip_ws r)
          else if c = 62 then
            (case r of
               d # r' \<Rightarrow> if d = 62 then (43, [62, 62], skip_ws r') else (62, [62], skip_ws r)
             | [] \<Rightarrow> (62, [62], []))
          else
            (let p = (\<lambda>c. c \<notin> set whitespace \<and> c \<notin> set symbols) in
             (97, takeWhile p (c # r), skip_ws (dropWhile p (c # r)))))"

definition peek :: "byte list \<Rightarrow> byte list \<Rightarrow> bool \<times> byte list" where
  "peek toks s = (let s = skip_ws s in (s \<noteq> [] \<and> hd s \<in> set toks, s))"

lemma skip_ws_length: "length (skip_ws s) \<le> length s"
  by (rule length_dropWhile_le)

lemma gettoken_length:
  assumes "skip_ws s \<noteq> []"
  shows "length (snd (snd (gettoken s))) < length s"
proof -
  obtain c r where s: "skip_ws s = c # r" using assms by (cases "skip_ws s") auto
  then have c: "c \<notin> set whitespace" using hd_dropWhile [of "\<lambda>c. c \<in> set whitespace" s] by simp
  have "length (snd (snd (gettoken s))) \<le> length r"
  proof (cases "c \<in> {124, 40, 41, 59, 38, 60, 62}")
    case True
    then show ?thesis using s skip_ws_length [of r] skip_ws_length [of "tl r"]
      by (auto simp: gettoken_def split: list.split)
  next
    case False
    then have "c \<notin> set symbols" by (auto simp: symbols_def)
    then show ?thesis using False s c
      by (simp add: gettoken_def Let_def) (meson length_dropWhile_le order_trans)
  qed
  then show ?thesis using s skip_ws_length [of s] by simp
qed

lemma gettoken_Nil: "skip_ws s = [] \<Longrightarrow> gettoken s = (0, [], [])"
  by (simp add: gettoken_def del: dropWhile_eq_Nil_conv)

lemma gettoken_length_le: "length (snd (snd (gettoken s))) \<le> length s"
proof (cases "skip_ws s = []")
  case True
  then show ?thesis by (simp add: gettoken_Nil del: dropWhile_eq_Nil_conv)
next
  case False
  then show ?thesis using gettoken_length [of s] by simp
qed

lemma peek_length: "length (snd (peek toks s)) \<le> length s"
  by (simp add: peek_def Let_def skip_ws_length)

lemma peek_gettoken_length:
  assumes "fst (peek toks s)"
  shows "length (snd (snd (gettoken (snd (peek toks s))))) < length s"
proof -
  have "skip_ws (snd (peek toks s)) \<noteq> []" using assms by (simp add: peek_def Let_def dropWhile_idem)
  then show ?thesis using gettoken_length peek_length order_less_le_trans by blast
qed

text \<open>What tokens and peeks leave of the line, in the form the definitions use.\<close>

lemma token_lengths:
  "(t, q, s') = gettoken s \<Longrightarrow> length s' \<le> length s"
  "(t, q, s') = gettoken s \<Longrightarrow> t \<noteq> 0 \<Longrightarrow> length s' < length s"
  "(b, s') = peek toks s \<Longrightarrow> length s' \<le> length s"
  using gettoken_length_le [of s] gettoken_length [of s] peek_length [of toks s] gettoken_Nil [of s]
  by (metis snd_conv, metis fst_conv snd_conv, metis snd_conv)

lemma peek_token_length: "(True, s1) = peek toks s \<Longrightarrow> (t, q, s') = gettoken s1 \<Longrightarrow> length s' < length s"
  using peek_gettoken_length [of toks s] by (metis fst_conv snd_conv)

lemma redir_length:
  "(True, s1) = peek toks s \<Longrightarrow> (t, q, s2) = gettoken s1 \<Longrightarrow> (t', q', s3) = gettoken s2 \<Longrightarrow> length s3 < length s"
  using peek_token_length token_lengths(1) order_le_less_trans by blast

lemma arg_length:
  "(b, s1) = peek toks s \<Longrightarrow> (97, q, s2) = gettoken s1 \<Longrightarrow> length s2 < length s"
  using token_lengths(2) [of 97 q s2 s1] token_lengths(3) [of b s1 toks s] by simp

section \<open>The parser\<close>

function parseredirs :: "cmd \<Rightarrow> byte list \<Rightarrow> (cmd \<times> byte list) outcome" where
  "parseredirs cmd s =
     (let (b, s) = peek [60, 62] s in
      if b then
        (let (tok, _, s) = gettoken s;
             (t, q, s) = gettoken s in
         if t \<noteq> 97 then Panic ''missing file for redirection''
         else if tok = 60 then parseredirs (REDIR cmd q O_RD 0) s
         else if tok = 62 then parseredirs (REDIR cmd q O_WR_TRUNC 1) s
         else parseredirs (REDIR cmd q O_WR_APPEND 1) s)
      else Ok (cmd, s))"
  by pat_completeness auto
termination
proof (relation "measure (\<lambda>(cmd, s). length s)", goal_cases)
  case 1
  show ?case by simp
qed (auto dest: redir_length)

declare parseredirs.simps [simp del]

lemma parseredirs_length: "parseredirs cmd s = Ok (cmd', s') \<Longrightarrow> length s' \<le> length s"
proof (induction cmd s rule: parseredirs.induct)
  case (1 cmd s)
  obtain b s1 where p: "peek [60, 62] s = (b, s1)" by fastforce
  obtain tok x s2 where t: "gettoken s1 = (tok, x, s2)" by (cases "gettoken s1") auto
  obtain t' q s3 where q: "gettoken s2 = (t', q, s3)" by (cases "gettoken s2") auto
  show ?case
  proof (cases b)
    case True
    have "length s3 < length s" using redir_length [of s1 "[60, 62]" s tok x s2 t' q s3] p t q True by simp
    moreover have "length s' \<le> length s3"
      using "1.prems" "1.IH" [OF p [symmetric] refl True t [symmetric] refl refl q [symmetric] refl refl]
      by (subst (asm) (1) parseredirs.simps) (auto simp: p t q True split: if_splits)
    ultimately show ?thesis by simp
  next
    case False
    then show ?thesis using "1.prems" token_lengths(3) [OF p [symmetric]]
      by (subst (asm) parseredirs.simps) (simp add: p)
  qed
qed

text \<open>\<^verbatim>\<open>cmd->argv[argc] = q\<close> in the \<^verbatim>\<open>execcmd\<close> inside the redirections.\<close>

fun add_arg :: "byte list \<Rightarrow> cmd \<Rightarrow> cmd" where
  "add_arg q (EXEC argv) = EXEC (argv @ [q])"
| "add_arg q (REDIR c f m fd) = REDIR (add_arg q c) f m fd"
| "add_arg q c = c"

function parseexec_loop :: "nat \<Rightarrow> cmd \<Rightarrow> byte list \<Rightarrow> (cmd \<times> byte list) outcome" where
  "parseexec_loop argc ret s =
     (let (b, s) = peek [124, 41, 38, 59] s in
      if b then Ok (ret, s)
      else
        (let (tok, q, s) = gettoken s in
         if tok = 0 then Ok (ret, s)
         else if tok \<noteq> 97 then Panic ''syntax''
         else if argc + 1 \<ge> MAXARGS then Panic ''too many args''
         else rbind (parseredirs (add_arg q ret) s) (\<lambda>(ret, s). parseexec_loop (argc + 1) ret s)))"
  by pat_completeness auto
termination
proof (relation "measure (\<lambda>(argc, ret, s). length s)", goal_cases)
  case 1
  show ?case by simp
qed (auto dest!: arg_length dest: parseredirs_length order_le_less_trans)

declare parseexec_loop.simps [simp del]

text \<open>\<^verbatim>\<open>while(peek(ps, es, "&"))\<close> of \<^verbatim>\<open>parseline\<close>\<close>

function parseback :: "cmd \<Rightarrow> byte list \<Rightarrow> cmd \<times> byte list" where
  "parseback cmd s =
     (let (b, s) = peek [38] s in
      if b then (let (_, _, s) = gettoken s in parseback (BACK cmd) s) else (cmd, s))"
  by pat_completeness auto
termination
proof (relation "measure (\<lambda>(cmd, s). length s)", goal_cases)
  case 1
  show ?case by simp
qed (auto dest: peek_token_length)

declare parseback.simps [simp del]

text \<open>The mutual recursion, bounded by the first argument.\<close>

fun parseline :: "nat \<Rightarrow> byte list \<Rightarrow> (cmd \<times> byte list) outcome"
and parsepipe :: "nat \<Rightarrow> byte list \<Rightarrow> (cmd \<times> byte list) outcome"
and parseexec :: "nat \<Rightarrow> byte list \<Rightarrow> (cmd \<times> byte list) outcome"
and parseblock :: "nat \<Rightarrow> byte list \<Rightarrow> (cmd \<times> byte list) outcome" where
  "parseline 0 s = Unfinished"
| "parseline (Suc n) s =
     rbind (parsepipe n s) (\<lambda>(cmd, s).
     let (cmd, s) = parseback cmd s;
         (b, s) = peek [59] s in
     if b then
       (let (_, _, s) = gettoken s in
        rbind (parseline n s) (\<lambda>(cmd2, s). Ok (LIST cmd cmd2, s)))
     else Ok (cmd, s))"
| "parsepipe 0 s = Unfinished"
| "parsepipe (Suc n) s =
     rbind (parseexec n s) (\<lambda>(cmd, s).
     let (b, s) = peek [124] s in
     if b then
       (let (_, _, s) = gettoken s in
        rbind (parsepipe n s) (\<lambda>(cmd2, s). Ok (PIPE cmd cmd2, s)))
     else Ok (cmd, s))"
| "parseexec 0 s = Unfinished"
| "parseexec (Suc n) s =
     (let (b, s) = peek [40] s in
      if b then parseblock n s
      else rbind (parseredirs (EXEC []) s) (\<lambda>(ret, s). parseexec_loop 0 ret s))"
| "parseblock 0 s = Unfinished"
| "parseblock (Suc n) s =
     (let (b, s) = peek [40] s in
      if \<not> b then Panic ''parseblock''
      else
        (let (_, _, s) = gettoken s in
         rbind (parseline n s) (\<lambda>(cmd, s).
         let (b, s) = peek [41] s in
         if \<not> b then Panic ''syntax - missing )''
         else (let (_, _, s) = gettoken s in parseredirs cmd s))))"

text \<open>A level of parentheses takes four calls and at least one byte.\<close>

definition parsecmd :: "byte list \<Rightarrow> cmd outcome" where
  "parsecmd s =
     rbind (parseline (4 * length s + 4) s) (\<lambda>(cmd, s).
     let (_, s) = peek [] s in
     if s \<noteq> [] then Panic ''syntax'' else Ok cmd)"

section \<open>The parser returns\<close>

fun returned :: "'a outcome \<Rightarrow> bool" where
  "returned (Ok _) = True"
| "returned (Panic _) = True"
| "returned _ = False"

lemma returned_rbind: "returned (rbind m f) \<longleftrightarrow> returned m \<and> (\<forall>x. m = Ok x \<longrightarrow> returned (f x))"
  by (cases m) auto

lemma parseredirs_returns: "returned (parseredirs cmd s)"
proof (induction cmd s rule: parseredirs.induct)
  case (1 cmd s)
  show ?case by (subst parseredirs.simps) (auto simp: Let_def 1 simp del: One_nat_def split: prod.split)
qed

lemma parseexec_loop_eq:
  assumes "peek [124, 41, 38, 59] s = (b, s1)" "gettoken s1 = (tok, q, s2)"
  shows "parseexec_loop argc ret s =
    (if b then Ok (ret, s1)
     else if tok = 0 then Ok (ret, s2)
     else if tok \<noteq> 97 then Panic ''syntax''
     else if argc + 1 \<ge> MAXARGS then Panic ''too many args''
     else rbind (parseredirs (add_arg q ret) s2) (\<lambda>(ret, s). parseexec_loop (argc + 1) ret s))"
  by (subst parseexec_loop.simps) (simp only: assms Let_def prod.case)

lemma parseback_eq:
  assumes "peek [38] s = (b, s1)" "gettoken s1 = (tok, q, s2)"
  shows "parseback cmd s = (if b then parseback (BACK cmd) s2 else (cmd, s1))"
  by (subst parseback.simps) (simp only: assms Let_def prod.case)

lemma parseexec_loop_returns: "returned (parseexec_loop argc ret s)"
proof (induction argc ret s rule: parseexec_loop.induct)
  case (1 argc ret s)
  obtain b s1 where p: "peek [124, 41, 38, 59] s = (b, s1)" by fastforce
  obtain tok q s2 where t: "gettoken s1 = (tok, q, s2)" by (cases "gettoken s1") auto
  show ?case unfolding parseexec_loop_eq [OF p t]
    using parseredirs_returns [of "add_arg q ret" s2] 1 [OF p [symmetric] refl _ t [symmetric] refl refl]
    by (auto simp: returned_rbind split: if_splits)
qed

lemma parseexec_loop_length: "parseexec_loop argc ret s = Ok (c, s') \<Longrightarrow> length s' \<le> length s"
proof (induction argc ret s rule: parseexec_loop.induct)
  case (1 argc ret s)
  obtain b s1 where p: "peek [124, 41, 38, 59] s = (b, s1)" by fastforce
  obtain tok q s2 where t: "gettoken s1 = (tok, q, s2)" by (cases "gettoken s1") auto
  have le: "length s1 \<le> length s" "length s2 \<le> length s1"
    using token_lengths(3) [OF p [symmetric]] token_lengths(1) [OF t [symmetric]] by auto
  show ?case
  proof (cases "b \<or> tok = 0")
    case True
    then show ?thesis using "1.prems" le by (auto simp: parseexec_loop_eq [OF p t] split: if_splits)
  next
    case False
    then obtain ret' s3 where r: "tok = 97" "\<not> argc + 1 \<ge> MAXARGS" "parseredirs (add_arg q ret) s2 = Ok (ret', s3)"
        "parseexec_loop (argc + 1) ret' s3 = Ok (c, s')"
      using "1.prems" by (auto simp: parseexec_loop_eq [OF p t] rbind_Ok_iff split: if_splits)
    have "length s' \<le> length s3"
      using "1.IH" [OF p [symmetric] refl _ t [symmetric] refl refl _ _ _ r(3) refl r(4)] False r by simp
    then show ?thesis using le parseredirs_length [OF r(3)] by simp
  qed
qed

lemma parseback_length: "parseback cmd s = (c, s') \<Longrightarrow> length s' \<le> length s"
proof (induction cmd s rule: parseback.induct)
  case (1 cmd s)
  obtain b s1 where p: "peek [38] s = (b, s1)" by fastforce
  obtain tok q s2 where t: "gettoken s1 = (tok, q, s2)" by (cases "gettoken s1") auto
  show ?case
  proof (cases b)
    case True
    then have "length s' \<le> length s2"
      using "1.IH" [OF p [symmetric] refl True t [symmetric] refl refl] "1.prems" by (simp add: parseback_eq [OF p t])
    moreover have "length s2 < length s"
      using peek_token_length [OF _ t [symmetric], of "[38]" s] p True by simp
    ultimately show ?thesis by simp
  next
    case False
    then show ?thesis using "1.prems" token_lengths(3) [OF p [symmetric]] by (simp add: parseback_eq [OF p t])
  qed
qed

text \<open>The four functions, once the parts they look at are known.\<close>

lemma parseline_eq:
  assumes "parsepipe n s = Ok (c1, s1)" "parseback c1 s1 = (c2, s2)" "peek [59] s2 = (b, s3)" "gettoken s3 = (t, q, s4)"
  shows "parseline (Suc n) s = (if b then rbind (parseline n s4) (\<lambda>(d, s). Ok (LIST c2 d, s)) else Ok (c2, s3))"
  using assms by simp

lemma parsepipe_eq:
  assumes "parseexec n s = Ok (c1, s1)" "peek [124] s1 = (b, s3)" "gettoken s3 = (t, q, s4)"
  shows "parsepipe (Suc n) s = (if b then rbind (parsepipe n s4) (\<lambda>(d, s). Ok (PIPE c1 d, s)) else Ok (c1, s3))"
  using assms by simp

lemma parseblock_eq:
  assumes "peek [40] s = (True, s1)" "gettoken s1 = (t, q, s2)" "parseline n s2 = Ok (c, s3)"
    "peek [41] s3 = (b, s4)" "gettoken s4 = (t', q', s5)"
  shows "parseblock (Suc n) s = (if b then parseredirs c s5 else Panic ''syntax - missing )'')"
  using assms by simp

lemma parser_length:
  "(parseline n s = Ok (c, s') \<longrightarrow> length s' \<le> length s) \<and>
   (parsepipe n s = Ok (c, s') \<longrightarrow> length s' \<le> length s) \<and>
   (parseexec n s = Ok (c, s') \<longrightarrow> length s' \<le> length s) \<and>
   (parseblock n s = Ok (c, s') \<longrightarrow> length s' \<le> length s)"
proof (induction n arbitrary: s c s')
  case (Suc n)
  note IH = Suc.IH [THEN conjunct1, THEN mp] Suc.IH [THEN conjunct2, THEN conjunct1, THEN mp]
    Suc.IH [THEN conjunct2, THEN conjunct2, THEN conjunct1, THEN mp] Suc.IH [THEN conjunct2, THEN conjunct2, THEN conjunct2, THEN mp]
  have "length s' \<le> length s" if *: "parseline (Suc n) s = Ok (c, s')"
  proof -
    obtain c1 s1 where 1: "parsepipe n s = Ok (c1, s1)" using * by (auto simp: rbind_Ok_iff)
    obtain c2 s2 where 2: "parseback c1 s1 = (c2, s2)" by fastforce
    obtain b s3 where 3: "peek [59] s2 = (b, s3)" by fastforce
    obtain t q s4 where 4: "gettoken s3 = (t, q, s4)" by (cases "gettoken s3") auto
    have "length s3 \<le> length s" "length s4 \<le> length s3"
      using IH(2) [OF 1] parseback_length [OF 2] token_lengths(3) [OF 3 [symmetric]] token_lengths(1) [OF 4 [symmetric]] by auto
    then show ?thesis using * IH(1) [of s4] unfolding parseline_eq [OF 1 2 3 4]
      by (fastforce simp: rbind_Ok_iff split: if_splits)
  qed
  moreover have "length s' \<le> length s" if *: "parsepipe (Suc n) s = Ok (c, s')"
  proof -
    obtain c1 s1 where 1: "parseexec n s = Ok (c1, s1)" using * by (auto simp: rbind_Ok_iff)
    obtain b s3 where 3: "peek [124] s1 = (b, s3)" by fastforce
    obtain t q s4 where 4: "gettoken s3 = (t, q, s4)" by (cases "gettoken s3") auto
    have "length s3 \<le> length s" "length s4 \<le> length s3"
      using IH(3) [OF 1] token_lengths(3) [OF 3 [symmetric]] token_lengths(1) [OF 4 [symmetric]] by auto
    then show ?thesis using * IH(2) [of s4] unfolding parsepipe_eq [OF 1 3 4]
      by (fastforce simp: rbind_Ok_iff split: if_splits)
  qed
  moreover have "length s' \<le> length s" if *: "parseexec (Suc n) s = Ok (c, s')"
  proof -
    obtain b s1 where 1: "peek [40] s = (b, s1)" by fastforce
    show ?thesis using * IH(4) [of s1] token_lengths(3) [OF 1 [symmetric]]
      by (fastforce simp: 1 rbind_Ok_iff split: if_splits dest: parseredirs_length parseexec_loop_length)
  qed
  moreover have "length s' \<le> length s" if *: "parseblock (Suc n) s = Ok (c, s')"
  proof -
    obtain b s1 where 1: "peek [40] s = (b, s1)" by fastforce
    then have b: "b" using * by (auto split: if_splits)
    obtain t q s2 where 2: "gettoken s1 = (t, q, s2)" by (cases "gettoken s1") auto
    obtain c3 s3 where 3: "parseline n s2 = Ok (c3, s3)" using * b by (auto simp: 1 2 rbind_Ok_iff)
    obtain b4 s4 where 4: "peek [41] s3 = (b4, s4)" by fastforce
    obtain t' q' s5 where 5: "gettoken s4 = (t', q', s5)" by (cases "gettoken s4") auto
    have "length s5 \<le> length s"
      using token_lengths(3) [OF 1 [symmetric]] token_lengths(1) [OF 2 [symmetric]] IH(1) [OF 3]
        token_lengths(3) [OF 4 [symmetric]] token_lengths(1) [OF 5 [symmetric]] by simp
    moreover have "parseredirs c3 s5 = Ok (c, s')" using * 1 b parseblock_eq [of s s1 t q s2, OF _ 2 3 4 5]
      by (simp split: if_splits)
    ultimately show ?thesis using parseredirs_length by fastforce
  qed
  ultimately show ?case by blast
qed simp

lemma parser_fuel:
  "(4 * length s + 4 \<le> n \<longrightarrow> returned (parseline n s)) \<and>
   (4 * length s + 3 \<le> n \<longrightarrow> returned (parsepipe n s)) \<and>
   (4 * length s + 2 \<le> n \<longrightarrow> returned (parseexec n s)) \<and>
   (4 * length s + 1 \<le> n \<longrightarrow> returned (parseblock n s))"
proof (induction n arbitrary: s)
  case (Suc n)
  note IH = Suc.IH [THEN conjunct1, THEN mp] Suc.IH [THEN conjunct2, THEN conjunct1, THEN mp]
    Suc.IH [THEN conjunct2, THEN conjunct2, THEN conjunct1, THEN mp] Suc.IH [THEN conjunct2, THEN conjunct2, THEN conjunct2, THEN mp]
  note len = parser_length [THEN conjunct1, THEN mp] parser_length [THEN conjunct2, THEN conjunct1, THEN mp]
    parser_length [THEN conjunct2, THEN conjunct2, THEN conjunct1, THEN mp]
  have "returned (parseline (Suc n) s)" if f: "4 * length s + 4 \<le> Suc n"
  proof (cases "parsepipe n s")
    case (Ok x)
    then obtain c1 s1 where 1: "parsepipe n s = Ok (c1, s1)" by (cases x) auto
    obtain c2 s2 where 2: "parseback c1 s1 = (c2, s2)" by fastforce
    obtain b s3 where 3: "peek [59] s2 = (b, s3)" by fastforce
    obtain t q s4 where 4: "gettoken s3 = (t, q, s4)" by (cases "gettoken s3") auto
    have "b \<Longrightarrow> length s4 < length s"
      using len(2) [OF 1] parseback_length [OF 2] peek_token_length [of s3 "[59]" s2 t q s4] 3 4 by simp
    then have "b \<Longrightarrow> returned (parseline n s4)" using f IH(1) [of s4] by simp
    then show ?thesis unfolding parseline_eq [OF 1 2 3 4] by (auto simp: returned_rbind)
  qed (use f IH(2) [of s] in auto)
  moreover have "returned (parsepipe (Suc n) s)" if f: "4 * length s + 3 \<le> Suc n"
  proof (cases "parseexec n s")
    case (Ok x)
    then obtain c1 s1 where 1: "parseexec n s = Ok (c1, s1)" by (cases x) auto
    obtain b s3 where 3: "peek [124] s1 = (b, s3)" by fastforce
    obtain t q s4 where 4: "gettoken s3 = (t, q, s4)" by (cases "gettoken s3") auto
    have "b \<Longrightarrow> length s4 < length s"
      using len(3) [OF 1] peek_token_length [of s3 "[124]" s1 t q s4] 3 4 by simp
    then have "b \<Longrightarrow> returned (parsepipe n s4)" using f IH(2) [of s4] by simp
    then show ?thesis unfolding parsepipe_eq [OF 1 3 4] by (auto simp: returned_rbind)
  qed (use f IH(3) [of s] in auto)
  moreover have "returned (parseexec (Suc n) s)" if f: "4 * length s + 2 \<le> Suc n"
  proof -
    obtain b s1 where 1: "peek [40] s = (b, s1)" by fastforce
    then have "returned (parseblock n s1)" using f IH(4) [of s1] token_lengths(3) [OF 1 [symmetric]] by simp
    then show ?thesis using parseredirs_returns parseexec_loop_returns
      by (auto simp: 1 returned_rbind split: if_splits)
  qed
  moreover have "returned (parseblock (Suc n) s)" if f: "4 * length s + 1 \<le> Suc n"
  proof -
    obtain b s1 where 1: "peek [40] s = (b, s1)" by fastforce
    obtain t q s2 where 2: "gettoken s1 = (t, q, s2)" by (cases "gettoken s1") auto
    have "b \<Longrightarrow> length s2 < length s" using peek_token_length [of s1 "[40]" s t q s2] 1 2 by simp
    then have "b \<Longrightarrow> returned (parseline n s2)" using f IH(1) [of s2] by simp
    then show ?thesis using parseredirs_returns
      by (auto simp: 1 2 Let_def returned_rbind split: if_splits prod.splits)
  qed
  ultimately show ?case by blast
qed simp

text \<open>
  C35: The shell's parser returns on every line: it gives a command or the message of a syntax error, and
  the bound on its recursion is never reached.
\<close>

theorem parsecmd_terminates: "(\<exists>c. parsecmd s = Ok c) \<or> (\<exists>msg. parsecmd s = Panic msg)"
proof -
  have "returned (parsecmd s)"
    using parser_fuel [of s "4 * length s + 4"] by (simp add: parsecmd_def returned_rbind Let_def split: prod.split)
  then show ?thesis by (cases "parsecmd s") auto
qed

end
