(* ===== verification/Sh_Print.thy ===== *)
theory Sh_Print
  imports Sh
begin

text \<open>
  Commands written out as the tokens of a line, and the parser on such a line: every command that
  \<^verbatim>\<open>parsecmd\<close> can return is what it gives for its own text.
\<close>

section \<open>Lines made of tokens\<close>

definition word_tok :: "byte list \<Rightarrow> bool" where
  "word_tok w = (w \<noteq> [] \<and> list_all (\<lambda>c. c \<notin> set whitespace \<and> c \<notin> set symbols \<and> c \<noteq> 0) w)"

definition token :: "byte list \<Rightarrow> bool" where
  "token t = (word_tok t \<or> t \<in> {[124], [40], [41], [59], [38], [60], [62], [62, 62]})"

definition token_code :: "byte list \<Rightarrow> byte" where
  "token_code t = (if word_tok t then 97 else if t = [62, 62] then 43 else hd t)"

fun join :: "byte list list \<Rightarrow> byte list" where
  "join [] = []"
| "join [t] = t"
| "join (t # u # ts) = t @ 32 # join (u # ts)"

lemma join_Cons: "join (t # ts) = t @ (if ts = [] then [] else 32 # join ts)"
  by (cases ts) auto

lemma token_ne: "token t \<Longrightarrow> t \<noteq> [] \<and> hd t \<notin> set whitespace"
  by (cases t) (auto simp: token_def word_tok_def whitespace_def)

lemma skip_ws_join:
  assumes "list_all token ts"
  shows "skip_ws (join ts) = join ts"
proof (cases ts)
  case (Cons t us)
  then have "t \<noteq> []" "hd t \<notin> set whitespace" using assms token_ne [of t] by auto
  then show ?thesis using Cons by (cases t) (auto simp: join_Cons)
qed simp

lemma peek_join:
  assumes "list_all token ts"
  shows "peek toks (join ts) = (ts \<noteq> [] \<and> hd (hd ts) \<in> set toks, join ts)"
proof (cases ts)
  case (Cons t us)
  then have "t \<noteq> []" using assms token_ne by auto
  then show ?thesis using skip_ws_join [OF assms] Cons by (simp add: peek_def Let_def join_Cons)
qed (simp add: peek_def)

lemma gettoken_join_Nil: "gettoken (join []) = (0, [], [])"
  by (simp add: gettoken_def)

lemma skip_ws_symbol: "c \<in> {124, 40, 41, 59, 38, 60, 62} \<Longrightarrow> skip_ws (c # r) = c # r"
proof -
  assume "c \<in> {124, 40, 41, 59, 38, 60, 62}"
  then have "c \<notin> set whitespace" by (elim insertE) (simp_all add: whitespace_def)
  then show ?thesis by simp
qed

lemma gettoken_symbol:
  "c \<in> {124, 40, 41, 59, 38, 60} \<Longrightarrow> gettoken (c # r) = (c, [c], skip_ws r)"
  unfolding gettoken_def by (subst skip_ws_symbol) auto

lemma gettoken_gt: "r = [] \<or> hd r \<noteq> 62 \<Longrightarrow> gettoken (62 # r) = (62, [62], skip_ws r)"
  unfolding gettoken_def by (subst skip_ws_symbol) (auto split: list.split)

lemma gettoken_gtgt: "gettoken (62 # 62 # r) = (43, [62, 62], skip_ws r)"
  unfolding gettoken_def by (subst skip_ws_symbol) auto

lemma gettoken_join:
  assumes "token t" "list_all token ts"
  shows "gettoken (join (t # ts)) = (token_code t, t, join ts)"
proof -
  define r where "r = (if ts = [] then [] else 32 # join ts)"
  have r: "skip_ws r = join ts" "r = [] \<or> hd r = 32"
    using skip_ws_join [OF assms(2)] by (auto simp: r_def whitespace_def)
  have s: "skip_ws (t @ r) = t @ r" using skip_ws_join [of "t # ts"] assms by (simp add: join_Cons r_def)
  have j: "join (t # ts) = t @ r" by (simp add: join_Cons r_def)
  show ?thesis
  proof (cases "word_tok t")
    case True
    define p where "p c = (c \<notin> set whitespace \<and> c \<notin> set symbols)" for c :: byte
    have p: "\<forall>c \<in> set t. p c" using True by (auto simp: word_tok_def list_all_iff p_def)
    moreover have "takeWhile p r = []" "dropWhile p r = r" using r(2)
      by (cases r; auto simp: p_def whitespace_def)+
    ultimately have tw: "takeWhile p (t @ r) = t" "dropWhile p (t @ r) = r"
      by (simp_all add: takeWhile_append2 dropWhile_append2)
    obtain c u where t: "t = c # u" using True by (cases t) (auto simp: word_tok_def)
    then have "c \<notin> {124, 40, 41, 59, 38, 60, 62}" using p by (auto simp: p_def symbols_def)
    then have "gettoken (t @ r) = (97, takeWhile p (t @ r), skip_ws (dropWhile p (t @ r)))"
      using s t unfolding p_def by (simp add: gettoken_def Let_def)
    then show ?thesis using True tw r(1) by (simp add: j token_code_def)
  next
    case False
    then consider c where "t = [c]" "c \<in> {124, 40, 41, 59, 38, 60}" | "t = [62]" | "t = [62, 62]"
      using assms(1) unfolding token_def by blast
    then show ?thesis
    proof cases
      case (1 c)
      then have "gettoken (c # r) = (c, [c], join ts)" using gettoken_symbol [of c r] r(1) by (simp only:)
      then show ?thesis using 1(1) False j by (simp add: token_code_def)
    next
      case 2
      then have "gettoken (62 # r) = (62, [62], join ts)" using gettoken_gt [of r] r by auto
      then show ?thesis using 2 False j by (simp add: token_code_def)
    next
      case 3
      then show ?thesis using False gettoken_gtgt [of r] r(1) j by (simp add: token_code_def)
    qed
  qed
qed

lemma tokens [simp]:
  "token [124]" "token [40]" "token [41]" "token [59]" "token [38]" "token [60]" "token [62]" "token [62, 62]"
  "word_tok w \<Longrightarrow> token w"
  by (simp_all add: token_def)

lemma token_codes [simp]:
  "token_code [124] = 124" "token_code [40] = 40" "token_code [41] = 41" "token_code [59] = 59" "token_code [38] = 38"
  "token_code [60] = 60" "token_code [62] = 62" "token_code [62, 62] = 43" "word_tok w \<Longrightarrow> token_code w = 97"
  by (simp_all add: token_code_def word_tok_def symbols_def)

lemma word_tok_hd: "word_tok w \<Longrightarrow> hd w \<notin> {60, 124, 62, 38, 59, 40, 41}"
  by (cases w) (auto simp: word_tok_def symbols_def)

lemma token_paren: "token t \<Longrightarrow> t \<noteq> [40] \<Longrightarrow> hd t \<noteq> 40"
  using word_tok_hd [of t] by (auto simp: token_def)

section \<open>Commands as tokens\<close>

text \<open>
  The grammar has a line of commands separated by \<^verbatim>\<open>;\<close>, then \<^verbatim>\<open>&\<close>, then \<^verbatim>\<open>|\<close>, and inside a simple command
  or a block with its redirections. A command that stands where the grammar has a tighter form is put
  in parentheses.
\<close>

fun cmd_level :: "cmd \<Rightarrow> nat" where
  "cmd_level (LIST _ _) = 0"
| "cmd_level (BACK _) = 1"
| "cmd_level (PIPE _ _) = 2"
| "cmd_level _ = 3"

definition redir_tok :: "u32 \<Rightarrow> byte list" where
  "redir_tok mode = (if mode = O_RD then [60] else if mode = O_WR_TRUNC then [62] else [62, 62])"

definition paren :: "nat \<Rightarrow> cmd \<Rightarrow> byte list list \<Rightarrow> byte list list" where
  "paren k c ts = (if k \<le> cmd_level c then ts else [40] # ts @ [[41]])"

fun cmd_toks :: "cmd \<Rightarrow> byte list list" where
  "cmd_toks (EXEC args) = args"
| "cmd_toks (REDIR c f mode fd) = paren 3 c (cmd_toks c) @ [redir_tok mode, f]"
| "cmd_toks (PIPE a b) = paren 3 a (cmd_toks a) @ [124] # paren 2 b (cmd_toks b)"
| "cmd_toks (LIST a b) = paren 1 a (cmd_toks a) @ [59] # cmd_toks b"
| "cmd_toks (BACK c) = paren 1 c (cmd_toks c) @ [[38]]"

definition print_cmd :: "cmd \<Rightarrow> byte list" where
  "print_cmd c = join (cmd_toks c)"

text \<open>The commands the parser can return: file names and arguments are words, and the argument vector fits.\<close>

fun wf_cmd :: "cmd \<Rightarrow> bool" where
  "wf_cmd (EXEC args) = (list_all word_tok args \<and> length args < MAXARGS)"
| "wf_cmd (REDIR c f mode fd) = (wf_cmd c \<and> word_tok f \<and> (mode, fd) \<in> {(O_RD, 0), (O_WR_TRUNC, 1), (O_WR_APPEND, 1)})"
| "wf_cmd (PIPE a b) = (wf_cmd a \<and> wf_cmd b)"
| "wf_cmd (LIST a b) = (wf_cmd a \<and> wf_cmd b)"
| "wf_cmd (BACK c) = wf_cmd c"

text \<open>\<open>exec_args c = Some n\<close>: a simple command of n arguments, with redirections or not.\<close>

fun exec_argc :: "cmd \<Rightarrow> nat option" where
  "exec_argc (EXEC args) = Some (length args)"
| "exec_argc (REDIR c _ _ _) = exec_argc c"
| "exec_argc _ = None"

lemma redir_tok_token [simp]: "token (redir_tok m)"
  by (simp add: redir_tok_def)

lemma cmd_toks_tokens: "wf_cmd c \<Longrightarrow> list_all token (cmd_toks c)"
  by (induction c) (auto simp: paren_def list_all_iff)

section \<open>The parser on the tokens of a command\<close>

definition ev :: "(nat \<Rightarrow> bool) \<Rightarrow> bool" where
  "ev P = (\<exists>N. \<forall>n \<ge> N. P n)"

lemma ev_always: "(\<And>n. P n) \<Longrightarrow> ev P"
  by (simp add: ev_def)

lemma ev_mono: "ev P \<Longrightarrow> (\<And>n. P n \<Longrightarrow> Q n) \<Longrightarrow> ev Q"
  by (auto simp: ev_def)

lemma ev_conj: "ev P \<Longrightarrow> ev Q \<Longrightarrow> ev (\<lambda>n. P n \<and> Q n)"
  unfolding ev_def by (metis order_trans nat_le_linear)

lemma ev_Suc: "ev (\<lambda>n. P (Suc n)) \<Longrightarrow> ev P"
  unfolding ev_def by (metis Suc_le_D Suc_le_mono)

lemmas ev_step = ev_Suc [OF ev_mono]

lemma parseredirs_stop:
  assumes "list_all token ts" "ts = [] \<or> hd (hd ts) \<notin> {60, 62}"
  shows "parseredirs c (join ts) = Ok (c, join ts)"
  using assms(2) by (subst parseredirs.simps) (auto simp: peek_join [OF assms(1)])

lemma parseredirs_redir:
  assumes "list_all token ts" "word_tok f" "(mode, fd) \<in> {(O_RD, 0), (O_WR_TRUNC, 1), (O_WR_APPEND, 1)}"
  shows "parseredirs c (join (redir_tok mode # f # ts)) = parseredirs (REDIR c f mode fd) (join ts)"
proof -
  have t: "list_all token (f # ts)" "list_all token (redir_tok mode # f # ts)" using assms by simp_all
  have c: "peek [60, 62] (join (redir_tok mode # f # ts)) = (True, join (redir_tok mode # f # ts))"
    unfolding peek_join [OF t(2)] by (simp add: redir_tok_def)
  have g: "gettoken (join (redir_tok mode # f # ts)) = (token_code (redir_tok mode), redir_tok mode, join (f # ts))"
    "gettoken (join (f # ts)) = (97, f, join ts)"
    using gettoken_join [OF redir_tok_token t(1)] gettoken_join [OF tokens(9) [OF assms(2)] assms(1)] assms(2) by simp_all
  have "parseredirs c (join (redir_tok mode # f # ts)) =
    (if token_code (redir_tok mode) = 60 then parseredirs (REDIR c f O_RD 0) (join ts)
     else if token_code (redir_tok mode) = 62 then parseredirs (REDIR c f O_WR_TRUNC 1) (join ts)
     else parseredirs (REDIR c f O_WR_APPEND 1) (join ts))"
    by (subst parseredirs.simps) (simp only: c g Let_def prod.case if_True simp_thms if_False)
  then show ?thesis using assms(3)
    by (auto simp: redir_tok_def O_RD_def O_WR_TRUNC_def O_WR_APPEND_def simp del: join.simps)
qed

lemma parseexec_loop_stop:
  assumes "list_all token ts" "ts = [] \<or> hd ts \<in> {[124], [41], [38], [59]}"
  shows "parseexec_loop k c (join ts) = Ok (c, join ts)"
  using assms(2) by (subst parseexec_loop.simps) (auto simp: peek_join [OF assms(1)] gettoken_def)

lemma parseexec_loop_args:
  assumes "list_all token ts" "list_all word_tok as" "as \<noteq> []" "length pre + length as < MAXARGS"
  shows "parseexec_loop (length pre) (EXEC pre) (join (as @ ts)) =
    rbind (parseredirs (EXEC (pre @ as)) (join ts)) (\<lambda>(ret, s). parseexec_loop (length pre + length as) ret s)"
  using assms(2-)
proof (induction as arbitrary: pre)
  case (Cons a as)
  have t: "list_all token (as @ ts)" using Cons.prems(1) assms(1) by (auto simp: list_all_iff)
  have w: "word_tok a" using Cons.prems by simp
  have p: "peek [124, 41, 38, 59] (join ((a # as) @ ts)) = (False, join (a # as @ ts))"
    using peek_join [of "a # as @ ts" "[124, 41, 38, 59]"] t word_tok_hd [OF w] tokens(9) [OF w] by auto
  have g: "gettoken (join (a # as @ ts)) = (97, a, join (as @ ts))"
    using gettoken_join [OF tokens(9) [OF w] t] w by simp
  have one: "parseexec_loop (length pre) (EXEC pre) (join ((a # as) @ ts)) =
      rbind (parseredirs (EXEC (pre @ [a])) (join (as @ ts))) (\<lambda>(ret, s). parseexec_loop (length (pre @ [a])) ret s)"
    unfolding parseexec_loop_eq [OF p g] using Cons.prems by simp
  show ?case
  proof (cases as)
    case Nil
    then show ?thesis using one by simp
  next
    case (Cons b bs)
    then have "word_tok b" using Cons.prems by simp
    then have "parseredirs (EXEC (pre @ [a])) (join (as @ ts)) = Ok (EXEC (pre @ [a]), join (as @ ts))"
      using parseredirs_stop [OF t] word_tok_hd Cons by simp
    then show ?thesis using one Cons.IH [of "pre @ [a]"] Cons.prems Cons by simp
  qed
qed simp

text \<open>What is left to do after the tokens of a simple command or of a block.\<close>

definition rest_of :: "cmd \<Rightarrow> byte list list \<Rightarrow> (cmd \<times> byte list) outcome" where
  "rest_of c ts =
     (case exec_argc c of
        None \<Rightarrow> parseredirs c (join ts)
      | Some k \<Rightarrow> rbind (parseredirs c (join ts)) (\<lambda>(ret, s). parseexec_loop k ret s))"

definition follows :: "byte list set \<Rightarrow> byte list list \<Rightarrow> bool" where
  "follows S ts = (list_all token ts \<and> (ts = [] \<or> hd ts \<in> S))"

lemma rest_of_stop: "follows {[124], [41], [38], [59]} ts \<Longrightarrow> rest_of c ts = Ok (c, join ts)"
  using parseredirs_stop [of ts c] parseexec_loop_stop [of ts _ c]
  by (auto simp: rest_of_def follows_def split: option.split)

definition exec_reads :: "cmd \<Rightarrow> bool" where
  "exec_reads c = (\<forall>ts. list_all token ts \<and> (ts = [] \<or> hd ts \<noteq> [40]) \<longrightarrow>
     ev (\<lambda>n. parseexec n (join (paren 3 c (cmd_toks c) @ ts)) = rest_of c ts))"

lemma exec_readsD:
  "exec_reads c \<Longrightarrow> list_all token ts \<Longrightarrow> ts = [] \<or> hd ts \<noteq> [40] \<Longrightarrow>
    ev (\<lambda>n. parseexec n (join (paren 3 c (cmd_toks c) @ ts)) = rest_of c ts)"
  by (auto simp: exec_reads_def)

definition pipe_reads :: "cmd \<Rightarrow> bool" where
  "pipe_reads c = (\<forall>ts. follows {[41], [38], [59]} ts \<longrightarrow>
     ev (\<lambda>n. parsepipe n (join (paren 2 c (cmd_toks c) @ ts)) = Ok (c, join ts)))"

definition back_reads :: "cmd \<Rightarrow> bool" where
  "back_reads c = (\<forall>ts. follows {[41], [38], [59]} ts \<longrightarrow>
     ev (\<lambda>n. \<exists>d s. parsepipe n (join (paren 1 c (cmd_toks c) @ ts)) = Ok (d, s) \<and> parseback d s = parseback c (join ts)))"

definition line_reads :: "cmd \<Rightarrow> bool" where
  "line_reads c = (\<forall>ts. follows {[41]} ts \<longrightarrow> ev (\<lambda>n. parseline n (join (cmd_toks c @ ts)) = Ok (c, join ts)))"

lemma parseback_stop: "list_all token ts \<Longrightarrow> ts = [] \<or> hd (hd ts) \<noteq> 38 \<Longrightarrow> parseback c (join ts) = (c, join ts)"
  by (subst parseback.simps) (auto simp: peek_join)

lemma parseback_amp: "list_all token ts \<Longrightarrow> parseback c (join ([38] # ts)) = parseback (BACK c) (join ts)"
  by (subst parseback.simps) (simp add: peek_join gettoken_join del: join.simps)

lemma exec_pipe: "exec_reads c \<Longrightarrow> cmd_level c \<noteq> 2 \<Longrightarrow> pipe_reads c"
  unfolding pipe_reads_def
proof (intro allI impI)
  fix ts assume c: "exec_reads c" "cmd_level c \<noteq> 2" and ts: "follows {[41], [38], [59]} ts"
  have "ev (\<lambda>n. parseexec n (join (paren 3 c (cmd_toks c) @ ts)) = rest_of c ts)"
    using c(1) ts unfolding exec_reads_def follows_def by auto
  moreover have "rest_of c ts = Ok (c, join ts)" using ts rest_of_stop [of ts c] by (auto simp: follows_def)
  moreover have "paren 2 c (cmd_toks c) = paren 3 c (cmd_toks c)" using c(2) by (cases c) (simp_all add: paren_def)
  moreover have p: "peek [124] (join ts) = (False, join ts)"
    using ts peek_join [of ts "[124]"] by (auto simp: follows_def)
  ultimately have "ev (\<lambda>n. parseexec n (join (paren 2 c (cmd_toks c) @ ts)) = Ok (c, join ts))" by simp
  then show "ev (\<lambda>n. parsepipe n (join (paren 2 c (cmd_toks c) @ ts)) = Ok (c, join ts))"
    by (rule ev_step) (simp add: p)
qed

lemma pipe_back: "pipe_reads c \<Longrightarrow> cmd_level c \<noteq> 1 \<Longrightarrow> back_reads c"
proof -
  assume c: "pipe_reads c" "cmd_level c \<noteq> 1"
  have "paren 1 c (cmd_toks c) = paren 2 c (cmd_toks c)" using c(2) by (cases c) (simp_all add: paren_def)
  then show "back_reads c" using c(1) unfolding pipe_reads_def back_reads_def by (auto elim!: ev_mono)
qed

lemma back_line: "back_reads c \<Longrightarrow> cmd_level c \<noteq> 0 \<Longrightarrow> line_reads c"
  unfolding line_reads_def
proof (intro allI impI)
  fix ts assume c: "back_reads c" "cmd_level c \<noteq> 0" and ts: "follows {[41]} ts"
  have p: "paren 1 c (cmd_toks c) = cmd_toks c" using c(2) by (cases c) (simp_all add: paren_def)
  have b: "parseback c (join ts) = (c, join ts)" "peek [59] (join ts) = (False, join ts)"
    using ts parseback_stop [of ts c] peek_join [of ts "[59]"] by (auto simp: follows_def)
  have "ev (\<lambda>n. \<exists>d s. parsepipe n (join (cmd_toks c @ ts)) = Ok (d, s) \<and> parseback d s = parseback c (join ts))"
    using c(1) ts p unfolding back_reads_def follows_def by auto
  then show "ev (\<lambda>n. parseline n (join (cmd_toks c @ ts)) = Ok (c, join ts))"
    by (rule ev_step) (auto simp: b)
qed

lemma line_exec: "line_reads c \<Longrightarrow> wf_cmd c \<Longrightarrow> cmd_level c < 3 \<Longrightarrow> exec_reads c"
  unfolding exec_reads_def
proof (intro allI impI)
  fix ts assume c: "line_reads c" "wf_cmd c" "cmd_level c < 3" and ts: "list_all token ts \<and> (ts = [] \<or> hd ts \<noteq> [40])"
  let ?s = "cmd_toks c @ [41] # ts"
  have t: "list_all token ?s" "list_all token ([41] # ts)" using cmd_toks_tokens [OF c(2)] ts by auto
  have "ev (\<lambda>n. parseline n (join (cmd_toks c @ [41] # ts)) = Ok (c, join ([41] # ts)))"
    using c(1) t(2) unfolding line_reads_def follows_def by simp
  then have "ev (\<lambda>n. parseblock n (join ([40] # ?s)) = parseredirs c (join ts))"
    by (rule ev_step) (use t in \<open>simp add: peek_join gettoken_join del: join.simps\<close>)
  then have "ev (\<lambda>n. parseexec n (join ([40] # ?s)) = parseredirs c (join ts))"
    by (rule ev_step) (use t in \<open>simp add: peek_join del: join.simps\<close>)
  moreover have "rest_of c ts = parseredirs c (join ts)" using c(3) by (cases c) (auto simp: rest_of_def)
  ultimately show "ev (\<lambda>n. parseexec n (join (paren 3 c (cmd_toks c) @ ts)) = rest_of c ts)"
    using c(3) by (simp add: paren_def)
qed

lemma exec_reads_EXEC: "wf_cmd (EXEC args) \<Longrightarrow> exec_reads (EXEC args)"
  unfolding exec_reads_def
proof (intro allI impI)
  fix ts assume c: "wf_cmd (EXEC args)" and ts: "list_all token ts \<and> (ts = [] \<or> hd ts \<noteq> [40])"
  have t: "list_all token (args @ ts)" using c ts by (auto simp: list_all_iff)
  have p: "peek [40] (join (args @ ts)) = (False, join (args @ ts))"
    unfolding peek_join [OF t] using c ts token_paren [of "hd ts"] word_tok_hd [of "hd args"]
    by (cases args; cases ts) auto
  have "rbind (parseredirs (EXEC []) (join (args @ ts))) (\<lambda>(ret, s). parseexec_loop 0 ret s) = rest_of (EXEC args) ts"
  proof (cases args)
    case (Cons a as)
    then have "parseredirs (EXEC []) (join (args @ ts)) = Ok (EXEC [], join (args @ ts))"
      using parseredirs_stop [OF t] c word_tok_hd [of a] by simp
    then show ?thesis using parseexec_loop_args [of ts args "[]"] c ts Cons by (simp add: rest_of_def)
  qed (simp add: rest_of_def)
  then show "ev (\<lambda>n. parseexec n (join (paren 3 (EXEC args) (cmd_toks (EXEC args)) @ ts)) = rest_of (EXEC args) ts)"
    by (intro ev_Suc [OF ev_always]) (simp add: paren_def p)
qed

lemma exec_reads_REDIR:
  assumes "exec_reads c" "wf_cmd (REDIR c f mode fd)"
  shows "exec_reads (REDIR c f mode fd)"
  unfolding exec_reads_def
proof (intro allI impI)
  fix ts assume ts: "list_all token ts \<and> (ts = [] \<or> hd ts \<noteq> [40])"
  have "list_all token (redir_tok mode # f # ts)" using ts assms(2) by simp
  moreover have "redir_tok mode \<noteq> [40]" by (simp add: redir_tok_def)
  ultimately have "ev (\<lambda>n. parseexec n (join (paren 3 c (cmd_toks c) @ redir_tok mode # f # ts)) = rest_of c (redir_tok mode # f # ts))"
    using exec_readsD [OF assms(1)] by simp
  moreover have "rest_of c (redir_tok mode # f # ts) = rest_of (REDIR c f mode fd) ts"
    using parseredirs_redir [of ts f mode fd c] ts assms(2) by (simp add: rest_of_def del: join.simps split: option.split)
  ultimately show "ev (\<lambda>n. parseexec n (join (paren 3 (REDIR c f mode fd) (cmd_toks (REDIR c f mode fd)) @ ts)) = rest_of (REDIR c f mode fd) ts)"
    by (simp add: paren_def)
qed

lemma pipe_reads_PIPE:
  assumes "exec_reads a" "pipe_reads b" "wf_cmd b"
  shows "pipe_reads (PIPE a b)"
  unfolding pipe_reads_def
proof (intro allI impI)
  fix ts assume ts: "follows {[41], [38], [59]} ts"
  let ?B = "paren 2 b (cmd_toks b) @ ts"
  have t: "list_all token ?B" using ts cmd_toks_tokens [OF assms(3)] by (auto simp: follows_def paren_def)
  have "rest_of a ([124] # ?B) = Ok (a, join ([124] # ?B))" using t by (intro rest_of_stop) (simp add: follows_def)
  then have "ev (\<lambda>n. parseexec n (join (paren 3 a (cmd_toks a) @ [124] # ?B)) = Ok (a, join ([124] # ?B)))"
    using exec_readsD [OF assms(1), of "[124] # ?B"] t by simp
  moreover have "ev (\<lambda>n. parsepipe n (join ?B) = Ok (b, join ts))" using assms(2) ts by (simp add: pipe_reads_def)
  ultimately have "ev (\<lambda>n. parsepipe n (join (paren 3 a (cmd_toks a) @ [124] # ?B)) = Ok (PIPE a b, join ts))"
    by (rule ev_step [OF ev_conj]) (use t in \<open>simp add: peek_join gettoken_join del: join.simps\<close>)
  then show "ev (\<lambda>n. parsepipe n (join (paren 2 (PIPE a b) (cmd_toks (PIPE a b)) @ ts)) = Ok (PIPE a b, join ts))"
    by (simp add: paren_def)
qed

lemma back_reads_BACK:
  assumes "back_reads c"
  shows "back_reads (BACK c)"
  unfolding back_reads_def
proof (intro allI impI)
  fix ts assume ts: "follows {[41], [38], [59]} ts"
  then have t: "follows {[41], [38], [59]} ([38] # ts)" "list_all token ts" by (auto simp: follows_def)
  show "ev (\<lambda>n. \<exists>d s. parsepipe n (join (paren 1 (BACK c) (cmd_toks (BACK c)) @ ts)) = Ok (d, s) \<and>
      parseback d s = parseback (BACK c) (join ts))"
    using assms t(1) unfolding back_reads_def parseback_amp [OF t(2), symmetric] by (simp add: paren_def)
qed

lemma line_reads_LIST:
  assumes "back_reads a" "line_reads b" "wf_cmd b"
  shows "line_reads (LIST a b)"
  unfolding line_reads_def
proof (intro allI impI)
  fix ts assume ts: "follows {[41]} ts"
  let ?B = "cmd_toks b @ ts"
  have t: "list_all token ?B" using ts cmd_toks_tokens [OF assms(3)] by (auto simp: follows_def)
  then have "follows {[41], [38], [59]} ([59] # ?B)" by (simp add: follows_def)
  then have "ev (\<lambda>n. \<exists>d s. parsepipe n (join (paren 1 a (cmd_toks a) @ [59] # ?B)) = Ok (d, s) \<and> parseback d s = parseback a (join ([59] # ?B)))"
    using assms(1) unfolding back_reads_def by blast
  moreover have "ev (\<lambda>n. parseline n (join ?B) = Ok (b, join ts))" using assms(2) ts by (simp add: line_reads_def)
  ultimately have "ev (\<lambda>n. (\<exists>d s. parsepipe n (join (paren 1 a (cmd_toks a) @ [59] # ?B)) = Ok (d, s) \<and>
      parseback d s = parseback a (join ([59] # ?B))) \<and> parseline n (join ?B) = Ok (b, join ts))" by (rule ev_conj)
  moreover have "parseback a (join ([59] # ?B)) = (a, join ([59] # ?B))" using t parseback_stop [of "[59] # ?B" a] by simp
  moreover have "peek [59] (join ([59] # ?B)) = (True, join ([59] # ?B))" "gettoken (join ([59] # ?B)) = (59, [59], join ?B)"
    using t by (simp_all add: peek_join gettoken_join del: join.simps)
  ultimately have "ev (\<lambda>n. parseline n (join (paren 1 a (cmd_toks a) @ [59] # ?B)) = Ok (LIST a b, join ts))"
    by (elim ev_step) (elim conjE exE, simp del: join.simps)
  then show "ev (\<lambda>n. parseline n (join (cmd_toks (LIST a b) @ ts)) = Ok (LIST a b, join ts))" by simp
qed

lemma commands_ok: "wf_cmd c \<Longrightarrow> exec_reads c \<and> pipe_reads c \<and> back_reads c \<and> line_reads c"
proof (induction c)
  case (EXEC args)
  then show ?case using exec_reads_EXEC [of args] exec_pipe [of "EXEC args"] pipe_back [of "EXEC args"] back_line [of "EXEC args"] by simp
next
  case (REDIR c f mode fd)
  let ?c = "REDIR c f mode fd"
  have "exec_reads ?c" using REDIR exec_reads_REDIR by simp
  then show ?case using exec_pipe [of ?c] pipe_back [of ?c] back_line [of ?c] by simp
next
  case (PIPE a b)
  then have "pipe_reads (PIPE a b)" using pipe_reads_PIPE by simp
  then show ?case using pipe_back [of "PIPE a b"] back_line [of "PIPE a b"] line_exec [of "PIPE a b"] PIPE.prems by simp
next
  case (LIST a b)
  then have "line_reads (LIST a b)" using line_reads_LIST by simp
  then show ?case using line_exec [of "LIST a b"] exec_pipe [of "LIST a b"] pipe_back [of "LIST a b"] LIST.prems by simp
next
  case (BACK c)
  then have "back_reads (BACK c)" using back_reads_BACK by simp
  then show ?case using back_line [of "BACK c"] line_exec [of "BACK c"] exec_pipe [of "BACK c"] BACK.prems by simp
qed

section \<open>More fuel does not change a result\<close>

definition settled :: "'a outcome \<Rightarrow> 'a outcome \<Rightarrow> bool" where
  "settled m m' = (returned m \<longrightarrow> m' = m)"

lemma settled_rbind: "settled m m' \<Longrightarrow> (\<And>x. m = Ok x \<Longrightarrow> settled (f x) (f' x)) \<Longrightarrow> settled (rbind m f) (rbind m' f')"
  by (cases m) (auto simp: settled_def)

lemma settled_refl [simp]: "settled m m"
  by (simp add: settled_def)

lemma parser_settled:
  "settled (parseline n s) (parseline (Suc n) s) \<and> settled (parsepipe n s) (parsepipe (Suc n) s) \<and>
   settled (parseexec n s) (parseexec (Suc n) s) \<and> settled (parseblock n s) (parseblock (Suc n) s)"
proof (induction n arbitrary: s)
  case 0
  then show ?case by (simp add: settled_def)
next
  case (Suc n)
  define L P X B where f: "L = parseline (Suc n)" "P = parsepipe (Suc n)" "X = parseexec (Suc n)" "B = parseblock (Suc n)"
  have IH: "settled (parseline n s) (L s)" "settled (parsepipe n s) (P s)"
    "settled (parseexec n s) (X s)" "settled (parseblock n s) (B s)" for s
    using Suc [of s] by (simp_all only: f)
  have "settled (parseline (Suc n) s) (parseline (Suc (Suc n)) s)"
    unfolding parseline.simps(2) [of n] parseline.simps(2) [of "Suc n", folded f]
    by (rule settled_rbind [OF IH(2)]) (auto split: prod.split intro!: settled_rbind IH)
  moreover have "settled (parsepipe (Suc n) s) (parsepipe (Suc (Suc n)) s)"
    unfolding parsepipe.simps(2) [of n] parsepipe.simps(2) [of "Suc n", folded f]
    by (rule settled_rbind [OF IH(3)]) (auto split: prod.split intro!: settled_rbind IH)
  moreover have "settled (parseexec (Suc n) s) (parseexec (Suc (Suc n)) s)"
    unfolding parseexec.simps(2) [of n] parseexec.simps(2) [of "Suc n", folded f]
    by (auto split: prod.split intro!: IH)
  moreover have "settled (parseblock (Suc n) s) (parseblock (Suc (Suc n)) s)"
    unfolding parseblock.simps(2) [of n] parseblock.simps(2) [of "Suc n", folded f]
    by (auto simp: Let_def split: prod.split intro!: settled_rbind IH)
  ultimately show ?case by blast
qed

lemma parseline_settled: "n \<le> m \<Longrightarrow> returned (parseline n s) \<Longrightarrow> parseline m s = parseline n s"
proof (induction m rule: dec_induct)
  case (step m)
  then show ?case using parser_settled [of m s] unfolding settled_def by metis
qed simp

text \<open>
  C30: Parsing the text of a command gives back the command, for every command the parser can build:
  the precedence of \<^verbatim>\<open>;\<close>, \<^verbatim>\<open>&\<close>, \<^verbatim>\<open>|\<close> and the redirections, and the parentheses that override it, are read as they
  are printed.
\<close>

theorem parsecmd_print: "wf_cmd c \<Longrightarrow> parsecmd (print_cmd c) = Ok c"
proof -
  assume "wf_cmd c"
  then have "ev (\<lambda>n. parseline n (print_cmd c) = Ok (c, []))"
    using commands_ok [of c] by (auto simp: line_reads_def follows_def print_cmd_def dest: spec [of _ "[]"])
  then obtain N where N: "\<And>n. n \<ge> N \<Longrightarrow> parseline n (print_cmd c) = Ok (c, [])" by (auto simp: ev_def)
  let ?k = "4 * length (print_cmd c) + 4"
  have "parseline (max N ?k) (print_cmd c) = parseline ?k (print_cmd c)"
    using parser_fuel [of "print_cmd c" ?k] by (intro parseline_settled) auto
  then have "parseline ?k (print_cmd c) = Ok (c, [])" using N [of "max N ?k"] by simp
  then show ?thesis by (simp add: parsecmd_def peek_def)
qed

theorem parsecmd_print_witness:
  "wf_cmd (PIPE (REDIR (LIST (EXEC [[97], [98]]) (BACK (EXEC [[99]]))) [102] O_RD 0) (EXEC [[100]])) \<and>
   parsecmd (print_cmd (PIPE (REDIR (LIST (EXEC [[97], [98]]) (BACK (EXEC [[99]]))) [102] O_RD 0) (EXEC [[100]]))) =
     Ok (PIPE (REDIR (LIST (EXEC [[97], [98]]) (BACK (EXEC [[99]]))) [102] O_RD 0) (EXEC [[100]]))"
proof -
  have "wf_cmd (PIPE (REDIR (LIST (EXEC [[97], [98]]) (BACK (EXEC [[99]]))) [102] O_RD 0) (EXEC [[100]]))"
    by (simp add: word_tok_def whitespace_def symbols_def MAXARGS_def)
  then show ?thesis using parsecmd_print by blast
qed

section \<open>Every parsed command is well formed\<close>

lemma skip_ws_nul: "0 \<notin> set s \<Longrightarrow> 0 \<notin> set (skip_ws s)"
  by (meson set_dropWhileD)

lemma peek_nul: "peek toks s = (b, s') \<Longrightarrow> 0 \<notin> set s \<Longrightarrow> 0 \<notin> set s'"
  using skip_ws_nul by (auto simp: peek_def Let_def)

lemma gettoken_wf:
  assumes "gettoken s = (t, q, s')" "0 \<notin> set s"
  shows "0 \<notin> set s' \<and> (t = 97 \<longrightarrow> word_tok q)"
proof (cases "skip_ws s")
  case Nil
  then show ?thesis using assms(1) by (auto simp: gettoken_Nil simp del: dropWhile_eq_Nil_conv)
next
  case (Cons c r)
  have z: "0 \<notin> set (c # r)" using skip_ws_nul [OF assms(2)] Cons by simp
  have c: "c \<notin> set whitespace" using Cons hd_dropWhile [of "\<lambda>c. c \<in> set whitespace" s] by simp
  consider "c \<in> {124, 40, 41, 59, 38, 60}" | "c = 62" | "c \<notin> set symbols"
    by (auto simp: symbols_def)
  then show ?thesis
  proof cases
    case 1
    then have "(t, q, s') = (c, [c], skip_ws r)" using assms(1) Cons by (auto simp: gettoken_def)
    then show ?thesis using 1 z skip_ws_nul [of r] by auto
  next
    case 2
    then show ?thesis using assms(1) Cons z skip_ws_nul [of r] skip_ws_nul [of "tl r"]
      by (auto simp: gettoken_def split: list.splits if_splits)
  next
    case 3
    define p where "p c = (c \<notin> set whitespace \<and> c \<notin> set symbols)" for c :: byte
    from 3 have "c \<notin> {124, 40, 41, 59, 38, 60}" "c \<noteq> 62" by (auto simp: symbols_def)
    then have e: "q = takeWhile p (c # r)" "s' = skip_ws (dropWhile p (c # r))"
      using assms(1) Cons unfolding p_def by (simp_all add: gettoken_def Let_def)
    have "word_tok q" using e(1) 3 c z unfolding word_tok_def p_def list_all_iff
      by (auto dest: set_takeWhileD simp del: takeWhile_eq_Nil_iff)
    moreover have "0 \<notin> set s'" using e(2) z by (metis set_dropWhileD)
    ultimately show ?thesis by simp
  qed
qed

lemma parseredirs_wf:
  assumes "parseredirs c s = Ok (c', s')" "wf_cmd c" "0 \<notin> set s"
  shows "wf_cmd c' \<and> 0 \<notin> set s' \<and> exec_argc c' = exec_argc c"
  using assms
proof (induction c s rule: parseredirs.induct)
  case (1 c s)
  obtain b s1 where p: "peek [60, 62] s = (b, s1)" by fastforce
  obtain tok x s2 where t: "gettoken s1 = (tok, x, s2)" by (cases "gettoken s1") auto
  obtain t' q s3 where q: "gettoken s2 = (t', q, s3)" by (cases "gettoken s2") auto
  have z: "0 \<notin> set s1" "0 \<notin> set s3" "t' = 97 \<Longrightarrow> word_tok q"
    using peek_nul [OF p] gettoken_wf [OF t] gettoken_wf [OF q] "1.prems"(3) by auto
  have e: "parseredirs c s = (if b then
      if t' \<noteq> 97 then Panic ''missing file for redirection''
      else if tok = 60 then parseredirs (REDIR c q O_RD 0) s3
      else if tok = 62 then parseredirs (REDIR c q O_WR_TRUNC 1) s3
      else parseredirs (REDIR c q O_WR_APPEND 1) s3
    else Ok (c, s1))"
    by (subst parseredirs.simps) (simp only: p t q Let_def prod.case)
  show ?case
  proof (cases "b")
    case True
    then have t': "t' = 97" using "1.prems"(1) e by (auto split: if_splits)
    note IH = "1.IH" [OF p [symmetric] refl True t [symmetric] refl refl q [symmetric] refl refl]
    show ?thesis using IH t' z "1.prems" e True by (auto split: if_splits)
  next
    case False
    then show ?thesis using "1.prems" e z by simp
  qed
qed

lemma add_arg_wf:
  "wf_cmd c \<Longrightarrow> exec_argc c = Some k \<Longrightarrow> k + 1 < MAXARGS \<Longrightarrow> word_tok q \<Longrightarrow>
    wf_cmd (add_arg q c) \<and> exec_argc (add_arg q c) = Some (k + 1)"
  by (induction c) auto

lemma parseexec_loop_wf:
  assumes "parseexec_loop k c s = Ok (c', s')" "wf_cmd c" "exec_argc c = Some k" "0 \<notin> set s"
  shows "wf_cmd c' \<and> 0 \<notin> set s'"
  using assms
proof (induction k c s rule: parseexec_loop.induct)
  case (1 k c s)
  obtain b s1 where p: "peek [124, 41, 38, 59] s = (b, s1)" by fastforce
  obtain tok q s2 where t: "gettoken s1 = (tok, q, s2)" by (cases "gettoken s1") auto
  have z: "0 \<notin> set s1" "0 \<notin> set s2" "tok = 97 \<Longrightarrow> word_tok q"
    using peek_nul [OF p] gettoken_wf [OF t] "1.prems"(4) by auto
  show ?case
  proof (cases "b \<or> tok = 0")
    case True
    then show ?thesis using "1.prems" z by (auto simp: parseexec_loop_eq [OF p t] split: if_splits)
  next
    case False
    then have c: "\<not> b" "tok \<noteq> 0" "tok = 97" "k + 1 < MAXARGS"
      using "1.prems"(1) by (auto simp: parseexec_loop_eq [OF p t] split: if_splits)
    obtain d s3 where d: "parseredirs (add_arg q c) s2 = Ok (d, s3)" "parseexec_loop (k + 1) d s3 = Ok (c', s')"
      using "1.prems"(1) c by (auto simp: parseexec_loop_eq [OF p t] rbind_Ok_iff)
    have "wf_cmd d \<and> 0 \<notin> set s3 \<and> exec_argc d = Some (k + 1)"
      using parseredirs_wf [OF d(1)] add_arg_wf [OF "1.prems"(2,3) c(4) z(3) [OF c(3)]] z(2) by simp
    then show ?thesis using "1.IH" [OF p [symmetric] refl c(1) t [symmetric] refl refl c(2) _ _ d(1) refl d(2)] c by simp
  qed
qed

lemma parseback_wf:
  assumes "parseback c s = (c', s')" "wf_cmd c" "0 \<notin> set s"
  shows "wf_cmd c' \<and> 0 \<notin> set s'"
  using assms
proof (induction c s rule: parseback.induct)
  case (1 c s)
  obtain b s1 where p: "peek [38] s = (b, s1)" by fastforce
  obtain tok x s2 where t: "gettoken s1 = (tok, x, s2)" by (cases "gettoken s1") auto
  have "parseback c s = (if b then parseback (BACK c) s2 else (c, s1))"
    by (subst parseback.simps) (simp only: p t Let_def prod.case)
  then show ?case using "1.prems" "1.IH" [OF p [symmetric] refl _ t [symmetric] refl refl] peek_nul [OF p] gettoken_wf [OF t]
    by (auto split: if_splits)
qed

lemma parser_wf:
  assumes "0 \<notin> set s"
  shows "(parseline n s = Ok (c, s') \<longrightarrow> wf_cmd c \<and> 0 \<notin> set s') \<and> (parsepipe n s = Ok (c, s') \<longrightarrow> wf_cmd c \<and> 0 \<notin> set s') \<and>
    (parseexec n s = Ok (c, s') \<longrightarrow> wf_cmd c \<and> 0 \<notin> set s') \<and> (parseblock n s = Ok (c, s') \<longrightarrow> wf_cmd c \<and> 0 \<notin> set s')"
  using assms
proof (induction n arbitrary: s c s')
  case (Suc n)
  note IH = Suc.IH [THEN conjunct1, THEN mp] Suc.IH [THEN conjunct2, THEN conjunct1, THEN mp]
    Suc.IH [THEN conjunct2, THEN conjunct2, THEN conjunct1, THEN mp] Suc.IH [THEN conjunct2, THEN conjunct2, THEN conjunct2, THEN mp]
  have "wf_cmd c \<and> 0 \<notin> set s'" if *: "parseline (Suc n) s = Ok (c, s')"
  proof -
    obtain c1 s1 where 1: "parsepipe n s = Ok (c1, s1)" using * by (auto simp: rbind_Ok_iff)
    obtain c2 s2 where 2: "parseback c1 s1 = (c2, s2)" by fastforce
    obtain b s3 where 3: "peek [59] s2 = (b, s3)" by fastforce
    obtain t q s4 where 4: "gettoken s3 = (t, q, s4)" by (cases "gettoken s3") auto
    have "wf_cmd c2" "0 \<notin> set s3" "0 \<notin> set s4"
      using IH(2) [OF Suc.prems 1] parseback_wf [OF 2] peek_nul [OF 3] gettoken_wf [OF 4] by auto
    then show ?thesis using * IH(1) [of s4] unfolding parseline_eq [OF 1 2 3 4]
      by (auto simp: rbind_Ok_iff split: if_splits)
  qed
  moreover have "wf_cmd c \<and> 0 \<notin> set s'" if *: "parsepipe (Suc n) s = Ok (c, s')"
  proof -
    obtain c1 s1 where 1: "parseexec n s = Ok (c1, s1)" using * by (auto simp: rbind_Ok_iff)
    obtain b s3 where 3: "peek [124] s1 = (b, s3)" by fastforce
    obtain t q s4 where 4: "gettoken s3 = (t, q, s4)" by (cases "gettoken s3") auto
    have "wf_cmd c1" "0 \<notin> set s3" "0 \<notin> set s4"
      using IH(3) [OF Suc.prems 1] peek_nul [OF 3] gettoken_wf [OF 4] by auto
    then show ?thesis using * IH(2) [of s4] unfolding parsepipe_eq [OF 1 3 4]
      by (auto simp: rbind_Ok_iff split: if_splits)
  qed
  moreover have "wf_cmd c \<and> 0 \<notin> set s'" if *: "parseexec (Suc n) s = Ok (c, s')"
  proof -
    obtain b s1 where 1: "peek [40] s = (b, s1)" by fastforce
    have z: "0 \<notin> set s1" using peek_nul [OF 1 Suc.prems] .
    show ?thesis
    proof (cases b)
      case True
      then show ?thesis using * IH(4) [OF z] by (simp add: 1)
    next
      case False
      then obtain d s2 where "parseredirs (EXEC []) s1 = Ok (d, s2)" "parseexec_loop 0 d s2 = Ok (c, s')"
        using * by (auto simp: 1 rbind_Ok_iff)
      then show ?thesis using parseredirs_wf [of "EXEC []" s1 d s2] parseexec_loop_wf [of 0 d s2 c s'] z
        by (auto simp: MAXARGS_def)
    qed
  qed
  moreover have "wf_cmd c \<and> 0 \<notin> set s'" if *: "parseblock (Suc n) s = Ok (c, s')"
  proof -
    obtain b s1 where 1: "peek [40] s = (b, s1)" by fastforce
    then have b: "b" using * by (auto split: if_splits)
    obtain t q s2 where 2: "gettoken s1 = (t, q, s2)" by (cases "gettoken s1") auto
    obtain c3 s3 where 3: "parseline n s2 = Ok (c3, s3)" using * b by (auto simp: 1 2 rbind_Ok_iff)
    obtain b4 s4 where 4: "peek [41] s3 = (b4, s4)" by fastforce
    obtain t' q' s5 where 5: "gettoken s4 = (t', q', s5)" by (cases "gettoken s4") auto
    have z: "0 \<notin> set s2" using gettoken_wf [OF 2 peek_nul [OF 1 Suc.prems]] by simp
    then have "wf_cmd c3" "0 \<notin> set s5" using IH(1) [OF z 3] peek_nul [OF 4] gettoken_wf [OF 5] by auto
    moreover have "parseredirs c3 s5 = Ok (c, s')" using * 1 b parseblock_eq [of s s1 t q s2, OF _ 2 3 4 5]
      by (simp split: if_splits)
    ultimately show ?thesis using parseredirs_wf [of c3 s5] by simp
  qed
  ultimately show ?case by blast
qed simp

text \<open>
  C36: Whatever line is typed, a command that \<^verbatim>\<open>parsecmd\<close> returns is well formed: the argument vectors keep a
  place for the closing null pointer, every argument and file name is a word of the line, and a redirection
  has one of the three modes with the descriptor that goes with it.
\<close>

theorem parsecmd_wf: "0 \<notin> set s \<Longrightarrow> parsecmd s = Ok c \<Longrightarrow> wf_cmd c"
proof -
  assume s: "0 \<notin> set s" and "parsecmd s = Ok c"
  then obtain s' where "parseline (4 * length s + 4) s = Ok (c, s')"
    unfolding parsecmd_def rbind_Ok_iff peek_def by (auto split: if_splits)
  then show ?thesis using parser_wf [OF s, of "4 * length s + 4" c s'] by blast
qed

text \<open>The line \<^verbatim>\<open>a b >c\<close>.\<close>

theorem parsecmd_wf_witness:
  "parsecmd [97, 32, 98, 32, 62, 99] = Ok (REDIR (EXEC [[97], [98]]) [99] O_WR_TRUNC 1) \<and> wf_cmd (REDIR (EXEC [[97], [98]]) [99] O_WR_TRUNC 1)"
proof -
  have "parsecmd [97, 32, 98, 32, 62, 99] = Ok (REDIR (EXEC [[97], [98]]) [99] O_WR_TRUNC 1)" by code_simp
  moreover from this have "wf_cmd (REDIR (EXEC [[97], [98]]) [99] O_WR_TRUNC 1)" by (intro parsecmd_wf) simp_all
  ultimately show ?thesis by blast
qed

end
