(* ===== verification/Sysarg.thy ===== *)
theory Sysarg
  imports File
begin

text \<open>
  System call arguments, the first half of \<^verbatim>\<open>kernel/syscall.c\<close>: they come from the trapframe of the
  calling process, pointers are followed through its page table.
\<close>

definition fetchaddr :: "u64 \<Rightarrow> 'a procs_scheme \<Rightarrow> (int \<times> u64) outcome" where
  "fetchaddr addr s =
     (let p = proc s (this_proc s) in
      if addr \<ge> p_sz p \<or> addr + 8 > p_sz p then Ok (-1, 0)
      else
        rbind (copyin (p_pagetable p) (\<lambda>_. 0) addr 8 s) (\<lambda>(r, b).
        if r \<noteq> 0 then Ok (-1, 0) else Ok (0, get_le 8 b 0)))"

text \<open>The result, and the buffer afterwards.\<close>

definition fetchstr :: "u64 \<Rightarrow> cstr \<Rightarrow> u64 \<Rightarrow> 'a procs_scheme \<Rightarrow> (int \<times> cstr) outcome" where
  "fetchstr addr buf maxn s =
     rbind (copyinstr (p_pagetable (proc s (this_proc s))) buf addr maxn s) (\<lambda>(err, buf).
     if err < 0 then Ok (err, buf)
     else (case strlen buf of None \<Rightarrow> Unfinished | Some n \<Rightarrow> Ok (int n, buf)))"

definition argraw :: "nat \<Rightarrow> 'a procs_scheme \<Rightarrow> u64 outcome" where
  "argraw n s =
     (let p = this_proc s in
      if n = 0 then Ok (get_tf p TF_a0 s)
      else if n = 1 then Ok (get_tf p TF_a1 s)
      else if n = 2 then Ok (get_tf p TF_a2 s)
      else if n = 3 then Ok (get_tf p TF_a3 s)
      else if n = 4 then Ok (get_tf p TF_a4 s)
      else if n = 5 then Ok (get_tf p TF_a5 s)
      else Panic ''argraw'')"

definition argint :: "nat \<Rightarrow> 'a procs_scheme \<Rightarrow> u32 outcome" where
  "argint n s = rbind (argraw n s) (\<lambda>x. Ok (ucast x))"

definition argaddr :: "nat \<Rightarrow> 'a procs_scheme \<Rightarrow> u64 outcome" where
  "argaddr n s = argraw n s"

definition argstr :: "nat \<Rightarrow> cstr \<Rightarrow> u64 \<Rightarrow> 'a procs_scheme \<Rightarrow> (int \<times> cstr) outcome" where
  "argstr n buf maxn s = rbind (argaddr n s) (\<lambda>addr. fetchstr addr buf maxn s)"

definition MAXPATH :: u64 where "MAXPATH = 128"

text \<open>
  A path argument: \<^verbatim>\<open>argstr(n, path, MAXPATH)\<close> into an uninitialised local array, as the bytes before
  the NUL; \<open>None\<close> if the result is negative.
\<close>

definition argpath :: "nat \<Rightarrow> 'a procs_scheme \<Rightarrow> byte list option outcome" where
  "argpath n s =
     rbind (argstr n (\<lambda>_. 0) MAXPATH s) (\<lambda>(r, buf).
     Ok (if r < 0 then None else Some (map buf [0..<nat r])))"

end
