(* ===== verification/Fork_Exit.thy ===== *)
theory Fork_Exit
  imports File
begin

text \<open>
  The part of \<^verbatim>\<open>kernel/proc.c\<close> that touches files: the first process, \<^verbatim>\<open>fork()\<close> and \<^verbatim>\<open>exit()\<close>. Going through
  a null pointer traps in the kernel.
\<close>

section \<open>The first process\<close>

definition initcode :: "byte list" where
  "initcode = [
     0x17, 0x05, 0x00, 0x00, 0x13, 0x05, 0x45, 0x02,
     0x97, 0x05, 0x00, 0x00, 0x93, 0x85, 0x35, 0x02,
     0x93, 0x08, 0x70, 0x00, 0x73, 0x00, 0x00, 0x00,
     0x93, 0x08, 0x20, 0x00, 0x73, 0x00, 0x00, 0x00,
     0xef, 0xf0, 0x9f, 0xff, 0x2f, 0x69, 0x6e, 0x69,
     0x74, 0x00, 0x00, 0x24, 0x00, 0x00, 0x00, 0x00,
     0x00, 0x00, 0x00, 0x00]"

definition cstr_of :: "byte list \<Rightarrow> cstr" where
  "cstr_of bs = (\<lambda>i. if i < length bs then bs ! i else 0)"

definition userinit :: "'a filest_scheme \<Rightarrow> 'a filest_scheme outcome" where
  "userinit s =
     rbind (allocproc s) (\<lambda>(p, s).
     let s = s\<lparr>initproc := p\<rparr> in
     case p of
       None \<Rightarrow> Panic ''kerneltrap''
     | Some p \<Rightarrow>
         rbind (uvminit (p_pagetable (proc s p)) (cstr_of initcode) (of_nat (length initcode)) s) (\<lambda>s.
         let s = upd_proc p (\<lambda>q. q\<lparr>p_sz := 4096\<rparr>) s;
             s = set_tf p TF_epc 0 s;
             s = set_tf p TF_sp 4096 s;
             s = upd_proc p (\<lambda>q. q\<lparr>p_name := safestrcpy (p_name q) (cstr_of (bytes_of ''initcode'')) 16\<rparr>) s in
         rbind (namei (bytes_of ''/'') s) (\<lambda>(ip, s).
         let s = upd_proc p (\<lambda>q. q\<lparr>p_cwd := ip\<rparr>) s;
             s = upd_proc p (\<lambda>q. q\<lparr>p_state := RUNNABLE\<rparr>) s in
         release (L_proc p) s)))"

section \<open>Fork\<close>

fun fork_files :: "nat \<Rightarrow> nat \<Rightarrow> nat \<Rightarrow> nat \<Rightarrow> 'a filest_scheme \<Rightarrow> 'a filest_scheme outcome" where
  "fork_files p np i 0 s = Ok s"
| "fork_files p np i (Suc k) s =
     rbind (case p_ofile (proc s p) i of
              None \<Rightarrow> Ok s
            | Some f \<Rightarrow>
                rbind (filedup f s) (\<lambda>(f, s).
                Ok (upd_proc np (\<lambda>q. q\<lparr>p_ofile := (p_ofile q)(i := Some f)\<rparr>) s))) (\<lambda>s.
     fork_files p np (Suc i) k s)"

definition sizeof_trapframe :: nat where "sizeof_trapframe = 288"

definition fork :: "'a filest_scheme \<Rightarrow> (int \<times> 'a filest_scheme) outcome" where
  "fork s =
     (let p = this_proc s in
      rbind (allocproc s) (\<lambda>(np, s).
      case np of
        None \<Rightarrow> Ok (-1, s)
      | Some np \<Rightarrow>
          rbind (uvmcopy (p_pagetable (proc s p)) (p_pagetable (proc s np)) (p_sz (proc s p)) s) (\<lambda>(r, s).
          if r < 0 then
            rbind (freeproc np s) (\<lambda>s. rbind (release (L_proc np) s) (\<lambda>s. Ok (-1, s)))
          else
            (let s = upd_proc np (\<lambda>q. q\<lparr>p_sz := p_sz (proc s p)\<rparr>) s;
                 s = upd_proc np (\<lambda>q. q\<lparr>p_parent := Some p\<rparr>) s;
                 s = s\<lparr>mem := memmove (mem s) (p_trapframe (proc s np)) (p_trapframe (proc s p)) sizeof_trapframe\<rparr>;
                 s = set_tf np TF_a0 0 s in
             rbind (fork_files p np 0 NOFILE s) (\<lambda>s.
             rbind (case p_cwd (proc s p) of Some ip \<Rightarrow> idup ip s | None \<Rightarrow> Panic ''kerneltrap'') (\<lambda>(ip, s).
             let s = upd_proc np (\<lambda>q. q\<lparr>p_cwd := Some ip\<rparr>) s;
                 s = upd_proc np (\<lambda>q. q\<lparr>p_name := safestrcpy (p_name q) (p_name (proc s p)) 16\<rparr>) s;
                 pid = p_pid (proc s np);
                 s = upd_proc np (\<lambda>q. q\<lparr>p_state := RUNNABLE\<rparr>) s in
             rbind (release (L_proc np) s) (\<lambda>s. Ok (pid, s))))))))"

section \<open>Exit\<close>

fun exit_files :: "nat \<Rightarrow> nat \<Rightarrow> nat \<Rightarrow> 'a filest_scheme \<Rightarrow> 'a filest_scheme outcome" where
  "exit_files p fd 0 s = Ok s"
| "exit_files p fd (Suc k) s =
     rbind (case p_ofile (proc s p) fd of
              None \<Rightarrow> Ok s
            | Some f \<Rightarrow>
                rbind (fileclose f s) (\<lambda>s.
                Ok (upd_proc p (\<lambda>q. q\<lparr>p_ofile := (p_ofile q)(fd := None)\<rparr>) s))) (\<lambda>s.
     exit_files p (Suc fd) k s)"

definition wake_init :: "'a filest_scheme \<Rightarrow> 'a filest_scheme outcome" where
  "wake_init s =
     (case initproc s of
        None \<Rightarrow> Panic ''kerneltrap''
      | Some i \<Rightarrow>
          rbind (acquire (L_proc i) s) (\<lambda>s.
          rbind (wakeup1 i s) (\<lambda>s. release (L_proc i) s)))"

text \<open>The last part of \<^verbatim>\<open>exit\<close>, up to the jump into the scheduler.\<close>

definition become_zombie :: "nat \<Rightarrow> u32 \<Rightarrow> 'a filest_scheme \<Rightarrow> 'a filest_scheme outcome" where
  "become_zombie p status s =
     rbind (acquire (L_proc p) s) (\<lambda>s.
     let original_parent = p_parent (proc s p) in
     rbind (release (L_proc p) s) (\<lambda>s.
     case original_parent of
       None \<Rightarrow> Panic ''kerneltrap''
     | Some pp \<Rightarrow>
         rbind (acquire (L_proc pp) s) (\<lambda>s.
         rbind (acquire (L_proc p) s) (\<lambda>s.
         rbind (reparent p s) (\<lambda>s.
         rbind (wakeup1 pp s) (\<lambda>s.
         let s = upd_proc p (\<lambda>q. q\<lparr>p_xstate := status\<rparr>) s;
             s = upd_proc p (\<lambda>q. q\<lparr>p_state := ZOMBIE\<rparr>) s in
         release (L_proc pp) s))))))"

definition exit_prep :: "u32 \<Rightarrow> 'a filest_scheme \<Rightarrow> 'a filest_scheme outcome" where
  "exit_prep status s =
     (let p = this_proc s in
      if Some p = initproc s then Panic ''init exiting''
      else
        rbind (exit_files p 0 NOFILE s) (\<lambda>s.
        rbind (begin_op [] s) (\<lambda>s.
        rbind (case p_cwd (proc s p) of Some ip \<Rightarrow> iput ip s | None \<Rightarrow> Panic ''kerneltrap'') (\<lambda>s.
        rbind (end_op s) (\<lambda>s.
        let s = upd_proc p (\<lambda>q. q\<lparr>p_cwd := None\<rparr>) s in
        rbind (wake_init s) (\<lambda>s.
        become_zombie p status s))))))"

text \<open>\<^verbatim>\<open>sched\<close> does not return to a zombie.\<close>

definition exit :: "u32 \<Rightarrow> 'a filest_scheme \<Rightarrow> 'a filest_scheme outcome" where
  "exit status s =
     rbind (exit_prep status s) (\<lambda>s.
     rbind (sched None s) (\<lambda>s. Panic ''zombie exit''))"

end
