(* ===== verification/Exec.thy ===== *)
theory Exec
  imports Sysarg Fork_Exit
begin

text \<open>
  \<^verbatim>\<open>kernel/exec.c\<close>: loading an ELF image into a fresh address space and switching the process over to
  it. Headers read into local variables go through \<open>klocal\<close>; the argument strings are pages of kernel
  memory, given by the list of their addresses.
\<close>

section \<open>File format\<close>

definition ELF_MAGIC :: u32 where "ELF_MAGIC = 0x464C457F"
definition ELF_PROG_LOAD :: u32 where "ELF_PROG_LOAD = 1"
definition MAXARG :: nat where "MAXARG = 32"

record elfhdr =
  e_magic :: u32
  e_entry :: u64
  e_phoff :: u64
  e_phnum :: u16

definition get_elfhdr :: "cstr \<Rightarrow> elfhdr" where
  "get_elfhdr b = \<lparr>e_magic = get_le 4 b 0, e_entry = get_le 8 b 24, e_phoff = get_le 8 b 32, e_phnum = get_le 2 b 56\<rparr>"

record proghdr =
  ph_type :: u32
  ph_off :: u64
  ph_vaddr :: u64
  ph_filesz :: u64
  ph_memsz :: u64

definition get_proghdr :: "cstr \<Rightarrow> proghdr" where
  "get_proghdr b = \<lparr>ph_type = get_le 4 b 0, ph_off = get_le 8 b 8, ph_vaddr = get_le 8 b 16,
     ph_filesz = get_le 8 b 32, ph_memsz = get_le 8 b 40\<rparr>"

section \<open>Segments\<close>

text \<open>
  The pages of a segment from byte \<open>i\<close> on. Only a wrap-around of the 32-bit counter could make the
  loop run over the first argument.
\<close>

fun loadseg_loop :: "nat \<Rightarrow> pagetable_t \<Rightarrow> u64 \<Rightarrow> nat \<Rightarrow> u32 \<Rightarrow> u32 \<Rightarrow> u32 \<Rightarrow> 'a fsst_scheme \<Rightarrow>
    (int \<times> 'a fsst_scheme) outcome" where
  "loadseg_loop 0 pagetable va ip offset sz i s = (if i < sz then Unfinished else Ok (0, s))"
| "loadseg_loop (Suc k) pagetable va ip offset sz i s =
     (if i < sz then
        rbind (walkaddr pagetable (va + ucast i) s) (\<lambda>pa.
        if pa = 0 then Panic ''loadseg: address should exist''
        else
          (let n = (if sz - i < 4096 then sz - i else 4096) in
           rbind (readi ip (Kern pa) (offset + i) n s) (\<lambda>(r, s).
           if r \<noteq> n then Ok (-1, s)
           else loadseg_loop k pagetable va ip offset sz (i + 4096) s)))
      else Ok (0, s))"

definition loadseg :: "pagetable_t \<Rightarrow> u64 \<Rightarrow> nat \<Rightarrow> u32 \<Rightarrow> u32 \<Rightarrow> 'a fsst_scheme \<Rightarrow> (int \<times> 'a fsst_scheme) outcome" where
  "loadseg pagetable va ip offset sz s =
     (if va mod 4096 \<noteq> 0 then Panic ''loadseg: va must be page aligned''
      else loadseg_loop (unat sz div 4096 + 1) pagetable va ip offset sz 0 s)"

text \<open>
  The loop over the program headers, with \<open>k\<close> to go: whether it succeeded, and \<^verbatim>\<open>sz\<close>, which the cleanup
  needs as well.
\<close>

fun exec_load :: "pagetable_t \<Rightarrow> nat \<Rightarrow> nat \<Rightarrow> u32 \<Rightarrow> u64 \<Rightarrow> 'a filest_scheme \<Rightarrow>
    (bool \<times> u64 \<times> 'a filest_scheme) outcome" where
  "exec_load pagetable ip 0 off sz s = Ok (True, sz, s)"
| "exec_load pagetable ip (Suc k) off sz s =
     rbind (readi ip (Local 0) off 56 s) (\<lambda>(r, s).
     if r \<noteq> 56 then Ok (False, sz, s)
     else
       (let ph = get_proghdr (klocal s) in
        if ph_type ph \<noteq> ELF_PROG_LOAD then exec_load pagetable ip k (off + 56) sz s
        else if ph_memsz ph < ph_filesz ph then Ok (False, sz, s)
        else if ph_vaddr ph + ph_memsz ph < ph_vaddr ph then Ok (False, sz, s)
        else
          rbind (uvmalloc pagetable sz (ph_vaddr ph + ph_memsz ph) s) (\<lambda>(sz1, s).
          if sz1 = 0 then Ok (False, sz, s)
          else if ph_vaddr ph mod 4096 \<noteq> 0 then Ok (False, sz1, s)
          else
            rbind (loadseg pagetable (ph_vaddr ph) ip (ucast (ph_off ph)) (ucast (ph_filesz ph)) s) (\<lambda>(r, s).
            if r < 0 then Ok (False, sz1, s) else exec_load pagetable ip k (off + 56) sz1 s))))"

section \<open>Arguments\<close>

definition mem_cstr :: "memory \<Rightarrow> u64 \<Rightarrow> cstr" where
  "mem_cstr m a = (\<lambda>i. m (a + of_nat i))"

text \<open>Pushing the strings: the stack pointer and \<^verbatim>\<open>ustack\<close> in the end, \<open>None\<close> on failure.\<close>

fun exec_args :: "pagetable_t \<Rightarrow> u64 \<Rightarrow> u64 list \<Rightarrow> nat \<Rightarrow> u64 \<Rightarrow> (nat \<Rightarrow> u64) \<Rightarrow> 'a filest_scheme \<Rightarrow>
    ((nat \<times> u64 \<times> (nat \<Rightarrow> u64)) option \<times> 'a filest_scheme) outcome" where
  "exec_args pagetable stackbase [] argc sp ustack s = Ok (Some (argc, sp, ustack(argc := 0)), s)"
| "exec_args pagetable stackbase (a # argv) argc sp ustack s =
     (if argc \<ge> MAXARG then Ok (None, s)
      else
        (case strlen (mem_cstr (mem s) a) of
           None \<Rightarrow> Unfinished
         | Some n \<Rightarrow>
             (let sp = sp - of_nat (n + 1);
                  sp = sp - sp mod 16 in
              if sp < stackbase then Ok (None, s)
              else
                rbind (copyout pagetable sp (mem_cstr (mem s) a) (of_nat (n + 1)) s) (\<lambda>(r, s).
                if r < 0 then Ok (None, s)
                else exec_args pagetable stackbase argv (Suc argc) sp (ustack(argc := sp)) s))))"

definition words_bytes :: "(nat \<Rightarrow> u64) \<Rightarrow> cstr" where
  "words_bytes w = (\<lambda>i. word_bytes (w (i div 8)) (i mod 8))"

text \<open>The part of the path after the last slash.\<close>

definition path_last :: "byte list \<Rightarrow> byte list" where
  "path_last path = rev (takeWhile (\<lambda>c. c \<noteq> slash) (rev path))"

section \<open>Exec\<close>

text \<open>The label \<^verbatim>\<open>bad\<close>; \<open>ip\<close> is \<open>None\<close> once it has been put.\<close>

definition exec_bad :: "pagetable_t \<Rightarrow> u64 \<Rightarrow> nat option \<Rightarrow> 'a filest_scheme \<Rightarrow> (int \<times> 'a filest_scheme) outcome" where
  "exec_bad pagetable sz ip s =
     rbind (if pagetable \<noteq> 0 then proc_freepagetable pagetable sz s else Ok s) (\<lambda>s.
     case ip of
       None \<Rightarrow> Ok (-1, s)
     | Some ip \<Rightarrow> rbind (iunlockput ip s) (\<lambda>s. rbind (end_op s) (\<lambda>s. Ok (-1, s))))"

text \<open>The user stack and the switch to the new image, once the program is loaded.\<close>

definition exec_stack :: "pagetable_t \<Rightarrow> u64 \<Rightarrow> byte list \<Rightarrow> u64 list \<Rightarrow> u64 \<Rightarrow> 'a filest_scheme \<Rightarrow>
    (int \<times> 'a filest_scheme) outcome" where
  "exec_stack pagetable sz path argv entry s =
     (let p = this_proc s; oldsz = p_sz (proc s p); sz = PGROUNDUP sz in
      rbind (uvmalloc pagetable sz (sz + 2 * 4096) s) (\<lambda>(sz1, s).
      if sz1 = 0 then exec_bad pagetable sz None s
      else
        (let sz = sz1 in
         rbind (uvmclear pagetable (sz - 2 * 4096) s) (\<lambda>s.
         let sp = sz; stackbase = sp - 4096 in
         rbind (exec_args pagetable stackbase argv 0 sp (\<lambda>_. 0) s) (\<lambda>(r, s).
         case r of
           None \<Rightarrow> exec_bad pagetable sz None s
         | Some (argc, sp, ustack) \<Rightarrow>
             (let sp = sp - of_nat ((argc + 1) * 8);
                  sp = sp - sp mod 16 in
              if sp < stackbase then exec_bad pagetable sz None s
              else
                rbind (copyout pagetable sp (words_bytes ustack) (of_nat ((argc + 1) * 8)) s) (\<lambda>(r, s).
                if r < 0 then exec_bad pagetable sz None s
                else
                  (let s = set_tf p TF_a1 sp s;
                       s = upd_proc p (\<lambda>q. q\<lparr>p_name := safestrcpy (p_name q) (cstr_of (path_last path)) 16\<rparr>) s;
                       oldpagetable = p_pagetable (proc s p);
                       s = upd_proc p (\<lambda>q. q\<lparr>p_pagetable := pagetable\<rparr>) s;
                       s = upd_proc p (\<lambda>q. q\<lparr>p_sz := sz\<rparr>) s;
                       s = set_tf p TF_epc entry s;
                       s = set_tf p TF_sp sp s in
                   rbind (proc_freepagetable oldpagetable oldsz s) (\<lambda>s. Ok (int argc, s))))))))))"

definition exec :: "byte list \<Rightarrow> u64 list \<Rightarrow> 'a filest_scheme \<Rightarrow> (int \<times> 'a filest_scheme) outcome" where
  "exec path argv s =
     (let p = this_proc s in
      rbind (begin_op [] s) (\<lambda>s.
      rbind (namei path s) (\<lambda>(ip, s).
      case ip of
        None \<Rightarrow> rbind (end_op s) (\<lambda>s. Ok (-1, s))
      | Some ip \<Rightarrow>
          rbind (ilock (Some ip) s) (\<lambda>s.
          rbind (readi ip (Local 0) 0 64 s) (\<lambda>(r, s).
          if r \<noteq> 64 then exec_bad 0 0 (Some ip) s
          else
            (let elf = get_elfhdr (klocal s) in
             if e_magic elf \<noteq> ELF_MAGIC then exec_bad 0 0 (Some ip) s
             else
               rbind (proc_pagetable p s) (\<lambda>(pagetable, s).
               if pagetable = 0 then exec_bad 0 0 (Some ip) s
               else
                 rbind (exec_load pagetable ip (unat (e_phnum elf)) (ucast (e_phoff elf)) 0 s) (\<lambda>(ok, sz, s).
                 if \<not> ok then exec_bad pagetable sz (Some ip) s
                 else
                   rbind (iunlockput ip s) (\<lambda>s.
                   rbind (end_op s) (\<lambda>s.
                   exec_stack pagetable sz path argv (e_entry elf) s))))))))))"

end
