(* ===== verification/Sysfile.thy ===== *)
theory Sysfile
  imports Exec
begin

text \<open>
  The system calls on files, \<^verbatim>\<open>kernel/sysfile.c\<close>. Each gives the value that ends up in register a0.
\<close>

section \<open>Descriptors\<close>

definition O_RDONLY :: u32 where "O_RDONLY = 0x000"
definition O_WRONLY :: u32 where "O_WRONLY = 0x001"
definition O_RDWR :: u32 where "O_RDWR = 0x002"
definition O_CREATE :: u32 where "O_CREATE = 0x200"
definition O_TRUNC :: u32 where "O_TRUNC = 0x400"

text \<open>The descriptor and the file, \<open>None\<close> for the result -1.\<close>

definition argfd :: "nat \<Rightarrow> 'a procs_scheme \<Rightarrow> (nat \<times> nat) option outcome" where
  "argfd n s =
     rbind (argint n s) (\<lambda>fd.
     if sint fd < 0 \<or> sint fd \<ge> int NOFILE then Ok None
     else (case p_ofile (proc s (this_proc s)) (nat (sint fd)) of
             None \<Rightarrow> Ok None
           | Some f \<Rightarrow> Ok (Some (nat (sint fd), f))))"

fun fdalloc_scan :: "nat \<Rightarrow> nat \<Rightarrow> (nat \<Rightarrow> nat option) \<Rightarrow> nat option" where
  "fdalloc_scan fd 0 ofile = None"
| "fdalloc_scan fd (Suc k) ofile = (if ofile fd = None then Some fd else fdalloc_scan (Suc fd) k ofile)"

definition set_fd :: "nat \<Rightarrow> nat option \<Rightarrow> 'a procs_scheme \<Rightarrow> 'a procs_scheme" where
  "set_fd fd f s = upd_proc (this_proc s) (\<lambda>q. q\<lparr>p_ofile := (p_ofile q)(fd := f)\<rparr>) s"

definition fdalloc :: "nat \<Rightarrow> 'a procs_scheme \<Rightarrow> nat option \<times> 'a procs_scheme" where
  "fdalloc f s =
     (case fdalloc_scan 0 NOFILE (p_ofile (proc s (this_proc s))) of
        None \<Rightarrow> (None, s)
      | Some fd \<Rightarrow> (Some fd, set_fd fd (Some f) s))"

definition sys_dup :: "'a filest_scheme \<Rightarrow> (int \<times> 'a filest_scheme) outcome" where
  "sys_dup s =
     rbind (argfd 0 s) (\<lambda>r.
     case r of
       None \<Rightarrow> Ok (-1, s)
     | Some (_, f) \<Rightarrow>
         (case fdalloc f s of
            (None, s) \<Rightarrow> Ok (-1, s)
          | (Some fd, s) \<Rightarrow> rbind (filedup f s) (\<lambda>(_, s). Ok (int fd, s))))"

definition sys_read :: "('a filest_scheme \<Rightarrow> 'a filest_scheme) list \<Rightarrow> 'a filest_scheme \<Rightarrow> (int \<times> 'a filest_scheme) outcome" where
  "sys_read env s =
     rbind (argfd 0 s) (\<lambda>r.
     case r of
       None \<Rightarrow> Ok (-1, s)
     | Some (_, f) \<Rightarrow>
         rbind (argint 2 s) (\<lambda>n.
         rbind (argaddr 1 s) (\<lambda>p. fileread f p (sint n) env s)))"

definition sys_write :: "('a filest_scheme \<Rightarrow> 'a filest_scheme) list \<Rightarrow> 'a filest_scheme \<Rightarrow> (int \<times> 'a filest_scheme) outcome" where
  "sys_write env s =
     rbind (argfd 0 s) (\<lambda>r.
     case r of
       None \<Rightarrow> Ok (-1, s)
     | Some (_, f) \<Rightarrow>
         rbind (argint 2 s) (\<lambda>n.
         rbind (argaddr 1 s) (\<lambda>p. filewrite f p (sint n) env s)))"

definition sys_close :: "'a filest_scheme \<Rightarrow> (int \<times> 'a filest_scheme) outcome" where
  "sys_close s =
     rbind (argfd 0 s) (\<lambda>r.
     case r of
       None \<Rightarrow> Ok (-1, s)
     | Some (fd, f) \<Rightarrow> rbind (fileclose f (set_fd fd None s)) (\<lambda>s. Ok (0, s)))"

definition sys_fstat :: "'a filest_scheme \<Rightarrow> (int \<times> 'a filest_scheme) outcome" where
  "sys_fstat s =
     rbind (argfd 0 s) (\<lambda>r.
     case r of
       None \<Rightarrow> Ok (-1, s)
     | Some (_, f) \<Rightarrow> rbind (argaddr 1 s) (\<lambda>st. filestat f st s))"

section \<open>Links\<close>

text \<open>\<^verbatim>\<open>end_op(); return -1;\<close>\<close>

definition fail_op :: "'a filest_scheme \<Rightarrow> (int \<times> 'a filest_scheme) outcome" where
  "fail_op s = rbind (end_op s) (\<lambda>s. Ok (-1, s))"

text \<open>\<^verbatim>\<open>iunlockput(ip); end_op(); return -1;\<close>\<close>

definition fail_put :: "nat \<Rightarrow> 'a filest_scheme \<Rightarrow> (int \<times> 'a filest_scheme) outcome" where
  "fail_put ip s = rbind (iunlockput ip s) (\<lambda>s. fail_op s)"

definition link_bad :: "nat \<Rightarrow> 'a filest_scheme \<Rightarrow> (int \<times> 'a filest_scheme) outcome" where
  "link_bad ip s =
     rbind (ilock (Some ip) s) (\<lambda>s.
     let s = upd_inode ip (\<lambda>x. x\<lparr>i_nlink := i_nlink x - 1\<rparr>) s in
     rbind (iupdate ip s) (\<lambda>s. fail_put ip s))"

definition sys_link :: "'a filest_scheme \<Rightarrow> (int \<times> 'a filest_scheme) outcome" where
  "sys_link s =
     rbind (argpath 0 s) (\<lambda>old.
     case old of None \<Rightarrow> Ok (-1, s) | Some old \<Rightarrow>
     rbind (argpath 1 s) (\<lambda>new.
     case new of None \<Rightarrow> Ok (-1, s) | Some new \<Rightarrow>
     rbind (begin_op [] s) (\<lambda>s.
     rbind (namei old s) (\<lambda>(ip, s).
     case ip of
       None \<Rightarrow> fail_op s
     | Some ip \<Rightarrow>
         rbind (ilock (Some ip) s) (\<lambda>s.
         if i_type (inodes s ip) = T_DIR then fail_put ip s
         else
           (let s = upd_inode ip (\<lambda>x. x\<lparr>i_nlink := i_nlink x + 1\<rparr>) s in
            rbind (iupdate ip s) (\<lambda>s.
            rbind (iunlock (Some ip) s) (\<lambda>s.
            rbind (nameiparent new (\<lambda>_. 0) s) (\<lambda>(dp, name, s).
            case dp of
              None \<Rightarrow> link_bad ip s
            | Some dp \<Rightarrow>
                rbind (ilock (Some dp) s) (\<lambda>s.
                rbind (if i_dev (inodes s dp) \<noteq> i_dev (inodes s ip) then Ok (-1, s)
                       else dirlink dp name (i_inum (inodes s ip)) s) (\<lambda>(r, s).
                if r < 0 then rbind (iunlockput dp s) (\<lambda>s. link_bad ip s)
                else
                  rbind (iunlockput dp s) (\<lambda>s.
                  rbind (iput ip s) (\<lambda>s.
                  rbind (end_op s) (\<lambda>s. Ok (0, s)))))))))))))))"

function isdirempty_loop :: "nat \<Rightarrow> u32 \<Rightarrow> 'a fsst_scheme \<Rightarrow> (bool \<times> 'a fsst_scheme) outcome" where
  "isdirempty_loop dp off s =
     (if off < i_size (inodes s dp) then
        rbind (readi dp (Local 0) off 16 s) (\<lambda>(r, s).
        if r \<noteq> 16 then Panic ''isdirempty: readi''
        else if de_inum (klocal s) \<noteq> 0 then Ok (False, s)
        else isdirempty_loop dp (off + 16) s)
      else Ok (True, s))"
  by pat_completeness auto
termination
  by (relation "measure (\<lambda>(dp, off, s). 2 ^ 32 - unat off)") (auto dest!: readi_decreases)

declare isdirempty_loop.simps [simp del]

definition isdirempty :: "nat \<Rightarrow> 'a fsst_scheme \<Rightarrow> (bool \<times> 'a fsst_scheme) outcome" where
  "isdirempty dp s = isdirempty_loop dp (2 * 16) s"

definition sys_unlink :: "'a filest_scheme \<Rightarrow> (int \<times> 'a filest_scheme) outcome" where
  "sys_unlink s =
     rbind (argpath 0 s) (\<lambda>path.
     case path of None \<Rightarrow> Ok (-1, s) | Some path \<Rightarrow>
     rbind (begin_op [] s) (\<lambda>s.
     rbind (nameiparent path (\<lambda>_. 0) s) (\<lambda>(dp, name, s).
     case dp of
       None \<Rightarrow> fail_op s
     | Some dp \<Rightarrow>
         rbind (ilock (Some dp) s) (\<lambda>s.
         if namecmp name (cstr_of (bytes_of ''.'')) = 0 \<or> namecmp name (cstr_of (bytes_of ''..'')) = 0
         then fail_put dp s
         else
           rbind (dirlookup dp name s) (\<lambda>(r, s).
           case r of
             None \<Rightarrow> fail_put dp s
           | Some (ip, off) \<Rightarrow>
               rbind (ilock (Some ip) s) (\<lambda>s.
               if sint (i_nlink (inodes s ip)) < 1 then Panic ''unlink: nlink < 1''
               else
                 rbind (if i_type (inodes s ip) = T_DIR
                        then rbind (isdirempty ip s) (\<lambda>(e, s). Ok (\<not> e, s)) else Ok (False, s)) (\<lambda>(full, s).
                 if full then rbind (iunlockput ip s) (\<lambda>s. fail_put dp s)
                 else
                   (let s = s\<lparr>klocal := (\<lambda>i. if i < 16 then 0 else klocal s i)\<rparr> in
                    rbind (writei dp (Local 0) off 16 s) (\<lambda>(r, s).
                    if r \<noteq> 16 then Panic ''unlink: writei''
                    else
                      rbind (if i_type (inodes s ip) = T_DIR
                             then iupdate dp (upd_inode dp (\<lambda>x. x\<lparr>i_nlink := i_nlink x - 1\<rparr>) s)
                             else Ok s) (\<lambda>s.
                      rbind (iunlockput dp s) (\<lambda>s.
                      let s = upd_inode ip (\<lambda>x. x\<lparr>i_nlink := i_nlink x - 1\<rparr>) s in
                      rbind (iupdate ip s) (\<lambda>s.
                      rbind (iunlockput ip s) (\<lambda>s.
                      rbind (end_op s) (\<lambda>s. Ok (0, s)))))))))))))))"

section \<open>Creating and opening\<close>

definition create :: "byte list \<Rightarrow> u16 \<Rightarrow> u16 \<Rightarrow> u16 \<Rightarrow> 'a filest_scheme \<Rightarrow> (nat option \<times> 'a filest_scheme) outcome" where
  "create path type major minor s =
     rbind (nameiparent path (\<lambda>_. 0) s) (\<lambda>(dp, name, s).
     case dp of
       None \<Rightarrow> Ok (None, s)
     | Some dp \<Rightarrow>
         rbind (ilock (Some dp) s) (\<lambda>s.
         rbind (dirlookup dp name s) (\<lambda>(r, s).
         case r of
           Some (ip, _) \<Rightarrow>
             rbind (iunlockput dp s) (\<lambda>s.
             rbind (ilock (Some ip) s) (\<lambda>s.
             if type = T_FILE \<and> (i_type (inodes s ip) = T_FILE \<or> i_type (inodes s ip) = T_DEVICE)
             then Ok (Some ip, s)
             else rbind (iunlockput ip s) (\<lambda>s. Ok (None, s))))
         | None \<Rightarrow>
             rbind (ialloc (i_dev (inodes s dp)) type s) (\<lambda>(ip, s).
             rbind (ilock (Some ip) s) (\<lambda>s.
             let s = upd_inode ip (\<lambda>x. x\<lparr>i_major := major, i_minor := minor, i_nlink := 1\<rparr>) s in
             rbind (iupdate ip s) (\<lambda>s.
             rbind (if type = T_DIR then
                      rbind (iupdate dp (upd_inode dp (\<lambda>x. x\<lparr>i_nlink := i_nlink x + 1\<rparr>) s)) (\<lambda>s.
                      rbind (dirlink ip (cstr_of (bytes_of ''.'')) (i_inum (inodes s ip)) s) (\<lambda>(r, s).
                      if r < 0 then Panic ''create dots''
                      else
                        rbind (dirlink ip (cstr_of (bytes_of ''..'')) (i_inum (inodes s dp)) s) (\<lambda>(r, s).
                        if r < 0 then Panic ''create dots'' else Ok s)))
                    else Ok s) (\<lambda>s.
             rbind (dirlink dp name (i_inum (inodes s ip)) s) (\<lambda>(r, s).
             if r < 0 then Panic ''create: dirlink''
             else rbind (iunlockput dp s) (\<lambda>s. Ok (Some ip, s))))))))))"

text \<open>The inode that \<^verbatim>\<open>sys_open\<close> opens, locked; \<open>None\<close> if the transaction has been ended for an error.\<close>

definition open_inode :: "byte list \<Rightarrow> u32 \<Rightarrow> 'a filest_scheme \<Rightarrow> (nat option \<times> 'a filest_scheme) outcome" where
  "open_inode path omode s =
     (if omode AND O_CREATE \<noteq> 0 then
        rbind (create path T_FILE 0 0 s) (\<lambda>(ip, s).
        case ip of
          None \<Rightarrow> rbind (end_op s) (\<lambda>s. Ok (None, s))
        | Some ip \<Rightarrow> Ok (Some ip, s))
      else
        rbind (namei path s) (\<lambda>(ip, s).
        case ip of
          None \<Rightarrow> rbind (end_op s) (\<lambda>s. Ok (None, s))
        | Some ip \<Rightarrow>
            rbind (ilock (Some ip) s) (\<lambda>s.
            if i_type (inodes s ip) = T_DIR \<and> omode \<noteq> O_RDONLY then
              rbind (iunlockput ip s) (\<lambda>s. rbind (end_op s) (\<lambda>s. Ok (None, s)))
            else Ok (Some ip, s))))"

definition sys_open :: "'a filest_scheme \<Rightarrow> (int \<times> 'a filest_scheme) outcome" where
  "sys_open s =
     rbind (argpath 0 s) (\<lambda>path.
     case path of None \<Rightarrow> Ok (-1, s) | Some path \<Rightarrow>
     rbind (argint 1 s) (\<lambda>omode.
     rbind (begin_op [] s) (\<lambda>s.
     rbind (open_inode path omode s) (\<lambda>(ip, s).
     case ip of
       None \<Rightarrow> Ok (-1, s)
     | Some ip \<Rightarrow>
         if i_type (inodes s ip) = T_DEVICE \<and>
            (sint (i_major (inodes s ip)) < 0 \<or> sint (i_major (inodes s ip)) \<ge> NDEV)
         then fail_put ip s
         else
           rbind (filealloc s) (\<lambda>(f, s).
           case f of
             None \<Rightarrow> fail_put ip s
           | Some f \<Rightarrow>
               (case fdalloc f s of
                  (None, s) \<Rightarrow> rbind (fileclose f s) (\<lambda>s. fail_put ip s)
                | (Some fd, s) \<Rightarrow>
                    (let s = (if i_type (inodes s ip) = T_DEVICE
                              then upd_file f (\<lambda>x. x\<lparr>f_type := FD_DEVICE, f_major := i_major (inodes s ip)\<rparr>) s
                              else upd_file f (\<lambda>x. x\<lparr>f_type := FD_INODE, f_off := 0\<rparr>) s);
                         s = upd_file f (\<lambda>x. x\<lparr>f_ip := ip,
                               f_readable := (omode AND O_WRONLY = 0),
                               f_writable := (omode AND O_WRONLY \<noteq> 0 \<or> omode AND O_RDWR \<noteq> 0)\<rparr>) s in
                     rbind (if omode AND O_TRUNC \<noteq> 0 \<and> i_type (inodes s ip) = T_FILE then itrunc ip s else Ok s) (\<lambda>s.
                     rbind (iunlock (Some ip) s) (\<lambda>s.
                     rbind (end_op s) (\<lambda>s. Ok (int fd, s)))))))))))"

definition sys_mkdir :: "'a filest_scheme \<Rightarrow> (int \<times> 'a filest_scheme) outcome" where
  "sys_mkdir s =
     rbind (begin_op [] s) (\<lambda>s.
     rbind (argpath 0 s) (\<lambda>path.
     case path of
       None \<Rightarrow> fail_op s
     | Some path \<Rightarrow>
         rbind (create path T_DIR 0 0 s) (\<lambda>(ip, s).
         case ip of
           None \<Rightarrow> fail_op s
         | Some ip \<Rightarrow> rbind (iunlockput ip s) (\<lambda>s. rbind (end_op s) (\<lambda>s. Ok (0, s))))))"

definition sys_mknod :: "'a filest_scheme \<Rightarrow> (int \<times> 'a filest_scheme) outcome" where
  "sys_mknod s =
     rbind (begin_op [] s) (\<lambda>s.
     rbind (argpath 0 s) (\<lambda>path.
     case path of
       None \<Rightarrow> fail_op s
     | Some path \<Rightarrow>
         rbind (argint 1 s) (\<lambda>major.
         rbind (argint 2 s) (\<lambda>minor.
         rbind (create path T_DEVICE (ucast major) (ucast minor) s) (\<lambda>(ip, s).
         case ip of
           None \<Rightarrow> fail_op s
         | Some ip \<Rightarrow> rbind (iunlockput ip s) (\<lambda>s. rbind (end_op s) (\<lambda>s. Ok (0, s))))))))"

definition sys_chdir :: "'a filest_scheme \<Rightarrow> (int \<times> 'a filest_scheme) outcome" where
  "sys_chdir s =
     (let p = this_proc s in
      rbind (begin_op [] s) (\<lambda>s.
      rbind (argpath 0 s) (\<lambda>path.
      case path of
        None \<Rightarrow> fail_op s
      | Some path \<Rightarrow>
          rbind (namei path s) (\<lambda>(ip, s).
          case ip of
            None \<Rightarrow> fail_op s
          | Some ip \<Rightarrow>
              rbind (ilock (Some ip) s) (\<lambda>s.
              if i_type (inodes s ip) \<noteq> T_DIR then fail_put ip s
              else
                rbind (iunlock (Some ip) s) (\<lambda>s.
                rbind (case p_cwd (proc s p) of Some d \<Rightarrow> iput d s | None \<Rightarrow> Panic ''kerneltrap'') (\<lambda>s.
                rbind (end_op s) (\<lambda>s.
                Ok (0, upd_proc p (\<lambda>q. q\<lparr>p_cwd := Some ip\<rparr>) s)))))))))"

section \<open>Exec, pipes and sockets\<close>

fun free_pages_of :: "u64 list \<Rightarrow> 'a kmem_scheme \<Rightarrow> 'a kmem_scheme outcome" where
  "free_pages_of [] s = Ok s"
| "free_pages_of (a # as) s = rbind (kfree a s) (\<lambda>s. free_pages_of as s)"

text \<open>
  Fetching the arguments of \<^verbatim>\<open>sys_exec\<close>, with room for \<open>k\<close> more: whether the null pointer was reached,
  and the pages allocated so far. The string is copied into the page at \<^verbatim>\<open>argv[i]\<close>.
\<close>

fun fetch_argv :: "u64 \<Rightarrow> nat \<Rightarrow> nat \<Rightarrow> u64 list \<Rightarrow> 'a filest_scheme \<Rightarrow>
    (bool \<times> u64 list \<times> 'a filest_scheme) outcome" where
  "fetch_argv uargv i 0 argv s = Ok (False, argv, s)"
| "fetch_argv uargv i (Suc k) argv s =
     rbind (fetchaddr (uargv + 8 * of_nat i) s) (\<lambda>(r, uarg).
     if r < 0 then Ok (False, argv, s)
     else if uarg = 0 then Ok (True, argv, s)
     else
       rbind (kalloc s) (\<lambda>(a, s).
       if a = 0 then Ok (False, argv, s)
       else
         rbind (fetchstr uarg (mem_cstr (mem s) a) 4096 s) (\<lambda>(r, buf).
         let s = s\<lparr>mem := put_bytes (mem s) a buf 0 4096\<rparr> in
         if r < 0 then Ok (False, argv @ [a], s)
         else fetch_argv uargv (Suc i) k (argv @ [a]) s)))"

definition sys_exec :: "'a filest_scheme \<Rightarrow> (int \<times> 'a filest_scheme) outcome" where
  "sys_exec s =
     rbind (argpath 0 s) (\<lambda>path.
     case path of None \<Rightarrow> Ok (-1, s) | Some path \<Rightarrow>
     rbind (argaddr 1 s) (\<lambda>uargv.
     rbind (fetch_argv uargv 0 MAXARG [] s) (\<lambda>(ok, argv, s).
     if \<not> ok then rbind (free_pages_of argv s) (\<lambda>s. Ok (-1, s))
     else
       rbind (exec path argv s) (\<lambda>(ret, s).
       rbind (free_pages_of argv s) (\<lambda>s. Ok (ret, s))))))"

definition pipe_bad :: "nat \<Rightarrow> nat \<Rightarrow> 'a filest_scheme \<Rightarrow> (int \<times> 'a filest_scheme) outcome" where
  "pipe_bad rfile wfile s =
     rbind (fileclose rfile s) (\<lambda>s. rbind (fileclose wfile s) (\<lambda>s. Ok (-1, s)))"

definition sys_pipe :: "'a filest_scheme \<Rightarrow> (int \<times> 'a filest_scheme) outcome" where
  "sys_pipe s =
     (let p = this_proc s in
      rbind (argaddr 0 s) (\<lambda>fdarray.
      rbind (pipealloc s) (\<lambda>(fs, s).
      case fs of
        None \<Rightarrow> Ok (-1, s)
      | Some (rfile, wfile) \<Rightarrow>
          (case fdalloc rfile s of
             (None, s) \<Rightarrow> pipe_bad rfile wfile s
           | (Some fd0, s) \<Rightarrow>
               (case fdalloc wfile s of
                  (None, s) \<Rightarrow> pipe_bad rfile wfile (set_fd fd0 None s)
                | (Some fd1, s) \<Rightarrow>
                    rbind (copyout (p_pagetable (proc s p)) fdarray (word_bytes (of_nat fd0 :: u32)) 4 s) (\<lambda>(r, s).
                    if r < 0 then pipe_bad rfile wfile (set_fd fd1 None (set_fd fd0 None s))
                    else
                      rbind (copyout (p_pagetable (proc s p)) (fdarray + 4) (word_bytes (of_nat fd1 :: u32)) 4 s) (\<lambda>(r, s).
                      if r < 0 then pipe_bad rfile wfile (set_fd fd1 None (set_fd fd0 None s))
                      else Ok (0, s))))))))"

definition sys_connect :: "'a filest_scheme \<Rightarrow> (int \<times> 'a filest_scheme) outcome" where
  "sys_connect s =
     rbind (argint 0 s) (\<lambda>raddr.
     rbind (argint 1 s) (\<lambda>lport.
     rbind (argint 2 s) (\<lambda>rport.
     rbind (sockalloc raddr (ucast lport) (ucast rport) s) (\<lambda>(f, s).
     case f of
       None \<Rightarrow> Ok (-1, s)
     | Some f \<Rightarrow>
         (case fdalloc f s of
            (None, s) \<Rightarrow> rbind (fileclose f s) (\<lambda>s. Ok (-1, s))
          | (Some fd, s) \<Rightarrow> Ok (int fd, s))))))"

end
