(* ===== verification/Virtio.thy ===== *)
theory Virtio
  imports File
begin

text \<open>
  The virtio disk driver, \<^verbatim>\<open>kernel/virtio_disk.c\<close> and \<^verbatim>\<open>kernel/virtio.h\<close>. A descriptor points to a command
  header, to the data of a buffer or to a status byte. The two rings are what driver and device
  share: the driver advances the available ring, the device the used ring. The theory \<open>Bio\<close> takes from
  this driver only what a request has done when it returns.
\<close>

section \<open>State\<close>

definition NUM :: nat where "NUM = 8"
definition VRING_DESC_F_NEXT :: u16 where "VRING_DESC_F_NEXT = 1"
definition VRING_DESC_F_WRITE :: u16 where "VRING_DESC_F_WRITE = 2"
definition VIRTIO_BLK_T_IN :: u32 where "VIRTIO_BLK_T_IN = 0"
definition VIRTIO_BLK_T_OUT :: u32 where "VIRTIO_BLK_T_OUT = 1"

definition VIRTIO_MMIO_MAGIC_VALUE :: nat where "VIRTIO_MMIO_MAGIC_VALUE = 0x000"
definition VIRTIO_MMIO_VERSION :: nat where "VIRTIO_MMIO_VERSION = 0x004"
definition VIRTIO_MMIO_DEVICE_ID :: nat where "VIRTIO_MMIO_DEVICE_ID = 0x008"
definition VIRTIO_MMIO_VENDOR_ID :: nat where "VIRTIO_MMIO_VENDOR_ID = 0x00c"
definition VIRTIO_MMIO_DEVICE_FEATURES :: nat where "VIRTIO_MMIO_DEVICE_FEATURES = 0x010"
definition VIRTIO_MMIO_DRIVER_FEATURES :: nat where "VIRTIO_MMIO_DRIVER_FEATURES = 0x020"
definition VIRTIO_MMIO_GUEST_PAGE_SIZE :: nat where "VIRTIO_MMIO_GUEST_PAGE_SIZE = 0x028"
definition VIRTIO_MMIO_QUEUE_SEL :: nat where "VIRTIO_MMIO_QUEUE_SEL = 0x030"
definition VIRTIO_MMIO_QUEUE_NUM_MAX :: nat where "VIRTIO_MMIO_QUEUE_NUM_MAX = 0x034"
definition VIRTIO_MMIO_QUEUE_NUM :: nat where "VIRTIO_MMIO_QUEUE_NUM = 0x038"
definition VIRTIO_MMIO_QUEUE_PFN :: nat where "VIRTIO_MMIO_QUEUE_PFN = 0x040"
definition VIRTIO_MMIO_QUEUE_NOTIFY :: nat where "VIRTIO_MMIO_QUEUE_NOTIFY = 0x050"
definition VIRTIO_MMIO_INTERRUPT_STATUS :: nat where "VIRTIO_MMIO_INTERRUPT_STATUS = 0x060"
definition VIRTIO_MMIO_INTERRUPT_ACK :: nat where "VIRTIO_MMIO_INTERRUPT_ACK = 0x064"
definition VIRTIO_MMIO_STATUS :: nat where "VIRTIO_MMIO_STATUS = 0x070"
definition VIRTIO_CONFIG_S_ACKNOWLEDGE :: u32 where "VIRTIO_CONFIG_S_ACKNOWLEDGE = 1"
definition VIRTIO_CONFIG_S_DRIVER :: u32 where "VIRTIO_CONFIG_S_DRIVER = 2"
definition VIRTIO_CONFIG_S_DRIVER_OK :: u32 where "VIRTIO_CONFIG_S_DRIVER_OK = 4"
definition VIRTIO_CONFIG_S_FEATURES_OK :: u32 where "VIRTIO_CONFIG_S_FEATURES_OK = 8"
definition VIRTIO_BLK_F_RO :: nat where "VIRTIO_BLK_F_RO = 5"
definition VIRTIO_BLK_F_SCSI :: nat where "VIRTIO_BLK_F_SCSI = 7"
definition VIRTIO_BLK_F_CONFIG_WCE :: nat where "VIRTIO_BLK_F_CONFIG_WCE = 11"
definition VIRTIO_BLK_F_MQ :: nat where "VIRTIO_BLK_F_MQ = 12"
definition VIRTIO_F_ANY_LAYOUT :: nat where "VIRTIO_F_ANY_LAYOUT = 27"
definition VIRTIO_RING_F_INDIRECT_DESC :: nat where "VIRTIO_RING_F_INDIRECT_DESC = 28"
definition VIRTIO_RING_F_EVENT_IDX :: nat where "VIRTIO_RING_F_EVENT_IDX = 29"

text \<open>The address in a descriptor: nothing, \<^verbatim>\<open>&disk.ops[i]\<close>, \<^verbatim>\<open>b->data\<close>, \<^verbatim>\<open>&disk.info[i].status\<close>.\<close>

datatype vaddr = VA_null | VA_op nat | VA_data nat | VA_status nat

record virtq_desc =
  vd_addr :: vaddr
  vd_len :: u32
  vd_flags :: u16
  vd_next :: u16

record virtio_blk_req =
  vr_type :: u32
  vr_reserved :: u32
  vr_sector :: u64

record vdiskst = filest +
  v_desc :: "nat \<Rightarrow> virtq_desc"
  avail_idx :: u16
  avail_ring :: "nat \<Rightarrow> u16"
  used_ring_idx :: u16
  used_ring :: "nat \<Rightarrow> u32"
  v_free :: "nat \<Rightarrow> bool"
  used_idx :: u16
  info_b :: "nat \<Rightarrow> nat option"
  info_status :: "nat \<Rightarrow> byte"
  v_ops :: "nat \<Rightarrow> virtio_blk_req"
  v_regs :: "nat \<Rightarrow> u32"

definition upd_desc :: "nat \<Rightarrow> (virtq_desc \<Rightarrow> virtq_desc) \<Rightarrow> 'a vdiskst_scheme \<Rightarrow> 'a vdiskst_scheme" where
  "upd_desc i f s = s\<lparr>v_desc := (v_desc s)(i := f (v_desc s i))\<rparr>"

definition write_reg :: "nat \<Rightarrow> u32 \<Rightarrow> 'a vdiskst_scheme \<Rightarrow> 'a vdiskst_scheme" where
  "write_reg r v s = s\<lparr>v_regs := (v_regs s)(r := v)\<rparr>"

section \<open>Initialisation\<close>

definition clear_feature :: "nat \<Rightarrow> u64 \<Rightarrow> u64" where
  "clear_feature k features = features AND NOT (push_bit k 1)"

definition null_desc :: virtq_desc where
  "null_desc = \<lparr>vd_addr = VA_null, vd_len = 0, vd_flags = 0, vd_next = 0\<rparr>"

text \<open>\<open>pages\<close> is the address of \<^verbatim>\<open>disk.pages\<close>; clearing it clears the descriptors and both rings.\<close>

definition virtio_disk_init :: "u64 \<Rightarrow> 'a vdiskst_scheme \<Rightarrow> 'a vdiskst_scheme outcome" where
  "virtio_disk_init pages s =
     (if v_regs s VIRTIO_MMIO_MAGIC_VALUE \<noteq> 0x74726976 \<or> v_regs s VIRTIO_MMIO_VERSION \<noteq> 1 \<or>
         v_regs s VIRTIO_MMIO_DEVICE_ID \<noteq> 2 \<or> v_regs s VIRTIO_MMIO_VENDOR_ID \<noteq> 0x554d4551
      then Panic ''could not find virtio disk''
      else
        (let status = 0 OR VIRTIO_CONFIG_S_ACKNOWLEDGE;
             s = write_reg VIRTIO_MMIO_STATUS status s;
             status = status OR VIRTIO_CONFIG_S_DRIVER;
             s = write_reg VIRTIO_MMIO_STATUS status s;
             features = ucast (v_regs s VIRTIO_MMIO_DEVICE_FEATURES);
             features = clear_feature VIRTIO_BLK_F_RO features;
             features = clear_feature VIRTIO_BLK_F_SCSI features;
             features = clear_feature VIRTIO_BLK_F_CONFIG_WCE features;
             features = clear_feature VIRTIO_BLK_F_MQ features;
             features = clear_feature VIRTIO_F_ANY_LAYOUT features;
             features = clear_feature VIRTIO_RING_F_EVENT_IDX features;
             features = clear_feature VIRTIO_RING_F_INDIRECT_DESC features;
             s = write_reg VIRTIO_MMIO_DRIVER_FEATURES (ucast features) s;
             status = status OR VIRTIO_CONFIG_S_FEATURES_OK;
             s = write_reg VIRTIO_MMIO_STATUS status s;
             status = status OR VIRTIO_CONFIG_S_DRIVER_OK;
             s = write_reg VIRTIO_MMIO_STATUS status s;
             s = write_reg VIRTIO_MMIO_GUEST_PAGE_SIZE 4096 s;
             s = write_reg VIRTIO_MMIO_QUEUE_SEL 0 s;
             max = v_regs s VIRTIO_MMIO_QUEUE_NUM_MAX in
         if max = 0 then Panic ''virtio disk has no queue 0''
         else if unat max < NUM then Panic ''virtio disk max queue too short''
         else
           (let s = write_reg VIRTIO_MMIO_QUEUE_NUM (of_nat NUM) s;
                s = s\<lparr>v_desc := (\<lambda>_. null_desc), avail_idx := 0, avail_ring := (\<lambda>_. 0),
                      used_ring_idx := 0, used_ring := (\<lambda>_. 0)\<rparr>;
                s = write_reg VIRTIO_MMIO_QUEUE_PFN (ucast (drop_bit 12 pages)) s in
            Ok (s\<lparr>v_free := (\<lambda>i. i < NUM \<or> v_free s i)\<rparr>))))"

section \<open>Descriptors\<close>

fun alloc_scan :: "nat \<Rightarrow> nat \<Rightarrow> (nat \<Rightarrow> bool) \<Rightarrow> nat option" where
  "alloc_scan i 0 fr = None"
| "alloc_scan i (Suc k) fr = (if fr i then Some i else alloc_scan (Suc i) k fr)"

definition alloc_desc :: "'a vdiskst_scheme \<Rightarrow> nat option \<times> 'a vdiskst_scheme" where
  "alloc_desc s =
     (case alloc_scan 0 NUM (v_free s) of
        None \<Rightarrow> (None, s)
      | Some i \<Rightarrow> (Some i, s\<lparr>v_free := (v_free s)(i := False)\<rparr>))"

definition free_desc :: "nat \<Rightarrow> 'a vdiskst_scheme \<Rightarrow> 'a vdiskst_scheme outcome" where
  "free_desc i s =
     (if i \<ge> NUM then Panic ''free_desc 1''
      else if v_free s i then Panic ''free_desc 2''
      else
        (let s = upd_desc i (\<lambda>d. d\<lparr>vd_addr := VA_null, vd_len := 0, vd_flags := 0, vd_next := 0\<rparr>) s;
             s = s\<lparr>v_free := (v_free s)(i := True)\<rparr> in
         wakeup Chan_disk_free s))"

text \<open>Each turn frees a descriptor that was in use or panics, so the bound of \<open>NUM + 1\<close> turns is not reached.\<close>

fun free_chain :: "nat \<Rightarrow> nat \<Rightarrow> 'a vdiskst_scheme \<Rightarrow> 'a vdiskst_scheme outcome" where
  "free_chain 0 i s = Unfinished"
| "free_chain (Suc n) i s =
     (let flag = vd_flags (v_desc s i);
          nxt = unat (vd_next (v_desc s i)) in
      rbind (free_desc i s) (\<lambda>s.
      if flag AND VRING_DESC_F_NEXT \<noteq> 0 then free_chain n nxt s else Ok s))"

definition alloc3_desc :: "'a vdiskst_scheme \<Rightarrow> ((nat \<times> nat \<times> nat) option \<times> 'a vdiskst_scheme) outcome" where
  "alloc3_desc s =
     (case alloc_desc s of
        (None, s) \<Rightarrow> Ok (None, s)
      | (Some a, s) \<Rightarrow>
          (case alloc_desc s of
             (None, s) \<Rightarrow> rbind (free_desc a s) (\<lambda>s. Ok (None, s))
           | (Some b, s) \<Rightarrow>
               (case alloc_desc s of
                  (None, s) \<Rightarrow> rbind (free_desc a s) (\<lambda>s. rbind (free_desc b s) (\<lambda>s. Ok (None, s)))
                | (Some c, s) \<Rightarrow> Ok (Some (a, b, c), s))))"

section \<open>Requests\<close>

text \<open>Formatting the three descriptors and telling the device.\<close>

definition submit :: "nat \<Rightarrow> bool \<Rightarrow> u64 \<Rightarrow> nat \<Rightarrow> nat \<Rightarrow> nat \<Rightarrow> 'a vdiskst_scheme \<Rightarrow> 'a vdiskst_scheme" where
  "submit b write sector i0 i1 i2 s =
     (let s = s\<lparr>v_ops := (v_ops s)(i0 := \<lparr>vr_type = (if write then VIRTIO_BLK_T_OUT else VIRTIO_BLK_T_IN),
                vr_reserved = 0, vr_sector = sector\<rparr>)\<rparr>;
          s = upd_desc i0 (\<lambda>d. d\<lparr>vd_addr := VA_op i0, vd_len := 16, vd_flags := VRING_DESC_F_NEXT, vd_next := of_nat i1\<rparr>) s;
          s = upd_desc i1 (\<lambda>d. d\<lparr>vd_addr := VA_data b, vd_len := of_nat BSIZE,
                vd_flags := (if write then 0 else VRING_DESC_F_WRITE)\<rparr>) s;
          s = upd_desc i1 (\<lambda>d. d\<lparr>vd_flags := vd_flags d OR VRING_DESC_F_NEXT, vd_next := of_nat i2\<rparr>) s;
          s = s\<lparr>info_status := (info_status s)(i0 := 0xff)\<rparr>;
          s = upd_desc i2 (\<lambda>d. d\<lparr>vd_addr := VA_status i0, vd_len := 1, vd_flags := VRING_DESC_F_WRITE, vd_next := 0\<rparr>) s;
          s = upd_buf b (\<lambda>x. x\<lparr>b_disk := True\<rparr>) s;
          s = s\<lparr>info_b := (info_b s)(i0 := Some b)\<rparr>;
          s = s\<lparr>avail_ring := (avail_ring s)(unat (avail_idx s) mod NUM := of_nat i0)\<rparr>;
          s = s\<lparr>avail_idx := avail_idx s + 1\<rparr> in
      write_reg VIRTIO_MMIO_QUEUE_NOTIFY 0 s)"

text \<open>The list says what the machine does in each sleep, first for descriptors, then for the disk.\<close>

definition virtio_disk_rw :: "nat \<Rightarrow> bool \<Rightarrow> ('a vdiskst_scheme \<Rightarrow> 'a vdiskst_scheme) list \<Rightarrow> 'a vdiskst_scheme \<Rightarrow>
    'a vdiskst_scheme outcome" where
  "virtio_disk_rw b write env s =
     (let sector = ucast (b_blockno (bufs s b) * of_nat (BSIZE div 512)) in
      rbind (acquire L_vdisk s) (\<lambda>s.
      rbind (sleep_loop alloc3_desc Chan_disk_free L_vdisk env s) (\<lambda>((i0, i1, i2), env, s).
      let s = submit b write sector i0 i1 i2 s in
      rbind (sleep_loop (\<lambda>s. Ok (if b_disk (bufs s b) then None else Some (), s)) (Chan_buf b) L_vdisk env s)
        (\<lambda>(_, env, s).
      let s = s\<lparr>info_b := (info_b s)(i0 := None)\<rparr> in
      rbind (free_chain (NUM + 1) i0 s) (\<lambda>s. release L_vdisk s)))))"

text \<open>
  The completions that the device has put into the used ring, at most one for each of the 16-bit
  indices.
\<close>

fun intr_loop :: "nat \<Rightarrow> 'a vdiskst_scheme \<Rightarrow> 'a vdiskst_scheme outcome" where
  "intr_loop 0 s = (if used_idx s \<noteq> used_ring_idx s then Unfinished else Ok s)"
| "intr_loop (Suc n) s =
     (if used_idx s \<noteq> used_ring_idx s then
        (let id = unat (used_ring s (unat (used_idx s) mod NUM)) in
         if info_status s id \<noteq> 0 then Panic ''virtio_disk_intr status''
         else
           (case info_b s id of
              None \<Rightarrow> Panic ''kerneltrap''
            | Some b \<Rightarrow>
                rbind (wakeup (Chan_buf b) (upd_buf b (\<lambda>x. x\<lparr>b_disk := False\<rparr>) s)) (\<lambda>s.
                intr_loop n (s\<lparr>used_idx := used_idx s + 1\<rparr>))))
      else Ok s)"

definition virtio_disk_intr :: "'a vdiskst_scheme \<Rightarrow> 'a vdiskst_scheme outcome" where
  "virtio_disk_intr s =
     rbind (acquire L_vdisk s) (\<lambda>s.
     let s = write_reg VIRTIO_MMIO_INTERRUPT_ACK (v_regs s VIRTIO_MMIO_INTERRUPT_STATUS AND 0x3) s in
     rbind (intr_loop (2 ^ 16) s) (\<lambda>s. release L_vdisk s))"

end
