(* ===== verification/Syscall.thy ===== *)
theory Syscall
  imports Sysfile Virtio
begin

text \<open>
  The system calls on processes, \<^verbatim>\<open>kernel/sysproc.c\<close>, and the dispatch by number in \<^verbatim>\<open>kernel/syscall.c\<close>. The
  state gets its last part: the tick counter of \<^verbatim>\<open>kernel/trap.c\<close>, the control and status registers of the
  hart, and the interrupt controller.
\<close>

section \<open>State\<close>

text \<open>
  \<open>plic_claims\<close> are the interrupts that the coming reads of the claim register give. The last five
  fields are link-time addresses, two of them relative to \<^verbatim>\<open>trampoline\<close>.
\<close>

record trapst = vdiskst +
  ticks :: u32
  forkret_first :: bool
  sstatus :: u64
  sepc :: u64
  scause :: u64
  stval :: u64
  stvec :: u64
  satp :: u64
  sip :: u64
  tp :: u64
  plic_regs :: "u64 \<Rightarrow> u32"
  plic_claims :: "u32 list"
  kernelvec_addr :: u64
  usertrap_addr :: u64
  uservec_off :: u64
  userret_off :: u64

section \<open>Processes\<close>

definition sys_exit :: "'a filest_scheme \<Rightarrow> (int \<times> 'a filest_scheme) outcome" where
  "sys_exit s =
     rbind (argint 0 s) (\<lambda>n.
     rbind (exit n s) (\<lambda>s. Ok (0, s)))"

definition sys_getpid :: "'a procs_scheme \<Rightarrow> (int \<times> 'a procs_scheme) outcome" where
  "sys_getpid s = Ok (p_pid (proc s (this_proc s)), s)"

definition sys_fork :: "'a filest_scheme \<Rightarrow> (int \<times> 'a filest_scheme) outcome" where
  "sys_fork s = fork s"

definition sys_wait :: "('a procs_scheme \<Rightarrow> 'a procs_scheme) list \<Rightarrow> 'a procs_scheme \<Rightarrow> (int \<times> 'a procs_scheme) outcome" where
  "sys_wait env s = rbind (argaddr 0 s) (\<lambda>p. wait p env s)"

text \<open>The old size goes through an \<^verbatim>\<open>int\<close>.\<close>

definition sys_sbrk :: "'a procs_scheme \<Rightarrow> (int \<times> 'a procs_scheme) outcome" where
  "sys_sbrk s =
     rbind (argint 0 s) (\<lambda>n.
     let addr = sint (ucast (p_sz (proc s (this_proc s))) :: u32) in
     rbind (growproc n s) (\<lambda>(r, s).
     if r < 0 then Ok (-1, s) else Ok (addr, s)))"

text \<open>The comparison \<^verbatim>\<open>ticks - ticks0 < n\<close> is one of unsigned numbers.\<close>

definition sys_sleep :: "('a trapst_scheme \<Rightarrow> 'a trapst_scheme) list \<Rightarrow> 'a trapst_scheme \<Rightarrow> (int \<times> 'a trapst_scheme) outcome" where
  "sys_sleep env s =
     rbind (argint 0 s) (\<lambda>n.
     rbind (acquire L_ticks s) (\<lambda>s.
     let ticks0 = ticks s in
     rbind (sleep_loop (\<lambda>s.
              if ticks s - ticks0 < n then
                if p_killed (proc s (this_proc s)) \<noteq> 0 then rbind (release L_ticks s) (\<lambda>s. Ok (Some (-1), s))
                else Ok (None, s)
              else rbind (release L_ticks s) (\<lambda>s. Ok (Some 0, s)))
            Chan_ticks L_ticks env s) (\<lambda>(r, env, s). Ok (r, s))))"

definition sys_kill :: "'a procs_scheme \<Rightarrow> (int \<times> 'a procs_scheme) outcome" where
  "sys_kill s = rbind (argint 0 s) (\<lambda>pid. kill (sint pid) s)"

definition sys_uptime :: "'a trapst_scheme \<Rightarrow> (int \<times> 'a trapst_scheme) outcome" where
  "sys_uptime s =
     rbind (acquire L_ticks s) (\<lambda>s.
     let xticks = ticks s in
     rbind (release L_ticks s) (\<lambda>s. Ok (uint xticks, s)))"

section \<open>Dispatch\<close>

text \<open>\<^verbatim>\<open>syscalls[]\<close>, with a null entry for the numbers of other labs.\<close>

definition syscalls :: "int \<Rightarrow> (('a trapst_scheme \<Rightarrow> 'a trapst_scheme) list \<Rightarrow> 'a trapst_scheme \<Rightarrow>
    (int \<times> 'a trapst_scheme) outcome) option" where
  "syscalls num =
     (if num = 1 then Some (\<lambda>env. sys_fork)
      else if num = 2 then Some (\<lambda>env. sys_exit)
      else if num = 3 then Some sys_wait
      else if num = 4 then Some (\<lambda>env. sys_pipe)
      else if num = 5 then Some sys_read
      else if num = 6 then Some (\<lambda>env. sys_kill)
      else if num = 7 then Some (\<lambda>env. sys_exec)
      else if num = 8 then Some (\<lambda>env. sys_fstat)
      else if num = 9 then Some (\<lambda>env. sys_chdir)
      else if num = 10 then Some (\<lambda>env. sys_dup)
      else if num = 11 then Some (\<lambda>env. sys_getpid)
      else if num = 12 then Some (\<lambda>env. sys_sbrk)
      else if num = 13 then Some sys_sleep
      else if num = 14 then Some (\<lambda>env. sys_uptime)
      else if num = 15 then Some (\<lambda>env. sys_open)
      else if num = 16 then Some sys_write
      else if num = 17 then Some (\<lambda>env. sys_mknod)
      else if num = 18 then Some (\<lambda>env. sys_unlink)
      else if num = 19 then Some (\<lambda>env. sys_link)
      else if num = 20 then Some (\<lambda>env. sys_mkdir)
      else if num = 21 then Some (\<lambda>env. sys_close)
      else if num = 29 then Some (\<lambda>env. sys_connect)
      else None)"

definition syscall :: "('a trapst_scheme \<Rightarrow> 'a trapst_scheme) list \<Rightarrow> 'a trapst_scheme \<Rightarrow> 'a trapst_scheme outcome" where
  "syscall env s =
     (let p = this_proc s;
          num = sint (ucast (get_tf p TF_a7 s) :: u32) in
      case (if num > 0 \<and> num < 30 then syscalls num else None) of
        Some f \<Rightarrow> rbind (f env s) (\<lambda>(r, s). Ok (set_tf p TF_a0 (of_int r) s))
      | None \<Rightarrow>
          rbind (printf (bytes_of ''%d %s: unknown sys call %d'' @ [10])
            [V_int (of_int (p_pid (proc s p))), V_str (Some (name_bytes (p_name (proc s p)))), V_int (of_int num)] s) (\<lambda>s.
          Ok (set_tf p TF_a0 (-1) s)))"

end
