(* ===== verification/E1000.thy ===== *)
theory E1000
  imports Net
begin

text \<open>
  The rest of the network driver \<^verbatim>\<open>kernel/e1000.c\<close>: initialisation, the receive ring and the interrupt.
  \<open>regs\<close> holds what was last written to each device register; the card itself moves through the
  rings by setting the \<^verbatim>\<open>DD\<close> bit of a descriptor it is done with.
\<close>

section \<open>Registers\<close>

definition E1000_CTL :: nat where "E1000_CTL = 0x00000 div 4"
definition E1000_ICR :: nat where "E1000_ICR = 0x000C0 div 4"
definition E1000_IMS :: nat where "E1000_IMS = 0x000D0 div 4"
definition E1000_RCTL :: nat where "E1000_RCTL = 0x00100 div 4"
definition E1000_TCTL :: nat where "E1000_TCTL = 0x00400 div 4"
definition E1000_TIPG :: nat where "E1000_TIPG = 0x00410 div 4"
definition E1000_RDBAL :: nat where "E1000_RDBAL = 0x02800 div 4"
definition E1000_RDTR :: nat where "E1000_RDTR = 0x02820 div 4"
definition E1000_RADV :: nat where "E1000_RADV = 0x0282C div 4"
definition E1000_RDH :: nat where "E1000_RDH = 0x02810 div 4"
definition E1000_RDT :: nat where "E1000_RDT = 0x02818 div 4"
definition E1000_RDLEN :: nat where "E1000_RDLEN = 0x02808 div 4"
definition E1000_TDBAL :: nat where "E1000_TDBAL = 0x03800 div 4"
definition E1000_TDLEN :: nat where "E1000_TDLEN = 0x03808 div 4"
definition E1000_TDH :: nat where "E1000_TDH = 0x03810 div 4"
definition E1000_MTA :: nat where "E1000_MTA = 0x05200 div 4"
definition E1000_RA :: nat where "E1000_RA = 0x05400 div 4"
definition E1000_CTL_RST :: u32 where "E1000_CTL_RST = 0x00400000"
definition E1000_TCTL_EN :: u32 where "E1000_TCTL_EN = 0x00000002"
definition E1000_TCTL_PSP :: u32 where "E1000_TCTL_PSP = 0x00000008"
definition E1000_TCTL_CT_SHIFT :: nat where "E1000_TCTL_CT_SHIFT = 4"
definition E1000_TCTL_COLD_SHIFT :: nat where "E1000_TCTL_COLD_SHIFT = 12"
definition E1000_RCTL_EN :: u32 where "E1000_RCTL_EN = 0x00000002"
definition E1000_RCTL_BAM :: u32 where "E1000_RCTL_BAM = 0x00008000"
definition E1000_RCTL_SZ_2048 :: u32 where "E1000_RCTL_SZ_2048 = 0x00000000"
definition E1000_RCTL_SECRC :: u32 where "E1000_RCTL_SECRC = 0x04000000"
definition E1000_RXD_STAT_DD :: byte where "E1000_RXD_STAT_DD = 0x01"

definition wreg :: "nat \<Rightarrow> u32 \<Rightarrow> 'a netst_scheme \<Rightarrow> 'a netst_scheme" where
  "wreg r v s = s\<lparr>regs := (regs s)(r := v)\<rparr>"

section \<open>Initialisation\<close>

definition zero_tx_desc :: tx_desc where
  "zero_tx_desc = \<lparr>txd_addr = 0, txd_length = 0, txd_cso = 0, txd_cmd = 0, txd_status = 0, txd_css = 0,
     txd_special = 0\<rparr>"

definition zero_rx_desc :: rx_desc where
  "zero_rx_desc = \<lparr>rxd_addr = 0, rxd_length = 0, rxd_csum = 0, rxd_status = 0, rxd_errors = 0, rxd_special = 0\<rparr>"

fun tx_init :: "nat \<Rightarrow> nat \<Rightarrow> 'a netst_scheme \<Rightarrow> 'a netst_scheme" where
  "tx_init i 0 s = s"
| "tx_init i (Suc k) s =
     tx_init (Suc i) k (s\<lparr>tx_ring := (tx_ring s)(i := (tx_ring s i)\<lparr>txd_status := E1000_TXD_STAT_DD\<rparr>),
                          tx_mbufs := (tx_mbufs s)(i := 0)\<rparr>)"

fun rx_init :: "nat \<Rightarrow> nat \<Rightarrow> 'a netst_scheme \<Rightarrow> 'a netst_scheme outcome" where
  "rx_init i 0 s = Ok s"
| "rx_init i (Suc k) s =
     rbind (mbufalloc 0 s) (\<lambda>(m, s).
     let s = s\<lparr>rx_mbufs := (rx_mbufs s)(i := m)\<rparr> in
     if m = 0 then Panic ''e1000''
     else
       rx_init (Suc i) k
         (s\<lparr>rx_ring := (rx_ring s)(i := (rx_ring s i)\<lparr>rxd_addr := mbuf_addr m (m_head (mbufs s m))\<rparr>)\<rparr>))"

fun mta_init :: "nat \<Rightarrow> nat \<Rightarrow> 'a netst_scheme \<Rightarrow> 'a netst_scheme" where
  "mta_init i 0 s = s"
| "mta_init i (Suc k) s = mta_init (Suc i) k (wreg (E1000_MTA + i) 0 s)"

text \<open>The addresses of the two rings are link-time constants.\<close>

definition e1000_init :: "u64 \<Rightarrow> u64 \<Rightarrow> 'a netst_scheme \<Rightarrow> 'a netst_scheme outcome" where
  "e1000_init tx_addr rx_addr s =
     (let s = wreg E1000_IMS 0 s;
          s = wreg E1000_CTL (regs s E1000_CTL OR E1000_CTL_RST) s;
          s = wreg E1000_IMS 0 s;
          s = s\<lparr>tx_ring := (\<lambda>i. if i < TX_RING_SIZE then zero_tx_desc else tx_ring s i)\<rparr>;
          s = tx_init 0 TX_RING_SIZE s;
          s = wreg E1000_TDBAL (ucast tx_addr) s in
      if (16 * TX_RING_SIZE) mod 128 \<noteq> 0 then Panic ''e1000''
      else
        (let s = wreg E1000_TDLEN (of_nat (16 * TX_RING_SIZE)) s;
             s = wreg E1000_TDT 0 s;
             s = wreg E1000_TDH 0 s;
             s = s\<lparr>rx_ring := (\<lambda>i. if i < RX_RING_SIZE then zero_rx_desc else rx_ring s i)\<rparr> in
         rbind (rx_init 0 RX_RING_SIZE s) (\<lambda>s.
         let s = wreg E1000_RDBAL (ucast rx_addr) s in
         if (16 * RX_RING_SIZE) mod 128 \<noteq> 0 then Panic ''e1000''
         else
           (let s = wreg E1000_RDH 0 s;
                s = wreg E1000_RDT (of_nat RX_RING_SIZE - 1) s;
                s = wreg E1000_RDLEN (of_nat (16 * RX_RING_SIZE)) s;
                s = wreg E1000_RA 0x12005452 s;
                s = wreg (E1000_RA + 1) (0x5634 OR push_bit 31 1) s;
                s = mta_init 0 (4096 div 32) s;
                s = wreg E1000_TCTL (E1000_TCTL_EN OR E1000_TCTL_PSP OR push_bit E1000_TCTL_CT_SHIFT 0x10 OR
                      push_bit E1000_TCTL_COLD_SHIFT 0x40) s;
                s = wreg E1000_TIPG (10 OR push_bit 10 8 OR push_bit 20 6) s;
                s = wreg E1000_RCTL (E1000_RCTL_EN OR E1000_RCTL_BAM OR E1000_RCTL_SZ_2048 OR E1000_RCTL_SECRC) s;
                s = wreg E1000_RDTR 0 s;
                s = wreg E1000_RADV 0 s in
            Ok (wreg E1000_IMS (push_bit 7 1) s)))))"

section \<open>Receiving\<close>

definition rx_next :: "'a netst_scheme \<Rightarrow> nat" where
  "rx_next s = unat ((regs s E1000_RDT + 1) mod of_nat RX_RING_SIZE)"

definition rx_done :: "'a netst_scheme \<Rightarrow> nat \<Rightarrow> bool" where
  "rx_done s i \<longleftrightarrow> rxd_status (rx_ring s i) AND E1000_RXD_STAT_DD \<noteq> 0"

text \<open>
  The loop goes on as long as the card is done with the next descriptor; the first argument bounds
  it. The code does not test the result of \<^verbatim>\<open>mbufalloc\<close>: reading \<^verbatim>\<open>head\<close> through a null pointer traps.
\<close>

fun e1000_recv_loop :: "nat \<Rightarrow> 'a netst_scheme \<Rightarrow> 'a netst_scheme outcome" where
  "e1000_recv_loop 0 s = (if rx_done s (rx_next s) then Unfinished else Ok s)"
| "e1000_recv_loop (Suc n) s =
     (let tail = rx_next s in
      if \<not> rx_done s tail then Ok s
      else
        (let s = upd_mbuf (rx_mbufs s tail) (\<lambda>b. b\<lparr>m_len := ucast (rxd_length (rx_ring s tail))\<rparr>) s in
         rbind (net_rx (rx_mbufs s tail) s) (\<lambda>s.
         rbind (mbufalloc 0 s) (\<lambda>(m, s).
         let s = s\<lparr>rx_mbufs := (rx_mbufs s)(tail := m)\<rparr> in
         if m = 0 then Panic ''kerneltrap''
         else
           (let d = (rx_ring s tail)\<lparr>rxd_addr := mbuf_addr m (m_head (mbufs s m)), rxd_status := 0\<rparr>;
                s = s\<lparr>rx_ring := (rx_ring s)(tail := d)\<rparr> in
            e1000_recv_loop n (wreg E1000_RDT (of_nat tail) s))))))"

definition e1000_recv :: "'a netst_scheme \<Rightarrow> 'a netst_scheme outcome" where
  "e1000_recv s = e1000_recv_loop RX_RING_SIZE s"

definition e1000_intr :: "'a netst_scheme \<Rightarrow> 'a netst_scheme outcome" where
  "e1000_intr s = e1000_recv (wreg E1000_ICR 0xffffffff s)"

section \<open>Bus and interrupt controller\<close>

text \<open>
  \<^verbatim>\<open>pci_init\<close> writes the configuration space of each e1000 it finds among the 32 possible devices. The
  configuration space is a map from the index of a 32-bit word.
\<close>

fun pci_bars :: "nat \<Rightarrow> nat \<Rightarrow> nat \<Rightarrow> (nat \<Rightarrow> u32) \<Rightarrow> nat \<Rightarrow> u32" where
  "pci_bars base i 0 ecam = ecam"
| "pci_bars base i (Suc k) ecam =
     (let old = ecam (base + 4 + i);
          ecam = ecam(base + 4 + i := 0xffffffff);
          ecam = ecam(base + 4 + i := old) in
      pci_bars base (Suc i) k ecam)"

fun pci_loop :: "u64 \<Rightarrow> u64 \<Rightarrow> nat \<Rightarrow> nat \<Rightarrow> (nat \<Rightarrow> u32) \<Rightarrow> 'a netst_scheme \<Rightarrow>
    ((nat \<Rightarrow> u32) \<times> 'a netst_scheme) outcome" where
  "pci_loop tx_addr rx_addr dev 0 ecam s = Ok (ecam, s)"
| "pci_loop tx_addr rx_addr dev (Suc k) ecam s =
     (let base = unat (push_bit 11 (of_nat dev :: u32)) in
      if ecam base = 0x100e8086 then
        (let ecam = ecam(base + 1 := 7);
             ecam = pci_bars base 0 6 ecam;
             ecam = ecam(base + 4 + 0 := 0x40000000) in
         rbind (e1000_init tx_addr rx_addr s) (\<lambda>s. pci_loop tx_addr rx_addr (Suc dev) k ecam s))
      else pci_loop tx_addr rx_addr (Suc dev) k ecam s)"

definition pci_init :: "u64 \<Rightarrow> u64 \<Rightarrow> (nat \<Rightarrow> u32) \<Rightarrow> 'a netst_scheme \<Rightarrow> ((nat \<Rightarrow> u32) \<times> 'a netst_scheme) outcome" where
  "pci_init tx_addr rx_addr ecam s = pci_loop tx_addr rx_addr 0 32 ecam s"

end
