(* ===== verification/Trap.thy ===== *)
theory Trap
  imports Syscall E1000
begin

text \<open>
  Traps and interrupts, \<^verbatim>\<open>kernel/trap.c\<close>, the interrupt controller \<^verbatim>\<open>kernel/plic.c\<close>, and \<^verbatim>\<open>forkret\<close> of
  \<^verbatim>\<open>kernel/proc.c\<close>.
\<close>

section \<open>The interrupt controller\<close>

definition UART0_IRQ :: u32 where "UART0_IRQ = 10"
definition VIRTIO0_IRQ :: u32 where "VIRTIO0_IRQ = 1"
definition E1000_IRQ :: u32 where "E1000_IRQ = 33"

definition PLIC_SENABLE :: "u64 \<Rightarrow> u64" where "PLIC_SENABLE hart = PLIC + 0x2080 + hart * 0x100"
definition PLIC_SPRIORITY :: "u64 \<Rightarrow> u64" where "PLIC_SPRIORITY hart = PLIC + 0x201000 + hart * 0x2000"
definition PLIC_SCLAIM :: "u64 \<Rightarrow> u64" where "PLIC_SCLAIM hart = PLIC + 0x201004 + hart * 0x2000"

definition plic_write :: "u64 \<Rightarrow> u32 \<Rightarrow> 'a trapst_scheme \<Rightarrow> 'a trapst_scheme" where
  "plic_write a v s = s\<lparr>plic_regs := (plic_regs s)(a := v)\<rparr>"

fun plicinit_loop :: "nat \<Rightarrow> nat \<Rightarrow> 'a trapst_scheme \<Rightarrow> 'a trapst_scheme" where
  "plicinit_loop irq 0 s = s"
| "plicinit_loop irq (Suc k) s = plicinit_loop (Suc irq) k (plic_write (PLIC + of_nat irq * 4) 1 s)"

definition plicinit :: "'a trapst_scheme \<Rightarrow> 'a trapst_scheme" where
  "plicinit s =
     (let s = plic_write (PLIC + ucast UART0_IRQ * 4) 1 s;
          s = plic_write (PLIC + ucast VIRTIO0_IRQ * 4) 1 s in
      plicinit_loop 1 (0x35 - 1) s)"

definition plicinithart :: "'a trapst_scheme \<Rightarrow> 'a trapst_scheme" where
  "plicinithart s =
     (let hart = tp s;
          s = plic_write (PLIC_SENABLE hart) (push_bit (unat UART0_IRQ) 1 OR push_bit (unat VIRTIO0_IRQ) 1) s;
          s = plic_write (PLIC_SENABLE hart + 4) 0xffffffff s in
      plic_write (PLIC_SPRIORITY hart) 0 s)"

definition plic_claim :: "'a trapst_scheme \<Rightarrow> u32 \<times> 'a trapst_scheme" where
  "plic_claim s = (case plic_claims s of [] \<Rightarrow> (0, s) | irq # cs \<Rightarrow> (irq, s\<lparr>plic_claims := cs\<rparr>))"

definition plic_complete :: "u32 \<Rightarrow> 'a trapst_scheme \<Rightarrow> 'a trapst_scheme" where
  "plic_complete irq s = plic_write (PLIC_SCLAIM (tp s)) irq s"

section \<open>Device interrupts\<close>

definition SSTATUS_SPP :: u64 where "SSTATUS_SPP = push_bit 8 1"
definition SSTATUS_SPIE :: u64 where "SSTATUS_SPIE = push_bit 5 1"
definition SSTATUS_SIE :: u64 where "SSTATUS_SIE = push_bit 1 1"

definition intr_on :: "'a trapst_scheme \<Rightarrow> 'a trapst_scheme" where
  "intr_on s = s\<lparr>sstatus := sstatus s OR SSTATUS_SIE\<rparr>"

definition intr_off :: "'a trapst_scheme \<Rightarrow> 'a trapst_scheme" where
  "intr_off s = s\<lparr>sstatus := sstatus s AND NOT SSTATUS_SIE\<rparr>"

definition intr_get :: "'a trapst_scheme \<Rightarrow> bool" where
  "intr_get s \<longleftrightarrow> sstatus s AND SSTATUS_SIE \<noteq> 0"

definition clockintr :: "'a trapst_scheme \<Rightarrow> 'a trapst_scheme outcome" where
  "clockintr s =
     rbind (acquire L_ticks s) (\<lambda>s.
     let s = s\<lparr>ticks := ticks s + 1\<rparr> in
     rbind (wakeup Chan_ticks s) (\<lambda>s. release L_ticks s))"

definition devintr :: "'a trapst_scheme \<Rightarrow> (int \<times> 'a trapst_scheme) outcome" where
  "devintr s =
     (if scause s AND 0x8000000000000000 \<noteq> 0 \<and> scause s AND 0xff = 9 then
        (let (irq, s) = plic_claim s in
         rbind (if irq = UART0_IRQ then uartintr s
                else if irq = VIRTIO0_IRQ then virtio_disk_intr s
                else if irq = E1000_IRQ then e1000_intr s
                else if irq \<noteq> 0 then printf (bytes_of ''unexpected interrupt irq=%d'' @ [10]) [V_int irq] s
                else Ok s) (\<lambda>s.
         Ok (1, if irq \<noteq> 0 then plic_complete irq s else s)))
      else if scause s = 0x8000000000000001 then
        rbind (if tp s = 0 then clockintr s else Ok s) (\<lambda>s.
        Ok (2, s\<lparr>sip := sip s AND NOT 2\<rparr>))
      else Ok (0, s))"

section \<open>Traps from user space\<close>

definition trapinithart :: "'a trapst_scheme \<Rightarrow> 'a trapst_scheme" where
  "trapinithart s = s\<lparr>stvec := kernelvec_addr s\<rparr>"

text \<open>The jump into the trampoline: the address and its two arguments.\<close>

definition usertrapret :: "'a trapst_scheme \<Rightarrow> ((u64 \<times> u64 \<times> u64) \<times> 'a trapst_scheme) outcome" where
  "usertrapret s =
     (let p = this_proc s;
          s = intr_off s;
          s = s\<lparr>stvec := TRAMPOLINE + uservec_off s\<rparr>;
          s = set_tf p TF_kernel_satp (satp s) s;
          s = set_tf p TF_kernel_sp (p_kstack (proc s p) + 4096) s;
          s = set_tf p TF_kernel_trap (usertrap_addr s) s;
          s = set_tf p TF_kernel_hartid (tp s) s;
          x = sstatus s;
          x = x AND NOT SSTATUS_SPP;
          x = x OR SSTATUS_SPIE;
          s = s\<lparr>sstatus := x\<rparr>;
          s = s\<lparr>sepc := get_tf p TF_epc s\<rparr> in
      Ok ((TRAMPOLINE + userret_off s, TRAPFRAME, MAKE_SATP (p_pagetable (proc s p))), s))"

text \<open>
  \<open>env\<close> is for the sleeps of the system call, \<open>wake\<close> for the \<^verbatim>\<open>yield\<close> after a timer interrupt. \<^verbatim>\<open>exit\<close> does
  not return.
\<close>

definition usertrap :: "('a trapst_scheme \<Rightarrow> 'a trapst_scheme) list \<Rightarrow> ('a trapst_scheme \<Rightarrow> 'a trapst_scheme) option \<Rightarrow>
    'a trapst_scheme \<Rightarrow> ((u64 \<times> u64 \<times> u64) \<times> 'a trapst_scheme) outcome" where
  "usertrap env wake s =
     (if sstatus s AND SSTATUS_SPP \<noteq> 0 then Panic ''usertrap: not from user mode''
      else
        (let s = s\<lparr>stvec := kernelvec_addr s\<rparr>;
             p = this_proc s;
             s = set_tf p TF_epc (sepc s) s in
         rbind
           (if scause s = 8 then
              rbind (if p_killed (proc s p) \<noteq> 0 then exit (-1) s else Ok s) (\<lambda>s.
              let s = set_tf p TF_epc (get_tf p TF_epc s + 4) s;
                  s = intr_on s in
              rbind (syscall env s) (\<lambda>s. Ok (0, s)))
            else
              rbind (devintr s) (\<lambda>(which_dev, s).
              if which_dev \<noteq> 0 then Ok (which_dev, s)
              else
                rbind (printf (bytes_of ''usertrap(): unexpected scause %p pid=%d'' @ [10])
                  [V_ptr (scause s), V_int (of_int (p_pid (proc s p)))] s) (\<lambda>s.
                rbind (printf (bytes_of ''            sepc=%p stval=%p'' @ [10]) [V_ptr (sepc s), V_ptr (stval s)] s) (\<lambda>s.
                Ok (0, upd_proc p (\<lambda>q. q\<lparr>p_killed := 1\<rparr>) s)))))
           (\<lambda>(which_dev, s).
            rbind (if p_killed (proc s p) \<noteq> 0 then exit (-1) s else Ok s) (\<lambda>s.
            rbind (if which_dev = 2 then yield wake s else Ok s) (\<lambda>s.
            usertrapret s)))))"

definition forkret :: "'a trapst_scheme \<Rightarrow> ((u64 \<times> u64 \<times> u64) \<times> 'a trapst_scheme) outcome" where
  "forkret s =
     rbind (release (L_proc (this_proc s)) s) (\<lambda>s.
     rbind (if forkret_first s then fsinit ROOTDEV (s\<lparr>forkret_first := False\<rparr>) else Ok s) (\<lambda>s.
     usertrapret s))"

section \<open>Traps from the kernel\<close>

definition kerneltrap :: "('a trapst_scheme \<Rightarrow> 'a trapst_scheme) option \<Rightarrow> 'a trapst_scheme \<Rightarrow> 'a trapst_scheme outcome" where
  "kerneltrap wake s =
     (let sepc0 = sepc s; sstatus0 = sstatus s; scause0 = scause s in
      if sstatus0 AND SSTATUS_SPP = 0 then Panic ''kerneltrap: not from supervisor mode''
      else if intr_get s then Panic ''kerneltrap: interrupts enabled''
      else
        rbind (devintr s) (\<lambda>(which_dev, s).
        if which_dev = 0 then
          rbind (printf (bytes_of ''scause %p'' @ [10]) [V_ptr scause0] s) (\<lambda>s.
          rbind (printf (bytes_of ''sepc=%p stval=%p'' @ [10]) [V_ptr (sepc s), V_ptr (stval s)] s) (\<lambda>s.
          Panic ''kerneltrap''))
        else
          rbind (if which_dev = 2 \<and> (case myproc s of None \<Rightarrow> False | Some p \<Rightarrow> p_state (proc s p) = RUNNING)
                 then yield wake s else Ok s) (\<lambda>s.
          Ok (s\<lparr>sepc := sepc0, sstatus := sstatus0\<rparr>))))"

end
