(* ===== verification/User_Print.thy ===== *)
theory User_Print
  imports Uart
begin

text \<open>
  Formatted output of user programs, \<^verbatim>\<open>user/printf.c\<close>. The output is the list of the calls of \<^verbatim>\<open>write\<close>, one
  byte each, with their file descriptor; \<^verbatim>\<open>putc\<close> does not look at the result. The variable arguments are those of
  the kernel's \<^verbatim>\<open>printf\<close>.
\<close>

definition user_digits :: "byte list" where
  "user_digits = bytes_of ''0123456789ABCDEF''"

definition putc :: "int \<Rightarrow> byte \<Rightarrow> (int \<times> byte) list" where
  "putc fd c = [(fd, c)]"

definition putcs :: "int \<Rightarrow> byte list \<Rightarrow> (int \<times> byte) list" where
  "putcs fd cs = concat (map (putc fd) cs)"

text \<open>The digits in the buffer, least significant first; the base is 10 or 16.\<close>

function user_int_digits :: "u32 \<Rightarrow> u32 \<Rightarrow> byte list" where
  "user_int_digits base x =
     user_digits ! unat (x mod base) # (if x div base = 0 \<or> base < 2 then [] else user_int_digits base (x div base))"
  by pat_completeness auto
termination
proof (relation "measure (\<lambda>(base, x). unat x)", goal_cases)
  case (2 base x)
  have "0 < unat x" using 2 by (auto simp: unat_gt_0)
  moreover have "1 < unat base" using 2 by (simp add: not_less word_le_nat_alt)
  ultimately show ?case by (simp add: unat_div_distrib)
qed simp

declare user_int_digits.simps [simp del]

definition user_printint :: "int \<Rightarrow> u32 \<Rightarrow> u32 \<Rightarrow> bool \<Rightarrow> (int \<times> byte) list" where
  "user_printint fd xx base sign =
     (let neg = (sign \<and> sint xx < 0);
          x = (if neg then - xx else xx);
          buf = user_int_digits base x;
          buf = (if neg then buf @ [45] else buf) in
      putcs fd (rev buf))"

fun user_ptr_digits :: "nat \<Rightarrow> u64 \<Rightarrow> byte list" where
  "user_ptr_digits 0 x = []"
| "user_ptr_digits (Suc k) x = user_digits ! unat (drop_bit 60 x) # user_ptr_digits k (push_bit 4 x)"

definition user_printptr :: "int \<Rightarrow> u64 \<Rightarrow> (int \<times> byte) list" where
  "user_printptr fd x = putc fd 48 @ putc fd 120 @ putcs fd (user_ptr_digits 16 x)"

text \<open>
  One conversion. \<^verbatim>\<open>%l\<close> takes a 64-bit argument and passes its low 32 bits on; a value for \<^verbatim>\<open>%c\<close> is cut to a byte.
\<close>

definition vprintf_conv :: "int \<Rightarrow> byte \<Rightarrow> va list \<Rightarrow> (va list \<times> (int \<times> byte) list) option" where
  "vprintf_conv fd c ap =
     (if c = 100 then (case ap of V_int x # ap \<Rightarrow> Some (ap, user_printint fd x 10 True) | _ \<Rightarrow> None)
      else if c = 108 then (case ap of V_ptr x # ap \<Rightarrow> Some (ap, user_printint fd (ucast x) 10 False) | _ \<Rightarrow> None)
      else if c = 120 then (case ap of V_int x # ap \<Rightarrow> Some (ap, user_printint fd x 16 False) | _ \<Rightarrow> None)
      else if c = 112 then (case ap of V_ptr x # ap \<Rightarrow> Some (ap, user_printptr fd x) | _ \<Rightarrow> None)
      else if c = 115 then
        (case ap of V_str s # ap \<Rightarrow> Some (ap, putcs fd (case s of None \<Rightarrow> bytes_of ''(null)'' | Some s \<Rightarrow> s)) | _ \<Rightarrow> None)
      else if c = 99 then (case ap of V_int x # ap \<Rightarrow> Some (ap, putc fd (ucast x)) | _ \<Rightarrow> None)
      else if c = 37 then Some (ap, putc fd c)
      else Some (ap, putc fd 37 @ putc fd c))"

text \<open>The loop over the format; the flag is \<^verbatim>\<open>state == '%'\<close>.\<close>

fun vprintf_loop :: "int \<Rightarrow> byte list \<Rightarrow> bool \<Rightarrow> va list \<Rightarrow> (int \<times> byte) list option" where
  "vprintf_loop fd [] percent ap = Some []"
| "vprintf_loop fd (c # fmt) percent ap =
     (if \<not> percent then
        (if c = 37 then vprintf_loop fd fmt True ap
         else map_option (\<lambda>out. putc fd c @ out) (vprintf_loop fd fmt False ap))
      else
        (case vprintf_conv fd c ap of
           None \<Rightarrow> None
         | Some (ap, out) \<Rightarrow> map_option (\<lambda>rest. out @ rest) (vprintf_loop fd fmt False ap)))"

definition vprintf :: "int \<Rightarrow> byte list \<Rightarrow> va list \<Rightarrow> (int \<times> byte) list option" where
  "vprintf fd fmt ap = vprintf_loop fd fmt False ap"

definition fprintf :: "int \<Rightarrow> byte list \<Rightarrow> va list \<Rightarrow> (int \<times> byte) list option" where
  "fprintf fd fmt ap = vprintf fd fmt ap"

definition user_printf :: "byte list \<Rightarrow> va list \<Rightarrow> (int \<times> byte) list option" where
  "user_printf fmt ap = vprintf 1 fmt ap"

section \<open>Decimal numbers\<close>

lemma putcs_map: "putcs fd cs = map (\<lambda>c. (fd, c)) cs"
  by (induction cs) (simp_all add: putcs_def putc_def)

lemma user_digit:
  assumes "k < 10"
  shows "user_digits ! k = of_nat (48 + k)"
proof -
  have "k \<in> {0, 1, 2, 3, 4, 5, 6, 7, 8, 9}" using assms by auto
  then show ?thesis by (auto simp: user_digits_def bytes_of_def)
qed

definition digit_value :: "byte list \<Rightarrow> int \<Rightarrow> int" where
  "digit_value cs n = fold (\<lambda>c n. n * 10 + uint c - 48) cs n"

text \<open>\<^verbatim>\<open>atoi\<close> computes the value of the digits modulo \<open>2 ^ 32\<close>.\<close>

lemma atoi_from_digits:
  assumes "\<forall>j < length cs. s (i + j) = cs ! j" "\<forall>c \<in> set cs. 48 \<le> c \<and> c \<le> 57" "s (i + length cs) = 0"
  shows "atoi_from s i (of_int n) = Some (of_int (digit_value cs n))"
  using assms
proof (induction cs arbitrary: i n)
  case Nil
  then show ?case by (subst atoi_from.simps) (simp add: digit_value_def)
next
  case (Cons c cs)
  have c: "s i = c" "48 \<le> c" "c \<le> 57" using Cons.prems(1) [rule_format, of 0] Cons.prems(2) by auto
  have "(ucast c :: u32) = of_int (uint c)" by simp
  then have "(of_int n * 10 + ucast c - 48 :: u32) = of_int (n * 10 + uint c - 48)" by simp
  moreover have "atoi_from s (Suc i) (of_int (n * 10 + uint c - 48)) = Some (of_int (digit_value cs (n * 10 + uint c - 48)))"
  proof (rule Cons.IH)
    show "\<forall>j < length cs. s (Suc i + j) = cs ! j" using Cons.prems(1) by auto
  qed (use Cons.prems in auto)
  ultimately show ?case using c by (subst atoi_from.simps) (simp add: digit_value_def)
qed

lemma user_int_digits_value:
  "digit_value (rev (user_int_digits 10 x)) 0 = uint x \<and> (\<forall>c \<in> set (user_int_digits 10 x). 48 \<le> c \<and> c \<le> 57)"
proof (induction x rule: measure_induct_rule [of unat])
  case (less x)
  let ?k = "unat (x mod 10)"
  have k: "?k < 10" "?k = unat x mod 10" by (simp_all add: unat_mod_distrib)
  have d: "user_digits ! ?k = of_nat (48 + ?k)" using k(1) by (rule user_digit)
  have u: "unat (of_nat (48 + ?k) :: byte) = 48 + ?k" using k(1) by (subst unat_of_nat) simp
  then have c: "48 \<le> (of_nat (48 + ?k) :: byte)" "(of_nat (48 + ?k) :: byte) \<le> 57" "uint (of_nat (48 + ?k) :: byte) = 48 + int ?k"
    using k(1) by (simp_all add: word_le_nat_alt uint_nat del: of_nat_add of_nat_unat)
  have e: "user_int_digits 10 x = of_nat (48 + ?k) # (if x div 10 = 0 then [] else user_int_digits 10 (x div 10))"
    by (subst user_int_digits.simps) (simp add: d)
  show ?case
  proof (cases "x div 10 = 0")
    case True
    have "unat (x div 10) = unat x div 10" by (simp add: unat_div_distrib)
    then have "unat x div 10 = 0" using True by simp
    then have "uint x = int ?k" using k(2) by (simp add: uint_nat del: of_nat_unat)
    then show ?thesis unfolding e using True c by (simp add: digit_value_def del: of_nat_add of_nat_unat)
  next
    case False
    then have "x \<noteq> 0" by auto
    then have "unat (x div 10) < unat x" by (simp add: unat_div_distrib unat_gt_0)
    note IH = less [OF this]
    have "unat (x div 10) = unat x div 10" by (simp add: unat_div_distrib)
    then have "int (unat x) = int (unat (x div 10)) * 10 + int ?k" unfolding k(2) by presburger
    then have "uint x = uint (x div 10) * 10 + int ?k" by simp
    then show ?thesis unfolding e using False IH c by (simp add: digit_value_def del: of_nat_add of_nat_unat)
  qed
qed

text \<open>The C string with the given bytes.\<close>

definition str_of :: "byte list \<Rightarrow> cstr" where
  "str_of cs = (\<lambda>i. if i < length cs then cs ! i else 0)"

text \<open>
  C37: \<^verbatim>\<open>printf("%d")\<close> writes an \<^verbatim>\<open>int\<close> as the decimal digits of its absolute value, with a minus sign in front for a negative
  one, and \<^verbatim>\<open>atoi\<close> of \<^verbatim>\<open>user/ulib.c\<close> reads numbers that are not negative back: on these digits it computes, in 32-bit arithmetic, the
  number for \<open>0 \<le> x\<close> and its negation for \<open>x < 0\<close>. The negation of the smallest \<^verbatim>\<open>int\<close> is itself: its digits are right, but their value does
  not fit an \<^verbatim>\<open>int\<close> and \<^verbatim>\<open>atoi\<close> wraps around to it. A minus sign is not a digit, so that \<^verbatim>\<open>atoi\<close> gives 0 on the text of a negative
  number.
\<close>

theorem printf_atoi_roundtrip:
  "\<exists>cs. fprintf fd [37, 100] [V_int x] = Some (map (\<lambda>c. (fd, c)) (if sint x < 0 then 45 # cs else cs)) \<and>
     cs \<noteq> [] \<and> set cs \<subseteq> {48..57} \<and> digit_value cs 0 = \<bar>sint x\<bar> \<and>
     atoi (str_of cs) = Some (if sint x < 0 then - x else x) \<and> atoi (str_of (45 # cs)) = Some 0"
proof -
  let ?y = "if sint x < 0 then - x else x" let ?cs = "rev (user_int_digits 10 ?y)"
  note v = user_int_digits_value [of ?y]
  have y: "uint ?y = \<bar>sint x\<bar>"
  proof -
    have "?y = word_of_int \<bar>sint x\<bar>" by simp
    moreover have "\<bar>sint x\<bar> < 2 ^ 32" using sint_ge [of x] sint_lt [of x] by simp
    ultimately show ?thesis by (simp only: unsigned_of_int) (simp add: take_bit_int_eq_self)
  qed
  have "atoi_from (str_of ?cs) 0 (of_int 0) = Some (of_int (digit_value ?cs 0))"
    using v by (intro atoi_from_digits) (auto simp: str_of_def)
  moreover have "of_int (digit_value ?cs 0) = ?y" using v by simp
  ultimately have "atoi (str_of ?cs) = Some ?y" by (simp add: atoi_def)
  moreover have "atoi (str_of (45 # ?cs)) = Some 0" unfolding atoi_def by (subst atoi_from.simps) (simp add: str_of_def)
  moreover have "?cs \<noteq> []" by (subst user_int_digits.simps) simp
  moreover have "fprintf fd [37, 100] [V_int x] = Some (map (\<lambda>c. (fd, c)) (if sint x < 0 then 45 # ?cs else ?cs))"
    by (simp add: fprintf_def vprintf_def vprintf_conv_def user_printint_def putcs_map Let_def)
  ultimately show ?thesis using v y by (intro exI [of _ ?cs]) auto
qed

end
