(* ===== verification/User_Tools.thy ===== *)
theory User_Tools
  imports User_Print
begin

text \<open>
  Small user programs: the filters \<^verbatim>\<open>wc\<close> of \<^verbatim>\<open>user/wc.c\<close> and \<^verbatim>\<open>cat\<close> of \<^verbatim>\<open>user/cat.c\<close>, \<^verbatim>\<open>echo\<close> of \<^verbatim>\<open>user/echo.c\<close>, \<^verbatim>\<open>fmtname\<close>
  of \<^verbatim>\<open>user/ls.c\<close>, and \<^verbatim>\<open>gets\<close> of \<^verbatim>\<open>user/ulib.c\<close>. A file is what the successive calls of \<^verbatim>\<open>read\<close> give: the pieces, and whether the
  call after them fails. A string is the list of its bytes before the NUL.
\<close>

text \<open>How a filter ends: it returns to \<^verbatim>\<open>main\<close>, or exits with the status.\<close>

datatype ending = Returns | Exits int

section \<open>\<^verbatim>\<open>wc\<close>\<close>

definition blanks :: "byte list" where
  "blanks = [32, 13, 9, 10, 11]"

record wc_state =
  wc_l :: int
  wc_w :: int
  wc_c :: int
  inword :: bool

definition wc_byte :: "byte \<Rightarrow> wc_state \<Rightarrow> wc_state" where
  "wc_byte b s =
     (let s = s\<lparr>wc_c := wc_c s + 1\<rparr>;
          s = (if b = 10 then s\<lparr>wc_l := wc_l s + 1\<rparr> else s) in
      if b \<in> set blanks then s\<lparr>inword := False\<rparr>
      else if \<not> inword s then s\<lparr>wc_w := wc_w s + 1, inword := True\<rparr>
      else s)"

definition wc_reads :: "byte list list \<Rightarrow> wc_state" where
  "wc_reads reads = fold (\<lambda>buf. fold wc_byte buf) reads \<lparr>wc_l = 0, wc_w = 0, wc_c = 0, inword = False\<rparr>"

text \<open>The format strings are \<^verbatim>\<open>wc: read error\n\<close> and \<^verbatim>\<open>%d %d %d %s\n\<close>.\<close>

definition wc :: "byte list list \<Rightarrow> bool \<Rightarrow> byte list \<Rightarrow> (int \<times> byte) list option \<times> ending" where
  "wc reads fails name =
     (let s = wc_reads reads in
      if fails then (user_printf (bytes_of ''wc: read error'' @ [10]) [], Exits 1)
      else (user_printf (bytes_of ''%d %d %d %s'' @ [10])
              [V_int (of_int (wc_l s)), V_int (of_int (wc_w s)), V_int (of_int (wc_c s)), V_str (Some name)], Returns))"

text \<open>The words of a text: the maximal runs of bytes that are not blank.\<close>

function words_of :: "byte list \<Rightarrow> byte list list" where
  "words_of [] = []"
| "words_of (b # bs) =
     (if b \<in> set blanks then words_of bs
      else (b # takeWhile (\<lambda>c. c \<notin> set blanks) bs) # words_of (dropWhile (\<lambda>c. c \<notin> set blanks) bs))"
  by pat_completeness auto
termination
  by (relation "measure length") (auto simp: le_imp_less_Suc length_dropWhile_le)

lemma wc_byte_fields:
  "wc_l (wc_byte b s) = wc_l s + (if b = 10 then 1 else 0)" "wc_c (wc_byte b s) = wc_c s + 1"
  "wc_w (wc_byte b s) = wc_w s + (if b \<notin> set blanks \<and> \<not> inword s then 1 else 0)" "inword (wc_byte b s) \<longleftrightarrow> b \<notin> set blanks"
  by (simp_all add: wc_byte_def Let_def)

lemma wc_bytes:
  "fold wc_byte bs s =
     \<lparr>wc_l = wc_l s + int (count_list bs 10),
      wc_w = wc_w s + int (length (words_of (if inword s then dropWhile (\<lambda>c. c \<notin> set blanks) bs else bs))),
      wc_c = wc_c s + int (length bs),
      inword = (if bs = [] then inword s else last bs \<notin> set blanks)\<rparr>"
proof (induction bs arbitrary: s)
  case (Cons b bs)
  show ?case unfolding fold_simps Cons.IH wc_byte_fields
    by (cases "inword s"; cases "b \<in> set blanks") auto
qed simp

lemma fold_pieces: "fold (\<lambda>buf. fold f buf) pieces s = fold f (concat pieces) s"
  by (induction pieces arbitrary: s) simp_all

text \<open>\<^verbatim>\<open>wc\<close> counts the newlines, the words and the bytes of the whole file, however the reads cut it up.\<close>

lemma wc_counts:
  "wc_l (wc_reads reads) = int (count_list (concat reads) 10)"
  "wc_w (wc_reads reads) = int (length (words_of (concat reads)))"
  "wc_c (wc_reads reads) = int (length (concat reads))"
proof -
  have "wc_reads reads = fold wc_byte (concat reads) \<lparr>wc_l = 0, wc_w = 0, wc_c = 0, inword = False\<rparr>"
    by (simp add: wc_reads_def fold_pieces)
  then show "wc_l (wc_reads reads) = int (count_list (concat reads) 10)"
    "wc_w (wc_reads reads) = int (length (words_of (concat reads)))"
    "wc_c (wc_reads reads) = int (length (concat reads))"
    by (simp_all add: wc_bytes)
qed

section \<open>\<^verbatim>\<open>cat\<close> and \<^verbatim>\<open>echo\<close>\<close>

text \<open>
  \<open>ok\<close> says for each call of \<^verbatim>\<open>write\<close> whether it wrote everything; the bytes of the last call of \<^verbatim>\<open>write\<close> are listed although
  a part of them may be missing.
\<close>

fun cat :: "byte list list \<Rightarrow> bool \<Rightarrow> bool list \<Rightarrow> byte list \<times> byte list \<times> ending" where
  "cat [] fails ok = ([], if fails then (bytes_of ''cat: read error'' @ [10], Exits 1) else ([], Returns))"
| "cat (buf # reads) fails ok =
     (if ok \<noteq> [] \<and> \<not> hd ok then (buf, bytes_of ''cat: write error'' @ [10], Exits 1)
      else (let (out, err, e) = cat reads fails (tl ok) in (buf @ out, err, e)))"

lemma cat_copies: "cat reads False [] = (concat reads, [], Returns)"
  by (induction reads) auto

fun echo :: "byte list list \<Rightarrow> byte list" where
  "echo [] = []"
| "echo [a] = a @ [10]"
| "echo (a # b # as) = a @ [32] @ echo (b # as)"

section \<open>\<^verbatim>\<open>fmtname\<close> and \<^verbatim>\<open>gets\<close>\<close>

definition fmtname :: "byte list \<Rightarrow> byte list" where
  "fmtname path =
     (let p = rev (takeWhile (\<lambda>c. c \<noteq> 47) (rev path)) in
      if length p \<ge> 14 then p else p @ replicate (14 - length p) 32)"

text \<open>
  \<open>gets_loop input i mx\<close> gives the bytes stored from index \<open>i\<close> on and the input left; the input ends where \<^verbatim>\<open>read\<close>
  returns less than 1.
\<close>

fun gets_loop :: "byte list \<Rightarrow> nat \<Rightarrow> int \<Rightarrow> byte list \<times> byte list" where
  "gets_loop [] i mx = ([], [])"
| "gets_loop (c # input) i mx =
     (if int i + 1 < mx then
        (if c = 10 \<or> c = 13 then ([c], input)
         else (let (cs, rest) = gets_loop input (Suc i) mx in (c # cs, rest)))
      else ([], c # input))"

definition gets :: "byte list \<Rightarrow> int \<Rightarrow> byte list \<times> byte list" where
  "gets input mx = gets_loop input 0 mx"

lemma gets_fits: "gets_loop input i mx = (cs, rest) \<Longrightarrow> int i < mx \<Longrightarrow> int (i + length cs) < mx \<and> cs @ rest = input"
proof (induction input arbitrary: i cs)
  case (Cons c input)
  show ?case
  proof (cases "int i + 1 < mx \<and> c \<noteq> 10 \<and> c \<noteq> 13")
    case True
    then obtain ds where "gets_loop input (Suc i) mx = (ds, rest)" "cs = c # ds" using Cons.prems by (auto split: prod.splits)
    then show ?thesis using Cons.IH [of "Suc i" ds] True by simp
  qed (use Cons.prems in \<open>auto split: if_splits\<close>)
qed simp

end
