(* ===== verification/Virtio_Props.thy ===== *)
theory Virtio_Props
  imports Virtio Proc_Props
begin

text \<open>
  A disk request, \<^verbatim>\<open>virtio_disk_rw\<close> of \<^verbatim>\<open>kernel/virtio_disk.c\<close>, from the allocation of its three descriptors to
  the return of the chain.
\<close>

section \<open>Descriptors\<close>

definition free_set :: "'a vdiskst_scheme \<Rightarrow> nat set" where
  "free_set s = {i. i < NUM \<and> v_free s i}"

lemma alloc_scan_find: "alloc_scan i k fr = find fr [i..<i + k]"
  by (induction k arbitrary: i) (simp_all add: find_upt_step del: add_Suc_right)

lemma alloc_desc_Some:
  assumes "free_set s \<noteq> {}"
  shows "\<exists>a \<in> free_set s. alloc_desc s = (Some a, s\<lparr>v_free := (v_free s)(a := False)\<rparr>)"
proof -
  have "find (v_free s) [0..<NUM] \<noteq> None" using assms by (auto simp: free_set_def find_None_iff)
  then obtain a where a: "find (v_free s) [0..<NUM] = Some a" by blast
  then have "a \<in> free_set s" by (auto simp: find_Some_iff free_set_def)
  then show ?thesis using a by (intro bexI [of _ a]) (simp_all add: alloc_desc_def alloc_scan_find)
qed

lemma alloc_desc_None: "free_set s = {} \<Longrightarrow> alloc_desc s = (None, s)"
  by (auto simp: alloc_desc_def alloc_scan_find free_set_def find_None_iff split: option.split dest!: find_Some_iff [THEN iffD1])

lemma free_set_taken: "free_set (s\<lparr>v_free := (v_free s)(a := False)\<rparr>) = free_set s - {a}"
  by (auto simp: free_set_def)

lemma alloc3_desc_Some:
  assumes "3 \<le> card (free_set s)"
  shows "\<exists>a b c. alloc3_desc s = Ok (Some (a, b, c), s\<lparr>v_free := (v_free s)(a := False, b := False, c := False)\<rparr>) \<and>
    distinct [a, b, c] \<and> {a, b, c} \<subseteq> free_set s"
proof -
  have fin: "finite (free_set s)" by (simp add: free_set_def)
  obtain a where a: "a \<in> free_set s" "alloc_desc s = (Some a, s\<lparr>v_free := (v_free s)(a := False)\<rparr>)"
    using alloc_desc_Some [of s] assms by (metis card.empty not_numeral_le_zero)
  let ?s1 = "s\<lparr>v_free := (v_free s)(a := False)\<rparr>"
  have c1: "2 \<le> card (free_set ?s1)" using assms a(1) fin by (simp add: free_set_taken)
  then obtain b where b: "b \<in> free_set ?s1" "alloc_desc ?s1 = (Some b, ?s1\<lparr>v_free := (v_free ?s1)(b := False)\<rparr>)"
    using alloc_desc_Some [of ?s1] by (metis card.empty not_numeral_le_zero)
  let ?s2 = "?s1\<lparr>v_free := (v_free ?s1)(b := False)\<rparr>"
  have "free_set ?s2 = free_set ?s1 - {b}" by (rule free_set_taken)
  then have "1 \<le> card (free_set ?s2)" using c1 b(1) fin by (simp add: free_set_taken)
  then obtain c where c: "c \<in> free_set ?s2" "alloc_desc ?s2 = (Some c, ?s2\<lparr>v_free := (v_free ?s2)(c := False)\<rparr>)"
    using alloc_desc_Some [of ?s2] by (metis card.empty not_one_le_zero)
  have "distinct [a, b, c]" "{a, b, c} \<subseteq> free_set s" using a(1) b(1) c(1) by (auto simp: free_set_def split: if_splits)
  moreover have "alloc3_desc s = Ok (Some (a, b, c), s\<lparr>v_free := (v_free s)(a := False, b := False, c := False)\<rparr>)"
    using a(2) b(2) c(2) by (simp add: alloc3_desc_def)
  ultimately show ?thesis by blast
qed

lemma free_desc_Ok:
  assumes "i < NUM" "\<not> v_free s i" "no_proc_lock s"
  shows "\<exists>t. free_desc i s = Ok t \<and> v_free t = (v_free s)(i := True) \<and> (\<forall>j. j \<noteq> i \<longrightarrow> v_desc t j = v_desc s j) \<and>
    held t = held s \<and> bufs t = bufs s"
proof -
  let ?t = "(upd_desc i (\<lambda>d. d\<lparr>vd_addr := VA_null, vd_len := 0, vd_flags := 0, vd_next := 0\<rparr>) s)\<lparr>v_free := (v_free s)(i := True)\<rparr>"
  have "no_proc_lock ?t" using assms(3) by (simp add: no_proc_lock_def upd_desc_def)
  then have "free_desc i s = Ok (woken Chan_disk_free ?t)" using assms(1,2) by (simp add: free_desc_def wakeup_Ok upd_desc_def)
  then show ?thesis by (simp add: woken_def upd_desc_def)
qed

lemma free_chain_three:
  assumes "distinct [a, b, c]" "a < NUM" "b < NUM" "c < NUM" "\<not> v_free s a" "\<not> v_free s b" "\<not> v_free s c" "no_proc_lock s"
    and "vd_flags (v_desc s a) AND VRING_DESC_F_NEXT \<noteq> 0" "vd_next (v_desc s a) = of_nat b"
    and "vd_flags (v_desc s b) AND VRING_DESC_F_NEXT \<noteq> 0" "vd_next (v_desc s b) = of_nat c"
    and "vd_flags (v_desc s c) AND VRING_DESC_F_NEXT = 0"
  shows "\<exists>t. free_chain (NUM + 1) a s = Ok t \<and> v_free t = (v_free s)(a := True, b := True, c := True) \<and>
    held t = held s \<and> bufs t = bufs s"
proof -
  obtain t1 where t1: "free_desc a s = Ok t1" "v_free t1 = (v_free s)(a := True)" "\<forall>j. j \<noteq> a \<longrightarrow> v_desc t1 j = v_desc s j"
    "held t1 = held s" "bufs t1 = bufs s" using free_desc_Ok [OF assms(2,5,8)] by blast
  have "no_proc_lock t1" "\<not> v_free t1 b" using assms(1,6,8) t1 by (auto simp: no_proc_lock_def)
  then obtain t2 where t2: "free_desc b t1 = Ok t2" "v_free t2 = (v_free t1)(b := True)" "\<forall>j. j \<noteq> b \<longrightarrow> v_desc t2 j = v_desc t1 j"
    "held t2 = held s" "bufs t2 = bufs s" using free_desc_Ok [OF assms(3), of t1] t1(4,5) by auto
  have "no_proc_lock t2" "\<not> v_free t2 c" using assms(1,7,8) t1 t2 by (auto simp: no_proc_lock_def)
  then obtain t3 where t3: "free_desc c t2 = Ok t3" "v_free t3 = (v_free t2)(c := True)" "held t3 = held s" "bufs t3 = bufs s"
    using free_desc_Ok [OF assms(4), of t2] t2(4,5) by auto
  have n: "unat (of_nat b :: u16) = b" "unat (of_nat c :: u16) = c" using assms(3,4) by (simp_all add: NUM_def unat_of_nat)
  have "v_desc t1 b = v_desc s b" "v_desc t2 c = v_desc s c" using t1(3) t2(3) assms(1) by auto
  moreover obtain k where k: "NUM + 1 = Suc (Suc (Suc k))" by (simp add: NUM_def)
  ultimately have "free_chain (NUM + 1) a s = Ok t3"
    unfolding k using assms(9-13) t1(1) t2(1) t3(1) n by (simp add: Let_def)
  then show ?thesis using t1(2) t2(2) t3 by simp
qed

section \<open>A request\<close>

text \<open>
  The rest of the machine while the request waits: it returns with the same locks and process, the request's
  buffer is no longer owned by the disk, and the descriptors are as they were. For a request that is alone, this is what
  the interrupt handler does once the device has posted its completion (\<open>virtio_disk_intr_completes\<close>).
\<close>

definition completes :: "nat \<Rightarrow> ('a vdiskst_scheme \<Rightarrow> 'a vdiskst_scheme) \<Rightarrow> bool" where
  "completes b dev \<longleftrightarrow> (\<forall>s. held (dev s) = held s \<and> curproc (dev s) = curproc s \<and> v_free (dev s) = v_free s \<and>
     v_desc (dev s) = v_desc s \<and> \<not> b_disk (bufs (dev s) b))"

lemma submit_fields:
  assumes "distinct [i0, i1, i2]"
  shows "v_free (submit b w sec i0 i1 i2 s) = v_free s" "held (submit b w sec i0 i1 i2 s) = held s"
    "curproc (submit b w sec i0 i1 i2 s) = curproc s" "b_disk (bufs (submit b w sec i0 i1 i2 s) b)"
    "vd_flags (v_desc (submit b w sec i0 i1 i2 s) i0) = VRING_DESC_F_NEXT" "vd_next (v_desc (submit b w sec i0 i1 i2 s) i0) = of_nat i1"
    "vd_flags (v_desc (submit b w sec i0 i1 i2 s) i1) = (if w then 0 else VRING_DESC_F_WRITE) OR VRING_DESC_F_NEXT"
    "vd_next (v_desc (submit b w sec i0 i1 i2 s) i1) = of_nat i2"
    "vd_flags (v_desc (submit b w sec i0 i1 i2 s) i2) = VRING_DESC_F_WRITE"
  using assms by (simp_all add: submit_def upd_desc_def upd_buf_def write_reg_def Let_def)

lemma sleep_once:
  assumes "held s = [L_vdisk]" "\<And>x. held (f x) = held x"
  shows "sleep c L_vdisk (Some f) s =
    Ok ((upd_proc (this_proc s) (\<lambda>q. q\<lparr>p_chan := Chan_none\<rparr>)
      (f (upd_proc (this_proc s) (\<lambda>q. q\<lparr>p_chan := c, p_state := SLEEPING\<rparr>) (s\<lparr>held := [L_proc (this_proc s)]\<rparr>))))\<lparr>held := [L_vdisk]\<rparr>)"
    "sleep c L_vdisk None s = Blocks c"
  using assms by (simp_all add: sleep_def sched_def holding_def upd_proc_def this_proc_def myproc_def Let_def)

lemma virtio_disk_intr_completes:
  assumes "L_vdisk \<notin> set (held s)" "no_proc_lock s" "used_ring_idx s = used_idx s + 1"
    and "info_status s (unat (used_ring s (unat (used_idx s) mod NUM))) = 0" "info_b s (unat (used_ring s (unat (used_idx s) mod NUM))) = Some b"
  shows "\<exists>t. virtio_disk_intr s = Ok t \<and> held t = held s \<and> curproc t = curproc s \<and> v_free t = v_free s \<and> v_desc t = v_desc s \<and>
    \<not> b_disk (bufs t b) \<and> used_idx t = used_ring_idx t"
proof -
  define u where "u = write_reg VIRTIO_MMIO_INTERRUPT_ACK (v_regs s VIRTIO_MMIO_INTERRUPT_STATUS AND 0x3) (s\<lparr>held := L_vdisk # held s\<rparr>)"
  define w where "w = (woken (Chan_buf b) (upd_buf b (\<lambda>x. x\<lparr>b_disk := False\<rparr>) u))\<lparr>used_idx := used_idx s + 1\<rparr>"
  have u: "used_idx u = used_idx s" "used_ring_idx u = used_ring_idx s" "used_ring u = used_ring s" "info_status u = info_status s" "info_b u = info_b s"
    by (simp_all add: u_def write_reg_def)
  have "no_proc_lock (upd_buf b (\<lambda>x. x\<lparr>b_disk := False\<rparr>) u)"
    using assms(2) by (simp add: no_proc_lock_def upd_buf_def u_def write_reg_def)
  then have wk: "wakeup (Chan_buf b) (upd_buf b (\<lambda>x. x\<lparr>b_disk := False\<rparr>) u) = Ok (woken (Chan_buf b) (upd_buf b (\<lambda>x. x\<lparr>b_disk := False\<rparr>) u))"
    by (rule wakeup_Ok)
  have "used_idx (woken (Chan_buf b) (upd_buf b (\<lambda>x. x\<lparr>b_disk := False\<rparr>) u)) = used_idx s" by (simp add: woken_def upd_buf_def u)
  moreover have "used_idx w = used_ring_idx w" using assms(3) u(2) by (simp add: w_def woken_def upd_buf_def)
  moreover have "intr_loop k w = Ok w" if "used_idx w = used_ring_idx w" for k using that by (cases k) simp_all
  moreover have "used_idx u \<noteq> used_ring_idx u" using assms(3) u by simp
  moreover obtain k where k: "(2 :: nat) ^ 16 = Suc k" by (cases "(2 :: nat) ^ 16") simp_all
  ultimately have "intr_loop (2 ^ 16) u = Ok w" using assms(4,5) u wk unfolding k by (simp add: Let_def w_def)
  moreover have "held w = L_vdisk # held s" by (simp add: w_def woken_def upd_buf_def u_def write_reg_def)
  ultimately have "virtio_disk_intr s = Ok (w\<lparr>held := held s\<rparr>)" using assms(1) unfolding virtio_disk_intr_def Let_def by (simp add: u_def [symmetric])
  then show ?thesis using \<open>used_idx w = used_ring_idx w\<close>
    by (intro exI [of _ "w\<lparr>held := held s\<rparr>"]) (simp add: w_def woken_def upd_buf_def u_def write_reg_def)
qed

text \<open>
  C22: \<^verbatim>\<open>virtio_disk_rw\<close> with three free descriptors hands its buffer to the disk and sleeps until the
  completion; then it returns with its lock released, the buffer given back, and every descriptor that was free
  before free again, also the three it had chained.
\<close>

theorem virtio_disk_rw_returns_descriptors:
  assumes "held s = []" "3 \<le> card (free_set s)" "completes b dev"
  shows "virtio_disk_rw b write [] s = Blocks (Chan_buf b) \<and>
    (\<exists>t. virtio_disk_rw b write [dev] s = Ok t \<and> held t = [] \<and> \<not> b_disk (bufs t b) \<and> v_free t = v_free s)"
proof -
  let ?l = "s\<lparr>held := [L_vdisk]\<rparr>" let ?body = "\<lambda>s. Ok (if b_disk (bufs s b) then None else Some (), s)"
  have "free_set ?l = free_set s" by (simp add: free_set_def)
  then obtain i0 i1 i2 a where a: "alloc3_desc ?l = Ok (Some (i0, i1, i2), a)" "a = ?l\<lparr>v_free := (v_free s)(i0 := False, i1 := False, i2 := False)\<rparr>"
    "distinct [i0, i1, i2]" "{i0, i1, i2} \<subseteq> free_set s" using alloc3_desc_Some [of ?l] assms(2) by auto
  define u where "u = submit b write (ucast (b_blockno (bufs s b) * of_nat (BSIZE div 512))) i0 i1 i2 a"
  have u: "held u = [L_vdisk]" "v_free u = (v_free s)(i0 := False, i1 := False, i2 := False)" "b_disk (bufs u b)"
    unfolding u_def submit_fields [OF a(3)] by (simp_all add: a(2) submit_fields [OF a(3)])
  note d = submit_fields(5-9) [OF a(3), of b "write" "ucast (b_blockno (bufs s b) * of_nat (BSIZE div 512))" a, folded u_def]
  define w where "w = (upd_proc (this_proc u) (\<lambda>q. q\<lparr>p_chan := Chan_none\<rparr>)
      (dev (upd_proc (this_proc u) (\<lambda>q. q\<lparr>p_chan := Chan_buf b, p_state := SLEEPING\<rparr>) (u\<lparr>held := [L_proc (this_proc u)]\<rparr>))))\<lparr>held := [L_vdisk]\<rparr>"
  have w: "held w = [L_vdisk]" "v_free w = v_free u" "v_desc w = v_desc u" "\<not> b_disk (bufs w b)"
    using assms(3) by (simp_all add: w_def completes_def upd_proc_def)
  have run: "virtio_disk_rw b write env s = rbind (sleep_loop ?body (Chan_buf b) L_vdisk env u) (\<lambda>(_, env, s).
      let s = s\<lparr>info_b := (info_b s)(i0 := None)\<rparr> in rbind (free_chain (NUM + 1) i0 s) (\<lambda>s. release L_vdisk s))" for env
    using assms(1) sleep_loop_now [of alloc3_desc, OF a(1)] by (simp add: virtio_disk_rw_def u_def Let_def)
  note sl = sleep_once [of u, OF u(1)]
  have "virtio_disk_rw b write [] s = Blocks (Chan_buf b)" unfolding run using u(3) sl(2) [of "\<lambda>x. x"] by simp
  moreover have "sleep (Chan_buf b) L_vdisk (Some dev) u = Ok w"
    unfolding w_def using assms(3) by (intro sl(1)) (simp add: completes_def)
  then have "sleep_loop ?body (Chan_buf b) L_vdisk [dev] u = Ok ((), [], w)" using u(3) w(4) by simp
  moreover have "\<exists>t. free_chain (NUM + 1) i0 (w\<lparr>info_b := (info_b w)(i0 := None)\<rparr>) = Ok t \<and>
      v_free t = (v_free (w\<lparr>info_b := (info_b w)(i0 := None)\<rparr>))(i0 := True, i1 := True, i2 := True) \<and>
      held t = held (w\<lparr>info_b := (info_b w)(i0 := None)\<rparr>) \<and> bufs t = bufs (w\<lparr>info_b := (info_b w)(i0 := None)\<rparr>)"
    using a(3,4) w u(2) d by (intro free_chain_three) (auto simp: free_set_def no_proc_lock_def VRING_DESC_F_NEXT_def VRING_DESC_F_WRITE_def)
  then obtain t where "free_chain (NUM + 1) i0 (w\<lparr>info_b := (info_b w)(i0 := None)\<rparr>) = Ok t"
    "v_free t = (v_free w)(i0 := True, i1 := True, i2 := True)" "held t = [L_vdisk]" "bufs t = bufs w" using w(1) by auto
  moreover have "(v_free w)(i0 := True, i1 := True, i2 := True) = v_free s"
    using a(4) w(2) u(2) by (auto simp: free_set_def fun_eq_iff)
  ultimately show ?thesis using w(4) unfolding run by (simp add: Let_def del: free_chain.simps sleep_loop.simps Suc_eq_plus1 add_Suc_right)
qed

text \<open>For the witness: all eight descriptors free, and an interrupt that completes the request.\<close>

definition disk_machine :: vdiskst where
  "disk_machine = undefined\<lparr>held := [], v_free := (\<lambda>i. i < NUM)\<rparr>"

definition disk_done :: "nat \<Rightarrow> vdiskst \<Rightarrow> vdiskst" where
  "disk_done b s = upd_buf b (\<lambda>x. x\<lparr>b_disk := False\<rparr>) s"

theorem virtio_disk_rw_returns_descriptors_witness:
  "\<exists>t. virtio_disk_rw 3 True [disk_done 3] disk_machine = Ok t \<and> v_free t = (\<lambda>i. i < NUM)"
proof -
  have "free_set disk_machine = {..<NUM}" by (auto simp: free_set_def disk_machine_def)
  then have "3 \<le> card (free_set disk_machine)" by (simp add: NUM_def)
  moreover have "completes 3 (disk_done 3)" by (simp add: completes_def disk_done_def upd_buf_def)
  ultimately show ?thesis
    using virtio_disk_rw_returns_descriptors [of disk_machine 3 "disk_done 3" True] by (auto simp: disk_machine_def)
qed

end
