(* ===== verification/Spec2Isabelle.thy ===== *)
theory Spec2Isabelle
  imports Console_Line E1000_Props File_Props Grep Mkfs_Props Pipe_Fifo Sh_Print Trap User_Tools Virtio_Props
begin

text \<open>
  \<^bold>\<open>xv6 for RISC-V with the network lab: a verification library.\<close>

  The program is a small Unix kernel (\<^verbatim>\<open>kernel/\<close>), its user library and programs (\<^verbatim>\<open>user/\<close>) and the builder of its disk image
  (\<^verbatim>\<open>mkfs/\<close>). A user program traps into the kernel (\<^verbatim>\<open>trap.c\<close>), which dispatches a system call (\<^verbatim>\<open>syscall.c\<close>) to a
  handler (\<^verbatim>\<open>sysproc.c\<close>, \<^verbatim>\<open>sysfile.c\<close>). The handlers work on processes (\<^verbatim>\<open>proc.c\<close>), address spaces (\<^verbatim>\<open>vm.c\<close>) and open
  files (\<^verbatim>\<open>file.c\<close>). A file is a pipe (\<^verbatim>\<open>pipe.c\<close>), an inode (\<^verbatim>\<open>fs.c\<close>), the console (\<^verbatim>\<open>console.c\<close>, \<^verbatim>\<open>uart.c\<close>) or a socket
  (\<^verbatim>\<open>sysnet.c\<close>). Inodes rest on the log (\<^verbatim>\<open>log.c\<close>), the log on the buffer cache (\<^verbatim>\<open>bio.c\<close>) and the disk driver
  (\<^verbatim>\<open>virtio_disk.c\<close>); sockets rest on the network stack (\<^verbatim>\<open>net.c\<close>) and the network driver (\<^verbatim>\<open>e1000.c\<close>).

  \<^bold>\<open>How the code is translated.\<close> A function that may panic or sleep gives a value of the type \<open>outcome\<close>: \<open>Ok\<close> with its
  result, \<open>Panic\<close> with the message, \<open>Blocks\<close> with the channel of a sleep that nobody ends, or \<open>Unfinished\<close> when the bound
  that the model puts on a loop is used up; \<open>rbind\<close> is the sequence of two steps. The state of the kernel is a chain of extensible
  records, one for each layer: locks, page allocator, processes, sleep locks, buffer cache, log, file system, serial port, console,
  network, pipes, files, disk driver, traps. A function of one layer therefore works on every state that extends its record.
  Machine integers are words of their width; a pointer is an address or the index of an array entry. A sleep is a point at which
  the rest of the machine runs: the functions that sleep take a list that says what it makes of the state in each sleep. What
  devices and link-time symbols give is an argument or a field of the state. Where C gives a run no meaning and the machine
  would go on, as for a log header that counts more than \<open>LOGSIZE\<close> blocks, the model stops with \<open>Panic\<close>; \<^verbatim>\<open>atoi\<close>, whose sum may overflow,
  wraps around, as on the machine. \<^verbatim>\<open>initlock\<close> is left out of the initialisation functions above \<open>Spinlock\<close>: a lock is free as long as it is
  not in the list of held locks.

  \<^bold>\<open>The theories.\<close>

  \<^item> \<open>Prelude\<close>: word types, \<open>outcome\<close>, little-endian access to bytes, the names of locks and channels. \<open>Queue\<close>: the locales
    \<open>fifo\<close> and \<open>bounded_fifo\<close> and the arithmetic of rings with wrapping counters.
  \<^item> \<open>Spinlock\<close> (\<^verbatim>\<open>spinlock.c\<close>): acquire and release as atomic steps of several harts, as a step relation with the invariants of
    mutual exclusion and of masked interrupts; and the view of one hart, which the other theories use. Both are
    instances of the locale \<open>spin_contract\<close>.
  \<^item> \<open>CString\<close> (\<^verbatim>\<open>string.c\<close>, \<^verbatim>\<open>ulib.c\<close>): the string and memory routines and their specifications.
  \<^item> \<open>Riscv\<close>, \<open>Kalloc\<close> (\<^verbatim>\<open>riscv.h\<close>, \<^verbatim>\<open>memlayout.h\<close>, \<^verbatim>\<open>kalloc.c\<close>): page arithmetic and the free list threaded through memory; the locale
    \<open>page_allocator\<close> is its contract.
  \<^item> \<open>Vm\<close>, \<open>Page_Table\<close>, \<open>User_Memory\<close>, \<open>Copy_User\<close>, \<open>Vm_Props\<close> (\<^verbatim>\<open>vm.c\<close>): the definitions; the tree of page tables as a finite
    map from pages to entries; the invariant of an address space; copying in and out seen byte by byte; the properties.
  \<^item> \<open>Proc\<close>, \<open>Proc_Props\<close>, \<open>Fork_Exit\<close> (\<^verbatim>\<open>proc.c\<close>): the process table, scheduler, sleep and wakeup, fork, exit and wait.
  \<^item> \<open>Sleeplock\<close>, \<open>Bio\<close>, \<open>Bio_Cache\<close> (\<^verbatim>\<open>sleeplock.c\<close>, \<^verbatim>\<open>bio.c\<close>): the least-recently-used ring of buffers; the locale \<open>buffer_cache\<close> says what
    a client may rely on: every read gives the current contents of the block.
  \<^item> \<open>Log\<close>, \<open>Log_Crash\<close>, \<open>Log_Props\<close> (\<^verbatim>\<open>log.c\<close>): transactions. The disk is an array of blocks with the list of the writes to it, so a
    crash is a prefix of this list; the properties say that commit is atomic and that recovery can be repeated.
  \<^item> \<open>Fs\<close>, \<open>Fs_Alloc\<close>, \<open>Fs_Dir\<close> (\<^verbatim>\<open>fs.c\<close>): superblock, block and inode allocation, file contents, directories and paths;
    the block allocator as an operation on the set of used blocks. \<open>Mkfs\<close>, \<open>Mkfs_Props\<close> (\<^verbatim>\<open>mkfs.c\<close>): the image builder and its invariant, under
    which \<^verbatim>\<open>fsinit\<close> starts on every image and finds the bitmap right.
  \<^item> \<open>Uart\<close>, \<open>Uart_Fifo\<close>, \<open>Console\<close>, \<open>Console_Line\<close> (\<^verbatim>\<open>uart.c\<close>, \<^verbatim>\<open>printf.c\<close>, \<^verbatim>\<open>console.c\<close>): output as a stream of bytes through an
    interpretation of \<open>bounded_fifo\<close>, and line editing as a refinement of operations on two lines.
  \<^item> \<open>Mbuf\<close>, \<open>Net\<close>, \<open>Net_Props\<close>, \<open>E1000\<close>, \<open>E1000_Props\<close>, \<open>Sock\<close>, \<open>Sock_Props\<close> (\<^verbatim>\<open>net.c\<close>, \<^verbatim>\<open>e1000.c\<close>, \<^verbatim>\<open>pci.c\<close>, \<^verbatim>\<open>sysnet.c\<close>): packet buffers, the
    headers, the Internet checksum, the transmit ring, and the delivery of datagrams to the queues of sockets.
  \<^item> \<open>Pipe\<close>, \<open>Pipe_Fifo\<close>, \<open>File\<close>, \<open>File_Props\<close> (\<^verbatim>\<open>pipe.c\<close>, \<^verbatim>\<open>file.c\<close>): pipes, again a \<open>bounded_fifo\<close>, and the file table.
  \<^item> \<open>Sysarg\<close>, \<open>Exec\<close>, \<open>Sysfile\<close>, \<open>Virtio\<close>, \<open>Virtio_Props\<close>, \<open>Syscall\<close>, \<open>Trap\<close> (\<^verbatim>\<open>syscall.c\<close>, \<^verbatim>\<open>exec.c\<close>, \<^verbatim>\<open>sysfile.c\<close>, \<^verbatim>\<open>virtio_disk.c\<close>, \<^verbatim>\<open>sysproc.c\<close>,
    \<^verbatim>\<open>trap.c\<close>, \<^verbatim>\<open>plic.c\<close>): argument fetching, the handlers, the disk driver, the dispatch and the trap path.
  \<^item> \<open>Grep\<close>, \<open>Sh\<close>, \<open>Sh_Print\<close>, \<open>User_Print\<close>, \<open>User_Tools\<close> (\<^verbatim>\<open>user/grep.c\<close>, \<^verbatim>\<open>user/sh.c\<close>, \<^verbatim>\<open>user/printf.c\<close>, \<^verbatim>\<open>user/wc.c\<close> and others): the matcher against
    a language of patterns, the parser of the shell against a printer of commands, formatted output, and small filters.

  \<^bold>\<open>What is proved\<close>, by groups: mutual exclusion and interrupt masking (\<open>Spinlock\<close>); memory is neither lost nor handed out twice
  (\<open>Kalloc\<close>, \<open>Vm_Props\<close>); user memory is read and written exactly where it is mapped (\<open>Vm_Props\<close>); a runnable process
  is dispatched (\<open>Proc_Props\<close>); transactions are atomic under crashes and keep the invariant of log and cache (\<open>Log_Props\<close>); blocks
  are allocated and freed as the bitmap says, and the image that \<^verbatim>\<open>mkfs\<close> builds is one on which this works (\<open>Fs_Alloc\<close>, \<open>Mkfs_Props\<close>); bytes go through pipes, serial port
  and console in order (\<open>Pipe_Fifo\<close>, \<open>Uart_Fifo\<close>, \<open>Console_Line\<close>); a datagram that is sent is one that is received, by the right
  socket (\<open>Net_Props\<close>, \<open>Sock_Props\<close>, \<open>File_Props\<close>); a disk request gives its descriptors back (\<open>Virtio_Props\<close>); the shell parses
  what it prints, and \<^verbatim>\<open>grep\<close> and \<^verbatim>\<open>printf\<close> compute what they should. Three properties state what the code does
  where it should do something else: a duplicate \<^verbatim>\<open>connect\<close> and a write of a bad length to a socket panic
  (\<open>File_Props\<close>, \<open>Sock_Props\<close>), and \<^verbatim>\<open>e1000_transmit\<close> leaves the mark of the slot it fills set (\<open>E1000_Props\<close>).

  \<^bold>\<open>Bounds.\<close> Most loops are structural or have a termination proof. Where only the shape of a linked structure ends a loop, the first
  argument bounds it. The ring of the buffer cache is walked for at most \<open>NBUF\<close> steps, which is its length under the
  invariant \<open>lru\<close>. \<^verbatim>\<open>freewalk\<close> descends three levels, the depth of a page table. The lists of sockets and of waiting packets are
  walked for \<open>NSOCK\<close> = 32768 steps: each element is a page of its own, and \<^verbatim>\<open>kalloc\<close> manages fewer. \<^verbatim>\<open>free_chain\<close> makes at most \<open>NUM + 1\<close> steps, one
  more than there are descriptors. \<^verbatim>\<open>e1000_recv\<close> makes at most one turn around the ring, since it clears the mark
  of every slot it takes and the card sets none during the run. \<^verbatim>\<open>virtio_disk_intr\<close> makes at most 2^16 steps, the range of its index. The parser of the shell gets four steps for
  each byte of the line and four more, and it is proved that this is enough. \<^verbatim>\<open>atoi\<close> and the string routines that run until a NUL are
  partial functions with the value \<open>None\<close> for a string without end.

  \<^bold>\<open>Not modelled.\<close> Assembly (\<^verbatim>\<open>entry.S\<close>, \<^verbatim>\<open>swtch.S\<close>, \<^verbatim>\<open>trampoline.S\<close>, \<^verbatim>\<open>kernelvec.S\<close>, \<^verbatim>\<open>initcode.S\<close>) and the machine-mode
  start (\<^verbatim>\<open>start.c\<close>, \<^verbatim>\<open>main.c\<close>, and \<^verbatim>\<open>kvminit\<close> and \<^verbatim>\<open>kvminithart\<close> of \<^verbatim>\<open>vm.c\<close>), which set registers and call the initialisation functions; the context switch appears as the point where
  control leaves a function. \<^verbatim>\<open>ramdisk.c\<close> is not linked. The memory model of several harts is considered for spin locks only;
  above them a kernel function runs as one step between its sleeps. At the level of the file system a sleep for a buffer or inode
  lock ends the run with \<open>Blocks\<close>. Of the user programs, the allocator \<^verbatim>\<open>umalloc.c\<close>, the execution of commands by the shell, the \<^verbatim>\<open>main\<close>
  functions and programs that consist of a few system calls are left out, and so are the test programs, which exercise the
  kernel, and the scripts that run on the host.
\<close>

end
